(* ===== verification/Prelude.thy ===== *)
theory Prelude
  imports Main "HOL-Library.Word"
begin

unbundle bit_operations_syntax

text \<open>
  Shared vocabulary of the development: the machine integer types of the C sources, byte buffers
  with checked writes and reads, the error values for what C leaves undefined, little endian
  encodings, and the list lemmas that every component uses.  Both processors of the system
  (the RISC-V Rocket core and the MicroBlaze) are little endian.
\<close>

named_theorems mem_simps \<open>evaluation of checked buffer accesses that are in range\<close>
named_theorems outcome_simps \<open>sequencing of computations that may fail\<close>

type_synonym u8 = "8 word"
type_synonym u16 = "16 word"
type_synonym u32 = "32 word"
type_synonym u64 = "64 word"
type_synonym bytes = "u8 list"

section \<open>Computations that may fail\<close>

text \<open>
  \<open>Out_Of_Bounds\<close> is an access outside the object a pointer points to (undefined behaviour in C),
  \<open>Assert_Failed\<close> is a failing \<open>LIBSPDM_ASSERT\<close> in a build that keeps the assertions,
  \<open>Uninitialised\<close> is the use of a variable that was never assigned (undefined as well).
\<close>

datatype fault = Out_Of_Bounds | Assert_Failed | Uninitialised

definition and_then :: "'e + 'a \<Rightarrow> ('a \<Rightarrow> 'e + 'b) \<Rightarrow> 'e + 'b" where
  "and_then r f = (case r of Inl e \<Rightarrow> Inl e | Inr x \<Rightarrow> f x)"

lemma and_then_Inr [simp, outcome_simps]: "and_then (Inr x) f = f x"
  by (simp add: and_then_def)

lemma and_then_Inl [simp, outcome_simps]: "and_then (Inl e) f = Inl e"
  by (simp add: and_then_def)

lemma and_then_eq_Inr [outcome_simps]:
  "and_then r f = Inr y \<longleftrightarrow> (\<exists>x. r = Inr x \<and> f x = Inr y)"
  by (cases r) simp_all

lemma and_then_cong [fundef_cong]:
  "r = r' \<Longrightarrow> (\<And>x. r' = Inr x \<Longrightarrow> f x = g x) \<Longrightarrow> and_then r f = and_then r' g"
  by (cases r') simp_all

definition assert_that :: "bool \<Rightarrow> bool \<Rightarrow> fault + unit" where
  "assert_that enabled P = (if enabled \<and> \<not> P then Inl Assert_Failed else Inr ())"

lemma assert_that_True [simp]: "assert_that en True = Inr ()"
  by (simp add: assert_that_def)

lemma assert_that_disabled [simp]: "assert_that False P = Inr ()"
  by (simp add: assert_that_def)

section \<open>Byte buffers\<close>

text \<open>
  A buffer is the list of its bytes and a pointer into it an offset. \<open>poke\<close> overwrites the bytes
  from an offset on and \<open>peek\<close> reads some; both fail when the range leaves the buffer.
\<close>

definition poke :: "bytes \<Rightarrow> nat \<Rightarrow> bytes \<Rightarrow> fault + bytes" where
  "poke m off bs =
     (if off + length bs \<le> length m
      then Inr (take off m @ bs @ drop (off + length bs) m)
      else Inl Out_Of_Bounds)"

definition peek :: "bytes \<Rightarrow> nat \<Rightarrow> nat \<Rightarrow> fault + bytes" where
  "peek m off n =
     (if off + n \<le> length m then Inr (take n (drop off m)) else Inl Out_Of_Bounds)"

lemma poke_in_range [mem_simps]:
  "off + length bs \<le> length m \<Longrightarrow>
   poke m off bs = Inr (take off m @ bs @ drop (off + length bs) m)"
  by (simp add: poke_def)

lemma poke_length: "poke m off bs = Inr m' \<Longrightarrow> length m' = length m"
  by (auto simp: poke_def split: if_splits)

lemma poke_at_end [mem_simps]:
  assumes "length pre = off" and "length bs = length old"
  shows "poke (pre @ old @ post) off bs = Inr (pre @ bs @ post)"
  using assms by (simp add: poke_def)

lemma peek_in_range [mem_simps]:
  "off + n \<le> length m \<Longrightarrow> peek m off n = Inr (take n (drop off m))"
  by (simp add: peek_def)

lemma split_at_block:
  assumes "off + n \<le> length m"
  obtains pre blk post where "m = pre @ blk @ post" "length pre = off" "length blk = n"
proof
  show "m = take off m @ take n (drop off m) @ drop (off + n) m"
    by (metis append_take_drop_id drop_drop add.commute)
  show "length (take off m) = off" "length (take n (drop off m)) = n"
    using assms by simp_all
qed

text \<open>Overwriting a block leaves what follows it alone.\<close>

lemma drop_after_block:
  assumes "length blk = n" and "off + n \<le> length m" and "n \<le> k"
  shows "drop (off + k) (take off m @ blk @ drop (off + n) m) = drop (off + k) m"
proof -
  have "off + n + (k - n) = off + k"
    using assms(3) by simp
  with assms(1,2) show ?thesis
    by (simp add: add.commute)
qed

lemma take_before_block:
  "off \<le> length m \<Longrightarrow> k \<le> off \<Longrightarrow> take k (take off m @ rest) = take k m"
  by (simp add: min_def)

section \<open>Little endian encodings\<close>

definition le16 :: "u16 \<Rightarrow> bytes" where
  "le16 w = [ucast w, ucast (drop_bit 8 w)]"

definition le32 :: "u32 \<Rightarrow> bytes" where
  "le32 w = [ucast w, ucast (drop_bit 8 w), ucast (drop_bit 16 w), ucast (drop_bit 24 w)]"

definition of_le16 :: "u8 \<Rightarrow> u8 \<Rightarrow> u16" where
  "of_le16 lo hi = ucast lo OR push_bit 8 (ucast hi)"

lemma length_le16 [simp]: "length (le16 w) = 2"
  by (simp add: le16_def)

lemma length_le32 [simp]: "length (le32 w) = 4"
  by (simp add: le32_def)

lemma of_le16_le16: "of_le16 (le16 w ! 0) (le16 w ! Suc 0) = w"
  by (rule bit_word_eqI)
    (auto simp: of_le16_def le16_def bit_simps)

end
