(* ===== verification/Spdm_Std.thy ===== *)
theory Spdm_Std
  imports Prelude
begin

text \<open>
  The numbers the C sources take by macro name from the SPDM standard (DMTF DSP0274, the document
  the repository's README cites) through the headers of libspdm, which is not part of the
  repository.  Only the macros that the modelled code uses are listed, with the values the standard
  and its header assign.  Everything of libspdm that is code, and every limit a libspdm build
  chooses, is a parameter of the model: the record \<open>crypt_lib\<close> below collects the digest functions
  the measurement and certificate code calls.
\<close>

section \<open>Measurement blocks\<close>

definition SPDM_MEASUREMENT_BLOCK_HEADER_SPECIFICATION_DMTF :: u8 where
  [simp]: "SPDM_MEASUREMENT_BLOCK_HEADER_SPECIFICATION_DMTF = 0x01"

definition SPDM_MEASUREMENT_BLOCK_MEASUREMENT_TYPE_MASK :: u8 where
  [simp]: "SPDM_MEASUREMENT_BLOCK_MEASUREMENT_TYPE_MASK = 0x7F"

definition SPDM_MEASUREMENT_BLOCK_MEASUREMENT_TYPE_RAW_BIT_STREAM :: u8 where
  [simp]: "SPDM_MEASUREMENT_BLOCK_MEASUREMENT_TYPE_RAW_BIT_STREAM = 0x80"

definition SPDM_MEASUREMENT_BLOCK_MEASUREMENT_TYPE_IMMUTABLE_ROM :: u8 where
  [simp]: "SPDM_MEASUREMENT_BLOCK_MEASUREMENT_TYPE_IMMUTABLE_ROM = 0x0"

definition SPDM_MEASUREMENT_BLOCK_MEASUREMENT_TYPE_MEASUREMENT_MANIFEST :: u8 where
  [simp]: "SPDM_MEASUREMENT_BLOCK_MEASUREMENT_TYPE_MEASUREMENT_MANIFEST = 0x4"

definition SPDM_MEASUREMENT_BLOCK_MEASUREMENT_TYPE_DEVICE_MODE :: u8 where
  [simp]: "SPDM_MEASUREMENT_BLOCK_MEASUREMENT_TYPE_DEVICE_MODE = 0x5"

definition SPDM_MEASUREMENT_BLOCK_MEASUREMENT_TYPE_SECURE_VERSION_NUMBER :: u8 where
  [simp]: "SPDM_MEASUREMENT_BLOCK_MEASUREMENT_TYPE_SECURE_VERSION_NUMBER = 0x7"

definition SPDM_MEASUREMENT_BLOCK_MEASUREMENT_INDEX_MEASUREMENT_MANIFEST :: u8 where
  [simp]: "SPDM_MEASUREMENT_BLOCK_MEASUREMENT_INDEX_MEASUREMENT_MANIFEST = 0xFD"

definition SPDM_MEASUREMENT_BLOCK_MEASUREMENT_INDEX_DEVICE_MODE :: u8 where
  [simp]: "SPDM_MEASUREMENT_BLOCK_MEASUREMENT_INDEX_DEVICE_MODE = 0xFE"

section \<open>Requests, responses, algorithms\<close>

definition MEASUREMENT_OPERATION_TOTAL_NUMBER_OF_MEASUREMENTS :: u8 where
  [simp]: "MEASUREMENT_OPERATION_TOTAL_NUMBER_OF_MEASUREMENTS = 0"

definition MEASUREMENT_OPERATION_ALL_MEASUREMENTS :: u8 where
  [simp]: "MEASUREMENT_OPERATION_ALL_MEASUREMENTS = 0xFF"

definition REQUEST_ATTRIBUTES_GENERATE_SIGNATURE :: u8 where
  [simp]: "REQUEST_ATTRIBUTES_GENERATE_SIGNATURE = 0x01"

definition REQUEST_ATTRIBUTES_RAW_BIT_STREAM_REQUESTED :: u8 where
  [simp]: "REQUEST_ATTRIBUTES_RAW_BIT_STREAM_REQUESTED = 0x02"

definition MEASUREMENT_HASH_ALGO_RAW_BIT_STREAM_ONLY :: u32 where
  [simp]: "MEASUREMENT_HASH_ALGO_RAW_BIT_STREAM_ONLY = 0x01"

definition CONTENT_CHANGE_NO_DETECTION :: u8 where
  [simp]: "CONTENT_CHANGE_NO_DETECTION = 0x00"

definition CONTENT_NO_CHANGE_DETECTED :: u8 where
  [simp]: "CONTENT_NO_CHANGE_DETECTED = 0x20"

definition SPDM_MESSAGE_VERSION_12 :: u16 where
  [simp]: "SPDM_MESSAGE_VERSION_12 = 0x12"

definition SPDM_VERSION_NUMBER_SHIFT_BIT :: nat where
  [simp]: "SPDM_VERSION_NUMBER_SHIFT_BIT = 8"

definition NO_MEASUREMENT_SUMMARY_HASH :: u8 where
  [simp]: "NO_MEASUREMENT_SUMMARY_HASH = 0"

definition TCB_COMPONENT_MEASUREMENT_HASH :: u8 where
  [simp]: "TCB_COMPONENT_MEASUREMENT_HASH = 1"

definition ALL_MEASUREMENTS_HASH :: u8 where
  [simp]: "ALL_MEASUREMENTS_HASH = 0xFF"

section \<open>Return status\<close>

datatype libspdm_return_t =
    LIBSPDM_STATUS_SUCCESS
  | LIBSPDM_STATUS_UNSUPPORTED_CAP
  | LIBSPDM_STATUS_BUFFER_TOO_SMALL
  | LIBSPDM_STATUS_MEAS_INVALID_INDEX
  | LIBSPDM_STATUS_MEAS_INTERNAL_ERROR
  | LIBSPDM_STATUS_OTHER_ERROR

definition LIBSPDM_STATUS_IS_ERROR :: "libspdm_return_t \<Rightarrow> bool" where
  "LIBSPDM_STATUS_IS_ERROR s \<longleftrightarrow> s \<noteq> LIBSPDM_STATUS_SUCCESS"

section \<open>The digest functions of libspdm\<close>

text \<open>
  \<open>measurement_hash_all\<close> and \<open>hash_all\<close> return the digest, or \<open>None\<close> where the C function returns
  false.  The contract is what the callers rely on: a digest has the size the library announces, no
  digest is longer than \<open>LIBSPDM_MAX_HASH_SIZE\<close> (64 bytes) and none is empty.  For the
  pseudo-algorithm "raw bit stream only" the library announces a size that is never used.
\<close>

record crypt_lib =
  get_measurement_hash_size :: "u32 \<Rightarrow> nat"
  measurement_hash_all :: "u32 \<Rightarrow> bytes \<Rightarrow> bytes option"
  get_hash_size :: "u32 \<Rightarrow> nat"
  hash_all :: "u32 \<Rightarrow> bytes \<Rightarrow> bytes option"

definition digest_contract :: "crypt_lib \<Rightarrow> bool" where
  "digest_contract L \<longleftrightarrow>
     (\<forall>a d h. measurement_hash_all L a d = Some h \<longrightarrow> length h = get_measurement_hash_size L a) \<and>
     (\<forall>a. a \<noteq> MEASUREMENT_HASH_ALGO_RAW_BIT_STREAM_ONLY \<longrightarrow> get_measurement_hash_size L a \<le> 64) \<and>
     (\<forall>a d h. hash_all L a d = Some h \<longrightarrow> length h = get_hash_size L a)"

text \<open>
  An instance of the contract on which the definitions compute: 32-byte "digests" that are the
  first bytes of the data, padded with zeros.
\<close>

definition demo_lib :: crypt_lib where
  "demo_lib =
     \<lparr>get_measurement_hash_size = (\<lambda>_. 32),
      measurement_hash_all = (\<lambda>_ d. Some (take 32 (d @ replicate 32 0))),
      get_hash_size = (\<lambda>_. 32),
      hash_all = (\<lambda>_ d. Some (take 32 (d @ replicate 32 0)))\<rparr>"

lemma demo_lib_simps [simp]:
  "get_measurement_hash_size demo_lib a = 32" "get_hash_size demo_lib a = 32"
  "measurement_hash_all demo_lib a d = Some (take 32 (d @ replicate 32 0))"
  "hash_all demo_lib a d = Some (take 32 (d @ replicate 32 0))"
  by (simp_all add: demo_lib_def)

lemma demo_lib_contract: "digest_contract demo_lib"
  by (auto simp: digest_contract_def min_def)

end
