(* ===== verification/Measurement.thy ===== *)
theory Measurement
  imports Spdm_Std
begin

text \<open>
  The responder's measurement code, \<open>src/src/Microblaze/measurementFunctions\<close>: the four functions
  that write a DMTF measurement block at a pointer, \<open>libspdm_measurement_collection\<close> and
  \<open>libspdm_generate_measurement_summary_hash\<close>.  The caller's buffer is a byte list, a pointer to a
  block an offset into it, and every store of the C code is a checked \<open>poke\<close>, so that a store past
  the end of the buffer is the value \<open>Inl Out_Of_Bounds\<close>.
\<close>

section \<open>Sizes and block layout\<close>

definition LIBSPDM_MEASUREMENT_BLOCK_HASH_NUMBER :: nat where
  [simp]: "LIBSPDM_MEASUREMENT_BLOCK_HASH_NUMBER = 4"

definition LIBSPDM_MEASUREMENT_BLOCK_NUMBER :: nat where
  "LIBSPDM_MEASUREMENT_BLOCK_NUMBER = LIBSPDM_MEASUREMENT_BLOCK_HASH_NUMBER + 1 + 1 + 1"

definition LIBSPDM_MEASUREMENT_RAW_DATA_SIZE :: nat where
  [simp]: "LIBSPDM_MEASUREMENT_RAW_DATA_SIZE = 72"

definition LIBSPDM_MEASUREMENT_MANIFEST_SIZE :: nat where
  [simp]: "LIBSPDM_MEASUREMENT_MANIFEST_SIZE = 128"

definition LIBSPDM_MEASUREMENT_INDEX_SVN :: u8 where
  [simp]: "LIBSPDM_MEASUREMENT_INDEX_SVN = 0x10"

text \<open>
  The packed block header of the standard: index (1 byte), measurement specification (1),
  measurement size (2), then the DMTF header: value type (1), value size (2).
\<close>

definition sizeof_common_header :: nat where [simp]: "sizeof_common_header = 4"
definition sizeof_dmtf_header :: nat where [simp]: "sizeof_dmtf_header = 3"
definition sizeof_block :: nat where [simp]: "sizeof_block = sizeof_common_header + sizeof_dmtf_header"
definition sizeof_svn :: nat where [simp]: "sizeof_svn = 8"
definition sizeof_device_mode :: nat where [simp]: "sizeof_device_mode = 16"

definition set_index :: "u8 \<Rightarrow> nat \<Rightarrow> bytes \<Rightarrow> fault + bytes" where
  "set_index v off m = poke m off [v]"

definition set_measurement_specification :: "u8 \<Rightarrow> nat \<Rightarrow> bytes \<Rightarrow> fault + bytes" where
  "set_measurement_specification v off m = poke m (off + 1) [v]"

definition set_measurement_size :: "u16 \<Rightarrow> nat \<Rightarrow> bytes \<Rightarrow> fault + bytes" where
  "set_measurement_size v off m = poke m (off + 2) (le16 v)"

definition set_value_type :: "u8 \<Rightarrow> nat \<Rightarrow> bytes \<Rightarrow> fault + bytes" where
  "set_value_type v off m = poke m (off + 4) [v]"

definition set_value_size :: "u16 \<Rightarrow> nat \<Rightarrow> bytes \<Rightarrow> fault + bytes" where
  "set_value_size v off m = poke m (off + 5) (le16 v)"

definition set_value :: "bytes \<Rightarrow> nat \<Rightarrow> bytes \<Rightarrow> fault + bytes" where
  "set_value v off m = poke m (off + sizeof_block) v"

lemmas block_stores = set_index_def set_measurement_specification_def set_measurement_size_def
  set_value_type_def set_value_size_def set_value_def

section \<open>The block writers\<close>

text \<open>Each writer returns the size of the block (0 for a failed hash) and the buffer.\<close>

definition libspdm_fill_measurement_image_hash_block ::
  "crypt_lib \<Rightarrow> bool \<Rightarrow> u32 \<Rightarrow> u8 \<Rightarrow> nat \<Rightarrow> bytes \<Rightarrow> fault + (nat \<times> bytes)" where
  "libspdm_fill_measurement_image_hash_block L use_bit_stream algo idx off m =
     (let hash_size = get_measurement_hash_size L algo;
          data = replicate LIBSPDM_MEASUREMENT_RAW_DATA_SIZE idx in
      and_then (set_index idx off m) (\<lambda>m.
      and_then (set_measurement_specification
                  SPDM_MEASUREMENT_BLOCK_HEADER_SPECIFICATION_DMTF off m) (\<lambda>m.
      if \<not> use_bit_stream then
        and_then (set_value_type (idx - 1) off m) (\<lambda>m.
        and_then (set_value_size (of_nat hash_size) off m) (\<lambda>m.
        and_then (set_measurement_size
                    (of_nat sizeof_dmtf_header + of_nat hash_size) off m) (\<lambda>m.
        case measurement_hash_all L algo data of
          None \<Rightarrow> Inr (0, m)
        | Some digest \<Rightarrow>
            and_then (set_value digest off m) (\<lambda>m. Inr (sizeof_block + hash_size, m)))))
      else
        and_then (set_value_type
          ((idx - 1) OR SPDM_MEASUREMENT_BLOCK_MEASUREMENT_TYPE_RAW_BIT_STREAM) off m) (\<lambda>m.
        and_then (set_value_size (of_nat (length data)) off m) (\<lambda>m.
        and_then (set_measurement_size
                    (of_nat sizeof_dmtf_header + of_nat (length data)) off m) (\<lambda>m.
        and_then (set_value data off m) (\<lambda>m. Inr (sizeof_block + length data, m))))))))"

definition libspdm_fill_measurement_svn_block :: "nat \<Rightarrow> bytes \<Rightarrow> fault + (nat \<times> bytes)" where
  "libspdm_fill_measurement_svn_block off m =
     and_then (set_index LIBSPDM_MEASUREMENT_INDEX_SVN off m) (\<lambda>m.
     and_then (set_measurement_specification
                 SPDM_MEASUREMENT_BLOCK_HEADER_SPECIFICATION_DMTF off m) (\<lambda>m.
     let svn = 0x7 # replicate 7 0 in
     and_then (set_value_type
                 (SPDM_MEASUREMENT_BLOCK_MEASUREMENT_TYPE_SECURE_VERSION_NUMBER OR
                  SPDM_MEASUREMENT_BLOCK_MEASUREMENT_TYPE_RAW_BIT_STREAM) off m) (\<lambda>m.
     and_then (set_value_size (of_nat sizeof_svn) off m) (\<lambda>m.
     and_then (set_measurement_size (of_nat sizeof_dmtf_header + of_nat sizeof_svn) off m) (\<lambda>m.
     and_then (set_value svn off m) (\<lambda>m. Inr (sizeof_block + sizeof_svn, m)))))))"

definition libspdm_fill_measurement_manifest_block :: "nat \<Rightarrow> bytes \<Rightarrow> fault + (nat \<times> bytes)" where
  "libspdm_fill_measurement_manifest_block off m =
     and_then (set_index SPDM_MEASUREMENT_BLOCK_MEASUREMENT_INDEX_MEASUREMENT_MANIFEST off m) (\<lambda>m.
     and_then (set_measurement_specification
                 SPDM_MEASUREMENT_BLOCK_HEADER_SPECIFICATION_DMTF off m) (\<lambda>m.
     let data = replicate LIBSPDM_MEASUREMENT_MANIFEST_SIZE
                  SPDM_MEASUREMENT_BLOCK_MEASUREMENT_INDEX_MEASUREMENT_MANIFEST in
     and_then (set_value_type
                 (SPDM_MEASUREMENT_BLOCK_MEASUREMENT_TYPE_MEASUREMENT_MANIFEST OR
                  SPDM_MEASUREMENT_BLOCK_MEASUREMENT_TYPE_RAW_BIT_STREAM) off m) (\<lambda>m.
     and_then (set_value_size (of_nat (length data)) off m) (\<lambda>m.
     and_then (set_measurement_size
                 (of_nat sizeof_dmtf_header + of_nat (length data)) off m) (\<lambda>m.
     and_then (set_value data off m) (\<lambda>m. Inr (sizeof_block + length data, m)))))))"

text \<open>
  The four 32-bit words of \<open>spdm_measurements_device_mode_t\<close>, in the order of the struct:
  operational mode capabilities (manufacturing, validation, normal, recovery, RMA, decommissioned),
  operational mode state (normal), device mode capabilities (the five debug bits), device mode
  state (non-invasive debug active, invasive debug active after manufacturing).
\<close>

definition device_mode_bytes :: bytes where
  "device_mode_bytes =
     le32 (0x01 OR 0x02 OR 0x04 OR 0x08 OR 0x10 OR 0x20) @
     le32 0x04 @
     le32 (0x01 OR 0x02 OR 0x04 OR 0x08 OR 0x10) @
     le32 (0x01 OR 0x10)"

definition libspdm_fill_measurement_device_mode_block ::
  "nat \<Rightarrow> bytes \<Rightarrow> fault + (nat \<times> bytes)" where
  "libspdm_fill_measurement_device_mode_block off m =
     and_then (set_index SPDM_MEASUREMENT_BLOCK_MEASUREMENT_INDEX_DEVICE_MODE off m) (\<lambda>m.
     and_then (set_measurement_specification
                 SPDM_MEASUREMENT_BLOCK_HEADER_SPECIFICATION_DMTF off m) (\<lambda>m.
     and_then (set_value_type
                 (SPDM_MEASUREMENT_BLOCK_MEASUREMENT_TYPE_DEVICE_MODE OR
                  SPDM_MEASUREMENT_BLOCK_MEASUREMENT_TYPE_RAW_BIT_STREAM) off m) (\<lambda>m.
     and_then (set_value_size (of_nat sizeof_device_mode) off m) (\<lambda>m.
     and_then (set_measurement_size
                 (of_nat sizeof_dmtf_header + of_nat sizeof_device_mode) off m) (\<lambda>m.
     and_then (set_value device_mode_bytes off m) (\<lambda>m.
       Inr (sizeof_block + sizeof_device_mode, m)))))))"

section \<open>Collecting measurements\<close>

text \<open>
  The out parameters of \<open>libspdm_measurement_collection\<close>; \<open>content_changed\<close> is \<open>None\<close> for a NULL
  pointer.  \<open>asserts\<close> says whether the build keeps \<open>LIBSPDM_ASSERT\<close>.
\<close>

record meas_out =
  content_changed :: "u8 option"
  measurements_count :: u8
  measurements :: bytes
  measurements_size :: nat

definition use_bit_stream_for :: "u32 \<Rightarrow> u8 \<Rightarrow> bool" where
  "use_bit_stream_for algo attr \<longleftrightarrow>
     algo = MEASUREMENT_HASH_ALGO_RAW_BIT_STREAM_ONLY \<or>
     attr AND REQUEST_ATTRIBUTES_RAW_BIT_STREAM_REQUESTED \<noteq> 0"

definition total_size_all :: "bool \<Rightarrow> nat \<Rightarrow> nat" where
  "total_size_all use_bit_stream hash_size =
     (if \<not> use_bit_stream
      then LIBSPDM_MEASUREMENT_BLOCK_HASH_NUMBER * (sizeof_block + hash_size)
      else LIBSPDM_MEASUREMENT_BLOCK_HASH_NUMBER *
             (sizeof_block + LIBSPDM_MEASUREMENT_RAW_DATA_SIZE)) +
     (sizeof_block + sizeof_svn) +
     (sizeof_block + LIBSPDM_MEASUREMENT_MANIFEST_SIZE) +
     (sizeof_block + sizeof_device_mode)"

text \<open>The loop over the first four blocks; \<open>None\<close> as offset when a hash failed.\<close>

function fill_image_hash_blocks ::
  "crypt_lib \<Rightarrow> bool \<Rightarrow> u32 \<Rightarrow> nat \<Rightarrow> nat \<Rightarrow> bytes \<Rightarrow> fault + (nat option \<times> bytes)" where
  "fill_image_hash_blocks L ubs algo index off m =
     (if index \<le> LIBSPDM_MEASUREMENT_BLOCK_HASH_NUMBER then
        and_then (libspdm_fill_measurement_image_hash_block L ubs algo (of_nat index) off m)
          (\<lambda>(sz, m). if sz = 0 then Inr (None, m)
                    else fill_image_hash_blocks L ubs algo (Suc index) (off + sz) m)
      else Inr (Some off, m))"
  by pat_completeness auto
termination
  by (relation "measure (\<lambda>(L, ubs, algo, index, off, m). 5 - index)") auto

declare fill_image_hash_blocks.simps [simp del]

definition successful_return ::
  "u16 \<Rightarrow> u8 \<Rightarrow> meas_out \<Rightarrow> fault + (libspdm_return_t \<times> meas_out)" where
  "successful_return ver attr out =
     (case content_changed out of
        Some _ \<Rightarrow>
          if SPDM_MESSAGE_VERSION_12 \<le> drop_bit SPDM_VERSION_NUMBER_SHIFT_BIT ver then
            if attr AND REQUEST_ATTRIBUTES_GENERATE_SIGNATURE \<noteq> 0
            then Inr (LIBSPDM_STATUS_SUCCESS,
                      out\<lparr>content_changed := Some CONTENT_NO_CHANGE_DETECTED\<rparr>)
            else Inr (LIBSPDM_STATUS_SUCCESS,
                      out\<lparr>content_changed := Some CONTENT_CHANGE_NO_DETECTION\<rparr>)
          else Inr (LIBSPDM_STATUS_SUCCESS, out)
      | None \<Rightarrow> Inr (LIBSPDM_STATUS_SUCCESS, out))"

text \<open>The branch for "all measurements".\<close>

definition collect_all ::
  "bool \<Rightarrow> crypt_lib \<Rightarrow> bool \<Rightarrow> u16 \<Rightarrow> u32 \<Rightarrow> u8 \<Rightarrow> meas_out \<Rightarrow>
   fault + (libspdm_return_t \<times> meas_out)" where
  "collect_all asserts L ubs ver algo attr out =
     (let total_size_needed = total_size_all ubs (get_measurement_hash_size L algo) in
      and_then (assert_that asserts (total_size_needed \<le> measurements_size out)) (\<lambda>_.
      if measurements_size out < total_size_needed
      then Inr (LIBSPDM_STATUS_BUFFER_TOO_SMALL, out)
      else
        let out = out\<lparr>measurements_size := total_size_needed,
                      measurements_count := of_nat LIBSPDM_MEASUREMENT_BLOCK_NUMBER\<rparr> in
        and_then (fill_image_hash_blocks L ubs algo 1 0 (measurements out)) (\<lambda>(r, m).
        case r of
          None \<Rightarrow> Inr (LIBSPDM_STATUS_MEAS_INTERNAL_ERROR, out\<lparr>measurements := m\<rparr>)
        | Some off \<Rightarrow>
            and_then (libspdm_fill_measurement_svn_block off m) (\<lambda>(sz, m).
            let off = off + sz in
            and_then (libspdm_fill_measurement_manifest_block off m) (\<lambda>(sz, m).
            let off = off + sz in
            and_then (libspdm_fill_measurement_device_mode_block off m) (\<lambda>(sz, m).
            successful_return ver attr (out\<lparr>measurements := m\<rparr>)))))))"

text \<open>The four single-block branches differ in the size they need and the writer they call.\<close>

definition collect_one ::
  "bool \<Rightarrow> nat \<Rightarrow> (nat \<Rightarrow> bytes \<Rightarrow> fault + (nat \<times> bytes)) \<Rightarrow> u16 \<Rightarrow> u8 \<Rightarrow> meas_out \<Rightarrow>
   fault + (libspdm_return_t \<times> meas_out)" where
  "collect_one asserts total_size_needed fill ver attr out =
     and_then (assert_that asserts (total_size_needed \<le> measurements_size out)) (\<lambda>_.
     if measurements_size out < total_size_needed
     then Inr (LIBSPDM_STATUS_BUFFER_TOO_SMALL, out)
     else
       let out = out\<lparr>measurements_count := 1, measurements_size := total_size_needed\<rparr> in
       and_then (fill 0 (measurements out)) (\<lambda>(sz, m).
       if sz = 0 then Inr (LIBSPDM_STATUS_MEAS_INTERNAL_ERROR, out\<lparr>measurements := m\<rparr>)
       else successful_return ver attr (out\<lparr>measurements := m\<rparr>)))"

definition libspdm_measurement_collection ::
  "bool \<Rightarrow> crypt_lib \<Rightarrow> u16 \<Rightarrow> u8 \<Rightarrow> u32 \<Rightarrow> u8 \<Rightarrow> u8 \<Rightarrow> meas_out \<Rightarrow>
   fault + (libspdm_return_t \<times> meas_out)" where
  "libspdm_measurement_collection asserts L ver spec algo idx attr out =
     (if spec \<noteq> SPDM_MEASUREMENT_BLOCK_HEADER_SPECIFICATION_DMTF \<or> algo = 0
      then Inr (LIBSPDM_STATUS_UNSUPPORTED_CAP, out)
      else
        let hash_size = get_measurement_hash_size L algo in
        and_then (assert_that asserts (hash_size \<noteq> 0)) (\<lambda>_.
        let ubs = use_bit_stream_for algo attr in
        if idx = MEASUREMENT_OPERATION_TOTAL_NUMBER_OF_MEASUREMENTS then
          successful_return ver attr
            (out\<lparr>measurements_count := of_nat LIBSPDM_MEASUREMENT_BLOCK_NUMBER\<rparr>)
        else if idx = MEASUREMENT_OPERATION_ALL_MEASUREMENTS then
          collect_all asserts L ubs ver algo attr out
        else if unat idx \<le> LIBSPDM_MEASUREMENT_BLOCK_HASH_NUMBER then
          collect_one asserts
            (if \<not> ubs then sizeof_block + hash_size
             else sizeof_block + LIBSPDM_MEASUREMENT_RAW_DATA_SIZE)
            (libspdm_fill_measurement_image_hash_block L ubs algo idx) ver attr out
        else if idx = LIBSPDM_MEASUREMENT_INDEX_SVN then
          collect_one asserts (sizeof_block + sizeof_svn)
            libspdm_fill_measurement_svn_block ver attr out
        else if idx = SPDM_MEASUREMENT_BLOCK_MEASUREMENT_INDEX_MEASUREMENT_MANIFEST then
          collect_one asserts (sizeof_block + LIBSPDM_MEASUREMENT_MANIFEST_SIZE)
            libspdm_fill_measurement_manifest_block ver attr out
        else if idx = SPDM_MEASUREMENT_BLOCK_MEASUREMENT_INDEX_DEVICE_MODE then
          collect_one asserts (sizeof_block + sizeof_device_mode)
            libspdm_fill_measurement_device_mode_block ver attr out
        else Inr (LIBSPDM_STATUS_MEAS_INVALID_INDEX, out\<lparr>measurements_count := 0\<rparr>)))"

section \<open>What a block is\<close>

text \<open>
  The abstract value of a measurement block and its wire encoding as the standard defines it.
  The block writers promise to put exactly this encoding at the pointer.
\<close>

record dmtf_block =
  blk_index :: u8
  blk_type :: u8
  blk_value :: bytes

definition encode_block :: "dmtf_block \<Rightarrow> bytes" where
  "encode_block b =
     [blk_index b, 1] @ le16 (of_nat (3 + length (blk_value b))) @
     [blk_type b] @ le16 (of_nat (length (blk_value b))) @ blk_value b"

lemma length_encode_block [simp]: "length (encode_block b) = 7 + length (blk_value b)"
  by (simp add: encode_block_def)

locale block_writer =
  fixes fill :: "nat \<Rightarrow> bytes \<Rightarrow> fault + (nat \<times> bytes)" and enc :: bytes
  assumes fill_at: "length old = length enc \<Longrightarrow>
    fill (length pre) (pre @ old @ post) = Inr (length enc, pre @ enc @ post)"
begin

lemma fill_in_range:
  assumes "off + length enc \<le> length m"
  shows "fill off m = Inr (length enc, take off m @ enc @ drop (off + length enc) m)"
proof -
  obtain pre blk post where m: "m = pre @ blk @ post" "length pre = off" "length blk = length enc"
    using split_at_block [OF assms] by metis
  then show ?thesis
    using fill_at [of blk pre post] by auto
qed

end

text \<open>All stores of a writer, done on a buffer that starts at the block.\<close>

lemma poke_shift:
  "poke (pre @ m) (length pre + k) bs =
     (case poke m k bs of Inl e \<Rightarrow> Inl e | Inr m' \<Rightarrow> Inr (pre @ m'))"
  by (simp add: poke_def)

lemma seven_or_more:
  assumes "length old = 7 + n"
  obtains a b c d e f g v where "old = a # b # c # d # e # f # g # v" "length v = n"
  using assms by (auto simp: length_Suc_conv numeral_eq_Suc)

lemma block_stores_at:
  assumes "length old = 7 + length v"
  shows "and_then (set_index i (length pre) (pre @ old @ post)) (\<lambda>m.
         and_then (set_measurement_specification 1 (length pre) m) (\<lambda>m.
         and_then (set_value_type t (length pre) m) (\<lambda>m.
         and_then (set_value_size n (length pre) m) (\<lambda>m.
         and_then (set_measurement_size s (length pre) m) (\<lambda>m.
         and_then (set_value v (length pre) m) (\<lambda>m. Inr (k, m))))))) =
         Inr (k, pre @ [i, 1] @ le16 s @ [t] @ le16 n @ v @ post)"
proof -
  obtain a b c d e f g w where "old = a # b # c # d # e # f # g # w" "length w = length v"
    using assms by (rule seven_or_more)
  then show ?thesis
    by (simp add: block_stores poke_def le16_def drop_Cons')
qed

interpretation svn: block_writer libspdm_fill_measurement_svn_block
  "encode_block \<lparr>blk_index = 0x10, blk_type = 0x87, blk_value = 0x7 # replicate 7 0\<rparr>"
  by unfold_locales
    (simp add: libspdm_fill_measurement_svn_block_def block_stores_at encode_block_def)

interpretation manifest: block_writer libspdm_fill_measurement_manifest_block
  "encode_block \<lparr>blk_index = 0xFD, blk_type = 0x84, blk_value = replicate 128 0xFD\<rparr>"
  by unfold_locales
    (simp add: libspdm_fill_measurement_manifest_block_def block_stores_at encode_block_def)

lemma length_device_mode_bytes [simp]: "length device_mode_bytes = 16"
  by (simp add: device_mode_bytes_def)

interpretation device_mode: block_writer libspdm_fill_measurement_device_mode_block
  "encode_block \<lparr>blk_index = 0xFE, blk_type = 0x85, blk_value = device_mode_bytes\<rparr>"
  by unfold_locales
    (simp add: libspdm_fill_measurement_device_mode_block_def block_stores_at encode_block_def)

interpretation raw_image: block_writer "libspdm_fill_measurement_image_hash_block L True algo idx"
  "encode_block \<lparr>blk_index = idx, blk_type = (idx - 1) OR 0x80, blk_value = replicate 72 idx\<rparr>"
  for L algo idx
  by unfold_locales
    (simp add: libspdm_fill_measurement_image_hash_block_def block_stores_at encode_block_def)

lemma hashed_image_block_writer:
  assumes "measurement_hash_all L algo (replicate 72 idx) = Some h"
    and "length h = get_measurement_hash_size L algo"
  shows "block_writer (libspdm_fill_measurement_image_hash_block L False algo idx)
    (encode_block \<lparr>blk_index = idx, blk_type = idx - 1, blk_value = h\<rparr>)"
  using assms
  by unfold_locales
    (simp add: libspdm_fill_measurement_image_hash_block_def block_stores_at encode_block_def Let_def)

section \<open>The measurements of the device\<close>

text \<open>
  The abstract specification: which blocks the device has.  The four image blocks are digests of
  72 repeated index bytes, or these bytes themselves in a raw bit stream; the other three are
  fixed.
\<close>

definition image_block :: "crypt_lib \<Rightarrow> bool \<Rightarrow> u32 \<Rightarrow> u8 \<Rightarrow> dmtf_block option" where
  "image_block L ubs algo idx =
     (if ubs then Some \<lparr>blk_index = idx, blk_type = (idx - 1) OR 0x80, blk_value = replicate 72 idx\<rparr>
      else map_option (\<lambda>h. \<lparr>blk_index = idx, blk_type = idx - 1, blk_value = h\<rparr>)
             (measurement_hash_all L algo (replicate 72 idx)))"

definition fixed_blocks :: "dmtf_block list" where
  "fixed_blocks =
     [\<lparr>blk_index = 0x10, blk_type = 0x87, blk_value = 0x7 # replicate 7 0\<rparr>,
      \<lparr>blk_index = 0xFD, blk_type = 0x84, blk_value = replicate 128 0xFD\<rparr>,
      \<lparr>blk_index = 0xFE, blk_type = 0x85, blk_value = device_mode_bytes\<rparr>]"

definition device_blocks :: "crypt_lib \<Rightarrow> bool \<Rightarrow> u32 \<Rightarrow> dmtf_block list option" where
  "device_blocks L ubs algo =
     map_option (\<lambda>bs. bs @ fixed_blocks) (those (map (image_block L ubs algo) [1, 2, 3, 4]))"

abbreviation encode_blocks :: "dmtf_block list \<Rightarrow> bytes" where
  "encode_blocks bs \<equiv> concat (map encode_block bs)"

abbreviation image_size :: "crypt_lib \<Rightarrow> bool \<Rightarrow> u32 \<Rightarrow> nat" where
  "image_size L ubs algo \<equiv> 7 + (if ubs then 72 else get_measurement_hash_size L algo)"

lemma image_block_size:
  "digest_contract L \<Longrightarrow> image_block L ubs algo idx = Some b \<Longrightarrow>
   length (encode_block b) = image_size L ubs algo"
  by (auto simp: image_block_def digest_contract_def split: if_splits)

lemma image_block_writer:
  assumes "digest_contract L" and "image_block L ubs algo idx = Some b"
  shows "block_writer (libspdm_fill_measurement_image_hash_block L ubs algo idx) (encode_block b)"
proof (cases ubs)
  case True
  then show ?thesis
    using assms(2) raw_image.block_writer_axioms by (auto simp: image_block_def)
next
  case False
  with assms obtain h where "measurement_hash_all L algo (replicate 72 idx) = Some h"
    "b = \<lparr>blk_index = idx, blk_type = idx - 1, blk_value = h\<rparr>"
    by (auto simp: image_block_def)
  then show ?thesis
    using False assms(1) hashed_image_block_writer by (simp add: digest_contract_def)
qed

lemma failed_hash_fill:
  assumes "image_block L ubs algo idx = None" and "off + 7 \<le> length m"
  shows "\<exists>hdr. length hdr = 7 \<and>
    libspdm_fill_measurement_image_hash_block L ubs algo idx off m =
      Inr (0, take off m @ hdr @ drop (off + 7) m)"
proof -
  obtain pre blk post where m: "m = pre @ blk @ post" "length pre = off" "length blk = 7"
    using split_at_block [OF assms(2)] by metis
  obtain a b c d e f g where "blk = [a, b, c, d, e, f, g]"
    using m(3) by (auto simp: length_Suc_conv numeral_eq_Suc)
  with m assms(1) show ?thesis
    by (auto simp: image_block_def libspdm_fill_measurement_image_hash_block_def Let_def
        block_stores poke_def le16_def drop_Cons' split: if_splits)
qed

text \<open>The loop over the image blocks, when every hash succeeds and in general.\<close>

lemma those_Cons_Some:
  "those (x # xs) = Some ys \<longleftrightarrow> (\<exists>y zs. x = Some y \<and> those xs = Some zs \<and> ys = y # zs)"
  by (auto split: option.splits)

lemma upt_5_unfold: "index \<le> 4 \<Longrightarrow> [index..<5] = index # [Suc index..<5]"
  by (simp add: upt_rec)

lemma fill_image_hash_blocks_ok:
  assumes "digest_contract L"
    and "those (map (\<lambda>i. image_block L ubs algo (of_nat i)) [index..<5]) = Some bs"
    and "off + length (encode_blocks bs) \<le> length m"
  shows "fill_image_hash_blocks L ubs algo index off m =
    Inr (Some (off + length (encode_blocks bs)),
         take off m @ encode_blocks bs @ drop (off + length (encode_blocks bs)) m)"
  using assms
proof (induction L ubs algo index off m arbitrary: bs rule: fill_image_hash_blocks.induct)
  case (1 L ubs algo index off m)
  show ?case
  proof (cases "index \<le> 4")
    case False
    with "1.prems" show ?thesis by (simp add: fill_image_hash_blocks.simps)
  next
    case True
    with "1.prems"(2) obtain b bs' where b: "image_block L ubs algo (of_nat index) = Some b"
      and bs': "those (map (\<lambda>i. image_block L ubs algo (of_nat i)) [Suc index..<5]) = Some bs'"
      and bs: "bs = b # bs'"
      by (auto simp: upt_5_unfold those_Cons_Some simp del: those.simps)
    let ?e = "encode_block b"
    let ?m = "take off m @ ?e @ drop (off + length ?e) m"
    have "block_writer (libspdm_fill_measurement_image_hash_block L ubs algo (of_nat index)) ?e"
      using "1.prems"(1) b by (rule image_block_writer)
    then have fill: "libspdm_fill_measurement_image_hash_block L ubs algo (of_nat index) off m =
        Inr (length ?e, ?m)"
      using "1.prems"(3) bs by (intro block_writer.fill_in_range) simp_all
    have "fill_image_hash_blocks L ubs algo (Suc index) (off + length ?e) ?m =
        Inr (Some (off + length ?e + length (encode_blocks bs')),
             take (off + length ?e) ?m @ encode_blocks bs' @
             drop (off + length ?e + length (encode_blocks bs')) ?m)"
      using True fill "1.prems" bs bs' by (intro "1.IH") simp_all
    with True fill bs "1.prems"(3) show ?thesis
      by (subst fill_image_hash_blocks.simps) (simp add: ac_simps)
  qed
qed

lemma fill_image_hash_blocks_frame:
  assumes "digest_contract L" and "off + (5 - index) * image_size L ubs algo \<le> length m"
  shows "\<exists>r m'. fill_image_hash_blocks L ubs algo index off m = Inr (r, m') \<and>
    length m' = length m \<and>
    drop (off + (5 - index) * image_size L ubs algo) m' =
      drop (off + (5 - index) * image_size L ubs algo) m \<and>
    (r = None \<longleftrightarrow> those (map (\<lambda>i. image_block L ubs algo (of_nat i)) [index..<5]) = None)"
  using assms
proof (induction L ubs algo index off m rule: fill_image_hash_blocks.induct)
  case (1 L ubs algo index off m)
  let ?s = "image_size L ubs algo"
  show ?case
  proof (cases "index \<le> 4")
    case False
    then show ?thesis by (simp add: fill_image_hash_blocks.simps)
  next
    case True
    then have k: "(5 - index) * ?s = ?s + (5 - Suc index) * ?s"
      by (simp add: Suc_diff_le mult_eq_if)
    have room: "off + ?s \<le> length m"
      using "1.prems"(2) k by linarith
    show ?thesis
    proof (cases "image_block L ubs algo (of_nat index)")
      case None
      then obtain hdr where "length hdr = 7"
        "libspdm_fill_measurement_image_hash_block L ubs algo (of_nat index) off m =
          Inr (0, take off m @ hdr @ drop (off + 7) m)"
        using failed_hash_fill [of L ubs algo "of_nat index" off m] room by auto
      moreover have "7 \<le> (5 - index) * ?s"
        using k by simp
      ultimately show ?thesis
        using True None room
        by (subst fill_image_hash_blocks.simps) (simp add: upt_5_unfold drop_after_block add.commute)
    next
      case (Some b)
      let ?e = "encode_block b"
      let ?m = "take off m @ ?e @ drop (off + length ?e) m"
      have e: "length ?e = ?s"
        using "1.prems"(1) Some by (rule image_block_size)
      have fill: "libspdm_fill_measurement_image_hash_block L ubs algo (of_nat index) off m =
          Inr (?s, ?m)"
        using block_writer.fill_in_range [OF image_block_writer [OF "1.prems"(1) Some], of off m]
          room e by simp
      have len: "length ?m = length m"
        using room e by simp
      have "\<exists>r m'. fill_image_hash_blocks L ubs algo (Suc index) (off + ?s) ?m = Inr (r, m') \<and>
          length m' = length ?m \<and>
          drop (off + ?s + (5 - Suc index) * ?s) m' = drop (off + ?s + (5 - Suc index) * ?s) ?m \<and>
          (r = None \<longleftrightarrow>
            those (map (\<lambda>i. image_block L ubs algo (of_nat i)) [Suc index..<5]) = None)"
        using True fill "1.prems" k len e by (intro "1.IH" [of "(?s, ?m)" ?s ?m]) (simp_all, linarith?)
      moreover have "drop (off + (5 - index) * ?s) ?m = drop (off + (5 - index) * ?s) m"
        using room e k by (intro drop_after_block) simp_all
      ultimately show ?thesis
        using True fill len Some
        by (subst fill_image_hash_blocks.simps)
          (auto simp: upt_5_unfold k add.assoc split: option.splits)
    qed
  qed
qed

lemma device_blocks_alt:
  "device_blocks L ubs algo = map_option (\<lambda>bs. bs @ fixed_blocks)
     (those (map (\<lambda>i. image_block L ubs algo (of_nat i)) [1..<5]))"
proof -
  have "map (\<lambda>i. image_block L ubs algo (of_nat i)) [1..<5] = map (image_block L ubs algo) [1, 2, 3, 4]"
    by (simp add: upt_rec)
  then show ?thesis
    by (simp only: device_blocks_def)
qed

lemma device_blocks_Some:
  assumes "device_blocks L ubs algo = Some bs"
  obtains ibs where "those (map (\<lambda>i. image_block L ubs algo (of_nat i)) [1..<5]) = Some ibs"
    and "bs = ibs @ fixed_blocks"
  using assms by (auto simp: device_blocks_alt simp del: those.simps)

lemma those_sizes:
  assumes "digest_contract L" and "those (map (\<lambda>i. image_block L ubs algo (of_nat i)) is) = Some bs"
  shows "length (encode_blocks bs) = length is * image_size L ubs algo"
  using assms(2)
proof (induction "is" arbitrary: bs)
  case Nil
  then show ?case by simp
next
  case (Cons i "is")
  then obtain b bs' where "image_block L ubs algo (of_nat i) = Some b"
    "those (map (\<lambda>i. image_block L ubs algo (of_nat i)) is) = Some bs'" "bs = b # bs'"
    by (auto simp: those_Cons_Some simp del: those.simps)
  with Cons.IH image_block_size [OF assms(1)] show ?case by simp
qed

lemma encode_fixed_blocks_length [simp]: "length (encode_blocks fixed_blocks) = 173"
  by (simp add: fixed_blocks_def)

lemma device_blocks_size:
  assumes "digest_contract L" and "device_blocks L ubs algo = Some bs"
  shows "length (encode_blocks bs) = total_size_all ubs (get_measurement_hash_size L algo)"
proof -
  obtain ibs where "those (map (\<lambda>i. image_block L ubs algo (of_nat i)) [1..<5]) = Some ibs"
    "bs = ibs @ fixed_blocks"
    using assms(2) by (rule device_blocks_Some)
  then show ?thesis
    using those_sizes [OF assms(1)] by (simp add: total_size_all_def)
qed

lemma total_size_all_alt: "total_size_all ubs (get_measurement_hash_size L algo) =
    4 * image_size L ubs algo + 173"
  by (simp add: total_size_all_def)

text \<open>The tail of the "all measurements" branch: the three fixed blocks after the image blocks.\<close>

lemma fixed_blocks_written:
  assumes "off + 173 \<le> length m"
  shows "\<exists>s1 m1 s2 m2 s3 m3.
    libspdm_fill_measurement_svn_block off m = Inr (s1, m1) \<and>
    libspdm_fill_measurement_manifest_block (off + s1) m1 = Inr (s2, m2) \<and>
    libspdm_fill_measurement_device_mode_block (off + s1 + s2) m2 = Inr (s3, m3) \<and>
    m3 = take off m @ encode_blocks fixed_blocks @ drop (off + 173) m"
  using assms
  by (simp add: svn.fill_in_range manifest.fill_in_range device_mode.fill_in_range
      fixed_blocks_def add.assoc, simp add: add.commute)

lemma collect_all_ok:
  assumes "digest_contract L" and "device_blocks L ubs algo = Some bs"
    and "length (encode_blocks bs) \<le> measurements_size out"
    and "measurements_size out \<le> length (measurements out)"
  shows "collect_all asserts L ubs ver algo attr out =
    successful_return ver attr
      (out\<lparr>measurements_size := length (encode_blocks bs), measurements_count := 7,
           measurements := encode_blocks bs @ drop (length (encode_blocks bs)) (measurements out)\<rparr>)"
proof -
  let ?m = "measurements out"
  obtain ibs where ibs: "those (map (\<lambda>i. image_block L ubs algo (of_nat i)) [1..<5]) = Some ibs"
    and bs: "bs = ibs @ fixed_blocks"
    using assms(2) by (rule device_blocks_Some)
  let ?n = "length (encode_blocks ibs)"
  have room: "?n + 173 \<le> length ?m"
    using assms(3,4) bs by simp
  have loop: "fill_image_hash_blocks L ubs algo 1 0 ?m =
      Inr (Some ?n, encode_blocks ibs @ drop ?n ?m)"
    using fill_image_hash_blocks_ok [OF assms(1) ibs, of 0 ?m] room by simp
  have total: "total_size_all ubs (get_measurement_hash_size L algo) = length (encode_blocks bs)"
    using device_blocks_size [OF assms(1,2)] by simp
  have n: "length (encode_blocks bs) = ?n + 173"
    using bs by simp
  obtain s1 m1 s2 m2 s3 where fixed:
    "libspdm_fill_measurement_svn_block ?n (encode_blocks ibs @ drop ?n ?m) = Inr (s1, m1)"
    "libspdm_fill_measurement_manifest_block (?n + s1) m1 = Inr (s2, m2)"
    "libspdm_fill_measurement_device_mode_block (?n + s1 + s2) m2 =
       Inr (s3, encode_blocks bs @ drop (?n + 173) ?m)"
    using fixed_blocks_written [of ?n "encode_blocks ibs @ drop ?n ?m"] room bs
    by (auto simp: add.commute)
  then show ?thesis
    using assms(3) loop total n
    by (simp add: collect_all_def Let_def LIBSPDM_MEASUREMENT_BLOCK_NUMBER_def)
qed

section \<open>Decoding blocks\<close>

text \<open>
  A reader of the wire format, as a requester has one: it accepts a block whose two size fields
  agree, and is the inverse of the encoding.
\<close>

fun decode_blocks :: "nat \<Rightarrow> bytes \<Rightarrow> dmtf_block list option" where
  "decode_blocks 0 m = Some []"
| "decode_blocks (Suc n) (i # sp # s0 # s1 # t # v0 # v1 # m) =
     (let vs = unat (of_le16 v0 v1) in
      if sp = 1 \<and> unat (of_le16 s0 s1) = 3 + vs \<and> vs \<le> length m
      then map_option (Cons \<lparr>blk_index = i, blk_type = t, blk_value = take vs m\<rparr>)
             (decode_blocks n (drop vs m))
      else None)"
| "decode_blocks (Suc n) m = None"

lemma of_le16_bytes [simp]: "of_le16 (ucast w) (ucast (drop_bit 8 w)) = w"
  using of_le16_le16 [of w] by (simp add: le16_def)

lemma unat_of_nat_u16: "n < 65536 \<Longrightarrow> unat (of_nat n :: u16) = n"
  by (simp add: unat_of_nat)

lemma decode_one_block:
  assumes "length (blk_value b) < 65533"
  shows "decode_blocks (Suc n) (encode_block b @ m) = map_option (Cons b) (decode_blocks n m)"
proof -
  have "unat (of_nat (length (blk_value b)) :: u16) = length (blk_value b)"
    "unat (of_nat (3 + length (blk_value b)) :: u16) = 3 + length (blk_value b)"
    using assms by (simp_all only: unat_of_nat_u16)
  then show ?thesis
    by (cases b) (simp add: encode_block_def le16_def Let_def)
qed

lemma decode_encode_blocks:
  "(\<And>b. b \<in> set bs \<Longrightarrow> length (blk_value b) < 65533) \<Longrightarrow>
   decode_blocks (length bs) (encode_blocks bs @ m) = Some bs"
  by (induction bs) (simp_all add: decode_one_block del: decode_blocks.simps(2,3))

lemma those_eq_Some: "those xs = Some ys \<longleftrightarrow> xs = map Some ys"
  by (induction xs arbitrary: ys) (auto split: option.splits)

lemma device_blocks_length: "device_blocks L ubs algo = Some bs \<Longrightarrow> length bs = 7"
  by (auto simp: device_blocks_def fixed_blocks_def those_eq_Some
      dest!: arg_cong [where f = length] simp del: those.simps)

lemma device_blocks_cases:
  assumes "device_blocks L ubs algo = Some bs" and "b \<in> set bs"
  shows "(\<exists>i \<in> {1, 2, 3, 4}. image_block L ubs algo i = Some b) \<or> b \<in> set fixed_blocks"
proof -
  obtain ibs where ibs: "those (map (image_block L ubs algo) [1, 2, 3, 4]) = Some ibs"
    and bs: "bs = ibs @ fixed_blocks"
    using assms(1) by (auto simp: device_blocks_def simp del: those.simps)
  have "Some b \<in> set (map (image_block L ubs algo) [1, 2, 3, 4])" if "b \<in> set ibs"
    using that ibs by (metis those_eq_Some list.set_map imageI)
  with assms(2) bs show ?thesis
    by (fastforce simp: eq_commute)
qed

lemma device_blocks_small:
  assumes "digest_contract L" and "ubs \<or> algo \<noteq> MEASUREMENT_HASH_ALGO_RAW_BIT_STREAM_ONLY"
    and "device_blocks L ubs algo = Some bs" and "b \<in> set bs"
  shows "length (blk_value b) < 65533"
  using device_blocks_cases [OF assms(3,4)]
proof
  assume "\<exists>i \<in> {1, 2, 3, 4}. image_block L ubs algo i = Some b"
  then have "length (encode_block b) = image_size L ubs algo"
    using image_block_size [OF assms(1)] by blast
  moreover have "get_measurement_hash_size L algo \<le> 64" if "\<not> ubs"
    using assms(1,2) that by (simp add: digest_contract_def)
  ultimately show ?thesis
    by (cases ubs) auto
qed (auto simp: fixed_blocks_def)

lemma successful_return_eq:
  "\<exists>cc. successful_return ver attr out =
     Inr (LIBSPDM_STATUS_SUCCESS, out\<lparr>content_changed := cc\<rparr>)"
proof -
  have "\<exists>cc. out = out\<lparr>content_changed := cc\<rparr>"
    by (rule exI [of _ "content_changed out"]) simp
  then show ?thesis
    unfolding successful_return_def by (auto split: option.splits)
qed

section \<open>Frame of the writers\<close>

text \<open>
  \<open>writes_within fill n\<close>: called on a buffer with room for \<open>n\<close> bytes, the writer returns, keeps
  the size of the buffer and touches nothing from offset \<open>n\<close> on.
\<close>

definition writes_within :: "(nat \<Rightarrow> bytes \<Rightarrow> fault + (nat \<times> bytes)) \<Rightarrow> nat \<Rightarrow> bool" where
  "writes_within fill n \<longleftrightarrow>
     (\<forall>m. n \<le> length m \<longrightarrow>
        (\<exists>sz m'. fill 0 m = Inr (sz, m') \<and> length m' = length m \<and> drop n m' = drop n m))"

context block_writer
begin

lemma writes_within_enc: "writes_within fill (length enc)"
  unfolding writes_within_def using fill_in_range [of 0] by fastforce

end

lemma image_writes_within:
  assumes "digest_contract L"
  shows "writes_within (libspdm_fill_measurement_image_hash_block L ubs algo idx)
    (image_size L ubs algo)"
proof (cases "image_block L ubs algo idx")
  case None
  have "\<exists>sz m'. libspdm_fill_measurement_image_hash_block L ubs algo idx 0 m = Inr (sz, m') \<and>
      length m' = length m \<and> drop (image_size L ubs algo) m' = drop (image_size L ubs algo) m"
    if room: "image_size L ubs algo \<le> length m" for m
  proof -
    obtain hdr where hdr: "length hdr = 7"
      "libspdm_fill_measurement_image_hash_block L ubs algo idx 0 m = Inr (0, hdr @ drop 7 m)"
      using failed_hash_fill [OF None, of 0 m] room by auto
    have "drop (0 + image_size L ubs algo) (take 0 m @ hdr @ drop (0 + 7) m) =
        drop (0 + image_size L ubs algo) m"
      using hdr(1) room by (intro drop_after_block) auto
    with hdr room show ?thesis by simp
  qed
  then show ?thesis by (simp only: writes_within_def) blast
next
  case (Some b)
  show ?thesis
    using block_writer.writes_within_enc [OF image_block_writer [OF assms Some]]
    by (simp only: image_block_size [OF assms Some])
qed

text \<open>
  The outcome every call of \<open>libspdm_measurement_collection\<close> has: a failed assertion (only in a
  build that keeps them), or a return that leaves the size of the caller's buffer and everything
  from \<open>measurements_size\<close> on as they were.
\<close>

definition safe_outcome :: "bool \<Rightarrow> meas_out \<Rightarrow> fault + (libspdm_return_t \<times> meas_out) \<Rightarrow> bool" where
  "safe_outcome asserts out r \<longleftrightarrow>
     (case r of
        Inl e \<Rightarrow> asserts \<and> e = Assert_Failed
      | Inr (st, out') \<Rightarrow>
          length (measurements out') = length (measurements out) \<and>
          drop (measurements_size out) (measurements out') =
            drop (measurements_size out) (measurements out) \<and>
          measurements_size out' \<le> measurements_size out)"

lemma drop_mono_eq: "drop n xs = drop n ys \<Longrightarrow> n \<le> k \<Longrightarrow> drop k xs = drop k ys"
  by (metis drop_drop le_add_diff_inverse2)

lemma safe_outcome_assert:
  "safe_outcome asserts out (f ()) \<Longrightarrow>
   safe_outcome asserts out (and_then (assert_that asserts P) f)"
  by (simp add: assert_that_def) (simp add: safe_outcome_def)

lemma safe_outcome_return:
  "length (measurements out') = length (measurements out) \<Longrightarrow>
   drop (measurements_size out) (measurements out') =
     drop (measurements_size out) (measurements out) \<Longrightarrow>
   measurements_size out' \<le> measurements_size out \<Longrightarrow>
   safe_outcome asserts out (successful_return ver attr out')"
  using successful_return_eq [of ver attr out'] by (auto simp: safe_outcome_def)

lemma collect_one_safe:
  assumes "writes_within fill n" and "measurements_size out \<le> length (measurements out)"
  shows "safe_outcome asserts out (collect_one asserts n fill ver attr out)"
proof -
  let ?r = "if measurements_size out < n then Inr (LIBSPDM_STATUS_BUFFER_TOO_SMALL, out) else
       let out = out\<lparr>measurements_count := 1, measurements_size := n\<rparr> in
       and_then (fill 0 (measurements out)) (\<lambda>(sz, m).
       if sz = 0 then Inr (LIBSPDM_STATUS_MEAS_INTERNAL_ERROR, out\<lparr>measurements := m\<rparr>)
       else successful_return ver attr (out\<lparr>measurements := m\<rparr>))"
  have "safe_outcome asserts out ?r"
  proof (cases "n \<le> measurements_size out")
    case True
    then obtain sz m' where fill: "fill 0 (measurements out) = Inr (sz, m')"
      and len: "length m' = length (measurements out)"
      and frame: "drop n m' = drop n (measurements out)"
      using assms le_trans unfolding writes_within_def by blast
    have "drop (measurements_size out) m' = drop (measurements_size out) (measurements out)"
      using frame True by (rule drop_mono_eq)
    with True fill len show ?thesis
      using safe_outcome_return [of "out\<lparr>measurements_count := 1, measurements_size := n,
        measurements := m'\<rparr>" out asserts ver attr]
      by (auto simp: safe_outcome_def Let_def)
  qed (simp add: safe_outcome_def)
  then show ?thesis
    unfolding collect_one_def by (rule safe_outcome_assert)
qed

section \<open>Properties\<close>

lemma demo_lib_blocks:
  "device_blocks demo_lib (use_bit_stream_for 2 0) 2 =
     Some ([\<lparr>blk_index = 1, blk_type = 0, blk_value = replicate 32 1\<rparr>,
            \<lparr>blk_index = 2, blk_type = 1, blk_value = replicate 32 2\<rparr>,
            \<lparr>blk_index = 3, blk_type = 2, blk_value = replicate 32 3\<rparr>,
            \<lparr>blk_index = 4, blk_type = 3, blk_value = replicate 32 4\<rparr>] @ fixed_blocks)"
  by (simp add: device_blocks_def image_block_def use_bit_stream_for_def)

definition demo_out :: meas_out where
  "demo_out = \<lparr>content_changed = None, measurements_count = 0,
     measurements = replicate 512 0, measurements_size = 512\<rparr>"

lemma bit_stream_or_hash: "use_bit_stream_for algo attr \<or> algo \<noteq> MEASUREMENT_HASH_ALGO_RAW_BIT_STREAM_ONLY"
  by (auto simp: use_bit_stream_for_def)

text \<open>
  C2: A request for all measurements, with a buffer that is large enough, succeeds; the record it
  leaves in the buffer decodes to the seven blocks of the device in order (the four image digests
  or raw images, the secure version number, the manifest, the device mode), their count is 7, and
  no byte after the record changes.
\<close>

theorem measurement_collection_all:
  assumes "digest_contract L" and "algo \<noteq> 0" and "get_measurement_hash_size L algo \<noteq> 0"
    and "device_blocks L (use_bit_stream_for algo attr) algo = Some bs"
    and "total_size_all (use_bit_stream_for algo attr) (get_measurement_hash_size L algo)
           \<le> measurements_size out"
    and "measurements_size out \<le> length (measurements out)"
  shows "\<exists>out'. libspdm_measurement_collection asserts L ver
             SPDM_MEASUREMENT_BLOCK_HEADER_SPECIFICATION_DMTF algo 0xFF attr out =
             Inr (LIBSPDM_STATUS_SUCCESS, out') \<and>
           measurements_count out' = 7 \<and>
           decode_blocks 7 (take (measurements_size out') (measurements out')) = Some bs \<and>
           drop (measurements_size out') (measurements out') =
             drop (measurements_size out') (measurements out)"
proof -
  let ?e = "encode_blocks bs"
  have size: "length ?e = total_size_all (use_bit_stream_for algo attr) (get_measurement_hash_size L algo)"
    using assms(1,4) by (rule device_blocks_size)
  obtain cc where all: "collect_all asserts L (use_bit_stream_for algo attr) ver algo attr out =
      Inr (LIBSPDM_STATUS_SUCCESS, out\<lparr>measurements_size := length ?e, measurements_count := 7,
           measurements := ?e @ drop (length ?e) (measurements out), content_changed := cc\<rparr>)"
    using collect_all_ok [OF assms(1,4), of out asserts ver attr] assms(5,6) size
      successful_return_eq by metis
  have "decode_blocks 7 ?e = Some bs"
    using decode_encode_blocks [of bs "[]"] device_blocks_length [OF assms(4)]
      device_blocks_small [OF assms(1) bit_stream_or_hash assms(4)] by simp
  then show ?thesis
    using all assms(2,3) by (simp add: libspdm_measurement_collection_def Let_def)
qed

theorem measurement_collection_all_witness:
  "\<exists>out'. libspdm_measurement_collection True demo_lib 0x1200
      SPDM_MEASUREMENT_BLOCK_HEADER_SPECIFICATION_DMTF 2 0xFF 0 demo_out =
      Inr (LIBSPDM_STATUS_SUCCESS, out') \<and> measurements_count out' = 7"
  using measurement_collection_all [where out = demo_out and asserts = True and ver = "0x1200",
      OF demo_lib_contract _ _ demo_lib_blocks]
  by (auto simp: demo_out_def total_size_all_def use_bit_stream_for_def)

lemma collect_all_safe:
  assumes "digest_contract L" and "measurements_size out \<le> length (measurements out)"
  shows "safe_outcome asserts out (collect_all asserts L ubs ver algo attr out)"
proof -
  let ?t = "total_size_all ubs (get_measurement_hash_size L algo)" and ?m = "measurements out"
  show ?thesis
  proof (cases "?t \<le> measurements_size out")
    case False
    then show ?thesis
      by (auto simp: collect_all_def Let_def assert_that_def safe_outcome_def)
  next
    case True
    then have room: "(5 - 1) * image_size L ubs algo + 173 \<le> length ?m"
      using assms(2) total_size_all_alt [of ubs L algo] by simp
    obtain r m' where loop: "fill_image_hash_blocks L ubs algo 1 0 ?m = Inr (r, m')"
      "length m' = length ?m"
      "drop (4 * image_size L ubs algo) m' = drop (4 * image_size L ubs algo) ?m"
      "r = None \<longleftrightarrow> those (map (\<lambda>i. image_block L ubs algo (of_nat i)) [1..<5]) = None"
      using fill_image_hash_blocks_frame [OF assms(1), of 0 1 ubs algo ?m] room by auto
    show ?thesis
    proof (cases r)
      case None
      have "drop (measurements_size out) m' = drop (measurements_size out) ?m"
        using True total_size_all_alt [of ubs L algo] by (intro drop_mono_eq [OF loop(3)]) linarith
      with None loop True show ?thesis
        by (simp add: collect_all_def Let_def safe_outcome_def)
    next
      case (Some off)
      then obtain bs where bs: "device_blocks L ubs algo = Some bs"
        using loop(4) by (auto simp: device_blocks_alt simp del: those.simps)
      have len: "length (encode_blocks bs) = ?t"
        using assms(1) bs by (rule device_blocks_size)
      have "drop (0 + measurements_size out) (take 0 ?m @ encode_blocks bs @ drop (0 + ?t) ?m) =
          drop (0 + measurements_size out) ?m"
        using len True assms(2) by (intro drop_after_block) auto
      moreover have "collect_all asserts L ubs ver algo attr out = successful_return ver attr
          (out\<lparr>measurements_size := ?t, measurements_count := 7,
            measurements := encode_blocks bs @ drop ?t ?m\<rparr>)"
        using collect_all_ok [OF assms(1) bs] len True assms(2) by simp
      ultimately show ?thesis
        using len True assms(2) by (auto intro!: safe_outcome_return)
    qed
  qed
qed

text \<open>
  C5: Whatever the request, the collection stores only inside the size the caller gives: it never
  leaves the buffer, a failing assertion is the only other way to stop and happens only in a build
  with assertions, and no byte past the given size changes.
\<close>

theorem measurement_collection_safe:
  assumes "digest_contract L" and "measurements_size out \<le> length (measurements out)"
  shows "safe_outcome asserts out
    (libspdm_measurement_collection asserts L ver spec algo idx attr out)"
proof -
  let ?hs = "get_measurement_hash_size L algo" and ?ubs = "use_bit_stream_for algo attr"
  have image: "writes_within (libspdm_fill_measurement_image_hash_block L True algo idx) 79"
    "writes_within (libspdm_fill_measurement_image_hash_block L False algo idx) (7 + ?hs)"
    using image_writes_within [OF assms(1), of True algo idx]
      image_writes_within [OF assms(1), of False algo idx] by simp_all
  have fixed: "writes_within libspdm_fill_measurement_svn_block (sizeof_block + sizeof_svn)"
    "writes_within libspdm_fill_measurement_manifest_block
       (sizeof_block + LIBSPDM_MEASUREMENT_MANIFEST_SIZE)"
    "writes_within libspdm_fill_measurement_device_mode_block (sizeof_block + sizeof_device_mode)"
    using svn.writes_within_enc manifest.writes_within_enc device_mode.writes_within_enc by simp_all
  have "safe_outcome asserts out (Inr (LIBSPDM_STATUS_UNSUPPORTED_CAP, out))"
    "safe_outcome asserts out (Inr (LIBSPDM_STATUS_MEAS_INVALID_INDEX, out\<lparr>measurements_count := 0\<rparr>))"
    by (simp_all add: safe_outcome_def)
  then show ?thesis
    unfolding libspdm_measurement_collection_def Let_def
    by (simp only: split: if_split)
      (intro conjI impI safe_outcome_assert safe_outcome_return collect_all_safe collect_one_safe
        fixed assms; simp add: image)
qed

theorem measurement_collection_safe_witness:
  "safe_outcome True demo_out
     (libspdm_measurement_collection True demo_lib 0x1200 1 2 0x10 0 demo_out)"
  using measurement_collection_safe [where out = demo_out, OF demo_lib_contract] by (simp add: demo_out_def)

text \<open>A single-block request is served by the writer of that block.\<close>

lemma collect_one_ok:
  assumes "block_writer fill (encode_block b)" and "n = length (encode_block b)"
    and "n \<le> measurements_size out" and "measurements_size out \<le> length (measurements out)"
  shows "collect_one asserts n fill ver attr out =
    successful_return ver attr
      (out\<lparr>measurements_count := 1, measurements_size := n,
           measurements := encode_block b @ drop n (measurements out)\<rparr>)"
proof -
  have "fill 0 (measurements out) = Inr (n, encode_block b @ drop n (measurements out))"
    using block_writer.fill_in_range [OF assms(1), of 0 "measurements out"] assms(2-4) by simp
  with assms(2,3) show ?thesis
    by (simp add: collect_one_def Let_def)
qed

lemma image_block_index: "image_block L ubs algo i = Some b \<Longrightarrow> blk_index b = i"
  by (auto simp: image_block_def split: if_splits)

text \<open>
  C15: A request for one index that the device has returns exactly the encoding of that block, with
  count 1 and its size, and leaves the rest of the buffer alone.
\<close>

theorem measurement_collection_one:
  assumes "digest_contract L" and "algo \<noteq> 0" and "get_measurement_hash_size L algo \<noteq> 0"
    and "device_blocks L (use_bit_stream_for algo attr) algo = Some bs" and "b \<in> set bs"
    and "length (encode_block b) \<le> measurements_size out"
    and "measurements_size out \<le> length (measurements out)"
  shows "libspdm_measurement_collection asserts L ver
      SPDM_MEASUREMENT_BLOCK_HEADER_SPECIFICATION_DMTF algo (blk_index b) attr out =
    successful_return ver attr
      (out\<lparr>measurements_count := 1, measurements_size := length (encode_block b),
           measurements := encode_block b @ drop (length (encode_block b)) (measurements out)\<rparr>)"
  using device_blocks_cases [OF assms(4,5)]
proof
  let ?ubs = "use_bit_stream_for algo attr"
  assume "\<exists>i \<in> {1, 2, 3, 4}. image_block L ?ubs algo i = Some b"
  then obtain i where i: "i \<in> {1, 2, 3, 4}" "image_block L ?ubs algo i = Some b" by blast
  have "blk_index b = i" using i(2) by (rule image_block_index)
  moreover have "collect_one asserts (image_size L ?ubs algo)
      (libspdm_fill_measurement_image_hash_block L ?ubs algo i) ver attr out =
    successful_return ver attr
      (out\<lparr>measurements_count := 1, measurements_size := image_size L ?ubs algo,
           measurements := encode_block b @ drop (image_size L ?ubs algo) (measurements out)\<rparr>)"
    using image_block_writer [OF assms(1) i(2)] image_block_size [OF assms(1) i(2)] assms(6,7)
    by (intro collect_one_ok) simp_all
  ultimately show ?thesis
    using i(1) assms(2,3) image_block_size [OF assms(1) i(2)]
    by (auto simp: libspdm_measurement_collection_def Let_def)
next
  have w: "block_writer libspdm_fill_measurement_svn_block (encode_block (fixed_blocks ! 0))"
    "block_writer libspdm_fill_measurement_manifest_block (encode_block (fixed_blocks ! 1))"
    "block_writer libspdm_fill_measurement_device_mode_block (encode_block (fixed_blocks ! 2))"
    using svn.block_writer_axioms manifest.block_writer_axioms device_mode.block_writer_axioms
    by (simp_all add: fixed_blocks_def)
  assume "b \<in> set fixed_blocks"
  then consider "b = fixed_blocks ! 0" | "b = fixed_blocks ! 1" | "b = fixed_blocks ! 2"
    by (auto simp: fixed_blocks_def)
  then show ?thesis
    using assms(2,3,6,7) w [THEN collect_one_ok]
    by cases (simp_all add: libspdm_measurement_collection_def Let_def fixed_blocks_def)
qed

theorem measurement_collection_one_witness:
  "\<exists>out'. libspdm_measurement_collection True demo_lib 0x1200
      SPDM_MEASUREMENT_BLOCK_HEADER_SPECIFICATION_DMTF 2 1 0 demo_out =
      successful_return 0x1200 0 out' \<and>
    take 7 (measurements out') = [1, 1, 35, 0, 0, 32, 0] \<and> measurements_size out' = 39"
  using measurement_collection_one [where out = demo_out and asserts = True and ver = "0x1200"
      and b = "\<lparr>blk_index = 1, blk_type = 0, blk_value = replicate 32 1\<rparr>",
      OF demo_lib_contract _ _ demo_lib_blocks]
  by (auto simp: demo_out_def encode_block_def le16_def)

text \<open>
  The status of every request in a build without assertions, as a function of the request: the
  order of the checks is the order of the code.
\<close>

definition supported_index :: "u8 \<Rightarrow> bool" where
  "supported_index idx \<longleftrightarrow> idx \<in> {0, 1, 2, 3, 4, 0x10, 0xFD, 0xFE, 0xFF}"

definition size_needed :: "crypt_lib \<Rightarrow> bool \<Rightarrow> u32 \<Rightarrow> u8 \<Rightarrow> nat" where
  "size_needed L ubs algo idx =
     (if idx = 0 then 0
      else if idx = 0xFF then 4 * image_size L ubs algo + 173
      else if idx = 0x10 then 15 else if idx = 0xFD then 135 else if idx = 0xFE then 23
      else image_size L ubs algo)"

definition digests_available :: "crypt_lib \<Rightarrow> bool \<Rightarrow> u32 \<Rightarrow> u8 \<Rightarrow> bool" where
  "digests_available L ubs algo idx \<longleftrightarrow>
     (idx = 0xFF \<longrightarrow> device_blocks L ubs algo \<noteq> None) \<and>
     (idx \<in> {1, 2, 3, 4} \<longrightarrow> image_block L ubs algo idx \<noteq> None)"

definition collection_status :: "crypt_lib \<Rightarrow> u8 \<Rightarrow> u32 \<Rightarrow> u8 \<Rightarrow> u8 \<Rightarrow> nat \<Rightarrow> libspdm_return_t" where
  "collection_status L spec algo idx attr room =
     (let ubs = use_bit_stream_for algo attr in
      if spec \<noteq> 1 \<or> algo = 0 then LIBSPDM_STATUS_UNSUPPORTED_CAP
      else if \<not> supported_index idx then LIBSPDM_STATUS_MEAS_INVALID_INDEX
      else if room < size_needed L ubs algo idx then LIBSPDM_STATUS_BUFFER_TOO_SMALL
      else if \<not> digests_available L ubs algo idx then LIBSPDM_STATUS_MEAS_INTERNAL_ERROR
      else LIBSPDM_STATUS_SUCCESS)"

lemma u8_le_4: "unat (idx :: u8) \<le> 4 \<longleftrightarrow> idx \<in> {0, 1, 2, 3, 4}"
proof
  assume "unat idx \<le> 4"
  then have "unat idx \<in> {0, 1, 2, 3, 4}" by auto
  then show "idx \<in> {0, 1, 2, 3, 4}"
    by (auto simp: word_unat_eq_iff)
qed auto

lemma map_sum_successful_return:
  "map_sum id fst (successful_return ver attr out) = Inr LIBSPDM_STATUS_SUCCESS"
  using successful_return_eq [of ver attr out] by auto

lemma collect_one_status:
  assumes "writes_within fill n" and "measurements_size out \<le> length (measurements out)"
  shows "map_sum id fst (collect_one False n fill ver attr out) =
    Inr (if measurements_size out < n then LIBSPDM_STATUS_BUFFER_TOO_SMALL
         else if \<exists>m. fill 0 (measurements out) = Inr (0, m) then LIBSPDM_STATUS_MEAS_INTERNAL_ERROR
         else LIBSPDM_STATUS_SUCCESS)"
proof (cases "n \<le> measurements_size out")
  case True
  then obtain sz m' where "fill 0 (measurements out) = Inr (sz, m')"
    using assms le_trans unfolding writes_within_def by blast
  with True show ?thesis
    by (simp add: collect_one_def Let_def map_sum_successful_return)
qed (simp add: collect_one_def)

lemma collect_image_status:
  assumes "digest_contract L" and "measurements_size out \<le> length (measurements out)"
  shows "map_sum id fst (collect_one False (image_size L ubs algo)
      (libspdm_fill_measurement_image_hash_block L ubs algo idx) ver attr out) =
    Inr (if measurements_size out < image_size L ubs algo then LIBSPDM_STATUS_BUFFER_TOO_SMALL
         else if image_block L ubs algo idx = None then LIBSPDM_STATUS_MEAS_INTERNAL_ERROR
         else LIBSPDM_STATUS_SUCCESS)"
proof -
  have "(\<exists>m. libspdm_fill_measurement_image_hash_block L ubs algo idx 0 (measurements out) = Inr (0, m))
      \<longleftrightarrow> image_block L ubs algo idx = None"
    if "image_size L ubs algo \<le> measurements_size out"
  proof (cases "image_block L ubs algo idx")
    case None
    then show ?thesis
      using failed_hash_fill [OF None, of 0 "measurements out"] that assms(2) by auto
  next
    case (Some b)
    then show ?thesis
      using block_writer.fill_in_range [OF image_block_writer [OF assms(1) Some], of 0 "measurements out"]
        image_block_size [OF assms(1) Some] that assms(2) by simp
  qed
  then show ?thesis
    using collect_one_status [OF image_writes_within [OF assms(1)] assms(2)] by auto
qed

lemma collect_all_status:
  assumes "digest_contract L" and "measurements_size out \<le> length (measurements out)"
  shows "map_sum id fst (collect_all False L ubs ver algo attr out) =
    Inr (if measurements_size out < 4 * image_size L ubs algo + 173
         then LIBSPDM_STATUS_BUFFER_TOO_SMALL
         else if device_blocks L ubs algo = None then LIBSPDM_STATUS_MEAS_INTERNAL_ERROR
         else LIBSPDM_STATUS_SUCCESS)"
proof (cases "measurements_size out < 4 * image_size L ubs algo + 173")
  case True
  then show ?thesis
    by (simp add: collect_all_def Let_def total_size_all_alt)
next
  case room: False
  show ?thesis
  proof (cases "device_blocks L ubs algo")
    case (Some bs)
    then show ?thesis
      using room assms device_blocks_size [OF assms(1) Some] total_size_all_alt [of ubs L algo]
      by (simp add: collect_all_ok map_sum_successful_return)
  next
    case None
    then have "those (map (\<lambda>i. image_block L ubs algo (of_nat i)) [1..<5]) = None"
      by (simp add: device_blocks_alt)
    then obtain m' where "fill_image_hash_blocks L ubs algo 1 0 (measurements out) = Inr (None, m')"
      using fill_image_hash_blocks_frame [OF assms(1), of 0 1 ubs algo "measurements out"]
        room assms(2) by auto
    with room None show ?thesis
      by (simp add: collect_all_def Let_def total_size_all_alt)
  qed
qed

lemma fixed_writers_nonzero:
  "15 \<le> length m \<Longrightarrow> libspdm_fill_measurement_svn_block 0 m \<noteq> Inr (0, m')"
  "135 \<le> length m \<Longrightarrow> libspdm_fill_measurement_manifest_block 0 m \<noteq> Inr (0, m')"
  "23 \<le> length m \<Longrightarrow> libspdm_fill_measurement_device_mode_block 0 m \<noteq> Inr (0, m')"
  by (simp_all add: svn.fill_in_range manifest.fill_in_range device_mode.fill_in_range)

lemma collect_fixed_status:
  assumes "measurements_size out \<le> length (measurements out)"
  shows "map_sum id fst (collect_one False 15 libspdm_fill_measurement_svn_block ver attr out) =
      Inr (if measurements_size out < 15 then LIBSPDM_STATUS_BUFFER_TOO_SMALL
           else LIBSPDM_STATUS_SUCCESS)"
    and "map_sum id fst (collect_one False 135 libspdm_fill_measurement_manifest_block ver attr out) =
      Inr (if measurements_size out < 135 then LIBSPDM_STATUS_BUFFER_TOO_SMALL
           else LIBSPDM_STATUS_SUCCESS)"
    and "map_sum id fst (collect_one False 23 libspdm_fill_measurement_device_mode_block ver attr out) =
      Inr (if measurements_size out < 23 then LIBSPDM_STATUS_BUFFER_TOO_SMALL
           else LIBSPDM_STATUS_SUCCESS)"
  using collect_one_status [OF svn.writes_within_enc assms]
    collect_one_status [OF manifest.writes_within_enc assms]
    collect_one_status [OF device_mode.writes_within_enc assms] assms
  by (simp_all add: fixed_writers_nonzero)

lemma collection_image_branch:
  assumes "idx \<in> {1, 2, 3, 4}" and "algo \<noteq> 0"
  shows "libspdm_measurement_collection False L ver 1 algo idx attr out =
    collect_one False (image_size L (use_bit_stream_for algo attr) algo)
      (libspdm_fill_measurement_image_hash_block L (use_bit_stream_for algo attr) algo idx) ver attr out"
  using assms by (auto simp: libspdm_measurement_collection_def Let_def)

lemma collection_status_image:
  assumes "idx \<in> {1, 2, 3, 4}" and "algo \<noteq> 0"
  shows "collection_status L 1 algo idx attr room =
    (let ubs = use_bit_stream_for algo attr in
     if room < image_size L ubs algo then LIBSPDM_STATUS_BUFFER_TOO_SMALL
     else if image_block L ubs algo idx = None then LIBSPDM_STATUS_MEAS_INTERNAL_ERROR
     else LIBSPDM_STATUS_SUCCESS)"
proof -
  have "size_needed L ubs algo idx = image_size L ubs algo" for ubs
    using assms(1) unfolding size_needed_def by (elim insertE) simp_all
  moreover have "digests_available L ubs algo idx \<longleftrightarrow> image_block L ubs algo idx \<noteq> None" for ubs
    using assms(1) unfolding digests_available_def by (elim insertE) simp_all
  moreover have "supported_index idx"
    using assms(1) by (auto simp: supported_index_def)
  ultimately show ?thesis
    using assms(2) by (simp add: collection_status_def Let_def)
qed

lemmas collection_branch_simps = libspdm_measurement_collection_def collection_status_def
  supported_index_def size_needed_def digests_available_def u8_le_4 Let_def

text \<open>
  C14: The status of every request, errors included, in a build without assertions: it is
  determined by the request, the digests and the size of the buffer as \<open>collection_status\<close> says,
  in the order in which the code tests its conditions.
\<close>

theorem measurement_collection_status:
  assumes "digest_contract L" and "measurements_size out \<le> length (measurements out)"
  shows "map_sum id fst (libspdm_measurement_collection False L ver spec algo idx attr out) =
    Inr (collection_status L spec algo idx attr (measurements_size out))"
proof (cases "spec = 1 \<and> algo \<noteq> 0")
  case False
  then show ?thesis
    by (auto simp: libspdm_measurement_collection_def collection_status_def)
next
  case True
  consider "\<not> supported_index idx" | "idx = 0" | "idx = 0xFF" | "idx \<in> {1, 2, 3, 4}"
    | "idx = 0x10" | "idx = 0xFD" | "idx = 0xFE"
    by (auto simp: supported_index_def)
  then show ?thesis
  proof cases
    case 1
    with True show ?thesis by (simp add: collection_branch_simps)
  next
    case 4
    with True show ?thesis
      by (simp add: collection_image_branch collection_status_image collect_image_status [OF assms]
          Let_def del: insert_iff)
  qed (use True in \<open>simp_all add: collection_branch_simps map_sum_successful_return
      collect_all_status [OF assms] collect_fixed_status [OF assms(2)]\<close>)
qed

theorem measurement_collection_status_witness:
  "map_sum id fst (libspdm_measurement_collection False demo_lib 0x1200 1 2 0x20 0 demo_out) =
     Inr LIBSPDM_STATUS_MEAS_INVALID_INDEX"
  using measurement_collection_status [where out = demo_out and ver = "0x1200" and spec = 1
      and algo = 2 and idx = "0x20" and attr = 0, OF demo_lib_contract]
  by (simp add: demo_out_def collection_status_def supported_index_def)

end
