(* ===== verification/Summary_Hash.thy ===== *)
theory Summary_Hash
  imports Measurement
begin

text \<open>
  The measurement summary hash of \<open>measurement_functions.c\<close>: the responder hashes all its blocks, or
  those of the trusted computing base, after walking the record it collected itself.  The walk
  reads the size fields of the record, so its correctness rests on the block encoding that
  the theory Measurement proves for the collection.
\<close>

section \<open>The summary hash\<close>

text \<open>
  Both loops walk the blocks of a buffer by the size field of the common header.  The first only
  checks the sizes, the second copies the selected blocks into \<open>measurement_data\<close>.
\<close>

definition get_u16 :: "nat \<Rightarrow> bytes \<Rightarrow> fault + u16" where
  "get_u16 off m = and_then (peek m off 2) (\<lambda>b. Inr (of_le16 (b ! 0) (b ! Suc 0)))"

definition get_u8 :: "nat \<Rightarrow> bytes \<Rightarrow> fault + u8" where
  "get_u8 off m = and_then (peek m off 1) (\<lambda>b. Inr (b ! 0))"

fun check_block_sizes :: "bool \<Rightarrow> nat \<Rightarrow> nat \<Rightarrow> nat \<Rightarrow> bytes \<Rightarrow> fault + nat" where
  "check_block_sizes asserts 0 off data_size m = Inr data_size"
| "check_block_sizes asserts (Suc k) off data_size m =
     and_then (get_u16 (off + 2) m) (\<lambda>measurement_size.
     and_then (get_u16 (off + 5) m) (\<lambda>value_size.
     and_then (assert_that asserts
                 (unat measurement_size = sizeof_dmtf_header + unat value_size)) (\<lambda>_.
     check_block_sizes asserts k (off + (sizeof_common_header + unat measurement_size))
       (data_size + unat measurement_size) m)))"

definition block_selected :: "u8 \<Rightarrow> u8 \<Rightarrow> bool" where
  "block_selected hash_type value_type \<longleftrightarrow>
     hash_type = ALL_MEASUREMENTS_HASH \<or>
     value_type AND SPDM_MEASUREMENT_BLOCK_MEASUREMENT_TYPE_MASK =
       SPDM_MEASUREMENT_BLOCK_MEASUREMENT_TYPE_IMMUTABLE_ROM"

fun gather_blocks ::
  "u16 \<Rightarrow> u8 \<Rightarrow> nat \<Rightarrow> nat \<Rightarrow> bytes \<Rightarrow> nat \<Rightarrow> bytes \<Rightarrow> fault + (nat \<times> bytes)" where
  "gather_blocks ver hash_type 0 off m data_size data = Inr (data_size, data)"
| "gather_blocks ver hash_type (Suc k) off m data_size data =
     and_then (get_u16 (off + 2) m) (\<lambda>measurement_size.
     and_then (get_u8 (off + 4) m) (\<lambda>value_type.
     let block_size = sizeof_common_header + unat measurement_size in
     if block_selected hash_type value_type then
       if ver < push_bit SPDM_VERSION_NUMBER_SHIFT_BIT SPDM_MESSAGE_VERSION_12 then
         and_then (peek m (off + sizeof_common_header) (unat measurement_size)) (\<lambda>b.
         and_then (poke data data_size b) (\<lambda>data.
         gather_blocks ver hash_type k (off + block_size) m
           (data_size + unat measurement_size) data))
       else
         and_then (peek m off block_size) (\<lambda>b.
         and_then (poke data data_size b) (\<lambda>data.
         gather_blocks ver hash_type k (off + block_size) m (data_size + block_size) data))
     else gather_blocks ver hash_type k (off + block_size) m data_size data))"

text \<open>
  \<open>measurement_data\<close> and \<open>device_measurement\<close> are the two stack arrays of
  \<open>LIBSPDM_MAX_MEASUREMENT_RECORD_SIZE\<close> bytes with their unspecified initial contents; the
  result holds the caller's \<open>measurement_summary_hash\<close> buffer.
\<close>

definition libspdm_generate_measurement_summary_hash ::
  "bool \<Rightarrow> crypt_lib \<Rightarrow> bytes \<Rightarrow> bytes \<Rightarrow> u16 \<Rightarrow> u32 \<Rightarrow> u8 \<Rightarrow> u32 \<Rightarrow> u8 \<Rightarrow> bytes \<Rightarrow> nat \<Rightarrow>
   fault + (bool \<times> bytes)" where
  "libspdm_generate_measurement_summary_hash asserts L measurement_data device_measurement
     ver base_hash_algo spec measurement_hash_algo hash_type summary_hash summary_hash_size =
     (if hash_type = NO_MEASUREMENT_SUMMARY_HASH then Inr (True, summary_hash)
      else if hash_type = TCB_COMPONENT_MEASUREMENT_HASH \<or> hash_type = ALL_MEASUREMENTS_HASH then
        if summary_hash_size \<noteq> get_hash_size L base_hash_algo then Inr (False, summary_hash)
        else
          and_then (libspdm_measurement_collection asserts L ver spec measurement_hash_algo 0xFF 0
             \<lparr>content_changed = None, measurements_count = 0, measurements = device_measurement,
              measurements_size = length device_measurement\<rparr>) (\<lambda>(status, out).
          if LIBSPDM_STATUS_IS_ERROR status then Inr (False, summary_hash)
          else
            let count = unat (measurements_count out) in
            and_then (check_block_sizes asserts count 0 0 (measurements out)) (\<lambda>data_size.
            and_then (assert_that asserts (data_size \<le> length device_measurement)) (\<lambda>_.
            and_then (gather_blocks ver hash_type count 0 (measurements out) 0 measurement_data)
              (\<lambda>(data_size, data).
            case hash_all L base_hash_algo (take data_size data) of
              None \<Rightarrow> Inr (False, summary_hash)
            | Some digest \<Rightarrow>
                and_then (poke summary_hash 0 digest) (\<lambda>h. Inr (True, h))))))
      else Inr (False, summary_hash))"

section \<open>Walking an encoded record\<close>

lemma get_u16_sizes:
  "get_u16 (length pre + 2) (pre @ encode_block b @ rest) = Inr (of_nat (3 + length (blk_value b)))"
  "get_u16 (length pre + 5) (pre @ encode_block b @ rest) = Inr (of_nat (length (blk_value b)))"
  "get_u8 (length pre + 4) (pre @ encode_block b @ rest) = Inr (blk_type b)"
  by (simp_all add: get_u16_def get_u8_def peek_def encode_block_def le16_def)

lemma block_value_sizes:
  assumes "length (blk_value b) < 65533"
  shows "unat (of_nat (length (blk_value b)) :: u16) = length (blk_value b)"
    and "unat (of_nat (3 + length (blk_value b)) :: u16) = 3 + length (blk_value b)"
  using assms by (simp_all only: unat_of_nat_u16)

lemma check_block_sizes_encoded:
  assumes "\<And>b. b \<in> set bs \<Longrightarrow> length (blk_value b) < 65533"
  shows "check_block_sizes asserts (length bs) (length pre) d (pre @ encode_blocks bs @ rest) =
    Inr (d + (\<Sum>b\<leftarrow>bs. 3 + length (blk_value b)))"
  using assms
proof (induction bs arbitrary: pre d)
  case Nil
  then show ?case by simp
next
  case (Cons b bs)
  note sizes = block_value_sizes [of b, OF Cons.prems [of b]]
  have "check_block_sizes asserts (length bs) (length (pre @ encode_block b))
      (d + (3 + length (blk_value b))) ((pre @ encode_block b) @ encode_blocks bs @ rest) =
    Inr (d + (3 + length (blk_value b)) + (\<Sum>b\<leftarrow>bs. 3 + length (blk_value b)))"
    using Cons.prems by (intro Cons.IH) simp
  then show ?case
    using get_u16_sizes [of pre b "encode_blocks bs @ rest"] sizes
    by (simp add: add.assoc del: of_nat_add)
qed

text \<open>What is hashed: the selected blocks, without their common header before SPDM 1.2.\<close>

definition summary_part :: "u16 \<Rightarrow> u8 \<Rightarrow> dmtf_block \<Rightarrow> bytes" where
  "summary_part ver hash_type b =
     (if block_selected hash_type (blk_type b)
      then if ver < 0x1200 then drop 4 (encode_block b) else encode_block b
      else [])"

definition summary_input :: "u16 \<Rightarrow> u8 \<Rightarrow> dmtf_block list \<Rightarrow> bytes" where
  "summary_input ver hash_type bs = concat (map (summary_part ver hash_type) bs)"

lemma length_summary_part: "length (summary_part ver hash_type b) \<le> length (encode_block b)"
  by (simp add: summary_part_def)

lemma length_summary_input: "length (summary_input ver hash_type bs) \<le> length (encode_blocks bs)"
  by (induction bs)
    (auto simp: summary_input_def length_summary_part simp del: length_encode_block intro!: add_mono)

lemma peek_encoded:
  "peek (pre @ encode_block b @ rest) (length pre) (length (encode_block b)) = Inr (encode_block b)"
  "peek (pre @ encode_block b @ rest) (length pre + 4) (3 + length (blk_value b)) =
     Inr (drop 4 (encode_block b))"
  by (simp_all add: peek_def)

lemma gather_blocks_encoded:
  assumes "\<And>b. b \<in> set bs \<Longrightarrow> length (blk_value b) < 65533"
    and "d + length (summary_input ver hash_type bs) \<le> length data"
  shows "gather_blocks ver hash_type (length bs) (length pre) (pre @ encode_blocks bs @ rest) d data =
    Inr (d + length (summary_input ver hash_type bs),
         take d data @ summary_input ver hash_type bs @
         drop (d + length (summary_input ver hash_type bs)) data)"
  using assms
proof (induction bs arbitrary: pre d data)
  case Nil
  then show ?case by (simp add: summary_input_def)
next
  case (Cons b bs)
  let ?p = "summary_part ver hash_type b"
  let ?data = "take d data @ ?p @ drop (d + length ?p) data"
  have split: "summary_input ver hash_type (b # bs) = ?p @ summary_input ver hash_type bs"
    by (simp add: summary_input_def)
  note sizes = block_value_sizes [of b, OF Cons.prems(1) [of b]]
  have IH: "gather_blocks ver hash_type (length bs) (length (pre @ encode_block b))
      ((pre @ encode_block b) @ encode_blocks bs @ rest) (d + length ?p) ?data =
    Inr (d + length ?p + length (summary_input ver hash_type bs),
         take (d + length ?p) ?data @ summary_input ver hash_type bs @
         drop (d + length ?p + length (summary_input ver hash_type bs)) ?data)"
    using Cons.prems split by (intro Cons.IH) simp_all
  have poke: "poke data d ?p = Inr ?data"
    using Cons.prems(2) split by (simp add: poke_def)
  have "gather_blocks ver hash_type (length (b # bs)) (length pre)
      (pre @ encode_blocks (b # bs) @ rest) d data =
    gather_blocks ver hash_type (length bs) (length (pre @ encode_block b))
      ((pre @ encode_block b) @ encode_blocks bs @ rest) (d + length ?p) ?data"
    using get_u16_sizes [of pre b "encode_blocks bs @ rest"] sizes poke
      peek_encoded [of pre b "encode_blocks bs @ rest"]
    by (simp add: summary_part_def Let_def add.assoc del: of_nat_add split: if_splits)
  also note IH
  finally show ?case
    using Cons.prems(2) split
    by (simp add: add.assoc add.commute add.left_commute del: gather_blocks.simps)
qed

section \<open>Properties\<close>

lemma collected_record:
  assumes "digest_contract L" and "algo \<noteq> 0" and "get_measurement_hash_size L algo \<noteq> 0"
    and "device_blocks L (use_bit_stream_for algo 0) algo = Some bs"
    and "length (encode_blocks bs) \<le> length dm"
  shows "libspdm_measurement_collection asserts L ver 1 algo 0xFF 0
      \<lparr>content_changed = None, measurements_count = 0, measurements = dm,
       measurements_size = length dm\<rparr> =
    Inr (LIBSPDM_STATUS_SUCCESS,
      \<lparr>content_changed = None, measurements_count = 7,
       measurements = encode_blocks bs @ drop (length (encode_blocks bs)) dm,
       measurements_size = length (encode_blocks bs)\<rparr>)"
  using assms(2,3,5) collect_all_ok [OF assms(1,4),
      of "\<lparr>content_changed = None, measurements_count = 0, measurements = dm,
           measurements_size = length dm\<rparr>" asserts ver 0]
  by (simp add: libspdm_measurement_collection_def Let_def successful_return_def)

lemma sum_value_sizes: "(\<Sum>b\<leftarrow>bs. 3 + length (blk_value b)) \<le> length (encode_blocks bs)"
  by (induction bs) auto

text \<open>
  The content of the two summaries: for the "TCB components" the first block of the device, the immutable ROM with index 1,
  and for "all measurements" every block.
\<close>

definition summary_content :: "u16 \<Rightarrow> u8 \<Rightarrow> dmtf_block list \<Rightarrow> bytes" where
  "summary_content ver hash_type bs =
     concat (map (\<lambda>b. if ver < 0x1200 then drop 4 (encode_block b) else encode_block b)
       (if hash_type = TCB_COMPONENT_MEASUREMENT_HASH then [hd bs] else bs))"

lemma summary_input_content:
  assumes "device_blocks L ubs algo = Some bs" and "hash_type = TCB_COMPONENT_MEASUREMENT_HASH \<or> hash_type = ALL_MEASUREMENTS_HASH"
  shows "summary_input ver hash_type bs = summary_content ver hash_type bs" "blk_index (hd bs) = 1"
proof -
  obtain b1 b2 b3 b4 where ib: "image_block L ubs algo 1 = Some b1" "image_block L ubs algo 2 = Some b2"
    "image_block L ubs algo 3 = Some b3" "image_block L ubs algo 4 = Some b4"
    and bs: "bs = [b1, b2, b3, b4] @ fixed_blocks"
    using assms(1) by (auto simp: device_blocks_def split: option.splits)
  then show "summary_input ver hash_type bs = summary_content ver hash_type bs"
    using assms(2)
    by (auto simp: summary_input_def summary_content_def summary_part_def block_selected_def fixed_blocks_def
        image_block_def split: if_splits)
  show "blk_index (hd bs) = 1"
    using ib(1) bs by (auto simp: image_block_def split: if_splits)
qed

text \<open>
  C6: The measurement summary hash is the digest of the blocks of the device's record that the type of the summary
  covers, in order (the first block alone, which is the immutable ROM with index 1, or all of them), with or without the common block header as
  the SPDM version requires; the function fails exactly when the digest does.
\<close>

theorem summary_hash_correct:
  assumes "digest_contract L" and "algo \<noteq> 0" and "get_measurement_hash_size L algo \<noteq> 0"
    and "device_blocks L (use_bit_stream_for algo 0) algo = Some bs"
    and "total_size_all (use_bit_stream_for algo 0) (get_measurement_hash_size L algo)
           \<le> length device_measurement"
    and "length measurement_data = length device_measurement"
    and "hash_type = TCB_COMPONENT_MEASUREMENT_HASH \<or> hash_type = ALL_MEASUREMENTS_HASH"
    and "get_hash_size L base \<le> length summary_hash"
  shows "libspdm_generate_measurement_summary_hash asserts L measurement_data device_measurement
      ver base SPDM_MEASUREMENT_BLOCK_HEADER_SPECIFICATION_DMTF algo hash_type
      summary_hash (get_hash_size L base) =
    Inr (case hash_all L base (summary_content ver hash_type bs) of
           None \<Rightarrow> (False, summary_hash)
         | Some digest \<Rightarrow> (True, digest @ drop (length digest) summary_hash)) \<and> blk_index (hd bs) = 1"
proof -
  have size: "length (encode_blocks bs) \<le> length device_measurement"
    using device_blocks_size [OF assms(1,4)] assms(5) by simp
  have small: "\<And>b. b \<in> set bs \<Longrightarrow> length (blk_value b) < 65533"
    using device_blocks_small [OF assms(1) bit_stream_or_hash assms(4)] .
  let ?rec = "encode_blocks bs @ drop (length (encode_blocks bs)) device_measurement"
  have check: "check_block_sizes asserts 7 0 0 ?rec = Inr (\<Sum>b\<leftarrow>bs. 3 + length (blk_value b))"
    using check_block_sizes_encoded [OF small, of bs asserts "[]" 0] device_blocks_length [OF assms(4)]
    by simp
  have gather: "gather_blocks ver hash_type 7 0 ?rec 0 measurement_data =
      Inr (length (summary_input ver hash_type bs),
           summary_input ver hash_type bs @
           drop (length (summary_input ver hash_type bs)) measurement_data)"
    using gather_blocks_encoded [OF small, of bs 0 ver hash_type measurement_data "[]"] size assms(6)
      length_summary_input [of ver hash_type bs] device_blocks_length [OF assms(4)] by simp
  have digest: "length h = get_hash_size L base" if "hash_all L base d = Some h" for d h
    using assms(1) that by (simp add: digest_contract_def)
  note content = summary_input_content [OF assms(4,7)]
  show ?thesis
    unfolding content(1) [of ver, symmetric] using content(2) assms(7,8) size collected_record [OF assms(1-4) size, of asserts ver] check gather
      sum_value_sizes [of bs]
    by (auto simp: libspdm_generate_measurement_summary_hash_def LIBSPDM_STATUS_IS_ERROR_def
        assert_that_def poke_def digest split: option.splits)
qed

theorem summary_hash_correct_witness:
  "\<exists>bs. device_blocks demo_lib (use_bit_stream_for 2 0) 2 = Some bs \<and>
     libspdm_generate_measurement_summary_hash True demo_lib (replicate 512 0) (replicate 512 0)
       0x1200 1 SPDM_MEASUREMENT_BLOCK_HEADER_SPECIFICATION_DMTF 2 0xFF (replicate 64 0) 32 =
     Inr (True, take 32 (summary_content 0x1200 0xFF bs @ replicate 32 0) @ replicate 32 0)"
  using summary_hash_correct [where asserts = True and base = 1 and ver = "0x1200"
      and device_measurement = "replicate 512 0" and measurement_data = "replicate 512 0"
      and hash_type = "0xFF" and summary_hash = "replicate 64 0",
      OF demo_lib_contract _ _ demo_lib_blocks] demo_lib_blocks
  by (auto simp: total_size_all_def use_bit_stream_for_def min_def)

end
