(* ===== verification/Spdm_Link.thy ===== *)
theory Spdm_Link
  imports Prelude
begin

text \<open>
  The hardware between the two processors, as the gateware wires it: five CSR registers on the
  RISC-V side (class \<open>LiteEthSPDMRX\<close>; their storage and the ports of \<open>processor4_wrapper\<close> in
  \<open>digilent_netfpga_sume.v\<close>), five AXI GPIO blocks on the MicroBlaze side and one FIFO behind four
  two-way multiplexers (block design in \<open>digilent_netfpga_sume.tcl\<close>, multiplexers in
  \<open>bit_mux_2to1.vhd\<close> and \<open>mux_2to1.vhd\<close>).

  Bits of the register \<open>SPDM_FIFO\<close>: 0 write enable, 1 read enable, 2 clock (requester side of the
  multiplexers), 3 signal to the responder, 4 selects who drives the read enable, 5 is not stored but
  shows the signal from the responder, 6 selects who drives the data and the write enable, 7 selects
  who drives the clock.  A selector of 1 gives the FIFO input to the responder.

  The FIFO itself is vendor IP: its state type and its two operations are parameters.
\<close>

section \<open>The FIFO core and its contract\<close>

record 'f fifo_ip =
  clk_edge :: "bool \<Rightarrow> bool \<Rightarrow> u32 \<Rightarrow> 'f \<Rightarrow> 'f"
  dout :: "'f \<Rightarrow> u32"

text \<open>
  The documented behaviour of a first-word-fall-through FIFO of the given depth, over the list of
  words it holds: a clock edge with write enable appends the input, one with read enable drops the
  oldest word, the output shows the oldest word.
\<close>

definition fwft_fifo :: "'f fifo_ip \<Rightarrow> ('f \<Rightarrow> u32 list) \<Rightarrow> nat \<Rightarrow> bool" where
  "fwft_fifo F c depth \<longleftrightarrow>
     (\<forall>f d. length (c f) < depth \<longrightarrow> c (clk_edge F True False d f) = c f @ [d]) \<and>
     (\<forall>f d. c (clk_edge F False True d f) = tl (c f)) \<and>
     (\<forall>f d. c (clk_edge F False False d f) = c f) \<and>
     (\<forall>f. c f \<noteq> [] \<longrightarrow> dout F f = hd (c f))"

section \<open>State of the link\<close>

record 'f link =
  SPDM_register :: u32
  SPDM_requester_control :: u32
  SPDM_FIFO :: u8
  gpio_packet_2 :: u32
  gpio_counter_2 :: u32
  gpio_fifo_1 :: bool
  gpio_fifo_2 :: bool
  gpio_clk_1 :: bool
  gpio_mux_2 :: bool
  fifo :: 'f

definition bit_mux_2to1 :: "bool \<Rightarrow> bool \<Rightarrow> bool \<Rightarrow> bool" where
  "bit_mux_2to1 a b selector = (if selector then b else a)"

definition mux_2to1 :: "u32 \<Rightarrow> u32 \<Rightarrow> bool \<Rightarrow> u32" where
  "mux_2to1 a b selector = (if selector then b else a)"

definition fifo_wr_en :: "'f link \<Rightarrow> bool" where
  "fifo_wr_en l = bit_mux_2to1 (bit (SPDM_FIFO l) 0) (gpio_fifo_1 l) (bit (SPDM_FIFO l) 6)"

definition fifo_rd_en :: "'f link \<Rightarrow> bool" where
  "fifo_rd_en l = bit_mux_2to1 (bit (SPDM_FIFO l) 1) (gpio_fifo_2 l) (bit (SPDM_FIFO l) 4)"

definition fifo_clk :: "'f link \<Rightarrow> bool" where
  "fifo_clk l = bit_mux_2to1 (bit (SPDM_FIFO l) 2) (gpio_clk_1 l) (bit (SPDM_FIFO l) 7)"

definition fifo_din :: "'f link \<Rightarrow> u32" where
  "fifo_din l = mux_2to1 (SPDM_register l) (gpio_packet_2 l) (bit (SPDM_FIFO l) 6)"

text \<open>A change of the registers clocks the FIFO exactly when it raises the selected clock.\<close>

definition settle :: "'f fifo_ip \<Rightarrow> 'f link \<Rightarrow> 'f link \<Rightarrow> 'f link" where
  "settle F old new =
     (if \<not> fifo_clk old \<and> fifo_clk new
      then new\<lparr>fifo := clk_edge F (fifo_wr_en new) (fifo_rd_en new) (fifo_din new) (fifo new)\<rparr>
      else new)"

section \<open>Register accesses of the requester\<close>

definition register_write :: "'f fifo_ip \<Rightarrow> u32 \<Rightarrow> 'f link \<Rightarrow> 'f link" where
  "register_write F v l = settle F l (l\<lparr>SPDM_register := v\<rparr>)"

definition requester_control_write :: "'f fifo_ip \<Rightarrow> u32 \<Rightarrow> 'f link \<Rightarrow> 'f link" where
  "requester_control_write F v l = settle F l (l\<lparr>SPDM_requester_control := v\<rparr>)"

definition FIFO_write :: "'f fifo_ip \<Rightarrow> u8 \<Rightarrow> 'f link \<Rightarrow> 'f link" where
  "FIFO_write F v l = settle F l (l\<lparr>SPDM_FIFO := v\<rparr>)"

definition FIFO_read :: "'f link \<Rightarrow> u8" where
  "FIFO_read l = (SPDM_FIFO l AND 0xDF) OR (if gpio_mux_2 l then 0x20 else 0)"

definition register_2_read :: "'f fifo_ip \<Rightarrow> 'f link \<Rightarrow> u32" where
  "register_2_read F l = dout F (fifo l)"

definition responder_control_read :: "'f link \<Rightarrow> u32" where
  "responder_control_read l = gpio_counter_2 l"

section \<open>GPIO accesses of the responder\<close>

datatype gpio = Gpio_packet | Gpio_counter | Gpio_fifo | Gpio_clk | Gpio_mux

text \<open>One-bit outputs keep the lowest bit of the written value.\<close>

definition XGpio_DiscreteWrite :: "'f fifo_ip \<Rightarrow> gpio \<Rightarrow> nat \<Rightarrow> u32 \<Rightarrow> 'f link \<Rightarrow> 'f link" where
  "XGpio_DiscreteWrite F g ch v l = settle F l
     (case (g, ch) of
        (Gpio_packet, Suc (Suc 0)) \<Rightarrow> l\<lparr>gpio_packet_2 := v\<rparr>
      | (Gpio_counter, Suc (Suc 0)) \<Rightarrow> l\<lparr>gpio_counter_2 := v\<rparr>
      | (Gpio_fifo, Suc 0) \<Rightarrow> l\<lparr>gpio_fifo_1 := bit v 0\<rparr>
      | (Gpio_fifo, Suc (Suc 0)) \<Rightarrow> l\<lparr>gpio_fifo_2 := bit v 0\<rparr>
      | (Gpio_clk, Suc 0) \<Rightarrow> l\<lparr>gpio_clk_1 := bit v 0\<rparr>
      | (Gpio_mux, Suc (Suc 0)) \<Rightarrow> l\<lparr>gpio_mux_2 := bit v 0\<rparr>
      | _ \<Rightarrow> l)"

definition XGpio_DiscreteRead :: "'f fifo_ip \<Rightarrow> gpio \<Rightarrow> nat \<Rightarrow> 'f link \<Rightarrow> u32" where
  "XGpio_DiscreteRead F g ch l =
     (case (g, ch) of
        (Gpio_packet, Suc 0) \<Rightarrow> dout F (fifo l)
      | (Gpio_counter, Suc 0) \<Rightarrow> SPDM_requester_control l
      | (Gpio_mux, Suc 0) \<Rightarrow> of_bool (bit (SPDM_FIFO l) 3)
      | _ \<Rightarrow> 0)"

lemmas link_wires = fifo_wr_en_def fifo_rd_en_def fifo_clk_def fifo_din_def
  bit_mux_2to1_def mux_2to1_def

lemma gpio_writes:
  "XGpio_DiscreteWrite F Gpio_packet 2 v l = settle F l (l\<lparr>gpio_packet_2 := v\<rparr>)"
  "XGpio_DiscreteWrite F Gpio_counter 2 v l = settle F l (l\<lparr>gpio_counter_2 := v\<rparr>)"
  "XGpio_DiscreteWrite F Gpio_fifo 1 v l = settle F l (l\<lparr>gpio_fifo_1 := bit v 0\<rparr>)"
  "XGpio_DiscreteWrite F Gpio_fifo 2 v l = settle F l (l\<lparr>gpio_fifo_2 := bit v 0\<rparr>)"
  "XGpio_DiscreteWrite F Gpio_clk 1 v l = settle F l (l\<lparr>gpio_clk_1 := bit v 0\<rparr>)"
  "XGpio_DiscreteWrite F Gpio_mux 2 v l = settle F l (l\<lparr>gpio_mux_2 := bit v 0\<rparr>)"
  by (simp_all add: XGpio_DiscreteWrite_def numeral_2_eq_2)

lemmas gpio_writes_Suc = gpio_writes(3,5) [unfolded One_nat_def]

lemma gpio_reads:
  "XGpio_DiscreteRead F Gpio_packet 1 l = dout F (fifo l)"
  "XGpio_DiscreteRead F Gpio_counter 1 l = SPDM_requester_control l"
  "XGpio_DiscreteRead F Gpio_mux 1 l = of_bool (bit (SPDM_FIFO l) 3)"
  by (simp_all add: XGpio_DiscreteRead_def)

lemmas gpio_reads_Suc = gpio_reads [unfolded One_nat_def]

lemmas link_ops = register_write_def requester_control_write_def FIFO_write_def
  gpio_writes gpio_writes_Suc settle_def link_wires

lemmas link_reads = FIFO_read_def register_2_read_def responder_control_read_def
  gpio_reads gpio_reads_Suc

lemma byte_through_fifo [simp]: "ucast (ucast b :: u32) = (b :: u8)"
  by (rule bit_word_eqI) (simp add: bit_simps)

section \<open>A reference FIFO\<close>

text \<open>
  A list of at most 8192 words, the depth of the block design, with words written to a full FIFO
  dropped; it satisfies the contract.
\<close>

definition list_fifo :: "u32 list fifo_ip" where
  "list_fifo =
     \<lparr>clk_edge = (\<lambda>wr rd d f. (if rd then tl f else f) @ (if wr \<and> length f < 8192 then [d] else [])),
      dout = (\<lambda>f. if f = [] then 0 else hd f)\<rparr>"

lemma list_fifo_contract: "fwft_fifo list_fifo (\<lambda>f. f) 8192"
  by (simp add: fwft_fifo_def list_fifo_def)

end
