(* ===== verification/Transport.thy ===== *)
theory Transport
  imports Spdm_Link
begin

text \<open>
  The device I/O functions that libspdm calls on both ends of the link:
  \<open>spdm_requester_send_message\<close> and \<open>spdm_requester_receive_message\<close> of the BIOS
  (\<open>bios/spdm_requester.c\<close>), \<open>spdm_responder_send_message\<close> and \<open>spdm_responder_receive_message\<close> of
  the MicroBlaze firmware (\<open>Microblaze/requester.c\<close>), and the buffers both hand to libspdm.

  A polling loop reads the link again and again while the other processor runs: it is given the
  states of the link at its successive polls and is still waiting (\<open>None\<close>) when they run out.
\<close>

section \<open>Polling and the message buffer\<close>

fun wait_for :: "('s \<Rightarrow> bool) \<Rightarrow> 's list \<Rightarrow> 's option" where
  "wait_for P [] = None"
| "wait_for P (s # ss) = (if P s then Some s else wait_for P ss)"

text \<open>The static buffer \<open>m_send_receive_buffer\<close> and its flag.\<close>

record msg_buffer =
  m_send_receive_buffer :: bytes
  m_send_receive_buffer_acquired :: bool

definition spdm_device_acquire_sender_buffer :: "msg_buffer \<Rightarrow> nat \<times> bytes \<times> msg_buffer" where
  "spdm_device_acquire_sender_buffer b =
     (length (m_send_receive_buffer b), m_send_receive_buffer b,
      b\<lparr>m_send_receive_buffer_acquired := True\<rparr>)"

definition spdm_device_release_sender_buffer :: "msg_buffer \<Rightarrow> msg_buffer" where
  "spdm_device_release_sender_buffer b = b\<lparr>m_send_receive_buffer_acquired := False\<rparr>"

definition spdm_device_acquire_receiver_buffer :: "msg_buffer \<Rightarrow> nat \<times> bytes \<times> msg_buffer" where
  "spdm_device_acquire_receiver_buffer b =
     (length (m_send_receive_buffer b), m_send_receive_buffer b,
      b\<lparr>m_send_receive_buffer_acquired := True\<rparr>)"

definition spdm_device_release_receiver_buffer :: "msg_buffer \<Rightarrow> msg_buffer" where
  "spdm_device_release_receiver_buffer b = b\<lparr>m_send_receive_buffer_acquired := False\<rparr>"

section \<open>The requester's side\<close>

text \<open>
  What a send returns: \<open>Status_Success\<close>, or \<open>Status_Indeterminate\<close> where the C function leaves a
  non-void function with a bare \<open>return\<close>.
\<close>

datatype send_status = Status_Success | Status_Indeterminate

definition responder_execution_set :: "'f link \<Rightarrow> bool" where
  "responder_execution_set l \<longleftrightarrow> FIFO_read l AND 0x20 = 0x20"

fun requester_push :: "'f fifo_ip \<Rightarrow> bytes \<Rightarrow> 'f link \<Rightarrow> 'f link" where
  "requester_push F [] l = l"
| "requester_push F (b # bs) l =
     requester_push F bs
       (FIFO_write F 0x01 (FIFO_write F 0x05 (register_write F (ucast b) l)))"

definition requester_send_burst :: "'f fifo_ip \<Rightarrow> bool \<Rightarrow> bytes \<Rightarrow> 'f link \<Rightarrow> send_status \<times> 'f link" where
  "requester_send_burst F malloc_ok message l =
     (let l = requester_control_write F (of_nat (length message)) l in
      if \<not> malloc_ok then (Status_Indeterminate, l)
      else (Status_Success,
            FIFO_write F 0xF8 (requester_push F message (FIFO_write F 0x01 l))))"

definition spdm_requester_send_message ::
  "'f fifo_ip \<Rightarrow> bool \<Rightarrow> 'f link list \<Rightarrow> bytes \<Rightarrow> (send_status \<times> 'f link) option" where
  "spdm_requester_send_message F malloc_ok polls message =
     map_option (requester_send_burst F malloc_ok message) (wait_for responder_execution_set polls)"

text \<open>The receive loop stores into the static buffer with no check against its size.\<close>

fun requester_pull ::
  "'f fifo_ip \<Rightarrow> nat \<Rightarrow> nat \<Rightarrow> bytes \<Rightarrow> 'f link \<Rightarrow> fault + (bytes \<times> 'f link)" where
  "requester_pull F 0 i buf l = Inr (buf, l)"
| "requester_pull F (Suc n) i buf l =
     and_then (poke buf i [ucast (register_2_read F l)]) (\<lambda>buf.
       requester_pull F n (Suc i) buf (FIFO_write F 0x02 (FIFO_write F 0x06 l)))"

definition requester_receive_burst ::
  "'f fifo_ip \<Rightarrow> bytes \<Rightarrow> 'f link \<Rightarrow> fault + (nat \<times> bytes \<times> 'f link)" where
  "requester_receive_burst F buf l =
     (let l = FIFO_write F 0x02 l;
          message_size = unat (responder_control_read l) in
      and_then (requester_pull F message_size 0 buf l) (\<lambda>(buf, l). Inr (message_size, buf, l)))"

definition spdm_requester_receive_message ::
  "'f fifo_ip \<Rightarrow> 'f link list \<Rightarrow> bytes \<Rightarrow> (fault + (nat \<times> bytes \<times> 'f link)) option" where
  "spdm_requester_receive_message F polls buf =
     map_option (requester_receive_burst F buf) (wait_for responder_execution_set polls)"

section \<open>The responder's side\<close>

fun responder_push :: "'f fifo_ip \<Rightarrow> bytes \<Rightarrow> 'f link \<Rightarrow> 'f link" where
  "responder_push F [] l = l"
| "responder_push F (b # bs) l =
     responder_push F bs
       (XGpio_DiscreteWrite F Gpio_clk 1 0 (XGpio_DiscreteWrite F Gpio_clk 1 1
         (XGpio_DiscreteWrite F Gpio_packet 2 (ucast b) l)))"

text \<open>
  On a failed allocation the C function returns \<open>false\<close>, the number 0, which as a
  \<open>libspdm_return_t\<close> is success.
\<close>

definition spdm_responder_send_message ::
  "'f fifo_ip \<Rightarrow> bool \<Rightarrow> bytes \<Rightarrow> 'f link \<Rightarrow> send_status \<times> 'f link" where
  "spdm_responder_send_message F malloc_ok message l =
     (if \<not> malloc_ok then (Status_Success, l)
      else
        let l = XGpio_DiscreteWrite F Gpio_counter 2 (of_nat (length message)) l;
            l = XGpio_DiscreteWrite F Gpio_fifo 1 1 l;
            l = responder_push F message l;
            l = XGpio_DiscreteWrite F Gpio_fifo 1 0 l in
        (Status_Success, XGpio_DiscreteWrite F Gpio_mux 2 1 l))"

definition requester_writing_set :: "'f fifo_ip \<Rightarrow> 'f link \<Rightarrow> bool" where
  "requester_writing_set F l \<longleftrightarrow> XGpio_DiscreteRead F Gpio_mux 1 l \<noteq> 0"

fun responder_pull ::
  "'f fifo_ip \<Rightarrow> nat \<Rightarrow> nat \<Rightarrow> bytes \<Rightarrow> 'f link \<Rightarrow> fault + (bytes \<times> 'f link)" where
  "responder_pull F 0 i buf l = Inr (buf, l)"
| "responder_pull F (Suc n) i buf l =
     and_then (poke buf i [ucast (XGpio_DiscreteRead F Gpio_packet 1 l)]) (\<lambda>buf.
       responder_pull F n (Suc i) buf
         (XGpio_DiscreteWrite F Gpio_clk 1 0 (XGpio_DiscreteWrite F Gpio_clk 1 1 l)))"

definition responder_receive_burst ::
  "'f fifo_ip \<Rightarrow> bytes \<Rightarrow> 'f link \<Rightarrow> fault + (nat \<times> bytes \<times> 'f link)" where
  "responder_receive_burst F buf l =
     (let l = XGpio_DiscreteWrite F Gpio_mux 2 0 l;
          message_size = unat (XGpio_DiscreteRead F Gpio_counter 1 l);
          l = XGpio_DiscreteWrite F Gpio_fifo 2 1 l in
      and_then (responder_pull F message_size 0 buf l) (\<lambda>(buf, l).
        Inr (message_size, buf, XGpio_DiscreteWrite F Gpio_fifo 2 0 l)))"

definition spdm_responder_receive_message ::
  "'f fifo_ip \<Rightarrow> 'f link list \<Rightarrow> bytes \<Rightarrow> (fault + (nat \<times> bytes \<times> 'f link)) option" where
  "spdm_responder_receive_message F polls buf =
     map_option (responder_receive_burst F buf) (wait_for (requester_writing_set F) polls)"

section \<open>The channel over a FIFO that meets its contract\<close>

text \<open>
  \<open>phase c r ws ready wr rd l\<close>: the control register holds \<open>r\<close>, the FIFO the words \<open>ws\<close>, the
  responder shows \<open>ready\<close> to the requester and drives its write and read enables as \<open>wr\<close> and \<open>rd\<close>,
  and its clock is low.
\<close>

definition phase ::
  "('f \<Rightarrow> u32 list) \<Rightarrow> u8 \<Rightarrow> u32 list \<Rightarrow> bool \<Rightarrow> bool \<Rightarrow> bool \<Rightarrow> 'f link \<Rightarrow> bool" where
  "phase c r ws ready wr rd l \<longleftrightarrow>
     SPDM_FIFO l = r \<and> c (fifo l) = ws \<and> gpio_mux_2 l = ready \<and>
     gpio_fifo_1 l = wr \<and> gpio_fifo_2 l = rd \<and> \<not> gpio_clk_1 l"

text \<open>Before a request: empty FIFO, the responder ready, no clock high.\<close>

definition link_idle :: "('f \<Rightarrow> u32 list) \<Rightarrow> 'f link \<Rightarrow> bool" where
  "link_idle c l \<longleftrightarrow> phase c (SPDM_FIFO l) [] True False False l \<and> \<not> fifo_clk l"

text \<open>While the responder works: empty FIFO in its hands, its ready signal withdrawn.\<close>

definition link_busy :: "('f \<Rightarrow> u32 list) \<Rightarrow> 'f link \<Rightarrow> bool" where
  "link_busy c l \<longleftrightarrow> phase c 0xF8 [] False False False l"

lemma store_one:
  assumes "i < length buf"
  shows "take (Suc i) (take i buf @ [b] @ drop (Suc i) buf) = take i buf @ [b]"
    and "drop (Suc i + k) (take i buf @ [b] @ drop (Suc i) buf) = drop (Suc i + k) buf"
  using assms by (simp_all add: add.commute)

locale fifo_hw =
  fixes F :: "'f fifo_ip" and c :: "'f \<Rightarrow> u32 list" and depth :: nat
  assumes contract: "fwft_fifo F c depth"
begin

lemma fifo_laws:
  "length (c f) < depth \<Longrightarrow> c (clk_edge F True False d f) = c f @ [d]"
  "c (clk_edge F False True d f) = tl (c f)"
  "c (clk_edge F False False d f) = c f"
  "c f \<noteq> [] \<Longrightarrow> dout F f = hd (c f)"
  using contract by (simp_all add: fwft_fifo_def)

lemma requester_push_phase:
  assumes "phase c 0x01 ws ready False False l" and "length ws + length bs \<le> depth"
  shows "phase c 0x01 (ws @ map ucast bs) ready False False (requester_push F bs l) \<and>
    SPDM_requester_control (requester_push F bs l) = SPDM_requester_control l"
  using assms
proof (induction bs arbitrary: ws l)
  case Nil
  then show ?case by simp
next
  case (Cons b bs)
  let ?l = "FIFO_write F 0x01 (FIFO_write F 0x05 (register_write F (ucast b) l))"
  have "phase c 0x01 (ws @ [ucast b]) ready False False ?l"
    "SPDM_requester_control ?l = SPDM_requester_control l"
    using Cons.prems by (simp_all add: phase_def link_ops fifo_laws)
  with Cons.IH [of "ws @ [ucast b]" ?l] Cons.prems(2) show ?case by simp
qed

lemma requester_send_phase:
  assumes "link_idle c l" and "length message \<le> depth"
  shows "phase c 0xF8 (map ucast message) True False False
      (snd (requester_send_burst F True message l)) \<and>
    SPDM_requester_control (snd (requester_send_burst F True message l)) = of_nat (length message)"
proof -
  let ?l = "FIFO_write F 0x01 (requester_control_write F (of_nat (length message)) l)"
  have "phase c 0x01 [] True False False ?l"
    "SPDM_requester_control ?l = of_nat (length message)"
    using assms(1) by (auto simp: link_idle_def phase_def link_ops)
  with requester_push_phase [of "[]" True ?l message] assms(2) show ?thesis
    by (simp add: requester_send_burst_def Let_def phase_def link_ops)
qed

lemma responder_pull_phase:
  assumes "phase c 0xF8 (map ucast bs) ready False True l" and "i + length bs \<le> length buf"
  shows "\<exists>l'. responder_pull F (length bs) i buf l =
      Inr (take i buf @ bs @ drop (i + length bs) buf, l') \<and>
    phase c 0xF8 [] ready False True l'"
  using assms
proof (induction bs arbitrary: i buf l)
  case Nil
  then show ?case by simp
next
  case (Cons b bs)
  let ?l = "XGpio_DiscreteWrite F Gpio_clk 1 0 (XGpio_DiscreteWrite F Gpio_clk 1 1 l)"
  let ?buf = "take i buf @ [b] @ drop (Suc i) buf"
  have "phase c 0xF8 (map ucast bs) ready False True ?l"
    using Cons.prems(1) by (simp add: phase_def link_ops fifo_laws)
  moreover have "Suc i + length bs \<le> length ?buf"
    using Cons.prems(2) by simp
  ultimately obtain l' where pull: "responder_pull F (length bs) (Suc i) ?buf ?l =
      Inr (take (Suc i) ?buf @ bs @ drop (Suc i + length bs) ?buf, l')"
    and l': "phase c 0xF8 [] ready False True l'"
    using Cons.IH [of ?l "Suc i" ?buf] by blast
  have "poke buf i [ucast (XGpio_DiscreteRead F Gpio_packet 1 l)] = Inr ?buf"
    using Cons.prems by (simp add: poke_def link_reads phase_def fifo_laws)
  moreover have "take (Suc i) ?buf @ bs @ drop (Suc i + length bs) ?buf =
      take i buf @ (b # bs) @ drop (i + length (b # bs)) buf"
    using Cons.prems(2) store_one(2) [of i buf "length bs" b] by (simp add: add.commute)
  ultimately show ?case
    using pull l' by simp
qed

lemma responder_receive_phase:
  assumes "phase c 0xF8 (map ucast bs) True False False l"
    and "SPDM_requester_control l = of_nat (length bs)"
    and "length bs < 2 ^ 32" and "length bs \<le> length buf"
  shows "\<exists>l'. responder_receive_burst F buf l =
      Inr (length bs, bs @ drop (length bs) buf, l') \<and> link_busy c l'"
proof -
  let ?l = "XGpio_DiscreteWrite F Gpio_fifo 2 1 (XGpio_DiscreteWrite F Gpio_mux 2 0 l)"
  have "phase c 0xF8 (map ucast bs) False False True ?l"
    using assms(1) by (simp add: phase_def link_ops)
  then obtain l' where "responder_pull F (length bs) 0 buf ?l =
      Inr (bs @ drop (length bs) buf, l')" "phase c 0xF8 [] False False True l'"
    using responder_pull_phase [of bs False ?l 0 buf] assms(4) by auto
  moreover have "XGpio_DiscreteRead F Gpio_counter 1 (XGpio_DiscreteWrite F Gpio_mux 2 0 l) =
      of_nat (length bs)"
    using assms(1,2) by (simp add: link_reads link_ops phase_def)
  ultimately show ?thesis
    using assms(3)
    by (auto simp: responder_receive_burst_def Let_def unat_of_nat link_busy_def phase_def link_ops)
qed

lemma responder_push_phase:
  assumes "phase c 0xF8 ws ready True False l" and "length ws + length bs \<le> depth"
  shows "phase c 0xF8 (ws @ map ucast bs) ready True False (responder_push F bs l) \<and>
    gpio_counter_2 (responder_push F bs l) = gpio_counter_2 l"
  using assms
proof (induction bs arbitrary: ws l)
  case Nil
  then show ?case by simp
next
  case (Cons b bs)
  let ?l = "XGpio_DiscreteWrite F Gpio_clk 1 0 (XGpio_DiscreteWrite F Gpio_clk 1 1
    (XGpio_DiscreteWrite F Gpio_packet 2 (ucast b) l))"
  have "phase c 0xF8 (ws @ [ucast b]) ready True False ?l"
    "gpio_counter_2 ?l = gpio_counter_2 l"
    using Cons.prems by (simp_all add: phase_def link_ops fifo_laws)
  with Cons.IH [of "ws @ [ucast b]" ?l] Cons.prems(2) show ?case by simp
qed

lemma responder_send_phase:
  assumes "link_busy c l" and "length message \<le> depth"
  shows "phase c 0xF8 (map ucast message) True False False
      (snd (spdm_responder_send_message F True message l)) \<and>
    gpio_counter_2 (snd (spdm_responder_send_message F True message l)) = of_nat (length message)"
proof -
  let ?l = "XGpio_DiscreteWrite F Gpio_fifo 1 1
    (XGpio_DiscreteWrite F Gpio_counter 2 (of_nat (length message)) l)"
  have "phase c 0xF8 [] False True False ?l" "gpio_counter_2 ?l = of_nat (length message)"
    using assms(1) by (simp_all add: link_busy_def phase_def link_ops)
  with responder_push_phase [of "[]" False ?l message] assms(2) show ?thesis
    by (simp add: spdm_responder_send_message_def Let_def phase_def link_ops)
qed

lemma requester_pull_phase:
  assumes "phase c 0x02 (map ucast bs) ready False False l" and "i + length bs \<le> length buf"
  shows "\<exists>l'. requester_pull F (length bs) i buf l =
      Inr (take i buf @ bs @ drop (i + length bs) buf, l') \<and>
    phase c 0x02 [] ready False False l'"
  using assms
proof (induction bs arbitrary: i buf l)
  case Nil
  then show ?case by simp
next
  case (Cons b bs)
  let ?l = "FIFO_write F 0x02 (FIFO_write F 0x06 l)"
  let ?buf = "take i buf @ [b] @ drop (Suc i) buf"
  have "phase c 0x02 (map ucast bs) ready False False ?l"
    using Cons.prems(1) by (simp add: phase_def link_ops fifo_laws)
  moreover have "Suc i + length bs \<le> length ?buf"
    using Cons.prems(2) by simp
  ultimately obtain l' where pull: "requester_pull F (length bs) (Suc i) ?buf ?l =
      Inr (take (Suc i) ?buf @ bs @ drop (Suc i + length bs) ?buf, l')"
    and l': "phase c 0x02 [] ready False False l'"
    using Cons.IH [of ?l "Suc i" ?buf] by blast
  have "poke buf i [ucast (register_2_read F l)] = Inr ?buf"
    using Cons.prems by (simp add: poke_def register_2_read_def phase_def fifo_laws)
  moreover have "take (Suc i) ?buf @ bs @ drop (Suc i + length bs) ?buf =
      take i buf @ (b # bs) @ drop (i + length (b # bs)) buf"
    using Cons.prems(2) store_one(2) [of i buf "length bs" b] by (simp add: add.commute)
  ultimately show ?case
    using pull l' by simp
qed

lemma requester_receive_phase:
  assumes "phase c 0xF8 (map ucast bs) True False False l"
    and "gpio_counter_2 l = of_nat (length bs)"
    and "length bs < 2 ^ 32" and "length bs \<le> length buf"
  shows "\<exists>l'. requester_receive_burst F buf l =
      Inr (length bs, bs @ drop (length bs) buf, l') \<and> link_idle c l'"
proof -
  let ?l = "FIFO_write F 0x02 l"
  have "phase c 0x02 (map ucast bs) True False False ?l"
    using assms(1) by (simp add: phase_def link_ops)
  then obtain l' where "requester_pull F (length bs) 0 buf ?l =
      Inr (bs @ drop (length bs) buf, l')" "phase c 0x02 [] True False False l'"
    using requester_pull_phase [of bs True ?l 0 buf] assms(4) by auto
  moreover have "responder_control_read ?l = of_nat (length bs)"
    using assms(1,2) by (simp add: responder_control_read_def link_ops phase_def)
  ultimately show ?thesis
    using assms(3)
    by (auto simp: requester_receive_burst_def Let_def unat_of_nat link_idle_def phase_def
        fifo_clk_def bit_mux_2to1_def)
qed

end

end
