(* ===== verification/Handshake.thy ===== *)
theory Handshake
  imports Transport "HOL-Library.Sublist"
begin

text \<open>
  The two processors together: the requester alternates sends and receives (every libspdm request
  is one send followed by one receive), the responder alternates receives and sends
  (\<open>libspdm_responder_dispatch_message\<close>), and the only thing that orders them is the pair of
  signals on the link.  A step is one device I/O call that found its poll satisfied.

  The signals are levels, not events, so a poll can also see the level of the exchange before.  The
  flag \<open>timely\<close> of the step relation restricts the runs to those in which each receive is scheduled
  only when the message it waits for has been sent; without it every interleaving is possible.
\<close>

section \<open>The system and its steps\<close>

datatype requester_pc = Rq_Send | Rq_Receive
datatype responder_pc = Rs_Receive | Rs_Send

record 'f system =
  lnk :: "'f link"
  rq :: requester_pc
  rs :: responder_pc
  sent_requests :: "bytes list"
  got_requests :: "bytes list"
  sent_responses :: "bytes list"
  got_responses :: "bytes list"

definition system_start :: "'f link \<Rightarrow> 'f system" where
  "system_start l = \<lparr>lnk = l, rq = Rq_Send, rs = Rs_Receive, sent_requests = [],
     got_requests = [], sent_responses = [], got_responses = []\<rparr>"

text \<open>
  The parameters: the FIFO, the two static buffers as the last message left them, and a limit on the
  size of the messages.
\<close>

inductive handshake ::
  "'f fifo_ip \<Rightarrow> bytes \<Rightarrow> bytes \<Rightarrow> nat \<Rightarrow> bool \<Rightarrow> 'f system \<Rightarrow> 'f system \<Rightarrow> bool"
  for F rqbuf rsbuf limit timely where
  send_request:
    "rq s = Rq_Send \<Longrightarrow> length m \<le> limit \<Longrightarrow>
     spdm_requester_send_message F True [lnk s] m = Some (Status_Success, l') \<Longrightarrow>
     handshake F rqbuf rsbuf limit timely s
       (s\<lparr>lnk := l', rq := Rq_Receive, sent_requests := sent_requests s @ [m]\<rparr>)"
| receive_request:
    "rs s = Rs_Receive \<Longrightarrow>
     (timely \<Longrightarrow> length (got_requests s) < length (sent_requests s)) \<Longrightarrow>
     spdm_responder_receive_message F [lnk s] rsbuf = Some (Inr (n, buf, l')) \<Longrightarrow>
     handshake F rqbuf rsbuf limit timely s
       (s\<lparr>lnk := l', rs := Rs_Send, got_requests := got_requests s @ [take n buf]\<rparr>)"
| send_response:
    "rs s = Rs_Send \<Longrightarrow> length m \<le> limit \<Longrightarrow>
     spdm_responder_send_message F True m (lnk s) = (Status_Success, l') \<Longrightarrow>
     handshake F rqbuf rsbuf limit timely s
       (s\<lparr>lnk := l', rs := Rs_Receive, sent_responses := sent_responses s @ [m]\<rparr>)"
| receive_response:
    "rq s = Rq_Receive \<Longrightarrow>
     (timely \<Longrightarrow> length (got_responses s) < length (sent_responses s)) \<Longrightarrow>
     spdm_requester_receive_message F [lnk s] rqbuf = Some (Inr (n, buf, l')) \<Longrightarrow>
     handshake F rqbuf rsbuf limit timely s
       (s\<lparr>lnk := l', rq := Rq_Send, got_responses := got_responses s @ [take n buf]\<rparr>)"

inductive_cases handshakeE: "handshake F rqbuf rsbuf limit timely s t"

section \<open>The four phases of a timely exchange\<close>

definition at_rest :: "('f \<Rightarrow> u32 list) \<Rightarrow> 'f system \<Rightarrow> bool" where
  "at_rest c s \<longleftrightarrow> link_idle c (lnk s) \<and> rq s = Rq_Send \<and> rs s = Rs_Receive \<and>
     length (sent_requests s) = length (sent_responses s) \<and>
     got_requests s = sent_requests s \<and> got_responses s = sent_responses s"

definition request_pending :: "('f \<Rightarrow> u32 list) \<Rightarrow> nat \<Rightarrow> 'f system \<Rightarrow> bool" where
  "request_pending c limit s \<longleftrightarrow> rq s = Rq_Receive \<and> rs s = Rs_Receive \<and>
     length (sent_requests s) = Suc (length (sent_responses s)) \<and>
     sent_requests s \<noteq> [] \<and> got_requests s = butlast (sent_requests s) \<and>
     got_responses s = sent_responses s \<and>
     (let m = last (sent_requests s) in
        length m \<le> limit \<and> phase c 0xF8 (map ucast m) True False False (lnk s) \<and>
        SPDM_requester_control (lnk s) = of_nat (length m))"

definition responder_working :: "('f \<Rightarrow> u32 list) \<Rightarrow> 'f system \<Rightarrow> bool" where
  "responder_working c s \<longleftrightarrow> link_busy c (lnk s) \<and> rq s = Rq_Receive \<and> rs s = Rs_Send \<and>
     length (sent_requests s) = Suc (length (sent_responses s)) \<and>
     got_requests s = sent_requests s \<and> got_responses s = sent_responses s"

definition response_pending :: "('f \<Rightarrow> u32 list) \<Rightarrow> nat \<Rightarrow> 'f system \<Rightarrow> bool" where
  "response_pending c limit s \<longleftrightarrow> rq s = Rq_Receive \<and> rs s = Rs_Receive \<and>
     length (sent_requests s) = length (sent_responses s) \<and>
     got_requests s = sent_requests s \<and>
     sent_responses s \<noteq> [] \<and> got_responses s = butlast (sent_responses s) \<and>
     (let m = last (sent_responses s) in
        length m \<le> limit \<and> phase c 0xF8 (map ucast m) True False False (lnk s) \<and>
        gpio_counter_2 (lnk s) = of_nat (length m))"

definition exchange_inv :: "('f \<Rightarrow> u32 list) \<Rightarrow> nat \<Rightarrow> 'f system \<Rightarrow> bool" where
  "exchange_inv c limit s \<longleftrightarrow> at_rest c s \<or> request_pending c limit s \<or>
     responder_working c s \<or> response_pending c limit s"

lemmas exchange_phases = at_rest_def request_pending_def responder_working_def response_pending_def

lemma poll_ready: "gpio_mux_2 l \<Longrightarrow> wait_for responder_execution_set [l] = Some l"
  by (simp add: responder_execution_set_def FIFO_read_def bit.conj_disj_distrib2 and.assoc)

lemma poll_not_ready: "\<not> gpio_mux_2 l \<Longrightarrow> wait_for responder_execution_set [l] = None"
  by (simp add: responder_execution_set_def FIFO_read_def and.assoc)

lemma poll_writing: "SPDM_FIFO l = 0xF8 \<Longrightarrow> wait_for (requester_writing_set F) [l] = Some l"
  by (simp add: requester_writing_set_def link_reads)

lemma requester_send_status [simp]: "fst (requester_send_burst F True m l) = Status_Success"
  by (simp add: requester_send_burst_def Let_def)

lemma responder_send_status [simp]: "fst (spdm_responder_send_message F ok m l) = Status_Success"
  by (simp add: spdm_responder_send_message_def Let_def)

text \<open>The limit on messages that both ends and the FIFO can hold.\<close>

definition fits :: "nat \<Rightarrow> bytes \<Rightarrow> bytes \<Rightarrow> nat \<Rightarrow> bool" where
  "fits depth rqbuf rsbuf limit \<longleftrightarrow>
     limit \<le> depth \<and> limit \<le> length rqbuf \<and> limit \<le> length rsbuf \<and> limit < 2 ^ 32"

context fifo_hw
begin

lemma request_step:
  assumes "at_rest c s" and "length m \<le> limit" and "fits depth rqbuf rsbuf limit"
  obtains l' where "spdm_requester_send_message F True [lnk s] m = Some (Status_Success, l')"
    "request_pending c limit
      (s\<lparr>lnk := l', rq := Rq_Receive, sent_requests := sent_requests s @ [m]\<rparr>)"
proof
  let ?l = "snd (requester_send_burst F True m (lnk s))"
  show "spdm_requester_send_message F True [lnk s] m = Some (Status_Success, ?l)"
    using assms(1) poll_ready [of "lnk s"]
    by (simp add: spdm_requester_send_message_def at_rest_def link_idle_def phase_def prod_eq_iff)
  show "request_pending c limit
      (s\<lparr>lnk := ?l, rq := Rq_Receive, sent_requests := sent_requests s @ [m]\<rparr>)"
    using requester_send_phase [of "lnk s" m] assms
    by (simp add: exchange_phases fits_def)
qed

lemma receive_request_step:
  assumes "request_pending c limit s" and "fits depth rqbuf rsbuf limit"
  obtains n buf l' where
    "spdm_responder_receive_message F [lnk s] rsbuf = Some (Inr (n, buf, l'))"
    "responder_working c
      (s\<lparr>lnk := l', rs := Rs_Send, got_requests := got_requests s @ [take n buf]\<rparr>)"
proof -
  let ?m = "last (sent_requests s)"
  have p: "length ?m \<le> limit" "phase c 0xF8 (map ucast ?m) True False False (lnk s)"
    "SPDM_requester_control (lnk s) = of_nat (length ?m)"
    using assms(1) by (simp_all add: request_pending_def Let_def)
  moreover have "wait_for (requester_writing_set F) [lnk s] = Some (lnk s)"
    using p(2) by (simp add: poll_writing phase_def del: wait_for.simps)
  ultimately show ?thesis
    using that responder_receive_phase [of ?m "lnk s" rsbuf] assms
    by (auto simp: spdm_responder_receive_message_def exchange_phases fits_def
        simp del: wait_for.simps)
qed

lemma response_step:
  assumes "responder_working c s" and "length m \<le> limit" and "fits depth rqbuf rsbuf limit"
  obtains l' where "spdm_responder_send_message F True m (lnk s) = (Status_Success, l')"
    "response_pending c limit
      (s\<lparr>lnk := l', rs := Rs_Receive, sent_responses := sent_responses s @ [m]\<rparr>)"
proof
  let ?l = "snd (spdm_responder_send_message F True m (lnk s))"
  show "spdm_responder_send_message F True m (lnk s) = (Status_Success, ?l)"
    by (simp add: prod_eq_iff)
  show "response_pending c limit
      (s\<lparr>lnk := ?l, rs := Rs_Receive, sent_responses := sent_responses s @ [m]\<rparr>)"
    using responder_send_phase [of "lnk s" m] assms
    by (simp add: exchange_phases fits_def)
qed

lemma receive_response_step:
  assumes "response_pending c limit s" and "fits depth rqbuf rsbuf limit"
  obtains n buf l' where
    "spdm_requester_receive_message F [lnk s] rqbuf = Some (Inr (n, buf, l'))"
    "at_rest c
      (s\<lparr>lnk := l', rq := Rq_Send, got_responses := got_responses s @ [take n buf]\<rparr>)"
proof -
  let ?m = "last (sent_responses s)"
  have p: "length ?m \<le> limit" "phase c 0xF8 (map ucast ?m) True False False (lnk s)"
    "gpio_counter_2 (lnk s) = of_nat (length ?m)"
    using assms(1) by (simp_all add: response_pending_def Let_def)
  moreover have "wait_for responder_execution_set [lnk s] = Some (lnk s)"
    using p(2) by (simp add: poll_ready phase_def del: wait_for.simps)
  ultimately show ?thesis
    using that requester_receive_phase [of ?m "lnk s" rqbuf] assms
    by (auto simp: spdm_requester_receive_message_def exchange_phases fits_def
        simp del: wait_for.simps)
qed

lemma timely_step_inv:
  assumes "handshake F rqbuf rsbuf limit True s t" and "exchange_inv c limit s"
    and fits: "fits depth rqbuf rsbuf limit"
  shows "exchange_inv c limit t"
  using assms(1)
proof (cases rule: handshake.cases)
  case (send_request m l')
  then have "at_rest c s"
    using assms(2) by (auto simp: exchange_inv_def exchange_phases)
  from request_step [OF this _ fits] send_request show ?thesis
    by (metis exchange_inv_def option.inject prod.inject)
next
  case (receive_request n buf l')
  then have "request_pending c limit s"
    using assms(2) by (auto simp: exchange_inv_def exchange_phases)
  from receive_request_step [OF this fits] receive_request show ?thesis
    by (metis exchange_inv_def option.inject prod.inject sum.inject(2))
next
  case (send_response m l')
  then have "responder_working c s"
    using assms(2) by (auto simp: exchange_inv_def exchange_phases)
  from response_step [OF this _ fits] send_response show ?thesis
    by (metis exchange_inv_def prod.inject)
next
  case (receive_response n buf l')
  then have "response_pending c limit s"
    using assms(2) by (auto simp: exchange_inv_def exchange_phases)
  from receive_response_step [OF this fits] receive_response show ?thesis
    by (metis exchange_inv_def option.inject prod.inject sum.inject(2))
qed

lemma timely_run_inv:
  assumes "(handshake F rqbuf rsbuf limit True)\<^sup>*\<^sup>* (system_start l) s"
    and "link_idle c l" and "fits depth rqbuf rsbuf limit"
  shows "exchange_inv c limit s"
  using assms(1)
proof (induction rule: rtranclp_induct)
  case base
  show ?case
    using assms(2) by (simp add: exchange_inv_def at_rest_def system_start_def)
next
  case (step s t)
  then show ?case
    using timely_step_inv assms(3) by blast
qed

lemma timely_progress:
  assumes "exchange_inv c limit s" and fits: "fits depth rqbuf rsbuf limit"
  shows "\<exists>t. handshake F rqbuf rsbuf limit True s t"
  using assms(1) unfolding exchange_inv_def
proof (elim disjE)
  assume "at_rest c s"
  then show ?thesis
    using request_step [of s "[]" limit, OF _ _ fits] handshake.send_request
    by (metis at_rest_def le0 list.size(3))
next
  assume a: "request_pending c limit s"
  then have "length (got_requests s) < length (sent_requests s)" "rs s = Rs_Receive"
    by (simp_all add: request_pending_def)
  with receive_request_step [OF a fits] show ?thesis
    by (metis handshake.receive_request)
next
  assume "responder_working c s"
  then show ?thesis
    using response_step [of s "[]" limit, OF _ _ fits] handshake.send_response
    by (metis responder_working_def le0 list.size(3))
next
  assume a: "response_pending c limit s"
  then have "length (got_responses s) < length (sent_responses s)" "rq s = Rq_Receive"
    by (simp_all add: response_pending_def)
  with receive_response_step [OF a fits] show ?thesis
    by (metis handshake.receive_response)
qed

end

lemma exchange_inv_prefix:
  assumes "exchange_inv c limit s"
  shows "prefix (got_requests s) (sent_requests s)" "prefix (got_responses s) (sent_responses s)"
    "length (sent_requests s) \<le> Suc (length (got_responses s))"
    "length (sent_responses s) \<le> length (got_requests s)"
  using assms prefixeq_butlast [of "sent_requests s"] prefixeq_butlast [of "sent_responses s"]
  by (auto simp: exchange_inv_def exchange_phases)

interpretation lf: fifo_hw list_fifo "\<lambda>f. f" 8192
  by unfold_locales (rule list_fifo_contract)

section \<open>Delivery, in order and unchanged\<close>

text \<open>
  C1: In every timely run of the two processors from an idle link, over any FIFO that meets its
  contract and with messages that fit the buffers, what each side has received is a prefix of what
  the other side has sent (same messages, same order, same bytes); at most one request is
  outstanding, every response answers a received request, and the run can always continue.
\<close>

theorem timely_delivery:
  assumes "fwft_fifo F c depth" and "link_idle c l" and "fits depth rqbuf rsbuf limit"
    and "(handshake F rqbuf rsbuf limit True)\<^sup>*\<^sup>* (system_start l) s"
  shows "prefix (got_requests s) (sent_requests s) \<and>
    prefix (got_responses s) (sent_responses s) \<and>
    length (sent_requests s) \<le> Suc (length (got_responses s)) \<and>
    length (sent_responses s) \<le> length (got_requests s) \<and>
    (\<exists>t. handshake F rqbuf rsbuf limit True s t)"
proof -
  have hw: "fifo_hw F c depth"
    using assms(1) by (rule fifo_hw.intro)
  have "exchange_inv c limit s"
    using fifo_hw.timely_run_inv [OF hw assms(4,2,3)] .
  then show ?thesis
    using exchange_inv_prefix fifo_hw.timely_progress [OF hw _ assms(3)] by blast
qed

definition demo_link :: "u32 list link" where
  "demo_link = \<lparr>SPDM_register = 0, SPDM_requester_control = 0, SPDM_FIFO = 0, gpio_packet_2 = 0,
     gpio_counter_2 = 0, gpio_fifo_1 = False, gpio_fifo_2 = False, gpio_clk_1 = False,
     gpio_mux_2 = True, fifo = []\<rparr>"

lemma demo_link_idle: "link_idle (\<lambda>f. f) demo_link"
  by (simp add: link_idle_def phase_def demo_link_def fifo_clk_def bit_mux_2to1_def)

theorem timely_delivery_witness:
  "\<exists>s. (handshake list_fifo (replicate 8 0) (replicate 8 0) 8 True)\<^sup>*\<^sup>* (system_start demo_link) s \<and>
     sent_requests s = [[0x10, 0x84]] \<and>
     prefix (got_requests s) (sent_requests s) \<and>
     (\<exists>t. handshake list_fifo (replicate 8 0) (replicate 8 0) 8 True s t)"
proof -
  let ?s = "system_start demo_link"
  have fits: "fits 8192 (replicate 8 0) (replicate 8 0) 8"
    by (simp add: fits_def)
  have "at_rest (\<lambda>f. f) ?s"
    using demo_link_idle by (simp add: at_rest_def system_start_def)
  from lf.request_step [OF this _ fits, of "[0x10, 0x84]"] obtain l'
    where "spdm_requester_send_message list_fifo True [lnk ?s] [0x10, 0x84] =
      Some (Status_Success, l')"
    by auto
  then have step: "handshake list_fifo (replicate 8 0) (replicate 8 0) 8 True ?s
      (?s\<lparr>lnk := l', rq := Rq_Receive, sent_requests := sent_requests ?s @ [[0x10, 0x84]]\<rparr>)"
    (is "handshake _ _ _ _ _ _ ?t")
    by (intro handshake.send_request) (simp_all add: system_start_def)
  moreover have "sent_requests ?t = [[0x10, 0x84]]"
    by (simp add: system_start_def)
  ultimately show ?thesis
    using timely_delivery [OF list_fifo_contract demo_link_idle fits, of ?t] by blast
qed

section \<open>What the level signals allow\<close>

lemma requester_push_control [simp]:
  "gpio_mux_2 (requester_push F bs l) = gpio_mux_2 l"
  "gpio_counter_2 (requester_push F bs l) = gpio_counter_2 l"
  by (induction bs arbitrary: l) (simp_all add: link_ops)

lemma requester_pull_returns:
  "i + n \<le> length buf \<Longrightarrow> \<exists>buf' l'. requester_pull F n i buf l = Inr (buf', l') \<and>
     length buf' = length buf"
proof (induction n arbitrary: i buf l)
  case (Suc n)
  let ?buf = "take i buf @ [ucast (register_2_read F l)] @ drop (Suc i) buf"
  have "poke buf i [ucast (register_2_read F l)] = Inr ?buf" "length ?buf = length buf"
    using Suc.prems by (simp_all add: poke_def)
  then show ?case
    using Suc.IH [of "Suc i" ?buf "FIFO_write F 2 (FIFO_write F 6 l)"] Suc.prems by simp
qed simp

text \<open>
  C17: The requester's receive polls the same level its send waited for, and the send leaves it
  unchanged.  So, whatever the FIFO and the request, there is a run in which the requester takes a
  response before the responder has sent any: after the send its poll succeeds at once.
\<close>

theorem premature_response:
  assumes "gpio_mux_2 l" and "unat (gpio_counter_2 l) \<le> length rqbuf" and "length m \<le> limit"
  shows "\<exists>s. (handshake F rqbuf rsbuf limit False)\<^sup>*\<^sup>* (system_start l) s \<and>
    sent_requests s = [m] \<and> got_requests s = [] \<and>
    sent_responses s = [] \<and> length (got_responses s) = 1"
proof -
  let ?l = "snd (requester_send_burst F True m l)"
  let ?s = "system_start l"
  let ?t = "?s\<lparr>lnk := ?l, rq := Rq_Receive, sent_requests := [m]\<rparr>"
  have "spdm_requester_send_message F True [lnk ?s] m = Some (Status_Success, ?l)"
    using assms(1) poll_ready [of l]
    by (simp add: spdm_requester_send_message_def system_start_def prod_eq_iff)
  then have one: "handshake F rqbuf rsbuf limit False ?s ?t"
    using handshake.send_request [of ?s m limit F ?l] assms(3) by (simp add: system_start_def)
  have level: "gpio_mux_2 ?l" "gpio_counter_2 ?l = gpio_counter_2 l"
    using assms(1) by (simp_all add: requester_send_burst_def Let_def link_ops)
  obtain buf' l' where "requester_receive_burst F rqbuf ?l =
      Inr (unat (gpio_counter_2 l), buf', l')"
    using requester_pull_returns [of 0 "unat (gpio_counter_2 l)" rqbuf F "FIFO_write F 2 ?l"]
      assms(2) level(2)
    by (auto simp: requester_receive_burst_def Let_def responder_control_read_def link_ops)
  then have "spdm_requester_receive_message F [lnk ?t] rqbuf =
      Some (Inr (unat (gpio_counter_2 l), buf', l'))"
    using poll_ready [OF level(1)]
    by (simp add: spdm_requester_receive_message_def del: wait_for.simps)
  then have two: "handshake F rqbuf rsbuf limit False ?t
      (?t\<lparr>lnk := l', rq := Rq_Send,
          got_responses := got_responses ?t @ [take (unat (gpio_counter_2 l)) buf']\<rparr>)"
    (is "handshake _ _ _ _ _ _ ?u")
    by (intro handshake.receive_response) simp_all
  have "(handshake F rqbuf rsbuf limit False)\<^sup>*\<^sup>* ?s ?u"
    using one two by (meson converse_rtranclp_into_rtranclp rtranclp.rtrancl_refl)
  then show ?thesis
    by (intro exI [of _ ?u]) (simp add: system_start_def)
qed

theorem premature_response_witness:
  "\<exists>s. (handshake list_fifo (replicate 8 0) (replicate 8 0) 8 False)\<^sup>*\<^sup>*
      (system_start demo_link) s \<and>
    sent_requests s = [[0x10, 0x84]] \<and> got_requests s = [] \<and>
    sent_responses s = [] \<and> length (got_responses s) = 1"
  by (rule premature_response) (simp_all add: demo_link_def)

section \<open>Sizes the receive loops do not check\<close>

lemma requester_pull_overflow:
  "i \<le> length buf \<Longrightarrow> length buf < i + n \<Longrightarrow> requester_pull F n i buf l = Inl Out_Of_Bounds"
proof (induction n arbitrary: i buf l)
  case (Suc n)
  show ?case
  proof (cases "i = length buf")
    case False
    let ?buf = "take i buf @ [ucast (register_2_read F l)] @ drop (Suc i) buf"
    have "poke buf i [ucast (register_2_read F l)] = Inr ?buf" "length ?buf = length buf"
      using Suc.prems False by (simp_all add: poke_def)
    then show ?thesis
      using Suc.IH [of "Suc i" ?buf "FIFO_write F 2 (FIFO_write F 6 l)"] Suc.prems False by simp
  qed (simp add: poke_def)
qed simp

lemma responder_pull_overflow:
  "i \<le> length buf \<Longrightarrow> length buf < i + n \<Longrightarrow> responder_pull F n i buf l = Inl Out_Of_Bounds"
proof (induction n arbitrary: i buf l)
  case (Suc n)
  show ?case
  proof (cases "i = length buf")
    case False
    let ?b = "ucast (XGpio_DiscreteRead F Gpio_packet 1 l)"
    let ?buf = "take i buf @ [?b] @ drop (Suc i) buf"
    have "poke buf i [?b] = Inr ?buf" "length ?buf = length buf"
      using Suc.prems False by (simp_all add: poke_def)
    then show ?thesis
      using Suc.IH [of "Suc i" ?buf
          "XGpio_DiscreteWrite F Gpio_clk 1 0 (XGpio_DiscreteWrite F Gpio_clk 1 1 l)"]
        Suc.prems False by simp
  qed (simp add: poke_def)
qed simp

lemma responder_pull_returns:
  "i + n \<le> length buf \<Longrightarrow> \<exists>buf' l'. responder_pull F n i buf l = Inr (buf', l') \<and>
     length buf' = length buf"
proof (induction n arbitrary: i buf l)
  case (Suc n)
  let ?b = "ucast (XGpio_DiscreteRead F Gpio_packet 1 l)"
  let ?buf = "take i buf @ [?b] @ drop (Suc i) buf"
  have "poke buf i [?b] = Inr ?buf" "length ?buf = length buf"
    using Suc.prems by (simp_all add: poke_def)
  then show ?case
    using Suc.IH [of "Suc i" ?buf
        "XGpio_DiscreteWrite F Gpio_clk 1 0 (XGpio_DiscreteWrite F Gpio_clk 1 1 l)"]
      Suc.prems by simp
qed simp

text \<open>
  C18: The responder stores as many bytes as the requester announces, with no check against its
  buffer: a receive whose poll succeeds leaves the buffer (and writes past it) exactly when the
  announced size exceeds the size of the buffer, and otherwise returns the announced size.
\<close>

theorem responder_receive_bounds:
  assumes "requester_writing_set F l"
  shows "(spdm_responder_receive_message F [l] buf = Some (Inl Out_Of_Bounds) \<longleftrightarrow>
      length buf < unat (SPDM_requester_control l)) \<and>
    (unat (SPDM_requester_control l) \<le> length buf \<longrightarrow>
      (\<exists>buf' l'. spdm_responder_receive_message F [l] buf =
         Some (Inr (unat (SPDM_requester_control l), buf', l')) \<and> length buf' = length buf))"
proof -
  let ?n = "unat (SPDM_requester_control l)"
  have size: "unat (XGpio_DiscreteRead F Gpio_counter 1 (XGpio_DiscreteWrite F Gpio_mux 2 0 l)) = ?n"
    by (simp add: link_reads link_ops)
  show ?thesis
  proof (cases "length buf < ?n")
    case True
    then show ?thesis
      using assms size responder_pull_overflow [of 0 buf ?n F]
      by (simp add: spdm_responder_receive_message_def responder_receive_burst_def Let_def)
  next
    case False
    then obtain buf' l' where "responder_pull F ?n 0 buf
        (XGpio_DiscreteWrite F Gpio_fifo 2 1 (XGpio_DiscreteWrite F Gpio_mux 2 0 l)) = Inr (buf', l')"
      "length buf' = length buf"
      using responder_pull_returns [of 0 ?n buf] by (metis add_0 not_less)
    then show ?thesis
      using assms size False
      by (simp add: spdm_responder_receive_message_def responder_receive_burst_def Let_def)
  qed
qed

theorem responder_receive_bounds_witness:
  "spdm_responder_receive_message list_fifo
     [demo_link\<lparr>SPDM_FIFO := 0xF8, SPDM_requester_control := 9\<rparr>] (replicate 8 0) =
     Some (Inl Out_Of_Bounds)"
  using responder_receive_bounds [of list_fifo
      "demo_link\<lparr>SPDM_FIFO := 0xF8, SPDM_requester_control := 9\<rparr>" "replicate 8 0"]
  by (simp add: requester_writing_set_def link_reads del: wait_for.simps)

text \<open>The size that the requester announces stays in its register until the next request.\<close>

lemma control_kept [simp]:
  "SPDM_requester_control (FIFO_write F v l) = SPDM_requester_control l"
  "SPDM_requester_control (register_write F d l) = SPDM_requester_control l"
  "SPDM_requester_control (XGpio_DiscreteWrite F g ch d l) = SPDM_requester_control l"
  by (auto simp: FIFO_write_def register_write_def XGpio_DiscreteWrite_def settle_def split: gpio.splits nat.splits)

lemma pushes_keep_control [simp]:
  "SPDM_requester_control (requester_push F bs l) = SPDM_requester_control l"
  "SPDM_requester_control (responder_push F bs l) = SPDM_requester_control l"
  by (induction bs arbitrary: l) simp_all

lemma requester_pull_keeps_control:
  "requester_pull F n i buf l = Inr (buf', l') \<Longrightarrow> SPDM_requester_control l' = SPDM_requester_control l"
  by (induction n arbitrary: i buf l) (auto simp: and_then_def split: sum.splits)

lemma responder_pull_keeps_control:
  "responder_pull F n i buf l = Inr (buf', l') \<Longrightarrow> SPDM_requester_control l' = SPDM_requester_control l"
  by (induction n arbitrary: i buf l) (auto simp: and_then_def split: sum.splits)

lemma waited: "wait_for P [l] = Some l' \<Longrightarrow> l' = l"
  by (simp split: if_splits)

lemma bursts_keep_control:
  "requester_receive_burst F buf l = Inr (n, buf', l') \<Longrightarrow> SPDM_requester_control l' = SPDM_requester_control l"
  "responder_receive_burst F buf l = Inr (n, buf', l') \<Longrightarrow> SPDM_requester_control l' = SPDM_requester_control l"
  "SPDM_requester_control (snd (spdm_responder_send_message F ok m l)) = SPDM_requester_control l"
  by (auto simp: requester_receive_burst_def responder_receive_burst_def spdm_responder_send_message_def Let_def and_then_def
      dest!: requester_pull_keeps_control responder_pull_keeps_control split: sum.splits)

lemma send_announces:
  "SPDM_requester_control (snd (requester_send_burst F True m l)) = of_nat (length m)"
  by (simp add: requester_send_burst_def Let_def requester_control_write_def settle_def)

definition announced :: "nat \<Rightarrow> 'f system \<Rightarrow> bool" where
  "announced limit s \<longleftrightarrow> (\<forall>m. sent_requests s \<noteq> [] \<and> m = last (sent_requests s) \<longrightarrow>
     SPDM_requester_control (lnk s) = of_nat (length m) \<and> length m \<le> limit)"

lemma announced_step:
  assumes "handshake F rqbuf rsbuf limit timely s t" and "announced limit s"
  shows "announced limit t"
  using assms(1)
proof (cases rule: handshake.cases)
  case (send_request m l')
  then show ?thesis
    using send_announces [of F m "lnk s"]
    by (auto simp: announced_def spdm_requester_send_message_def simp del: wait_for.simps dest!: waited)
next
  case (receive_request n buf l')
  then show ?thesis
    using assms(2) bursts_keep_control(2)
    by (fastforce simp: announced_def spdm_responder_receive_message_def simp del: wait_for.simps dest!: waited)
next
  case (send_response m l')
  then show ?thesis
    using assms(2) bursts_keep_control(3) [of F True m "lnk s"] by (simp add: announced_def)
next
  case (receive_response n buf l')
  then show ?thesis
    using assms(2) bursts_keep_control(1)
    by (fastforce simp: announced_def spdm_requester_receive_message_def simp del: wait_for.simps dest!: waited)
qed

lemma announced_run:
  "(handshake F rqbuf rsbuf limit timely)\<^sup>*\<^sup>* (system_start l) s \<Longrightarrow> announced limit s"
proof (induction rule: rtranclp_induct)
  case base
  show ?case
    by (simp add: announced_def system_start_def)
qed (rule announced_step)

text \<open>Reading from the FIFO succeeds for any contents when the buffer is long enough.\<close>

lemma responder_pull_total:
  "i + n \<le> length buf \<Longrightarrow> \<exists>buf' l'. responder_pull F n i buf l = Inr (buf', l') \<and> length buf' = length buf"
proof (induction n arbitrary: i buf l)
  case (Suc n)
  define b :: u8 where "b = ucast (XGpio_DiscreteRead F Gpio_packet 1 l)"
  let ?buf = "take i buf @ [b] @ drop (Suc i) buf" and ?l = "XGpio_DiscreteWrite F Gpio_clk 1 0 (XGpio_DiscreteWrite F Gpio_clk 1 1 l)"
  have "poke buf i [b] = Inr ?buf"
    using Suc.prems by (simp add: poke_def)
  then have step: "responder_pull F (Suc n) i buf l = responder_pull F n (Suc i) ?buf ?l"
    by (simp add: b_def)
  have "length ?buf = length buf"
    using Suc.prems by simp
  then show ?case
    unfolding step using Suc.IH [of "Suc i" ?buf ?l] Suc.prems by simp
qed simp

lemma stale_request:
  assumes "SPDM_FIFO l = 0xF8" and "unat (SPDM_requester_control l) \<le> length buf"
  shows "\<exists>buf' l'. spdm_responder_receive_message F [l] buf = Some (Inr (unat (SPDM_requester_control l), buf', l')) \<and>
    length buf' = length buf"
proof -
  let ?n = "unat (SPDM_requester_control l)"
  obtain buf' l' where "responder_pull F ?n 0 buf (XGpio_DiscreteWrite F Gpio_fifo 2 1 (XGpio_DiscreteWrite F Gpio_mux 2 0 l)) = Inr (buf', l')"
    "length buf' = length buf"
    using responder_pull_total [of 0 ?n buf F "XGpio_DiscreteWrite F Gpio_fifo 2 1 (XGpio_DiscreteWrite F Gpio_mux 2 0 l)"] assms(2) by auto
  moreover have "XGpio_DiscreteRead F Gpio_counter 1 (XGpio_DiscreteWrite F Gpio_mux 2 0 l) = SPDM_requester_control l"
    by (simp add: link_reads)
  ultimately show ?thesis
    using poll_writing [OF assms(1), of F]
    by (simp add: spdm_responder_receive_message_def responder_receive_burst_def Let_def del: wait_for.simps One_nat_def)
qed

text \<open>
  C19: A response that cannot be allocated desynchronises the two ends.  The send function of the responder returns \<open>false\<close>, which as a status is
  success, so the responder goes on to its next receive; nothing was sent, and the ready signal stays withdrawn.  In every
  state of a timely run in which the responder is about to send, the system can then go on in one way only, whatever the schedule: the requester stays in its receive,
  and the responder takes a request that was never sent, of the size of the last one, because the requester's signal is still up.
\<close>

theorem lost_response_desynchronises:
  assumes "fwft_fifo F c depth" and "link_idle c l" and "fits depth rqbuf rsbuf limit"
    and "(handshake F rqbuf rsbuf limit True)\<^sup>*\<^sup>* (system_start l) s" and "rs s = Rs_Send"
    and "spdm_responder_send_message F False m (lnk s) = (status, l')"
  defines "lost \<equiv> s\<lparr>lnk := l', rs := Rs_Receive\<rparr>"
  shows "status = Status_Success \<and> (\<exists>t. handshake F rqbuf rsbuf limit False lost t) \<and>
    (\<forall>t. handshake F rqbuf rsbuf limit False lost t \<longrightarrow>
      rq t = Rq_Receive \<and> rs t = Rs_Send \<and> sent_requests t = sent_requests s \<and> got_responses t = got_responses s \<and>
      (\<exists>x. got_requests t = sent_requests s @ [x] \<and> length x = length (last (sent_requests s))))"
proof -
  have l': "status = Status_Success" "l' = lnk s"
    using assms(6) by (simp_all add: spdm_responder_send_message_def)
  have "responder_working c s"
    using fifo_hw.timely_run_inv [OF fifo_hw.intro [OF assms(1)] assms(4,2,3)] assms(5)
    by (auto simp: exchange_inv_def exchange_phases)
  then have busy: "SPDM_FIFO (lnk s) = 0xF8" "\<not> gpio_mux_2 (lnk s)" "rq s = Rq_Receive" "got_requests s = sent_requests s"
    and sent: "sent_requests s \<noteq> []"
    by (auto simp: responder_working_def link_busy_def phase_def)
  let ?m = "last (sent_requests s)"
  have "SPDM_requester_control (lnk s) = of_nat (length ?m)" "length ?m \<le> limit"
    using announced_run [OF assms(4)] sent by (auto simp: announced_def)
  then have size: "unat (SPDM_requester_control (lnk s)) = length ?m" "length ?m \<le> length rsbuf"
    using assms(3) by (simp_all add: fits_def unat_of_nat)
  obtain buf l1 where recv: "spdm_responder_receive_message F [lnk s] rsbuf = Some (Inr (length ?m, buf, l1))" "length buf = length rsbuf"
    using stale_request [OF busy(1), of rsbuf F] size by auto
  have "handshake F rqbuf rsbuf limit False lost
      (lost\<lparr>lnk := l1, rs := Rs_Send, got_requests := got_requests lost @ [take (length ?m) buf]\<rparr>)"
    using recv(1) by (intro handshake.receive_request) (simp_all add: lost_def l')
  moreover have "rq t = Rq_Receive \<and> rs t = Rs_Send \<and> sent_requests t = sent_requests s \<and> got_responses t = got_responses s \<and>
      (\<exists>x. got_requests t = sent_requests s @ [x] \<and> length x = length ?m)" if "handshake F rqbuf rsbuf limit False lost t" for t
    using that
  proof (cases rule: handshake.cases)
    case (receive_request n b l2)
    then show ?thesis
      using recv busy(3,4) size(2) by (auto simp: lost_def l')
  next
    case (receive_response n b l2)
    then show ?thesis
      using poll_not_ready [OF busy(2)]
      by (simp add: spdm_requester_receive_message_def lost_def l' del: wait_for.simps)
  qed (use busy(3) in \<open>simp_all add: lost_def\<close>)
  ultimately show ?thesis
    using l'(1) by blast
qed

theorem lost_response_desynchronises_witness:
  "\<exists>s t. (handshake list_fifo (replicate 8 0) (replicate 8 0) 8 True)\<^sup>*\<^sup>* (system_start demo_link) s \<and>
     handshake list_fifo (replicate 8 0) (replicate 8 0) 8 False
       (s\<lparr>lnk := snd (spdm_responder_send_message list_fifo False [1, 2] (lnk s)), rs := Rs_Receive\<rparr>) t \<and>
     sent_requests t = [[0x10, 0x84]] \<and> length (got_requests t) = 2"
proof -
  let ?s = "system_start demo_link" and ?H = "handshake list_fifo (replicate 8 0) (replicate 8 0) 8 True"
  have fits: "fits 8192 (replicate 8 0) (replicate 8 0) 8"
    by (simp add: fits_def)
  have "at_rest (\<lambda>f. f) ?s"
    using demo_link_idle by (simp add: at_rest_def system_start_def)
  from lf.request_step [OF this _ fits, of "[0x10, 0x84]"] obtain l1
    where send: "spdm_requester_send_message list_fifo True [lnk ?s] [0x10, 0x84] = Some (Status_Success, l1)"
      and pending: "request_pending (\<lambda>f. f) 8
        (?s\<lparr>lnk := l1, rq := Rq_Receive, sent_requests := sent_requests ?s @ [[0x10, 0x84]]\<rparr>)" (is "request_pending _ _ ?u")
    by auto
  have "?H ?s ?u"
    using send by (intro handshake.send_request) (simp_all add: system_start_def)
  moreover obtain n buf l2 where recv: "spdm_responder_receive_message list_fifo [lnk ?u] (replicate 8 0) = Some (Inr (n, buf, l2))"
    using lf.receive_request_step [OF pending fits] by blast
  then have "?H ?u (?u\<lparr>lnk := l2, rs := Rs_Send, got_requests := got_requests ?u @ [take n buf]\<rparr>)" (is "handshake _ _ _ _ _ _ ?v")
    by (intro handshake.receive_request) (simp_all add: system_start_def)
  ultimately have reach: "?H\<^sup>*\<^sup>* ?s ?v"
    by (meson converse_rtranclp_into_rtranclp rtranclp.rtrancl_refl)
  have v: "rs ?v = Rs_Send" "sent_requests ?v = [[0x10, 0x84]]"
    by (simp_all add: system_start_def)
  from lost_response_desynchronises [OF list_fifo_contract demo_link_idle fits reach v(1) prod.collapse [symmetric], of "[1, 2]"]
  obtain t where t: "handshake list_fifo (replicate 8 0) (replicate 8 0) 8 False
       (?v\<lparr>lnk := snd (spdm_responder_send_message list_fifo False [1, 2] (lnk ?v)), rs := Rs_Receive\<rparr>) t"
    "sent_requests t = sent_requests ?v" "\<exists>x. got_requests t = sent_requests ?v @ [x]"
    by blast
  then have "sent_requests t = [[0x10, 0x84]]" "length (got_requests t) = 2"
    unfolding v(2) by auto
  then show ?thesis
    using reach t(1) by blast
qed

end
