(* ===== verification/Credentials.thy ===== *)
theory Credentials
  imports Prelude
begin

text \<open>
  The constant data the firmware is built with: the responder's RSA-2048 key
  (\<open>Microblaze/privateKey/private_key.h\<close>), its certificate chain and the root certificate
  (\<open>Microblaze/certificates\<close>; the requester's copies under \<open>bios/certificates\<close> hold the same
  bytes).  The lemmas check that the pieces belong together.
\<close>

section \<open>The key\<close>

definition m_libspdm_rsa2048_res_n :: bytes where
  "m_libspdm_rsa2048_res_n = concat [
     [0xA9, 0x19, 0x49, 0x08, 0x95, 0x4F, 0xBF, 0xBD, 0x54, 0xC7, 0xED, 0xF5, 0x02, 0xB5, 0xFC, 0xDA],
     [0xAA, 0x4F, 0x7F, 0x31, 0x1F, 0x4E, 0x49, 0x48, 0x45, 0xE0, 0x97, 0xF9, 0xD0, 0x29, 0x46, 0x14],
     [0x69, 0x8E, 0xFF, 0xE0, 0x1A, 0xCC, 0xB4, 0xE9, 0xB7, 0x8C, 0xE1, 0x3A, 0x85, 0x24, 0x76, 0xD2],
     [0xDE, 0xCC, 0x4C, 0x2F, 0x6D, 0x91, 0xA6, 0x95, 0x19, 0xC0, 0xB8, 0xEE, 0xE4, 0x1F, 0xC6, 0xEE],
     [0x34, 0x68, 0xA1, 0xB0, 0x0C, 0x5A, 0xD8, 0x4F, 0x91, 0x7B, 0x85, 0xB5, 0xE9, 0x93, 0x43, 0x6B],
     [0xDA, 0x90, 0x7C, 0x54, 0x8A, 0x4E, 0xDD, 0xDD, 0x3C, 0x5B, 0xF0, 0x9E, 0x97, 0x25, 0x2D, 0x71],
     [0xCA, 0x53, 0x8F, 0xAF, 0x2A, 0x02, 0xC1, 0x46, 0x1C, 0xAB, 0xF6, 0x2A, 0x15, 0xB4, 0x91, 0xEF],
     [0xED, 0x95, 0x6D, 0x26, 0x7C, 0x95, 0x86, 0x14, 0x2D, 0x5D, 0xF2, 0xC4, 0x68, 0x51, 0xB4, 0x5F],
     [0xAF, 0xD2, 0x97, 0x21, 0x12, 0x55, 0xAA, 0x91, 0xD9, 0x14, 0x17, 0xE1, 0x86, 0x16, 0xBA, 0xAD],
     [0x20, 0xF9, 0x82, 0x9F, 0x53, 0x2A, 0xB3, 0x85, 0x91, 0x11, 0x70, 0x41, 0xA5, 0x3C, 0x75, 0xFA],
     [0x58, 0x6A, 0x8C, 0x71, 0xEB, 0xB0, 0xF7, 0xB7, 0x97, 0x3E, 0x42, 0xFB, 0xF1, 0xB5, 0xDC, 0x5D],
     [0xA1, 0x97, 0x45, 0x9C, 0x71, 0x13, 0x22, 0xE4, 0x33, 0xE1, 0x80, 0x34, 0x0D, 0x7A, 0xF2, 0x7B],
     [0xCE, 0x3E, 0x8D, 0x23, 0x5C, 0xA4, 0x8D, 0xB4, 0x93, 0xC9, 0xE5, 0xE2, 0xCA, 0xF1, 0x70, 0xC1],
     [0x3E, 0xE4, 0xB4, 0x3B, 0xAB, 0x7D, 0xFF, 0xB9, 0x0B, 0xFE, 0xC7, 0x01, 0x0E, 0xB7, 0xAD, 0x06],
     [0x12, 0xD1, 0x38, 0xE0, 0x21, 0x36, 0x11, 0xE5, 0xCD, 0x1C, 0x9B, 0x00, 0xE3, 0xAA, 0x55, 0x4F],
     [0xB3, 0x3C, 0xF1, 0xF8, 0xB7, 0xF8, 0x2B, 0x93, 0xDA, 0x66, 0x71, 0x71, 0xCD, 0xAE, 0xE2, 0xA3]]"

definition m_libspdm_rsa2048_res_e :: bytes where
  "m_libspdm_rsa2048_res_e = concat [
     [0x01, 0x00, 0x01]]"

definition m_libspdm_rsa2048_res_d :: bytes where
  "m_libspdm_rsa2048_res_d = concat [
     [0x99, 0xAD, 0x49, 0x1A, 0x6B, 0xD7, 0xD6, 0x41, 0x92, 0xD3, 0x40, 0x06, 0xF3, 0x37, 0xC1, 0x5C],
     [0x58, 0x7B, 0x76, 0xF4, 0x85, 0xA6, 0xF8, 0x22, 0x9E, 0x9E, 0xC6, 0x7F, 0x5A, 0x16, 0xA8, 0x81],
     [0xD4, 0x8D, 0x09, 0x2D, 0xFA, 0x2D, 0x20, 0x1D, 0x67, 0x9A, 0xB8, 0xF6, 0x1E, 0x1A, 0x4D, 0x82],
     [0xC6, 0xC8, 0x94, 0x54, 0x66, 0x17, 0x80, 0x74, 0xF0, 0xBA, 0x9D, 0x57, 0x3E, 0x2B, 0x42, 0xF7],
     [0x28, 0xDA, 0x0E, 0x57, 0x98, 0x62, 0xD7, 0x43, 0x38, 0xCC, 0x31, 0x70, 0x69, 0x9E, 0x54, 0x1F],
     [0xA8, 0xBA, 0xB6, 0xC3, 0x7E, 0x0E, 0xBE, 0xC3, 0x59, 0x1F, 0x95, 0x46, 0x0B, 0xC6, 0xD5, 0xCE],
     [0x1C, 0x3A, 0x64, 0xD2, 0xA4, 0x33, 0x6C, 0xC2, 0xF3, 0x3B, 0xB4, 0xB3, 0xFA, 0x95, 0xE8, 0x2B],
     [0x4C, 0x98, 0x08, 0x62, 0x79, 0xC6, 0xC9, 0xDB, 0x7C, 0x7F, 0x6D, 0x29, 0xE2, 0x44, 0x9E, 0xCE],
     [0xFD, 0x25, 0xDD, 0xD1, 0x16, 0xC1, 0xAB, 0x32, 0xAE, 0xB6, 0x4D, 0x06, 0x57, 0xC9, 0x00, 0xAB],
     [0x39, 0x0D, 0xE2, 0xAE, 0x5C, 0xE0, 0x82, 0xB8, 0xB9, 0xE0, 0x75, 0x11, 0xE5, 0x56, 0x1E, 0x96],
     [0x80, 0x21, 0xCD, 0x1A, 0x30, 0xE7, 0x8B, 0xD1, 0x7E, 0x6D, 0x30, 0x4F, 0x12, 0xC2, 0x80, 0x81],
     [0x46, 0xCD, 0x4D, 0x16, 0x84, 0x3A, 0x1E, 0x1A, 0x21, 0x76, 0x08, 0x84, 0x75, 0xDF, 0x3F, 0x9D],
     [0xCD, 0x21, 0x49, 0xFC, 0x99, 0x68, 0x67, 0x89, 0x72, 0x3B, 0xA5, 0x58, 0x2A, 0x2C, 0x6B, 0x22],
     [0xAC, 0x0D, 0x35, 0x3E, 0x26, 0x28, 0x46, 0x26, 0xBF, 0xAB, 0x7B, 0x96, 0x49, 0x4F, 0x84, 0x56],
     [0xF6, 0xBF, 0xED, 0x92, 0x66, 0xEC, 0xFB, 0x98, 0x26, 0x81, 0x42, 0x95, 0x9E, 0xDC, 0x35, 0xDD],
     [0xC2, 0x0D, 0x23, 0xDC, 0x89, 0xEC, 0x5B, 0x24, 0x73, 0x8C, 0xAD, 0x6E, 0x92, 0x18, 0x57, 0x01]]"

definition rsa_p :: bytes where
  "rsa_p = concat [
     [0xD0, 0x5B, 0x20, 0x74, 0x52, 0xBE, 0x82, 0xA0, 0x5C, 0x9F, 0x28, 0x53, 0x17, 0xE5, 0xA0, 0x53],
     [0x0D, 0x0C, 0x9B, 0xDB, 0x0D, 0xC9, 0x79, 0x6D, 0x28, 0xD9, 0x58, 0x87, 0xF8, 0x43, 0xFF, 0x43],
     [0xCF, 0xCC, 0x47, 0x85, 0x90, 0x14, 0x19, 0x9B, 0xA4, 0x9E, 0xC9, 0x6A, 0x18, 0xEC, 0x68, 0x67],
     [0xEC, 0x16, 0x1D, 0x21, 0xED, 0x83, 0x9B, 0xEA, 0xA0, 0x89, 0x99, 0x4E, 0xFC, 0x5C, 0xB1, 0x2B],
     [0xCB, 0x80, 0xDA, 0x71, 0x05, 0xD2, 0x51, 0xFA, 0x99, 0x7C, 0x1B, 0x71, 0x51, 0xEB, 0x5D, 0xAA],
     [0x37, 0xAB, 0x72, 0xBE, 0x61, 0x80, 0x1F, 0x14, 0xDE, 0x79, 0x7A, 0x64, 0x97, 0x12, 0x01, 0xC2],
     [0xE4, 0xB7, 0xCC, 0x70, 0xEC, 0xF5, 0x55, 0x2B, 0x81, 0xE4, 0x37, 0x66, 0x33, 0xCB, 0x99, 0x6E],
     [0x5C, 0xDE, 0x0C, 0x4E, 0x99, 0x29, 0x99, 0x02, 0x82, 0xA5, 0x69, 0x44, 0xEB, 0x1B, 0xD9, 0x13]]"

definition rsa_q :: bytes where
  "rsa_q = concat [
     [0xCF, 0xC4, 0x18, 0x99, 0xBF, 0x79, 0xB6, 0xB1, 0x73, 0xC0, 0xC6, 0x2B, 0xB0, 0x62, 0xFE, 0x8C],
     [0xDB, 0x98, 0xE1, 0xB1, 0x9A, 0x01, 0xE0, 0xB0, 0x0F, 0xCF, 0x15, 0x7A, 0xE9, 0x6B, 0x91, 0xC9],
     [0xF7, 0x8B, 0x67, 0x4A, 0xA6, 0xC5, 0xA0, 0xE6, 0x05, 0x8A, 0x66, 0xEA, 0x19, 0xE8, 0x01, 0xF4],
     [0xA5, 0x62, 0x43, 0x62, 0xD1, 0x10, 0x15, 0xA8, 0x0C, 0xA7, 0x99, 0x58, 0x43, 0xE3, 0xBD, 0xE7],
     [0x63, 0xBF, 0x13, 0xC6, 0xA5, 0x79, 0x46, 0x23, 0x27, 0xC6, 0x24, 0x4F, 0x80, 0x80, 0x04, 0x60],
     [0x7A, 0xA8, 0x01, 0x84, 0x99, 0x39, 0x00, 0x85, 0x57, 0xE8, 0x8E, 0x62, 0x0F, 0x4B, 0xEE, 0xD6],
     [0x21, 0x61, 0xA6, 0x1F, 0x8C, 0x48, 0x4A, 0x8B, 0xBA, 0x12, 0xB2, 0xA9, 0x4B, 0x6C, 0x12, 0x85],
     [0xF0, 0xEB, 0xC8, 0x91, 0x33, 0x4B, 0xFD, 0x31, 0x95, 0xB6, 0x3B, 0x0D, 0x49, 0x6D, 0x12, 0x31]]"

section \<open>The certificates\<close>

definition ca_cert_der_responder :: bytes where
  "ca_cert_der_responder = concat [
     [0x30, 0x82, 0x02, 0xDB, 0x30, 0x82, 0x01, 0xC3, 0xA0, 0x03, 0x02, 0x01, 0x02, 0x02, 0x14, 0x7B],
     [0x5E, 0xD8, 0x0C, 0xDD, 0x4D, 0x4D, 0xA2, 0xC7, 0x81, 0x40, 0x32, 0x68, 0x4E, 0x5F, 0x4E, 0x61],
     [0xEA, 0xBE, 0x7F, 0x30, 0x0D, 0x06, 0x09, 0x2A, 0x86, 0x48, 0x86, 0xF7, 0x0D, 0x01, 0x01, 0x0B],
     [0x05, 0x00, 0x30, 0x15, 0x31, 0x13, 0x30, 0x11, 0x06, 0x03, 0x55, 0x04, 0x03, 0x0C, 0x0A, 0x59],
     [0x6F, 0x75, 0x72, 0x52, 0x6F, 0x6F, 0x74, 0x43, 0x41, 0x30, 0x1E, 0x17, 0x0D, 0x32, 0x35, 0x31],
     [0x31, 0x30, 0x37, 0x32, 0x31, 0x35, 0x39, 0x34, 0x36, 0x5A, 0x17, 0x0D, 0x32, 0x38, 0x30, 0x38],
     [0x32, 0x37, 0x32, 0x31, 0x35, 0x39, 0x34, 0x36, 0x5A, 0x30, 0x15, 0x31, 0x13, 0x30, 0x11, 0x06],
     [0x03, 0x55, 0x04, 0x03, 0x0C, 0x0A, 0x59, 0x6F, 0x75, 0x72, 0x52, 0x6F, 0x6F, 0x74, 0x43, 0x41],
     [0x30, 0x82, 0x01, 0x22, 0x30, 0x0D, 0x06, 0x09, 0x2A, 0x86, 0x48, 0x86, 0xF7, 0x0D, 0x01, 0x01],
     [0x01, 0x05, 0x00, 0x03, 0x82, 0x01, 0x0F, 0x00, 0x30, 0x82, 0x01, 0x0A, 0x02, 0x82, 0x01, 0x01],
     [0x00, 0xAE, 0x52, 0x4B, 0x4B, 0xB2, 0x91, 0xC4, 0x44, 0xA7, 0x29, 0x33, 0x8A, 0x83, 0x28, 0x9B],
     [0x64, 0xD1, 0x43, 0x1D, 0xB8, 0x4F, 0x2C, 0x06, 0xE9, 0x74, 0x34, 0x15, 0xAE, 0x47, 0xA6, 0x49],
     [0xA4, 0xA5, 0xDC, 0x4E, 0x19, 0x3E, 0xC3, 0x78, 0x1F, 0x70, 0x03, 0xFA, 0xB7, 0x31, 0xDD, 0x86],
     [0x2E, 0x66, 0x08, 0x51, 0x44, 0x3F, 0x89, 0x38, 0x2E, 0xF0, 0x00, 0x86, 0xDA, 0xFA, 0xE4, 0xC7],
     [0x19, 0x35, 0x63, 0x1A, 0xC6, 0x48, 0x06, 0x6B, 0xA1, 0xA7, 0x6B, 0x07, 0xE2, 0x13, 0xDF, 0x93],
     [0xDD, 0xA2, 0xA8, 0x03, 0x99, 0xE4, 0x57, 0x72, 0xA0, 0x41, 0x3B, 0xCC, 0x5A, 0x9A, 0x9D, 0x86],
     [0x40, 0x76, 0x94, 0x09, 0xB5, 0xD4, 0xF5, 0x03, 0xA5, 0x74, 0x25, 0xA8, 0x6A, 0x9E, 0xF2, 0xBB],
     [0x5A, 0x84, 0x1B, 0xF4, 0x15, 0x8E, 0x90, 0x56, 0x11, 0x22, 0x1B, 0xBA, 0x9E, 0x5A, 0x54, 0x5E],
     [0x79, 0xDB, 0x5A, 0xBC, 0x5C, 0xC2, 0x0C, 0x9A, 0xFD, 0x2E, 0x6A, 0x37, 0xB0, 0x7C, 0xBA, 0x4D],
     [0x4E, 0xF9, 0x2A, 0x5A, 0x86, 0x2B, 0x96, 0xEB, 0x6B, 0xE2, 0x59, 0xC3, 0xFE, 0x6E, 0x71, 0x0F],
     [0x82, 0x3F, 0x5D, 0xA4, 0x43, 0xE0, 0x6E, 0x3B, 0x31, 0x54, 0x27, 0x72, 0x89, 0xEA, 0xBA, 0x0A],
     [0x1F, 0xE6, 0xD8, 0x80, 0xA9, 0x99, 0x9F, 0x4B, 0xC0, 0x79, 0xCC, 0x02, 0x32, 0x32, 0x85, 0x31],
     [0x0D, 0x00, 0xDA, 0x2B, 0xC8, 0x7A, 0xD0, 0xA5, 0x23, 0xCD, 0x75, 0xE6, 0xCE, 0x2C, 0x6D, 0x66],
     [0xCC, 0x70, 0x19, 0x98, 0xEC, 0x9A, 0x7E, 0x9C, 0x65, 0x8B, 0xAF, 0x9E, 0xAF, 0x77, 0x5E, 0xD9],
     [0x4D, 0x29, 0x3F, 0x36, 0xBB, 0xBF, 0x07, 0x2B, 0x7E, 0xC8, 0x2C, 0xD6, 0x19, 0x4F, 0xCD, 0x5D],
     [0xFA, 0x85, 0x6F, 0x4C, 0xFC, 0x1A, 0xBA, 0xD3, 0xF2, 0x96, 0x76, 0xA5, 0xE5, 0x31, 0xD4, 0x12],
     [0xAB, 0x02, 0x03, 0x01, 0x00, 0x01, 0xA3, 0x23, 0x30, 0x21, 0x30, 0x0F, 0x06, 0x03, 0x55, 0x1D],
     [0x13, 0x01, 0x01, 0xFF, 0x04, 0x05, 0x30, 0x03, 0x01, 0x01, 0xFF, 0x30, 0x0E, 0x06, 0x03, 0x55],
     [0x1D, 0x0F, 0x01, 0x01, 0xFF, 0x04, 0x04, 0x03, 0x02, 0x01, 0x06, 0x30, 0x0D, 0x06, 0x09, 0x2A],
     [0x86, 0x48, 0x86, 0xF7, 0x0D, 0x01, 0x01, 0x0B, 0x05, 0x00, 0x03, 0x82, 0x01, 0x01, 0x00, 0x3D],
     [0x9A, 0x52, 0xEA, 0x7D, 0xC1, 0x24, 0xD5, 0xD4, 0xF9, 0x5C, 0x28, 0xD2, 0x0F, 0xAF, 0xB0, 0xBB],
     [0xC7, 0xED, 0x4D, 0xEE, 0x9A, 0x82, 0x2E, 0xC6, 0xD8, 0xFC, 0xEE, 0xF8, 0xCB, 0x8E, 0x48, 0xF5],
     [0x14, 0xB4, 0x9B, 0x4E, 0xCF, 0x5D, 0xC3, 0x6D, 0x2B, 0x45, 0x1C, 0x74, 0x8D, 0x35, 0x11, 0xE9],
     [0x0F, 0xF9, 0x57, 0xCF, 0xE1, 0x8B, 0xDA, 0xFA, 0x63, 0xBB, 0x3E, 0xA9, 0x55, 0x68, 0x03, 0x4E],
     [0xB7, 0x61, 0x49, 0xA4, 0x08, 0xF6, 0xAA, 0xB4, 0x67, 0x6B, 0x45, 0x09, 0x34, 0xD8, 0x30, 0x56],
     [0x94, 0xA6, 0x42, 0x2B, 0x7B, 0x78, 0xA9, 0xCC, 0xA7, 0x38, 0x7F, 0x04, 0xBA, 0xBC, 0x22, 0x07],
     [0x14, 0xE2, 0xA1, 0x58, 0x8E, 0x33, 0x14, 0xA6, 0x59, 0x69, 0x92, 0x63, 0x3A, 0xBE, 0xB9, 0x61],
     [0x14, 0xCC, 0x73, 0x0A, 0xB9, 0x86, 0xE9, 0xB8, 0x2B, 0x0F, 0x35, 0xD9, 0x76, 0x34, 0x48, 0x17],
     [0x75, 0x35, 0x63, 0x86, 0xA7, 0x76, 0xC8, 0x49, 0xCF, 0x22, 0xE4, 0x04, 0xF2, 0x49, 0xE3, 0xA8],
     [0xF4, 0xCA, 0x68, 0xDA, 0xEC, 0xB1, 0xFD, 0x45, 0x76, 0xDF, 0x29, 0x95, 0x7D, 0x80, 0x31, 0x89],
     [0x41, 0xCA, 0x37, 0xF9, 0x61, 0x19, 0x8B, 0x88, 0xC2, 0xA2, 0xD0, 0xED, 0x4C, 0xFA, 0x45, 0xEA],
     [0xB6, 0xD2, 0xD3, 0xC3, 0xAE, 0xE2, 0xDC, 0x41, 0x45, 0x47, 0x7A, 0xFE, 0x19, 0xC2, 0x81, 0xD8],
     [0x1D, 0xC0, 0xB1, 0xA9, 0xE7, 0x16, 0x64, 0x16, 0x6D, 0xCE, 0x56, 0x8A, 0x29, 0x80, 0x7B, 0xF4],
     [0x4B, 0x0F, 0xC0, 0xD4, 0x47, 0xFD, 0x48, 0x45, 0x1F, 0x52, 0xAC, 0xA5, 0x03, 0xBA, 0x2C, 0xF0],
     [0x3C, 0x43, 0x27, 0x5A, 0xA8, 0x3E, 0xB9, 0xF7, 0xDE, 0x15, 0xA9, 0xBB, 0xC4, 0xE1, 0x5C, 0x41],
     [0x1C, 0xFD, 0xAA, 0x47, 0xB4, 0x35, 0x23, 0xD5, 0x26, 0xCF, 0xFD, 0x08, 0xD4, 0x51, 0x93]]"

definition cert_chain_responder :: bytes where
  "cert_chain_responder = concat [
     [0x30, 0x82, 0x02, 0xDB, 0x30, 0x82, 0x01, 0xC3, 0xA0, 0x03, 0x02, 0x01, 0x02, 0x02, 0x14, 0x7B],
     [0x5E, 0xD8, 0x0C, 0xDD, 0x4D, 0x4D, 0xA2, 0xC7, 0x81, 0x40, 0x32, 0x68, 0x4E, 0x5F, 0x4E, 0x61],
     [0xEA, 0xBE, 0x7F, 0x30, 0x0D, 0x06, 0x09, 0x2A, 0x86, 0x48, 0x86, 0xF7, 0x0D, 0x01, 0x01, 0x0B],
     [0x05, 0x00, 0x30, 0x15, 0x31, 0x13, 0x30, 0x11, 0x06, 0x03, 0x55, 0x04, 0x03, 0x0C, 0x0A, 0x59],
     [0x6F, 0x75, 0x72, 0x52, 0x6F, 0x6F, 0x74, 0x43, 0x41, 0x30, 0x1E, 0x17, 0x0D, 0x32, 0x35, 0x31],
     [0x31, 0x30, 0x37, 0x32, 0x31, 0x35, 0x39, 0x34, 0x36, 0x5A, 0x17, 0x0D, 0x32, 0x38, 0x30, 0x38],
     [0x32, 0x37, 0x32, 0x31, 0x35, 0x39, 0x34, 0x36, 0x5A, 0x30, 0x15, 0x31, 0x13, 0x30, 0x11, 0x06],
     [0x03, 0x55, 0x04, 0x03, 0x0C, 0x0A, 0x59, 0x6F, 0x75, 0x72, 0x52, 0x6F, 0x6F, 0x74, 0x43, 0x41],
     [0x30, 0x82, 0x01, 0x22, 0x30, 0x0D, 0x06, 0x09, 0x2A, 0x86, 0x48, 0x86, 0xF7, 0x0D, 0x01, 0x01],
     [0x01, 0x05, 0x00, 0x03, 0x82, 0x01, 0x0F, 0x00, 0x30, 0x82, 0x01, 0x0A, 0x02, 0x82, 0x01, 0x01],
     [0x00, 0xAE, 0x52, 0x4B, 0x4B, 0xB2, 0x91, 0xC4, 0x44, 0xA7, 0x29, 0x33, 0x8A, 0x83, 0x28, 0x9B],
     [0x64, 0xD1, 0x43, 0x1D, 0xB8, 0x4F, 0x2C, 0x06, 0xE9, 0x74, 0x34, 0x15, 0xAE, 0x47, 0xA6, 0x49],
     [0xA4, 0xA5, 0xDC, 0x4E, 0x19, 0x3E, 0xC3, 0x78, 0x1F, 0x70, 0x03, 0xFA, 0xB7, 0x31, 0xDD, 0x86],
     [0x2E, 0x66, 0x08, 0x51, 0x44, 0x3F, 0x89, 0x38, 0x2E, 0xF0, 0x00, 0x86, 0xDA, 0xFA, 0xE4, 0xC7],
     [0x19, 0x35, 0x63, 0x1A, 0xC6, 0x48, 0x06, 0x6B, 0xA1, 0xA7, 0x6B, 0x07, 0xE2, 0x13, 0xDF, 0x93],
     [0xDD, 0xA2, 0xA8, 0x03, 0x99, 0xE4, 0x57, 0x72, 0xA0, 0x41, 0x3B, 0xCC, 0x5A, 0x9A, 0x9D, 0x86],
     [0x40, 0x76, 0x94, 0x09, 0xB5, 0xD4, 0xF5, 0x03, 0xA5, 0x74, 0x25, 0xA8, 0x6A, 0x9E, 0xF2, 0xBB],
     [0x5A, 0x84, 0x1B, 0xF4, 0x15, 0x8E, 0x90, 0x56, 0x11, 0x22, 0x1B, 0xBA, 0x9E, 0x5A, 0x54, 0x5E],
     [0x79, 0xDB, 0x5A, 0xBC, 0x5C, 0xC2, 0x0C, 0x9A, 0xFD, 0x2E, 0x6A, 0x37, 0xB0, 0x7C, 0xBA, 0x4D],
     [0x4E, 0xF9, 0x2A, 0x5A, 0x86, 0x2B, 0x96, 0xEB, 0x6B, 0xE2, 0x59, 0xC3, 0xFE, 0x6E, 0x71, 0x0F],
     [0x82, 0x3F, 0x5D, 0xA4, 0x43, 0xE0, 0x6E, 0x3B, 0x31, 0x54, 0x27, 0x72, 0x89, 0xEA, 0xBA, 0x0A],
     [0x1F, 0xE6, 0xD8, 0x80, 0xA9, 0x99, 0x9F, 0x4B, 0xC0, 0x79, 0xCC, 0x02, 0x32, 0x32, 0x85, 0x31],
     [0x0D, 0x00, 0xDA, 0x2B, 0xC8, 0x7A, 0xD0, 0xA5, 0x23, 0xCD, 0x75, 0xE6, 0xCE, 0x2C, 0x6D, 0x66],
     [0xCC, 0x70, 0x19, 0x98, 0xEC, 0x9A, 0x7E, 0x9C, 0x65, 0x8B, 0xAF, 0x9E, 0xAF, 0x77, 0x5E, 0xD9],
     [0x4D, 0x29, 0x3F, 0x36, 0xBB, 0xBF, 0x07, 0x2B, 0x7E, 0xC8, 0x2C, 0xD6, 0x19, 0x4F, 0xCD, 0x5D],
     [0xFA, 0x85, 0x6F, 0x4C, 0xFC, 0x1A, 0xBA, 0xD3, 0xF2, 0x96, 0x76, 0xA5, 0xE5, 0x31, 0xD4, 0x12],
     [0xAB, 0x02, 0x03, 0x01, 0x00, 0x01, 0xA3, 0x23, 0x30, 0x21, 0x30, 0x0F, 0x06, 0x03, 0x55, 0x1D],
     [0x13, 0x01, 0x01, 0xFF, 0x04, 0x05, 0x30, 0x03, 0x01, 0x01, 0xFF, 0x30, 0x0E, 0x06, 0x03, 0x55],
     [0x1D, 0x0F, 0x01, 0x01, 0xFF, 0x04, 0x04, 0x03, 0x02, 0x01, 0x06, 0x30, 0x0D, 0x06, 0x09, 0x2A],
     [0x86, 0x48, 0x86, 0xF7, 0x0D, 0x01, 0x01, 0x0B, 0x05, 0x00, 0x03, 0x82, 0x01, 0x01, 0x00, 0x3D],
     [0x9A, 0x52, 0xEA, 0x7D, 0xC1, 0x24, 0xD5, 0xD4, 0xF9, 0x5C, 0x28, 0xD2, 0x0F, 0xAF, 0xB0, 0xBB],
     [0xC7, 0xED, 0x4D, 0xEE, 0x9A, 0x82, 0x2E, 0xC6, 0xD8, 0xFC, 0xEE, 0xF8, 0xCB, 0x8E, 0x48, 0xF5],
     [0x14, 0xB4, 0x9B, 0x4E, 0xCF, 0x5D, 0xC3, 0x6D, 0x2B, 0x45, 0x1C, 0x74, 0x8D, 0x35, 0x11, 0xE9],
     [0x0F, 0xF9, 0x57, 0xCF, 0xE1, 0x8B, 0xDA, 0xFA, 0x63, 0xBB, 0x3E, 0xA9, 0x55, 0x68, 0x03, 0x4E],
     [0xB7, 0x61, 0x49, 0xA4, 0x08, 0xF6, 0xAA, 0xB4, 0x67, 0x6B, 0x45, 0x09, 0x34, 0xD8, 0x30, 0x56],
     [0x94, 0xA6, 0x42, 0x2B, 0x7B, 0x78, 0xA9, 0xCC, 0xA7, 0x38, 0x7F, 0x04, 0xBA, 0xBC, 0x22, 0x07],
     [0x14, 0xE2, 0xA1, 0x58, 0x8E, 0x33, 0x14, 0xA6, 0x59, 0x69, 0x92, 0x63, 0x3A, 0xBE, 0xB9, 0x61],
     [0x14, 0xCC, 0x73, 0x0A, 0xB9, 0x86, 0xE9, 0xB8, 0x2B, 0x0F, 0x35, 0xD9, 0x76, 0x34, 0x48, 0x17],
     [0x75, 0x35, 0x63, 0x86, 0xA7, 0x76, 0xC8, 0x49, 0xCF, 0x22, 0xE4, 0x04, 0xF2, 0x49, 0xE3, 0xA8],
     [0xF4, 0xCA, 0x68, 0xDA, 0xEC, 0xB1, 0xFD, 0x45, 0x76, 0xDF, 0x29, 0x95, 0x7D, 0x80, 0x31, 0x89],
     [0x41, 0xCA, 0x37, 0xF9, 0x61, 0x19, 0x8B, 0x88, 0xC2, 0xA2, 0xD0, 0xED, 0x4C, 0xFA, 0x45, 0xEA],
     [0xB6, 0xD2, 0xD3, 0xC3, 0xAE, 0xE2, 0xDC, 0x41, 0x45, 0x47, 0x7A, 0xFE, 0x19, 0xC2, 0x81, 0xD8],
     [0x1D, 0xC0, 0xB1, 0xA9, 0xE7, 0x16, 0x64, 0x16, 0x6D, 0xCE, 0x56, 0x8A, 0x29, 0x80, 0x7B, 0xF4],
     [0x4B, 0x0F, 0xC0, 0xD4, 0x47, 0xFD, 0x48, 0x45, 0x1F, 0x52, 0xAC, 0xA5, 0x03, 0xBA, 0x2C, 0xF0],
     [0x3C, 0x43, 0x27, 0x5A, 0xA8, 0x3E, 0xB9, 0xF7, 0xDE, 0x15, 0xA9, 0xBB, 0xC4, 0xE1, 0x5C, 0x41],
     [0x1C, 0xFD, 0xAA, 0x47, 0xB4, 0x35, 0x23, 0xD5, 0x26, 0xCF, 0xFD, 0x08, 0xD4, 0x51, 0x93, 0x30],
     [0x82, 0x03, 0x05, 0x30, 0x82, 0x01, 0xED, 0xA0, 0x03, 0x02, 0x01, 0x02, 0x02, 0x14, 0x1A, 0x2C],
     [0x49, 0xED, 0x5A, 0xD1, 0xBF, 0x9B, 0xCD, 0x4A, 0x9C, 0xBC, 0x30, 0x3F, 0xBA, 0x47, 0x80, 0x82],
     [0x58, 0xB5, 0x30, 0x0D, 0x06, 0x09, 0x2A, 0x86, 0x48, 0x86, 0xF7, 0x0D, 0x01, 0x01, 0x0B, 0x05],
     [0x00, 0x30, 0x15, 0x31, 0x13, 0x30, 0x11, 0x06, 0x03, 0x55, 0x04, 0x03, 0x0C, 0x0A, 0x59, 0x6F],
     [0x75, 0x72, 0x52, 0x6F, 0x6F, 0x74, 0x43, 0x41, 0x30, 0x1E, 0x17, 0x0D, 0x32, 0x35, 0x31, 0x31],
     [0x30, 0x37, 0x32, 0x32, 0x30, 0x30, 0x30, 0x30, 0x5A, 0x17, 0x0D, 0x32, 0x37, 0x30, 0x33, 0x32],
     [0x32, 0x32, 0x32, 0x30, 0x30, 0x30, 0x30, 0x5A, 0x30, 0x1D, 0x31, 0x1B, 0x30, 0x19, 0x06, 0x03],
     [0x55, 0x04, 0x03, 0x0C, 0x12, 0x59, 0x6F, 0x75, 0x72, 0x49, 0x6E, 0x74, 0x65, 0x72, 0x6D, 0x65],
     [0x64, 0x69, 0x61, 0x74, 0x65, 0x43, 0x41, 0x30, 0x82, 0x01, 0x22, 0x30, 0x0D, 0x06, 0x09, 0x2A],
     [0x86, 0x48, 0x86, 0xF7, 0x0D, 0x01, 0x01, 0x01, 0x05, 0x00, 0x03, 0x82, 0x01, 0x0F, 0x00, 0x30],
     [0x82, 0x01, 0x0A, 0x02, 0x82, 0x01, 0x01, 0x00, 0xD0, 0x4F, 0x8F, 0x87, 0x9E, 0x5E, 0xA9, 0x42],
     [0x47, 0xEC, 0x39, 0xE8, 0xBA, 0xA8, 0x5B, 0xDD, 0xBA, 0xFC, 0x06, 0x6A, 0x17, 0x8F, 0x34, 0x12],
     [0x96, 0xE5, 0x86, 0x8F, 0x8F, 0x17, 0x0E, 0x53, 0x04, 0xB3, 0xB4, 0xB8, 0xC2, 0x88, 0xFB, 0x4F],
     [0xEB, 0xB2, 0x33, 0x0E, 0x3D, 0x90, 0xEE, 0x8A, 0x94, 0x8B, 0x1B, 0x94, 0xA7, 0x42, 0xF7, 0x65],
     [0xF4, 0x2B, 0x08, 0x7A, 0x08, 0x96, 0x1F, 0x27, 0xAE, 0x5C, 0x8F, 0x10, 0xAC, 0x96, 0x74, 0x85],
     [0x36, 0x44, 0xF0, 0x99, 0x8D, 0x70, 0xC2, 0xFE, 0xFA, 0x82, 0x97, 0x12, 0x85, 0x4A, 0xBA, 0xA3],
     [0xA3, 0xC5, 0x12, 0x14, 0x6C, 0xA4, 0xA3, 0x40, 0x23, 0x0A, 0xF5, 0x09, 0x99, 0xDA, 0x9E, 0xDC],
     [0xB6, 0x8E, 0xF1, 0x7A, 0x3D, 0xCD, 0x4F, 0x4D, 0x2C, 0x84, 0x54, 0x8E, 0x66, 0xA6, 0x81, 0x96],
     [0x06, 0x38, 0xD6, 0x35, 0x7E, 0xF6, 0xFF, 0xDC, 0x3C, 0x36, 0x5E, 0xE4, 0x81, 0x99, 0x63, 0x7D],
     [0x37, 0xDB, 0x42, 0x0A, 0x5C, 0x43, 0x0A, 0x94, 0xF8, 0x62, 0x32, 0x24, 0x20, 0x26, 0xCB, 0x8C],
     [0x1E, 0x01, 0x6C, 0x40, 0xF4, 0xB9, 0x15, 0xCC, 0x48, 0x65, 0x2F, 0x76, 0x6E, 0x2D, 0x48, 0xF6],
     [0x57, 0xCC, 0x7B, 0x6E, 0x2E, 0x9D, 0xB8, 0xE6, 0xC4, 0xD7, 0xF2, 0x0B, 0x7E, 0x44, 0x82, 0x55],
     [0xB7, 0xDB, 0x72, 0xA0, 0xB6, 0xAE, 0x50, 0x13, 0xEE, 0x9C, 0x07, 0x98, 0xA5, 0x2F, 0x45, 0x20],
     [0xFB, 0x52, 0xA8, 0xD4, 0x3D, 0xFB, 0x1D, 0x7B, 0x31, 0x9D, 0x09, 0x77, 0x1D, 0x09, 0x99, 0x85],
     [0xF7, 0x06, 0xEF, 0xA2, 0x2D, 0x3D, 0x63, 0xCB, 0x8B, 0xE1, 0x8B, 0x14, 0xCF, 0xAA, 0xDA, 0xCB],
     [0x69, 0xE0, 0xBB, 0x7B, 0x63, 0x2C, 0x91, 0x88, 0xAA, 0x72, 0x83, 0x23, 0x30, 0x28, 0x97, 0xD8],
     [0xF8, 0x5E, 0xEA, 0x9B, 0xA9, 0x27, 0xB8, 0xC9, 0x02, 0x03, 0x01, 0x00, 0x01, 0xA3, 0x45, 0x30],
     [0x43, 0x30, 0x12, 0x06, 0x03, 0x55, 0x1D, 0x13, 0x01, 0x01, 0xFF, 0x04, 0x08, 0x30, 0x06, 0x01],
     [0x01, 0xFF, 0x02, 0x01, 0x00, 0x30, 0x0E, 0x06, 0x03, 0x55, 0x1D, 0x0F, 0x01, 0x01, 0xFF, 0x04],
     [0x04, 0x03, 0x02, 0x01, 0x06, 0x30, 0x1D, 0x06, 0x03, 0x55, 0x1D, 0x0E, 0x04, 0x16, 0x04, 0x14],
     [0x67, 0x53, 0x67, 0x72, 0x40, 0xC9, 0xF2, 0xE7, 0x3F, 0x61, 0x3D, 0x4F, 0x5E, 0x74, 0xEE, 0xBA],
     [0x0F, 0x3C, 0x33, 0x65, 0x30, 0x0D, 0x06, 0x09, 0x2A, 0x86, 0x48, 0x86, 0xF7, 0x0D, 0x01, 0x01],
     [0x0B, 0x05, 0x00, 0x03, 0x82, 0x01, 0x01, 0x00, 0x31, 0xD1, 0xB7, 0xDA, 0x0C, 0x0B, 0xE9, 0x1F],
     [0x66, 0xEF, 0x4B, 0xFF, 0xA9, 0x72, 0x76, 0xC5, 0x3D, 0x08, 0xB7, 0x7B, 0x09, 0x54, 0xFA, 0x3F],
     [0xAC, 0x1D, 0x64, 0xD5, 0xB5, 0xCC, 0x1B, 0x25, 0x35, 0x52, 0xAB, 0x57, 0xD4, 0xDC, 0x5A, 0x5D],
     [0x58, 0x0A, 0x94, 0xE9, 0xC5, 0x4D, 0x3A, 0x9F, 0x52, 0x0E, 0xFC, 0xA2, 0xE5, 0xC7, 0xF5, 0x13],
     [0xFF, 0xFC, 0x1D, 0xE5, 0x92, 0x38, 0xD7, 0xAA, 0xDC, 0x11, 0x75, 0xD9, 0xF0, 0xF1, 0x83, 0x9F],
     [0x6B, 0x6B, 0x5D, 0x5E, 0x52, 0x20, 0x7B, 0x16, 0x16, 0xFD, 0xF1, 0x08, 0xC6, 0x35, 0x8B, 0x89],
     [0x5C, 0x2B, 0xF3, 0xC8, 0xAB, 0x14, 0xCC, 0x0A, 0xB9, 0xE4, 0x39, 0xFE, 0x25, 0xA1, 0x3A, 0x3B],
     [0xFC, 0x32, 0x94, 0xBC, 0xC7, 0xE5, 0xD9, 0xCE, 0x33, 0x60, 0xBA, 0x58, 0xCD, 0xE6, 0xA2, 0x13],
     [0x44, 0x5A, 0xFF, 0x64, 0xB8, 0x8D, 0x38, 0x3B, 0xD1, 0x9E, 0xD9, 0xE5, 0x78, 0x27, 0x71, 0x42],
     [0x82, 0x92, 0x39, 0x95, 0x5E, 0xEE, 0xEC, 0xB8, 0xA5, 0xAD, 0xA3, 0x17, 0x3E, 0xFF, 0x10, 0x2B],
     [0x69, 0x21, 0x3A, 0x31, 0xBF, 0x81, 0x3A, 0xB5, 0xA4, 0xF1, 0x8B, 0xF2, 0x7B, 0x7D, 0x9F, 0x5D],
     [0x49, 0x1E, 0xEA, 0x73, 0x82, 0x38, 0x01, 0x48, 0x9A, 0x48, 0xC3, 0xFF, 0x69, 0x45, 0xE1, 0x7A],
     [0xC9, 0xFF, 0x44, 0x09, 0x10, 0x0D, 0x1C, 0x3F, 0x09, 0x73, 0x81, 0x77, 0x0E, 0xF4, 0x63, 0xE8],
     [0x49, 0x31, 0x48, 0x6D, 0x25, 0xBA, 0x3F, 0x61, 0xA4, 0xAC, 0x87, 0x61, 0x42, 0xF4, 0xCF, 0x08],
     [0xA3, 0xCA, 0xD9, 0x0A, 0x45, 0x19, 0xBD, 0x71, 0x36, 0x64, 0xD2, 0x81, 0x2E, 0xEB, 0x37, 0xF5],
     [0xD0, 0xA5, 0xBE, 0x1C, 0x4A, 0xF7, 0x89, 0x2E, 0x42, 0x15, 0x3B, 0xE7, 0x0D, 0xEC, 0xFC, 0xD9],
     [0x34, 0xEF, 0x96, 0xE7, 0xCB, 0xD6, 0x57, 0x60, 0x30, 0x82, 0x03, 0x1F, 0x30, 0x82, 0x02, 0x07],
     [0xA0, 0x03, 0x02, 0x01, 0x02, 0x02, 0x14, 0x13, 0x6A, 0x32, 0xBD, 0x16, 0x95, 0x26, 0x1F, 0x00],
     [0xD7, 0x5A, 0xC8, 0xB4, 0x78, 0xED, 0x9A, 0x9A, 0x1B, 0x1A, 0xA4, 0x30, 0x0D, 0x06, 0x09, 0x2A],
     [0x86, 0x48, 0x86, 0xF7, 0x0D, 0x01, 0x01, 0x0B, 0x05, 0x00, 0x30, 0x1D, 0x31, 0x1B, 0x30, 0x19],
     [0x06, 0x03, 0x55, 0x04, 0x03, 0x0C, 0x12, 0x59, 0x6F, 0x75, 0x72, 0x49, 0x6E, 0x74, 0x65, 0x72],
     [0x6D, 0x65, 0x64, 0x69, 0x61, 0x74, 0x65, 0x43, 0x41, 0x30, 0x1E, 0x17, 0x0D, 0x32, 0x35, 0x31],
     [0x31, 0x30, 0x37, 0x32, 0x32, 0x30, 0x30, 0x31, 0x39, 0x5A, 0x17, 0x0D, 0x32, 0x36, 0x31, 0x31],
     [0x30, 0x37, 0x32, 0x32, 0x30, 0x30, 0x31, 0x39, 0x5A, 0x30, 0x19, 0x31, 0x17, 0x30, 0x15, 0x06],
     [0x03, 0x55, 0x04, 0x03, 0x0C, 0x0E, 0x59, 0x6F, 0x75, 0x72, 0x43, 0x6F, 0x6D, 0x6D, 0x6F, 0x6E],
     [0x4E, 0x61, 0x6D, 0x65, 0x30, 0x82, 0x01, 0x22, 0x30, 0x0D, 0x06, 0x09, 0x2A, 0x86, 0x48, 0x86],
     [0xF7, 0x0D, 0x01, 0x01, 0x01, 0x05, 0x00, 0x03, 0x82, 0x01, 0x0F, 0x00, 0x30, 0x82, 0x01, 0x0A],
     [0x02, 0x82, 0x01, 0x01, 0x00, 0xA9, 0x19, 0x49, 0x08, 0x95, 0x4F, 0xBF, 0xBD, 0x54, 0xC7, 0xED],
     [0xF5, 0x02, 0xB5, 0xFC, 0xDA, 0xAA, 0x4F, 0x7F, 0x31, 0x1F, 0x4E, 0x49, 0x48, 0x45, 0xE0, 0x97],
     [0xF9, 0xD0, 0x29, 0x46, 0x14, 0x69, 0x8E, 0xFF, 0xE0, 0x1A, 0xCC, 0xB4, 0xE9, 0xB7, 0x8C, 0xE1],
     [0x3A, 0x85, 0x24, 0x76, 0xD2, 0xDE, 0xCC, 0x4C, 0x2F, 0x6D, 0x91, 0xA6, 0x95, 0x19, 0xC0, 0xB8],
     [0xEE, 0xE4, 0x1F, 0xC6, 0xEE, 0x34, 0x68, 0xA1, 0xB0, 0x0C, 0x5A, 0xD8, 0x4F, 0x91, 0x7B, 0x85],
     [0xB5, 0xE9, 0x93, 0x43, 0x6B, 0xDA, 0x90, 0x7C, 0x54, 0x8A, 0x4E, 0xDD, 0xDD, 0x3C, 0x5B, 0xF0],
     [0x9E, 0x97, 0x25, 0x2D, 0x71, 0xCA, 0x53, 0x8F, 0xAF, 0x2A, 0x02, 0xC1, 0x46, 0x1C, 0xAB, 0xF6],
     [0x2A, 0x15, 0xB4, 0x91, 0xEF, 0xED, 0x95, 0x6D, 0x26, 0x7C, 0x95, 0x86, 0x14, 0x2D, 0x5D, 0xF2],
     [0xC4, 0x68, 0x51, 0xB4, 0x5F, 0xAF, 0xD2, 0x97, 0x21, 0x12, 0x55, 0xAA, 0x91, 0xD9, 0x14, 0x17],
     [0xE1, 0x86, 0x16, 0xBA, 0xAD, 0x20, 0xF9, 0x82, 0x9F, 0x53, 0x2A, 0xB3, 0x85, 0x91, 0x11, 0x70],
     [0x41, 0xA5, 0x3C, 0x75, 0xFA, 0x58, 0x6A, 0x8C, 0x71, 0xEB, 0xB0, 0xF7, 0xB7, 0x97, 0x3E, 0x42],
     [0xFB, 0xF1, 0xB5, 0xDC, 0x5D, 0xA1, 0x97, 0x45, 0x9C, 0x71, 0x13, 0x22, 0xE4, 0x33, 0xE1, 0x80],
     [0x34, 0x0D, 0x7A, 0xF2, 0x7B, 0xCE, 0x3E, 0x8D, 0x23, 0x5C, 0xA4, 0x8D, 0xB4, 0x93, 0xC9, 0xE5],
     [0xE2, 0xCA, 0xF1, 0x70, 0xC1, 0x3E, 0xE4, 0xB4, 0x3B, 0xAB, 0x7D, 0xFF, 0xB9, 0x0B, 0xFE, 0xC7],
     [0x01, 0x0E, 0xB7, 0xAD, 0x06, 0x12, 0xD1, 0x38, 0xE0, 0x21, 0x36, 0x11, 0xE5, 0xCD, 0x1C, 0x9B],
     [0x00, 0xE3, 0xAA, 0x55, 0x4F, 0xB3, 0x3C, 0xF1, 0xF8, 0xB7, 0xF8, 0x2B, 0x93, 0xDA, 0x66, 0x71],
     [0x71, 0xCD, 0xAE, 0xE2, 0xA3, 0x02, 0x03, 0x01, 0x00, 0x01, 0xA3, 0x5B, 0x30, 0x59, 0x30, 0x09],
     [0x06, 0x03, 0x55, 0x1D, 0x13, 0x04, 0x02, 0x30, 0x00, 0x30, 0x0E, 0x06, 0x03, 0x55, 0x1D, 0x0F],
     [0x01, 0x01, 0xFF, 0x04, 0x04, 0x03, 0x02, 0x07, 0x80, 0x30, 0x1D, 0x06, 0x03, 0x55, 0x1D, 0x25],
     [0x04, 0x16, 0x30, 0x14, 0x06, 0x08, 0x2B, 0x06, 0x01, 0x05, 0x05, 0x07, 0x03, 0x01, 0x06, 0x08],
     [0x2B, 0x06, 0x01, 0x05, 0x05, 0x07, 0x03, 0x02, 0x30, 0x1D, 0x06, 0x03, 0x55, 0x1D, 0x0E, 0x04],
     [0x16, 0x04, 0x14, 0x4E, 0x1B, 0x17, 0xDA, 0x11, 0xE4, 0x71, 0xE7, 0xC9, 0x60, 0x39, 0x7F, 0x68],
     [0x41, 0x72, 0x2E, 0xCC, 0x60, 0xFD, 0xDD, 0x30, 0x0D, 0x06, 0x09, 0x2A, 0x86, 0x48, 0x86, 0xF7],
     [0x0D, 0x01, 0x01, 0x0B, 0x05, 0x00, 0x03, 0x82, 0x01, 0x01, 0x00, 0x78, 0xA1, 0x00, 0xBD, 0x3C],
     [0x80, 0xE3, 0x49, 0x32, 0x2F, 0xDF, 0xEB, 0xED, 0x49, 0xA5, 0x5F, 0x16, 0xCD, 0xD4, 0x74, 0xBA],
     [0xD5, 0xB6, 0x8F, 0x09, 0x2C, 0xE1, 0x29, 0x84, 0x07, 0x62, 0x20, 0x85, 0xBB, 0x61, 0x3D, 0xEC],
     [0xB1, 0x5B, 0x2C, 0xFE, 0x7A, 0xC9, 0xA4, 0xAA, 0xC6, 0x20, 0x4D, 0x99, 0xE5, 0xE2, 0x82, 0x3D],
     [0x10, 0x23, 0x36, 0x55, 0xBC, 0xF8, 0x48, 0xC1, 0x8C, 0x06, 0xD9, 0xE9, 0x45, 0x11, 0x9A, 0x82],
     [0x3D, 0xC7, 0x69, 0x32, 0xEB, 0x06, 0xF8, 0x22, 0x29, 0x43, 0xE3, 0x68, 0x40, 0x5A, 0xDC, 0x5A],
     [0x9D, 0xED, 0x74, 0xEB, 0x32, 0x4B, 0x77, 0x72, 0x28, 0xD0, 0xE6, 0x6B, 0xF1, 0x67, 0x52, 0x73],
     [0x8F, 0x19, 0xB6, 0xFE, 0xAE, 0x91, 0xE3, 0x84, 0x5E, 0x7F, 0x65, 0xFF, 0xF2, 0xC3, 0xF5, 0xA7],
     [0x06, 0xC7, 0x21, 0xFC, 0x08, 0x8B, 0xF1, 0x0E, 0x52, 0xEC, 0xF2, 0x6F, 0x67, 0x5A, 0x87, 0xB8],
     [0x71, 0x53, 0xB9, 0x50, 0xF3, 0x72, 0xD8, 0xAA, 0x0B, 0x22, 0x9B, 0xB8, 0x03, 0xA1, 0xF6, 0xDC],
     [0xB0, 0x0F, 0xAC, 0xB3, 0xD4, 0xF5, 0xC3, 0x1E, 0x3D, 0xDA, 0x70, 0x00, 0xF5, 0x96, 0xFB, 0x8E],
     [0x41, 0x1F, 0xA7, 0xCF, 0xD1, 0x5E, 0x72, 0xDB, 0xA4, 0x62, 0x0E, 0x14, 0x08, 0x49, 0xDB, 0xEE],
     [0xF4, 0xF1, 0x0E, 0x84, 0xEB, 0xD9, 0xED, 0x9A, 0x95, 0xF6, 0x0E, 0xDF, 0x3A, 0x9C, 0xD5, 0xC1],
     [0x73, 0xE0, 0x0C, 0x79, 0x1B, 0x88, 0xA5, 0x42, 0xD1, 0x4F, 0x17, 0x3D, 0xF2, 0x52, 0xC2, 0x71],
     [0x03, 0x8E, 0xF4, 0x5B, 0x27, 0x54, 0xF7, 0xEB, 0x07, 0x2A, 0xC1, 0x79, 0xB8, 0x1D, 0x09, 0x77],
     [0x71, 0x5D, 0x6A, 0xD5, 0xC5, 0x27, 0x6C, 0xA7, 0x60, 0xE7, 0xD6, 0x2E, 0xCB, 0x5A, 0xE3, 0x12],
     [0x4B, 0x6C, 0x34, 0xCB, 0x51, 0x87, 0xC9, 0x26, 0x40, 0xC1, 0x93]]"

section \<open>Numbers from big endian bytes\<close>

fun be_value :: "nat \<Rightarrow> bytes \<Rightarrow> nat" where
  "be_value n [] = n"
| "be_value n (b # bs) = be_value (256 * n + unat b) bs"

lemma key_n: "be_value 0 m_libspdm_rsa2048_res_n = 0xa9194908954fbfbd54c7edf502b5fcdaaa4f7f311f4e494845e097f9d0294614698effe01accb4e9b78ce13a852476d2decc4c2f6d91a69519c0b8eee41fc6ee3468a1b00c5ad84f917b85b5e993436bda907c548a4edddd3c5bf09e97252d71ca538faf2a02c1461cabf62a15b491efed956d267c9586142d5df2c46851b45fafd297211255aa91d91417e18616baad20f9829f532ab38591117041a53c75fa586a8c71ebb0f7b7973e42fbf1b5dc5da197459c711322e433e180340d7af27bce3e8d235ca48db493c9e5e2caf170c13ee4b43bab7dffb90bfec7010eb7ad0612d138e0213611e5cd1c9b00e3aa554fb33cf1f8b7f82b93da667171cdaee2a3"
  by (simp add: m_libspdm_rsa2048_res_n_def)

lemma key_e: "be_value 0 m_libspdm_rsa2048_res_e = 0x10001"
  by (simp add: m_libspdm_rsa2048_res_e_def)

lemma key_d: "be_value 0 m_libspdm_rsa2048_res_d = 0x99ad491a6bd7d64192d34006f337c15c587b76f485a6f8229e9ec67f5a16a881d48d092dfa2d201d679ab8f61e1a4d82c6c8945466178074f0ba9d573e2b42f728da0e579862d74338cc3170699e541fa8bab6c37e0ebec3591f95460bc6d5ce1c3a64d2a4336cc2f33bb4b3fa95e82b4c98086279c6c9db7c7f6d29e2449ecefd25ddd116c1ab32aeb64d0657c900ab390de2ae5ce082b8b9e07511e5561e968021cd1a30e78bd17e6d304f12c2808146cd4d16843a1e1a2176088475df3f9dcd2149fc99686789723ba5582a2c6b22ac0d353e26284626bfab7b96494f8456f6bfed9266ecfb98268142959edc35ddc20d23dc89ec5b24738cad6e92185701"
  by (simp add: m_libspdm_rsa2048_res_d_def)

lemma key_p: "be_value 0 rsa_p = 0xd05b207452be82a05c9f285317e5a0530d0c9bdb0dc9796d28d95887f843ff43cfcc47859014199ba49ec96a18ec6867ec161d21ed839beaa089994efc5cb12bcb80da7105d251fa997c1b7151eb5daa37ab72be61801f14de797a64971201c2e4b7cc70ecf5552b81e4376633cb996e5cde0c4e9929990282a56944eb1bd913"
  by (simp add: rsa_p_def)

lemma key_q: "be_value 0 rsa_q = 0xcfc41899bf79b6b173c0c62bb062fe8cdb98e1b19a01e0b00fcf157ae96b91c9f78b674aa6c5a0e6058a66ea19e801f4a5624362d11015a80ca7995843e3bde763bf13c6a579462327c6244f808004607aa801849939008557e88e620f4beed62161a61f8c484a8bba12b2a94b6c1285f0ebc891334bfd3195b63b0d496d1231"
  by (simp add: rsa_q_def)

lemma key_halves_hh: "(0xd05b207452be82a05c9f285317e5a0530d0c9bdb0dc9796d28d95887f843ff43cfcc47859014199ba49ec96a18ec6867ec161d21ed839beaa089994efc5cb12b :: nat) * 0xcfc41899bf79b6b173c0c62bb062fe8cdb98e1b19a01e0b00fcf157ae96b91c9f78b674aa6c5a0e6058a66ea19e801f4a5624362d11015a80ca7995843e3bde7 = 0xa9194908954fbfbd54c7edf502b5fcdaaa4f7f311f4e494845e097f9d0294614698effe01accb4e9b78ce13a852476d2decc4c2f6d91a69519c0b8eee41fc6ed3e10cd367a0fb3f4466f1c31208bc8ae93cbf4c4d9aa6c358e443919edc4070e35ac35842f681d76abfbc82a723424ee30deff73ac42f256cc3b48ed80919ccd"
  by simp

lemma key_halves_hl: "(0xd05b207452be82a05c9f285317e5a0530d0c9bdb0dc9796d28d95887f843ff43cfcc47859014199ba49ec96a18ec6867ec161d21ed839beaa089994efc5cb12b :: nat) * 0x63bf13c6a579462327c6244f808004607aa801849939008557e88e620f4beed62161a61f8c484a8bba12b2a94b6c1285f0ebc891334bfd3195b63b0d496d1231 = 0x512ec1a2a35a94d67485e0fd846e33f72e50d562b53e091996a579aab1da18b53c08efb57c8ee64eed48eee940e58ffccab7675b732eb5fecf98fe2b250ff2963aaf60d6a73f832c76e1ca751639f133b207d47b9a0b1956c81624cdccfb0bb8d9af0d89929f46fb91a3933a26eb35d449f793fd379eb0eb5cd1b0088481ef3b"
  by simp

lemma key_halves_lh: "(0xcb80da7105d251fa997c1b7151eb5daa37ab72be61801f14de797a64971201c2e4b7cc70ecf5552b81e4376633cb996e5cde0c4e9929990282a56944eb1bd913 :: nat) * 0xcfc41899bf79b6b173c0c62bb062fe8cdb98e1b19a01e0b00fcf157ae96b91c9f78b674aa6c5a0e6058a66ea19e801f4a5624362d11015a80ca7995843e3bde7 = 0xa52912d6eef08f84d6868887449946c61873b22cfb66688e17723dd9f7870dae589e6a757e0bbd8083673f16629add04f1ff06575d23ddbe9189ababc2b024fc25d87cf54218ae79ebfa91e82821b45c924bbcf9fa9cbe9b4ef85abf2c4c509b9230cfcab7e727e1cf89a46aaa5c8b5e71ec257692f11ff559529bcd2a3ce725"
  by simp

lemma key_halves_ll: "(0xcb80da7105d251fa997c1b7151eb5daa37ab72be61801f14de797a64971201c2e4b7cc70ecf5552b81e4376633cb996e5cde0c4e9929990282a56944eb1bd913 :: nat) * 0x63bf13c6a579462327c6244f808004607aa801849939008557e88e620f4beed62161a61f8c484a8bba12b2a94b6c1285f0ebc891334bfd3195b63b0d496d1231 = 0x4f4ab95528fd78eb7637bb8447bb151cdca5f129be82db937a02f0b4abf519a5ec8aaf1da12a88da36110b57206e1b2ae5b38c28a68352037dbd345e5ebc1c1bce3e8d235ca48db493c9e5e2caf170c13ee4b43bab7dffb90bfec7010eb7ad0612d138e0213611e5cd1c9b00e3aa554fb33cf1f8b7f82b93da667171cdaee2a3"
  by simp

lemma mult_halves: "(a * s + b) * (c * s + d) = a * c * (s * s) + (a * d + b * c) * s + b * (d :: nat)"
  by (simp add: algebra_simps)

lemma key_product: "0xa9194908954fbfbd54c7edf502b5fcdaaa4f7f311f4e494845e097f9d0294614698effe01accb4e9b78ce13a852476d2decc4c2f6d91a69519c0b8eee41fc6ee3468a1b00c5ad84f917b85b5e993436bda907c548a4edddd3c5bf09e97252d71ca538faf2a02c1461cabf62a15b491efed956d267c9586142d5df2c46851b45fafd297211255aa91d91417e18616baad20f9829f532ab38591117041a53c75fa586a8c71ebb0f7b7973e42fbf1b5dc5da197459c711322e433e180340d7af27bce3e8d235ca48db493c9e5e2caf170c13ee4b43bab7dffb90bfec7010eb7ad0612d138e0213611e5cd1c9b00e3aa554fb33cf1f8b7f82b93da667171cdaee2a3 = (0xd05b207452be82a05c9f285317e5a0530d0c9bdb0dc9796d28d95887f843ff43cfcc47859014199ba49ec96a18ec6867ec161d21ed839beaa089994efc5cb12bcb80da7105d251fa997c1b7151eb5daa37ab72be61801f14de797a64971201c2e4b7cc70ecf5552b81e4376633cb996e5cde0c4e9929990282a56944eb1bd913 :: nat) * 0xcfc41899bf79b6b173c0c62bb062fe8cdb98e1b19a01e0b00fcf157ae96b91c9f78b674aa6c5a0e6058a66ea19e801f4a5624362d11015a80ca7995843e3bde763bf13c6a579462327c6244f808004607aa801849939008557e88e620f4beed62161a61f8c484a8bba12b2a94b6c1285f0ebc891334bfd3195b63b0d496d1231"
proof -
  have p: "0xd05b207452be82a05c9f285317e5a0530d0c9bdb0dc9796d28d95887f843ff43cfcc47859014199ba49ec96a18ec6867ec161d21ed839beaa089994efc5cb12bcb80da7105d251fa997c1b7151eb5daa37ab72be61801f14de797a64971201c2e4b7cc70ecf5552b81e4376633cb996e5cde0c4e9929990282a56944eb1bd913 = 0xd05b207452be82a05c9f285317e5a0530d0c9bdb0dc9796d28d95887f843ff43cfcc47859014199ba49ec96a18ec6867ec161d21ed839beaa089994efc5cb12b * (2 :: nat) ^ 512 + 0xcb80da7105d251fa997c1b7151eb5daa37ab72be61801f14de797a64971201c2e4b7cc70ecf5552b81e4376633cb996e5cde0c4e9929990282a56944eb1bd913"
    and q: "0xcfc41899bf79b6b173c0c62bb062fe8cdb98e1b19a01e0b00fcf157ae96b91c9f78b674aa6c5a0e6058a66ea19e801f4a5624362d11015a80ca7995843e3bde763bf13c6a579462327c6244f808004607aa801849939008557e88e620f4beed62161a61f8c484a8bba12b2a94b6c1285f0ebc891334bfd3195b63b0d496d1231 = 0xcfc41899bf79b6b173c0c62bb062fe8cdb98e1b19a01e0b00fcf157ae96b91c9f78b674aa6c5a0e6058a66ea19e801f4a5624362d11015a80ca7995843e3bde7 * (2 :: nat) ^ 512 + 0x63bf13c6a579462327c6244f808004607aa801849939008557e88e620f4beed62161a61f8c484a8bba12b2a94b6c1285f0ebc891334bfd3195b63b0d496d1231"
    by simp_all
  show ?thesis
    unfolding p q mult_halves key_halves_hh key_halves_hl key_halves_lh key_halves_ll by simp
qed

lemma minus_ones:
  "1 \<le> a \<Longrightarrow> 1 \<le> b \<Longrightarrow> (a - 1) * (b - 1) = a * b - (a + b - (1 :: nat))"
  by (simp add: algebra_simps diff_mult_distrib)

lemma key_phi: "(0xd05b207452be82a05c9f285317e5a0530d0c9bdb0dc9796d28d95887f843ff43cfcc47859014199ba49ec96a18ec6867ec161d21ed839beaa089994efc5cb12bcb80da7105d251fa997c1b7151eb5daa37ab72be61801f14de797a64971201c2e4b7cc70ecf5552b81e4376633cb996e5cde0c4e9929990282a56944eb1bd913 - 1 :: nat) * (0xcfc41899bf79b6b173c0c62bb062fe8cdb98e1b19a01e0b00fcf157ae96b91c9f78b674aa6c5a0e6058a66ea19e801f4a5624362d11015a80ca7995843e3bde763bf13c6a579462327c6244f808004607aa801849939008557e88e620f4beed62161a61f8c484a8bba12b2a94b6c1285f0ebc891334bfd3195b63b0d496d1231 - 1) = 0xa9194908954fbfbd54c7edf502b5fcdaaa4f7f311f4e494845e097f9d0294614698effe01accb4e9b78ce13a852476d2decc4c2f6d91a69519c0b8eee41fc6ee3468a1b00c5ad84f917b85b5e993436bda907c548a4edddd3c5bf09e97252d71ca538faf2a02c1461cabf62a15b491efed956d267c9586142d5df2c46851b45e0fb35e13001d714008b42962bdce1bcd38540512ab5f59685869023ec38ce4ec9112dda1b4d73d35ed1512a7bee17201101ee517b27f715186b04d8ccd3a83689efe9eebb158f596d287a621f8860eb68c913ff8b0c4e01ed59cbe3a6859bc6d0cb7c64fa7f8722e9125b0f16472a95b65731d18eb82955fc20acd1f9925f760"
  unfolding minus_ones [OF one_le_numeral one_le_numeral] key_product [symmetric] by simp

lemma key_inverse: "0x10001 * (0x99ad491a6bd7d64192d34006f337c15c587b76f485a6f8229e9ec67f5a16a881d48d092dfa2d201d679ab8f61e1a4d82c6c8945466178074f0ba9d573e2b42f728da0e579862d74338cc3170699e541fa8bab6c37e0ebec3591f95460bc6d5ce1c3a64d2a4336cc2f33bb4b3fa95e82b4c98086279c6c9db7c7f6d29e2449ecefd25ddd116c1ab32aeb64d0657c900ab390de2ae5ce082b8b9e07511e5561e968021cd1a30e78bd17e6d304f12c2808146cd4d16843a1e1a2176088475df3f9dcd2149fc99686789723ba5582a2c6b22ac0d353e26284626bfab7b96494f8456f6bfed9266ecfb98268142959edc35ddc20d23dc89ec5b24738cad6e92185701 :: nat) = 59560 * 0xa9194908954fbfbd54c7edf502b5fcdaaa4f7f311f4e494845e097f9d0294614698effe01accb4e9b78ce13a852476d2decc4c2f6d91a69519c0b8eee41fc6ee3468a1b00c5ad84f917b85b5e993436bda907c548a4edddd3c5bf09e97252d71ca538faf2a02c1461cabf62a15b491efed956d267c9586142d5df2c46851b45e0fb35e13001d714008b42962bdce1bcd38540512ab5f59685869023ec38ce4ec9112dda1b4d73d35ed1512a7bee17201101ee517b27f715186b04d8ccd3a83689efe9eebb158f596d287a621f8860eb68c913ff8b0c4e01ed59cbe3a6859bc6d0cb7c64fa7f8722e9125b0f16472a95b65731d18eb82955fc20acd1f9925f760 + 1"
  by simp

lemma key_bits: "(2 :: nat) ^ 2047 \<le> 0xa9194908954fbfbd54c7edf502b5fcdaaa4f7f311f4e494845e097f9d0294614698effe01accb4e9b78ce13a852476d2decc4c2f6d91a69519c0b8eee41fc6ee3468a1b00c5ad84f917b85b5e993436bda907c548a4edddd3c5bf09e97252d71ca538faf2a02c1461cabf62a15b491efed956d267c9586142d5df2c46851b45fafd297211255aa91d91417e18616baad20f9829f532ab38591117041a53c75fa586a8c71ebb0f7b7973e42fbf1b5dc5da197459c711322e433e180340d7af27bce3e8d235ca48db493c9e5e2caf170c13ee4b43bab7dffb90bfec7010eb7ad0612d138e0213611e5cd1c9b00e3aa554fb33cf1f8b7f82b93da667171cdaee2a3" "(0xa9194908954fbfbd54c7edf502b5fcdaaa4f7f311f4e494845e097f9d0294614698effe01accb4e9b78ce13a852476d2decc4c2f6d91a69519c0b8eee41fc6ee3468a1b00c5ad84f917b85b5e993436bda907c548a4edddd3c5bf09e97252d71ca538faf2a02c1461cabf62a15b491efed956d267c9586142d5df2c46851b45fafd297211255aa91d91417e18616baad20f9829f532ab38591117041a53c75fa586a8c71ebb0f7b7973e42fbf1b5dc5da197459c711322e433e180340d7af27bce3e8d235ca48db493c9e5e2caf170c13ee4b43bab7dffb90bfec7010eb7ad0612d138e0213611e5cd1c9b00e3aa554fb33cf1f8b7f82b93da667171cdaee2a3 :: nat) < 2 ^ 2048"
  by simp_all

text \<open>
  C12: The stored key is a consistent RSA key: the modulus is the product of the two stored factors,
  the public and private exponents are inverse to each other modulo \<open>(p - 1) * (q - 1)\<close>, and the
  modulus has 2048 bits.
\<close>

theorem stored_key_consistent:
  "be_value 0 m_libspdm_rsa2048_res_n = be_value 0 rsa_p * be_value 0 rsa_q \<and>
   be_value 0 m_libspdm_rsa2048_res_e * be_value 0 m_libspdm_rsa2048_res_d =
     59560 * ((be_value 0 rsa_p - 1) * (be_value 0 rsa_q - 1)) + 1 \<and>
   2 ^ 2047 \<le> be_value 0 m_libspdm_rsa2048_res_n \<and>
   be_value 0 m_libspdm_rsa2048_res_n < 2 ^ 2048"
  unfolding key_n key_e key_d key_p key_q key_phi
  by (intro conjI key_product key_inverse key_bits)

section \<open>The chain\<close>

text \<open>The DER header of a certificate: a sequence with a two-byte length.\<close>

fun der_sequence_size :: "bytes \<Rightarrow> nat option" where
  "der_sequence_size (t # f # hi # lo # _) =
     (if t = 0x30 \<and> f = 0x82 then Some (4 + 256 * unat hi + unat lo) else None)"
| "der_sequence_size _ = None"

lemma der_sequence_size_take:
  assumes "4 \<le> n" and "4 \<le> length xs"
  shows "der_sequence_size (take n xs) = der_sequence_size xs"
proof -
  obtain a b c d ys where "xs = a # b # c # d # ys"
    using assms(2) by (metis Suc_le_length_iff numeral_eq_Suc pred_numeral_simps(2)
        pred_numeral_simps(3) BitM.simps Suc_numeral numeral_One)
  then show ?thesis
    using assms(1) by (simp add: take_Cons' numeral_eq_Suc)
qed

definition intermediate_cert :: bytes where
  "intermediate_cert = take 777 (drop 735 cert_chain_responder)"

definition leaf_cert :: bytes where
  "leaf_cert = drop 1512 cert_chain_responder"

lemma root_cert_first: "take 735 cert_chain_responder = ca_cert_der_responder"
  by (simp add: cert_chain_responder_def ca_cert_der_responder_def)

lemma length_ca_cert [simp]: "length ca_cert_der_responder = 735"
  by (simp add: ca_cert_der_responder_def)

lemma length_cert_chain [simp]: "length cert_chain_responder = 2315"
  by (simp add: cert_chain_responder_def)

lemma chain_is_three_certs:
  "cert_chain_responder = ca_cert_der_responder @ intermediate_cert @ leaf_cert"
proof -
  have "drop 735 cert_chain_responder = intermediate_cert @ leaf_cert"
    unfolding intermediate_cert_def leaf_cert_def
    using append_take_drop_id [of 777 "drop 735 cert_chain_responder"] by simp
  then show ?thesis
    using root_cert_first by (metis append_take_drop_id)
qed

lemma cert_sizes:
  "der_sequence_size ca_cert_der_responder = Some 735"
  "der_sequence_size (drop 735 cert_chain_responder) = Some 777"
  "der_sequence_size (drop 1512 cert_chain_responder) = Some 803"
  by (simp_all add: cert_chain_responder_def ca_cert_der_responder_def)

lemma length_leaf_cert: "length leaf_cert = 803" "length intermediate_cert = 777"
  by (simp_all add: leaf_cert_def intermediate_cert_def)

lemma leaf_key:
  "take 270 (drop 1676 cert_chain_responder) =
     [0x30, 0x82, 0x01, 0x0A, 0x02, 0x82, 0x01, 0x01, 0x00] @ m_libspdm_rsa2048_res_n @
     [0x02, 0x03] @ m_libspdm_rsa2048_res_e"
  by (simp add: cert_chain_responder_def m_libspdm_rsa2048_res_n_def m_libspdm_rsa2048_res_e_def)

lemma three_der_certs:
  "\<forall>c\<in>set [ca_cert_der_responder, intermediate_cert, leaf_cert]. der_sequence_size c = Some (length c)"
proof -
  have "der_sequence_size intermediate_cert = der_sequence_size (drop 735 cert_chain_responder)"
    unfolding intermediate_cert_def by (rule der_sequence_size_take) simp_all
  then show ?thesis
    using cert_sizes length_leaf_cert by (simp add: leaf_cert_def)
qed

text \<open>
  C13: The certificate chain is the root certificate followed by an intermediate and a leaf
  certificate, each exactly as long as its DER header says; the root certificate whose digest
  the firmware puts in front of the chain is the first of the three, and the leaf certificate
  carries the public key (modulus and exponent, as a DER \<open>RSAPublicKey\<close>) of the stored private
  key.
\<close>

theorem certificates_match_key:
  "cert_chain_responder = ca_cert_der_responder @ intermediate_cert @ leaf_cert \<and>
   der_sequence_size ca_cert_der_responder = Some (length ca_cert_der_responder) \<and>
   der_sequence_size intermediate_cert = Some (length intermediate_cert) \<and>
   der_sequence_size leaf_cert = Some (length leaf_cert) \<and>
   take 270 (drop 164 leaf_cert) =
     [0x30, 0x82, 0x01, 0x0A, 0x02, 0x82, 0x01, 0x01, 0x00] @ m_libspdm_rsa2048_res_n @
     [0x02, 0x03] @ m_libspdm_rsa2048_res_e"
  using chain_is_three_certs three_der_certs leaf_key by (simp add: leaf_cert_def)

end
