(* ===== verification/Signature.thy ===== *)
theory Signature
  imports Credentials
begin

text \<open>
  \<open>Microblaze/signatureFunctions/signature_functions.c\<close>: the responder loads its private key into
  an RSA context of libspdm's crypto library and signs with it.  The library is a parameter: its
  functions act on a state of type \<open>'w\<close> that holds the contexts.
\<close>

section \<open>The RSA functions of the crypto library\<close>

datatype rsa_key_tag =
    LIBSPDM_RSA_KEY_N | LIBSPDM_RSA_KEY_E | LIBSPDM_RSA_KEY_D | LIBSPDM_RSA_KEY_P | LIBSPDM_RSA_KEY_Q

record sign_request =
  spdm_version :: u16
  op_code :: u8
  base_asym_algo :: u32
  base_hash_algo :: u32

text \<open>
  The signing functions get the request, the context, the message and the capacity of the signature
  buffer, and return the result and the bytes they leave in the buffer.
\<close>

record ('w, 'c) rsa_lib =
  rsa_new :: "'w \<Rightarrow> 'c option \<times> 'w"
  rsa_set_key :: "'c \<Rightarrow> rsa_key_tag \<Rightarrow> bytes \<Rightarrow> 'w \<Rightarrow> bool \<times> 'w"
  rsa_free :: "'c \<Rightarrow> 'w \<Rightarrow> 'w"
  asym_sign_hash :: "sign_request \<Rightarrow> 'c \<Rightarrow> bytes \<Rightarrow> nat \<Rightarrow> 'w \<Rightarrow> (bool \<times> bytes) \<times> 'w"
  asym_sign :: "sign_request \<Rightarrow> 'c \<Rightarrow> bytes \<Rightarrow> nat \<Rightarrow> 'w \<Rightarrow> (bool \<times> bytes) \<times> 'w"
  asym_free :: "u32 \<Rightarrow> 'c \<Rightarrow> 'w \<Rightarrow> 'w"

section \<open>The two functions\<close>

text \<open>
  The result is \<open>None\<close> where the C function returns false, and otherwise the context it stores.
  The results of the last two calls are assigned and never read.
\<close>

definition libspdm_get_responder_private_key_from_raw_data ::
  "('w, 'c) rsa_lib \<Rightarrow> u32 \<Rightarrow> 'w \<Rightarrow> 'c option \<times> 'w" where
  "libspdm_get_responder_private_key_from_raw_data R algo w =
     (case rsa_new R w of
        (None, w) \<Rightarrow> (None, w)
      | (Some ctx, w) \<Rightarrow>
          let (result, w) = rsa_set_key R ctx LIBSPDM_RSA_KEY_N m_libspdm_rsa2048_res_n w in
          if \<not> result then (None, rsa_free R ctx w)
          else
          let (result, w) = rsa_set_key R ctx LIBSPDM_RSA_KEY_E m_libspdm_rsa2048_res_e w in
          if \<not> result then (None, rsa_free R ctx w)
          else
          let (result, w) = rsa_set_key R ctx LIBSPDM_RSA_KEY_D m_libspdm_rsa2048_res_d w in
          if \<not> result then (None, rsa_free R ctx w)
          else
          let (result, w) = rsa_set_key R ctx LIBSPDM_RSA_KEY_P rsa_p w;
              (result, w) = rsa_set_key R ctx LIBSPDM_RSA_KEY_Q rsa_q w in
          (Some ctx, w))"

definition libspdm_responder_data_sign ::
  "('w, 'c) rsa_lib \<Rightarrow> sign_request \<Rightarrow> bool \<Rightarrow> bytes \<Rightarrow> nat \<Rightarrow> 'w \<Rightarrow> (bool \<times> bytes) \<times> 'w" where
  "libspdm_responder_data_sign R req is_data_hash message sig_size w =
     (case libspdm_get_responder_private_key_from_raw_data R (base_asym_algo req) w of
        (None, w) \<Rightarrow> ((False, []), w)
      | (Some ctx, w) \<Rightarrow>
          let (result, w) =
                (if is_data_hash then asym_sign_hash R req ctx message sig_size w
                 else asym_sign R req ctx message sig_size w) in
          (result, asym_free R (base_asym_algo req) ctx w))"

section \<open>Contract of the library\<close>

text \<open>
  \<open>live\<close> is the set of allocated contexts and \<open>key\<close> what has been accepted into each: a new context
  is fresh and empty, an accepted component is stored and the others are kept, freeing removes
  the context, and signing neither allocates nor frees nor changes keys.  \<open>libspdm_asym_free\<close> selects the
  release function by the algorithm, so it is known to release an RSA context for the RSA algorithms only; nothing
  is assumed of it for the others.
\<close>

text \<open>RSASSA and RSAPSS with 2048, 3072 and 4096 bits, as the standard numbers them.\<close>

definition rsa_algorithms :: "u32 list" where
  "rsa_algorithms = [0x1, 0x2, 0x4, 0x8, 0x20, 0x40]"

definition rsa_contract ::
  "('w, 'c) rsa_lib \<Rightarrow> ('w \<Rightarrow> 'c set) \<Rightarrow> ('w \<Rightarrow> 'c \<Rightarrow> rsa_key_tag \<Rightarrow> bytes option) \<Rightarrow> bool" where
  "rsa_contract R live key \<longleftrightarrow>
     (\<forall>w w'. rsa_new R w = (None, w') \<longrightarrow> live w' = live w) \<and>
     (\<forall>w c w'. rsa_new R w = (Some c, w') \<longrightarrow> c \<notin> live w \<and> live w' = insert c (live w)) \<and>
     (\<forall>c t b w. live (snd (rsa_set_key R c t b w)) = live w) \<and>
     (\<forall>c t b w. fst (rsa_set_key R c t b w) \<and> c \<in> live w \<longrightarrow>
        key (snd (rsa_set_key R c t b w)) c t = Some b) \<and>
     (\<forall>c t b w t'. t' \<noteq> t \<longrightarrow> key (snd (rsa_set_key R c t b w)) c t' = key w c t') \<and>
     (\<forall>c w. live (rsa_free R c w) = live w - {c}) \<and>
     (\<forall>a c w. a \<in> set rsa_algorithms \<longrightarrow> live (asym_free R a c w) = live w - {c}) \<and>
     (\<forall>q c m n w. live (snd (asym_sign R q c m n w)) = live w) \<and>
     (\<forall>q c m n w. live (snd (asym_sign_hash R q c m n w)) = live w)"

lemma load_key_outcome:
  assumes "rsa_contract R live key"
  shows "case libspdm_get_responder_private_key_from_raw_data R a w of
      (None, w') \<Rightarrow> live w' = live w
    | (Some c, w') \<Rightarrow> c \<notin> live w \<and> live w' = insert c (live w) \<and>
        key w' c LIBSPDM_RSA_KEY_N = Some m_libspdm_rsa2048_res_n \<and>
        key w' c LIBSPDM_RSA_KEY_E = Some m_libspdm_rsa2048_res_e \<and>
        key w' c LIBSPDM_RSA_KEY_D = Some m_libspdm_rsa2048_res_d"
proof (cases "rsa_new R w")
  case (Pair r w1)
  show ?thesis
  proof (cases r)
    case None
    with Pair assms show ?thesis
      by (simp add: libspdm_get_responder_private_key_from_raw_data_def rsa_contract_def)
  next
    case (Some c)
    let ?set = "\<lambda>t b w. rsa_set_key R c t b w"
    have keep: "\<And>t b w. live (snd (?set t b w)) = live w"
      "\<And>t b w. fst (?set t b w) \<Longrightarrow> c \<in> live w \<Longrightarrow> key (snd (?set t b w)) c t = Some b"
      "\<And>t b w t'. t' \<noteq> t \<Longrightarrow> key (snd (?set t b w)) c t' = key w c t'"
      and free: "\<And>w. live (rsa_free R c w) = live w - {c}"
      and new: "c \<notin> live w" "live w1 = insert c (live w)"
      using assms Pair Some by (simp_all add: rsa_contract_def)
    then show ?thesis
      using Pair Some
      by (simp add: libspdm_get_responder_private_key_from_raw_data_def Let_def case_prod_beta
          split: if_split)
  qed
qed

section \<open>An instance\<close>

text \<open>Contexts are the positions of a list of key stores; a freed one is \<open>None\<close>.\<close>

type_synonym rsa_heap = "(rsa_key_tag \<Rightarrow> bytes option) option list"

definition heap_live :: "rsa_heap \<Rightarrow> nat set" where
  "heap_live w = {c. c < length w \<and> w ! c \<noteq> None}"

definition heap_key :: "rsa_heap \<Rightarrow> nat \<Rightarrow> rsa_key_tag \<Rightarrow> bytes option" where
  "heap_key w c t = (if c < length w then case w ! c of None \<Rightarrow> None | Some k \<Rightarrow> k t else None)"

definition heap_rsa :: "rsa_key_tag set \<Rightarrow> (rsa_heap, nat) rsa_lib" where
  "heap_rsa accepted =
     \<lparr>rsa_new = (\<lambda>w. (Some (length w), w @ [Some (\<lambda>_. None)])),
      rsa_set_key = (\<lambda>c t b w.
        if t \<in> accepted \<and> c < length w
        then (True, case w ! c of None \<Rightarrow> w | Some k \<Rightarrow> w[c := Some (k(t := Some b))])
        else (False, w)),
      rsa_free = (\<lambda>c w. w[c := None]),
      asym_sign_hash = (\<lambda>q c m n w. ((True, take n m), w)),
      asym_sign = (\<lambda>q c m n w. ((True, take n m), w)),
      asym_free = (\<lambda>a c w. if a \<in> set rsa_algorithms then w[c := None] else w)\<rparr>"

lemma heap_rsa_contract: "rsa_contract (heap_rsa accepted) heap_live heap_key"
proof -
  have free: "heap_live (w[c := None]) = heap_live w - {c}" for w :: rsa_heap and c
    by (cases "c < length w")
      (auto simp: heap_live_def nth_list_update list_update_beyond split: if_splits)
  have new: "heap_live (w @ [Some k]) = insert (length w) (heap_live w)" for w k
    by (auto simp: heap_live_def nth_append less_Suc_eq)
  have upd: "w ! c = Some k \<Longrightarrow> heap_live (w[c := Some k']) = heap_live w" for w c k k'
    by (cases "c < length w") (auto simp: heap_live_def nth_list_update list_update_beyond
      split: if_splits)
  have mem: "length w \<notin> heap_live w" "c \<in> heap_live w \<Longrightarrow> w ! c \<noteq> None" for w :: rsa_heap and c
    by (simp_all add: heap_live_def)
  show ?thesis
    by (auto simp: rsa_contract_def heap_rsa_def free new upd heap_key_def mem dest: mem(2)
        split: option.split)
qed

section \<open>Properties\<close>

text \<open>
  C16: Signing with an RSA algorithm uses the stored key and leaves no context behind.  The signing function is called with a context that
  was not in use before and into which the library has accepted the stored modulus and both exponents, and its result is returned; if the
  context cannot be allocated or one of these components is rejected, the request fails with no signature.  On every path
  exactly the contexts that were allocated before are allocated afterwards.
\<close>

theorem data_sign_frees_key:
  assumes "rsa_contract R live key" and "base_asym_algo req \<in> set rsa_algorithms"
  shows "live (snd (libspdm_responder_data_sign R req is_data_hash message sig_size w)) = live w \<and>
    (case libspdm_get_responder_private_key_from_raw_data R (base_asym_algo req) w of
       (None, w1) \<Rightarrow> fst (libspdm_responder_data_sign R req is_data_hash message sig_size w) = (False, [])
     | (Some c, w1) \<Rightarrow> c \<notin> live w \<and> live w1 = insert c (live w) \<and>
         key w1 c LIBSPDM_RSA_KEY_N = Some m_libspdm_rsa2048_res_n \<and>
         key w1 c LIBSPDM_RSA_KEY_E = Some m_libspdm_rsa2048_res_e \<and>
         key w1 c LIBSPDM_RSA_KEY_D = Some m_libspdm_rsa2048_res_d \<and>
         fst (libspdm_responder_data_sign R req is_data_hash message sig_size w) =
           (if is_data_hash then fst (asym_sign_hash R req c message sig_size w1)
            else fst (asym_sign R req c message sig_size w1)))"
proof -
  have sign: "\<And>q c m n w. live (snd (asym_sign R q c m n w)) = live w"
    "\<And>q c m n w. live (snd (asym_sign_hash R q c m n w)) = live w"
    "\<And>c w. live (asym_free R (base_asym_algo req) c w) = live w - {c}"
    using assms by (simp_all add: rsa_contract_def)
  show ?thesis
    using load_key_outcome [where a = "base_asym_algo req" and w = w, OF assms(1)]
    by (auto simp: libspdm_responder_data_sign_def Let_def case_prod_beta sign
        split: prod.splits option.splits)
qed

definition demo_request :: sign_request where
  "demo_request = \<lparr>spdm_version = 0x1200, op_code = 3, base_asym_algo = 1, base_hash_algo = 1\<rparr>"

theorem data_sign_frees_key_witness:
  "libspdm_responder_data_sign (heap_rsa UNIV) demo_request True [1, 2] 256 [] = ((True, [1, 2]), [None]) \<and>
   heap_live [None] = heap_live []"
proof -
  have "base_asym_algo demo_request \<in> set rsa_algorithms"
    by (simp add: demo_request_def rsa_algorithms_def)
  note sound = data_sign_frees_key [where is_data_hash = True and message = "[1, 2]" and sig_size = 256 and w = "[]",
      OF heap_rsa_contract [of UNIV] this]
  have "libspdm_responder_data_sign (heap_rsa UNIV) demo_request True [1, 2] 256 [] = ((True, [1, 2]), [None])"
    by (simp add: libspdm_responder_data_sign_def libspdm_get_responder_private_key_from_raw_data_def heap_rsa_def Let_def
        demo_request_def rsa_algorithms_def)
  then show ?thesis
    using sound by simp
qed

text \<open>
  A signature is only ever made with a context into which the library has accepted the stored
  modulus and both exponents; nothing of the kind holds for the two factors: a library that
  rejects them is not noticed, and the key is reported as loaded.
\<close>

theorem loaded_key_complete:
  assumes "rsa_contract R live key"
    and "libspdm_get_responder_private_key_from_raw_data R a w = (Some c, w')"
  shows "c \<in> live w' \<and>
    key w' c LIBSPDM_RSA_KEY_N = Some m_libspdm_rsa2048_res_n \<and>
    key w' c LIBSPDM_RSA_KEY_E = Some m_libspdm_rsa2048_res_e \<and>
    key w' c LIBSPDM_RSA_KEY_D = Some m_libspdm_rsa2048_res_d"
  using load_key_outcome [where a = a and w = w, OF assms(1)] assms(2) by simp

lemma heap_rsa_without_factors:
  "libspdm_get_responder_private_key_from_raw_data
     (heap_rsa {LIBSPDM_RSA_KEY_N, LIBSPDM_RSA_KEY_E, LIBSPDM_RSA_KEY_D}) 1 [] =
   (Some 0, [Some ((\<lambda>_. None)(LIBSPDM_RSA_KEY_N := Some m_libspdm_rsa2048_res_n,
       LIBSPDM_RSA_KEY_E := Some m_libspdm_rsa2048_res_e,
       LIBSPDM_RSA_KEY_D := Some m_libspdm_rsa2048_res_d))])"
  by (simp add: libspdm_get_responder_private_key_from_raw_data_def heap_rsa_def Let_def)

theorem loaded_key_complete_witness:
  "\<exists>w'. libspdm_get_responder_private_key_from_raw_data
     (heap_rsa {LIBSPDM_RSA_KEY_N, LIBSPDM_RSA_KEY_E, LIBSPDM_RSA_KEY_D}) 1 [] = (Some 0, w') \<and>
   heap_key w' 0 LIBSPDM_RSA_KEY_D = Some m_libspdm_rsa2048_res_d \<and>
   heap_key w' 0 LIBSPDM_RSA_KEY_P = None"
  using loaded_key_complete [OF heap_rsa_contract heap_rsa_without_factors] heap_rsa_without_factors
  by (simp add: heap_key_def)

end
