(* ===== verification/Libspdm.thy ===== *)
theory Libspdm
  imports Spdm_Std
begin

text \<open>
  The functions of libspdm that the two firmwares call to configure a context and to run the
  protocol.  libspdm is not part of the repository, so they are a parameter: a record of functions
  on the state \<open>'w\<close> of the context.  The data items and callbacks are named as in the calls.
\<close>

section \<open>Configuration data\<close>

datatype libspdm_data_type =
    LIBSPDM_DATA_SPDM_VERSION
  | LIBSPDM_DATA_SECURED_MESSAGE_VERSION
  | LIBSPDM_DATA_CAPABILITY_CT_EXPONENT
  | LIBSPDM_DATA_CAPABILITY_FLAGS
  | LIBSPDM_DATA_CAPABILITY_RTT_US
  | LIBSPDM_DATA_MEASUREMENT_SPEC
  | LIBSPDM_DATA_MEASUREMENT_HASH_ALGO
  | LIBSPDM_DATA_BASE_ASYM_ALGO
  | LIBSPDM_DATA_BASE_HASH_ALGO
  | LIBSPDM_DATA_DHE_NAME_GROUP
  | LIBSPDM_DATA_AEAD_CIPHER_SUITE
  | LIBSPDM_DATA_REQ_BASE_ASYM_ALG
  | LIBSPDM_DATA_KEY_SCHEDULE
  | LIBSPDM_DATA_OTHER_PARAMS_SUPPORT
  | LIBSPDM_DATA_HEARTBEAT_PERIOD
  | LIBSPDM_DATA_LOCAL_PUBLIC_CERT_CHAIN
  | LIBSPDM_DATA_PEER_PUBLIC_CERT_CHAIN

datatype libspdm_data_location = LIBSPDM_DATA_LOCATION_INVALID | LIBSPDM_DATA_LOCATION_LOCAL

record libspdm_data_parameter =
  location :: libspdm_data_location
  additional_data_0 :: u8

text \<open>\<open>libspdm_zero_mem\<close> of the parameter, then the assignment of the location.\<close>

definition local_parameter :: libspdm_data_parameter where
  "local_parameter = \<lparr>location = LIBSPDM_DATA_LOCATION_LOCAL, additional_data_0 = 0\<rparr>"

section \<open>The context and its operations\<close>

datatype context_call =
    Init_Context
  | Register_Device_Io
  | Register_Transport_Mctp
  | Register_Device_Buffer
  | Set_Scratch_Buffer
  | Register_Get_Response
  | Register_Session_State_Callback
  | Register_Connection_State_Callback
  | Deinit_Context

datatype protocol_call =
    Init_Connection
  | Get_Digest
  | Get_Certificate
  | Challenge
  | Get_Measurement
  | Start_Session

record 'w libspdm =
  set_data :: "libspdm_data_type \<Rightarrow> libspdm_data_parameter \<Rightarrow> bytes \<Rightarrow> 'w \<Rightarrow> libspdm_return_t \<times> 'w"
  context_op :: "context_call \<Rightarrow> 'w \<Rightarrow> 'w"
  protocol_op :: "protocol_call \<Rightarrow> 'w \<Rightarrow> libspdm_return_t \<times> 'w"
  responder_dispatch_message :: "'w \<Rightarrow> libspdm_return_t \<times> 'w"

text \<open>A run of \<open>libspdm_set_data\<close> calls whose statuses are only printed.\<close>

fun set_data_items ::
  "'w libspdm \<Rightarrow> (libspdm_data_type \<times> bytes) list \<Rightarrow> 'w \<Rightarrow> libspdm_return_t list \<times> 'w" where
  "set_data_items S [] w = ([], w)"
| "set_data_items S ((d, v) # items) w =
     (let (status, w) = set_data S d local_parameter v w;
          (statuses, w) = set_data_items S items w in
      (status # statuses, w))"

lemma set_data_items_append:
  "set_data_items S (xs @ ys) w =
     (let (s, w) = set_data_items S xs w; (t, w) = set_data_items S ys w in (s @ t, w))"
  by (induction xs arbitrary: w) (auto simp: Let_def split: prod.split)

text \<open>
  Outcome of \<open>spdm_requester\<close>: a NULL return, the empty endless loop entered when the connection
  fails, or the return of the context with the statuses that were printed on the way.
\<close>

datatype requester_outcome =
    Returns_NULL
  | Loops_Forever
  | Returns_Context "(protocol_call \<times> libspdm_return_t) list"

section \<open>A context that records its calls\<close>

text \<open>
  The instance used to evaluate the flows: the state is the list of the calls so far, newest last,
  with given statuses for the protocol calls.
\<close>

datatype recorded =
    Data libspdm_data_type libspdm_data_parameter bytes
  | Context context_call
  | Protocol protocol_call
  | Dispatch

definition recorder ::
  "(protocol_call \<Rightarrow> libspdm_return_t) \<Rightarrow> (nat \<Rightarrow> libspdm_return_t) \<Rightarrow> recorded list libspdm" where
  "recorder verdict dispatch =
     \<lparr>set_data = (\<lambda>d p v w. (LIBSPDM_STATUS_SUCCESS, w @ [Data d p v])),
      context_op = (\<lambda>c w. w @ [Context c]),
      protocol_op = (\<lambda>c w. (verdict c, w @ [Protocol c])),
      responder_dispatch_message =
        (\<lambda>w. (dispatch (length (filter (\<lambda>r. r = Dispatch) w)), w @ [Dispatch]))\<rparr>"

lemma recorder_simps [simp]:
  "set_data (recorder v r) d p b w = (LIBSPDM_STATUS_SUCCESS, w @ [Data d p b])"
  "context_op (recorder v r) c w = w @ [Context c]"
  "protocol_op (recorder v r) q w = (v q, w @ [Protocol q])"
  "responder_dispatch_message (recorder v r) w =
     (r (length (filter (\<lambda>r. r = Dispatch) w)), w @ [Dispatch])"
  by (simp_all add: recorder_def)

end
