(* ===== verification/Cert_Chain.thy ===== *)
theory Cert_Chain
  imports Credentials Libspdm
begin

text \<open>
  \<open>read_responder_public_certificate_chain\<close>, of which the MicroBlaze firmware
  (\<open>Microblaze/requester.c\<close>) and the BIOS (\<open>bios/spdm_requester.c\<close>) have a version each: it builds
  the SPDM certificate chain (header, digest of the root certificate, certificates) and installs it
  in the context, as the responder's own chain or as the chain the requester expects of its peer.
\<close>

section \<open>The code\<close>

text \<open>
  The X.509 functions of libspdm.
\<close>

record x509_lib =
  x509_get_cert :: "bytes \<Rightarrow> int \<Rightarrow> bytes option"
  x509_verify_chain :: "bytes \<Rightarrow> bytes \<Rightarrow> bool"
  x509_certificate_check :: "bytes \<Rightarrow> u32 \<Rightarrow> u32 \<Rightarrow> bool \<Rightarrow> bool"

datatype diagnostic =
    Chain_Too_Large | Verify_Failed | Leaf_Check_Failed | Hash_Error

datatype allocation = Not_Allocated | Freed | Kept

record 'w cert_outcome =
  returned :: bool
  printed :: "diagnostic list"
  buffer :: allocation
  world :: 'w

definition sizeof_spdm_cert_chain_t :: nat where
  [simp]: "sizeof_spdm_cert_chain_t = 4"

definition LIBSPDM_MAX_HASH_SIZE :: nat where
  [simp]: "LIBSPDM_MAX_HASH_SIZE = 64"

text \<open>
  The X.509 checks both versions make.  When a certificate cannot be extracted, the C code prints a message and passes on a pointer
  and a length that were never assigned, which is undefined; the verdicts of the other two functions are printed and
  nothing else.
\<close>

definition assigned :: "'a option \<Rightarrow> fault + 'a" where
  "assigned v = (case v of None \<Rightarrow> Inl Uninitialised | Some x \<Rightarrow> Inr x)"

definition x509_checks :: "x509_lib \<Rightarrow> u32 \<Rightarrow> u32 \<Rightarrow> fault + diagnostic list" where
  "x509_checks X hash_algo asym_algo =
     and_then (assigned (x509_get_cert X cert_chain_responder 0)) (\<lambda>root_cert.
     let verify = (if \<not> x509_verify_chain X root_cert cert_chain_responder then [Verify_Failed] else []) in
     and_then (assigned (x509_get_cert X cert_chain_responder (-1))) (\<lambda>leaf_cert.
     let check = (if \<not> x509_certificate_check X leaf_cert asym_algo hash_algo True then [Leaf_Check_Failed] else []) in
     Inr (verify @ check)))"

text \<open>
  The header, the digest and the certificates, stored into the allocated buffer; the second
  component is \<open>None\<close> when the digest fails.
\<close>

definition fill_cert_chain :: "crypt_lib \<Rightarrow> u32 \<Rightarrow> nat \<Rightarrow> bytes \<Rightarrow> fault + bytes option" where
  "fill_cert_chain L hash_algo cert_chain_size buf =
     (let digest_size = get_hash_size L hash_algo in
      and_then (poke buf 0 (le16 (of_nat cert_chain_size))) (\<lambda>buf.
      and_then (poke buf 2 (le16 0)) (\<lambda>buf.
      case hash_all L hash_algo ca_cert_der_responder of
        None \<Rightarrow> Inr None
      | Some digest \<Rightarrow>
          and_then (poke buf sizeof_spdm_cert_chain_t digest) (\<lambda>buf.
          and_then (poke buf (sizeof_spdm_cert_chain_t + digest_size) cert_chain_responder) (\<lambda>buf.
            Inr (Some buf))))))"

text \<open>The MicroBlaze version.\<close>

definition read_responder_public_certificate_chain ::
  "'w libspdm \<Rightarrow> crypt_lib \<Rightarrow> x509_lib \<Rightarrow> (nat \<Rightarrow> bytes option) \<Rightarrow> libspdm_data_parameter \<Rightarrow>
   u32 \<Rightarrow> u32 \<Rightarrow> 'w \<Rightarrow> fault + 'w cert_outcome" where
  "read_responder_public_certificate_chain S L X malloc parameter hash_algo asym_algo w =
     (if asym_algo = 0 then Inr \<lparr>returned = False, printed = [], buffer = Not_Allocated, world = w\<rparr>
      else
        let cert_chain_size = sizeof_spdm_cert_chain_t + get_hash_size L hash_algo +
              length cert_chain_responder in
        case malloc cert_chain_size of
          None \<Rightarrow> Inr \<lparr>returned = False, printed = [], buffer = Not_Allocated, world = w\<rparr>
        | Some buf \<Rightarrow>
            and_then (x509_checks X hash_algo asym_algo) (\<lambda>diags.
            and_then (fill_cert_chain L hash_algo cert_chain_size buf) (\<lambda>r.
            case r of
              None \<Rightarrow> Inr \<lparr>returned = False, printed = diags, buffer = Freed, world = w\<rparr>
            | Some chain \<Rightarrow>
                let (status, w) =
                  set_data S LIBSPDM_DATA_LOCAL_PUBLIC_CERT_CHAIN local_parameter chain w in
                Inr \<lparr>returned = True, printed = diags, buffer = Kept, world = w\<rparr>)))"

text \<open>
  The BIOS version: one more check, one more message, and the caller's parameter instead of a
  zeroed one.
\<close>

definition read_responder_public_certificate_chain_bios ::
  "'w libspdm \<Rightarrow> crypt_lib \<Rightarrow> x509_lib \<Rightarrow> (nat \<Rightarrow> bytes option) \<Rightarrow> libspdm_data_parameter \<Rightarrow>
   u32 \<Rightarrow> u32 \<Rightarrow> 'w \<Rightarrow> fault + 'w cert_outcome" where
  "read_responder_public_certificate_chain_bios S L X malloc parameter hash_algo asym_algo w =
     (if asym_algo = 0 then Inr \<lparr>returned = False, printed = [], buffer = Not_Allocated, world = w\<rparr>
      else
        let cert_chain_size = sizeof_spdm_cert_chain_t + get_hash_size L hash_algo +
              length cert_chain_responder in
        case malloc cert_chain_size of
          None \<Rightarrow> Inr \<lparr>returned = False, printed = [], buffer = Not_Allocated, world = w\<rparr>
        | Some buf \<Rightarrow>
            let too_large =
                  (if 0xFFFF - (sizeof_spdm_cert_chain_t + LIBSPDM_MAX_HASH_SIZE) < cert_chain_size
                   then [Chain_Too_Large] else []) in
            and_then (x509_checks X hash_algo asym_algo) (\<lambda>checks.
            let diags = too_large @ checks in
            and_then (fill_cert_chain L hash_algo cert_chain_size buf) (\<lambda>r.
            case r of
              None \<Rightarrow>
                Inr \<lparr>returned = False, printed = diags @ [Hash_Error], buffer = Freed, world = w\<rparr>
            | Some chain \<Rightarrow>
                let (status, w) = set_data S LIBSPDM_DATA_PEER_PUBLIC_CERT_CHAIN
                  (parameter\<lparr>location := LIBSPDM_DATA_LOCATION_LOCAL, additional_data_0 := 0\<rparr>)
                  chain w in
                Inr \<lparr>returned = True, printed = diags, buffer = Kept, world = w\<rparr>)))"

section \<open>Contract of the X.509 functions\<close>

text \<open>
  A chain is a sequence of DER certificates; \<open>libspdm_x509_get_cert_from_cert_chain\<close> returns the first one for the index 0 and
  the last one for the index -1.  Nothing is assumed of the verdicts.
\<close>

definition x509_contract :: "x509_lib \<Rightarrow> bool" where
  "x509_contract X \<longleftrightarrow>
     (\<forall>certs. certs \<noteq> [] \<and> (\<forall>c\<in>set certs. der_sequence_size c = Some (length c)) \<longrightarrow>
        x509_get_cert X (concat certs) 0 = Some (hd certs) \<and> x509_get_cert X (concat certs) (-1) = Some (last certs))"

text \<open>What the checks print for the stored chain: they look at its root and its leaf.\<close>

definition verdicts :: "x509_lib \<Rightarrow> u32 \<Rightarrow> u32 \<Rightarrow> diagnostic list" where
  "verdicts X hash_algo asym_algo =
     [d \<leftarrow> [Verify_Failed, Leaf_Check_Failed].
        d = Verify_Failed \<and> \<not> x509_verify_chain X ca_cert_der_responder cert_chain_responder \<or>
        d = Leaf_Check_Failed \<and> \<not> x509_certificate_check X leaf_cert asym_algo hash_algo True]"

lemma x509_checks_verdicts:
  assumes "x509_contract X"
  shows "x509_checks X hash_algo asym_algo = Inr (verdicts X hash_algo asym_algo)"
proof -
  have "cert_chain_responder = concat [ca_cert_der_responder, intermediate_cert, leaf_cert]"
    using chain_is_three_certs by simp
  then have "x509_get_cert X cert_chain_responder 0 = Some ca_cert_der_responder"
    "x509_get_cert X cert_chain_responder (-1) = Some leaf_cert"
    using assms three_der_certs unfolding x509_contract_def
    by (metis last.simps list.distinct(1) list.sel(1))+
  then show ?thesis
    by (simp add: x509_checks_def assigned_def verdicts_def Let_def)
qed

text \<open>A library that walks over the DER headers and rejects every certificate.\<close>

primrec last_cert :: "nat \<Rightarrow> bytes \<Rightarrow> bytes option" where
  "last_cert 0 chain = None"
| "last_cert (Suc k) chain =
     (case der_sequence_size chain of
        None \<Rightarrow> None
      | Some n \<Rightarrow> if length chain \<le> n then Some chain else last_cert k (drop n chain))"

definition rejecting_x509 :: x509_lib where
  "rejecting_x509 =
     \<lparr>x509_get_cert = \<lambda>chain i.
        if i = 0 then map_option (\<lambda>n. take n chain) (der_sequence_size chain) else last_cert (length chain) chain,
      x509_verify_chain = \<lambda>_ _. False, x509_certificate_check = \<lambda>_ _ _ _. False\<rparr>"

lemma der_sequence_size_append: "der_sequence_size c = Some n \<Longrightarrow> der_sequence_size (c @ rest) = Some n \<and> 4 \<le> n"
  by (cases c rule: der_sequence_size.cases) (auto split: if_splits)

lemma last_cert_concat:
  "certs \<noteq> [] \<Longrightarrow> \<forall>c\<in>set certs. der_sequence_size c = Some (length c) \<Longrightarrow> length certs \<le> k \<Longrightarrow>
   last_cert k (concat certs) = Some (last certs)"
proof (induction certs arbitrary: k)
  case (Cons c certs)
  then obtain k' where k: "k = Suc k'"
    by (cases k) auto
  have size: "der_sequence_size (c @ concat certs) = Some (length c)"
    using der_sequence_size_append [of c "length c"] Cons.prems(2) by simp
  show ?case
  proof (cases certs)
    case Nil
    then show ?thesis
      using size k by simp
  next
    case (Cons d ds)
    then have "4 \<le> length d"
      using der_sequence_size_append [of d "length d"] Cons.prems(2) by simp
    then show ?thesis
      using size k Cons Cons.IH [of k'] Cons.prems by auto
  qed
qed simp

lemma rejecting_x509_contract: "x509_contract rejecting_x509"
  unfolding x509_contract_def
proof (intro allI impI conjI)
  fix certs :: "bytes list"
  assume certs: "certs \<noteq> [] \<and> (\<forall>c\<in>set certs. der_sequence_size c = Some (length c))"
  then obtain c cs where c: "certs = c # cs"
    by (cases certs) auto
  then show "x509_get_cert rejecting_x509 (concat certs) 0 = Some (hd certs)"
    using certs der_sequence_size_append [of c "length c"] by (simp add: rejecting_x509_def)
  have "\<forall>c\<in>set certs. 1 \<le> length c"
    using certs der_sequence_size_append by fastforce
  then have "length certs \<le> length (concat certs)"
    by (induction certs) auto
  then show "x509_get_cert rejecting_x509 (concat certs) (-1) = Some (last certs)"
    using certs last_cert_concat [of certs] by (simp add: rejecting_x509_def)
qed

section \<open>The SPDM certificate chain format\<close>

definition spdm_cert_chain :: "bytes \<Rightarrow> bytes \<Rightarrow> bytes" where
  "spdm_cert_chain digest certs =
     le16 (of_nat (4 + length digest + length certs)) @ le16 0 @ digest @ certs"

text \<open>Reading a chain back, for a given digest size; the length field has to match.\<close>

definition parse_cert_chain :: "nat \<Rightarrow> bytes \<Rightarrow> (bytes \<times> bytes) option" where
  "parse_cert_chain digest_size c =
     (if 4 + digest_size \<le> length c \<and> unat (of_le16 (c ! 0) (c ! Suc 0)) = length c
      then Some (take digest_size (drop 4 c), drop (4 + digest_size) c)
      else None)"

lemma parse_spdm_cert_chain:
  assumes "4 + length digest + length certs < 65536"
  shows "parse_cert_chain (length digest) (spdm_cert_chain digest certs) = Some (digest, certs)"
proof -
  have "of_le16 (spdm_cert_chain digest certs ! 0) (spdm_cert_chain digest certs ! Suc 0) =
      of_nat (4 + length digest + length certs)"
    using of_le16_le16 [of "of_nat (4 + length digest + length certs)"]
    by (simp add: spdm_cert_chain_def le16_def)
  moreover have "unat (of_nat (4 + length digest + length certs) :: u16) =
      4 + length digest + length certs"
    using assms by (simp add: unat_of_nat del: of_nat_add)
  ultimately show ?thesis
    by (simp add: parse_cert_chain_def) (simp add: spdm_cert_chain_def)
qed

lemma fill_cert_chain_ok:
  assumes "hash_all L a ca_cert_der_responder = Some digest" and "length digest = get_hash_size L a"
    and "length buf = 4 + get_hash_size L a + 2315"
  shows "fill_cert_chain L a (4 + get_hash_size L a + 2315) buf =
    Inr (Some (spdm_cert_chain digest cert_chain_responder))"
proof -
  obtain h d c where buf: "buf = h @ d @ c" "length h = 4" "length d = length digest"
    "length c = 2315"
  proof
    show "buf = take 4 buf @ take (length digest) (drop 4 buf) @ drop (4 + length digest) buf"
      by (metis add.commute append_take_drop_id drop_drop)
  qed (use assms in simp_all)
  then obtain h0 h1 h2 h3 where h: "h = [h0, h1] @ [h2, h3]"
    by (cases h; cases "tl h"; cases "tl (tl h)"; cases "tl (tl (tl h))") auto
  let ?len = "le16 (of_nat (4 + get_hash_size L a + 2315))"
  have "poke buf 0 ?len = Inr (?len @ [h2, h3] @ d @ c)"
    using poke_at_end [of "[]" 0 ?len "[h0, h1]" "[h2, h3] @ d @ c"] buf h by simp
  moreover have "poke (?len @ [h2, h3] @ d @ c) 2 (le16 0) = Inr (?len @ le16 0 @ d @ c)"
    by (rule poke_at_end) simp_all
  moreover have "poke (?len @ le16 0 @ d @ c) 4 digest = Inr (?len @ le16 0 @ digest @ c)"
    using poke_at_end [of "?len @ le16 0" 4 digest d c] buf by simp
  moreover have "poke (?len @ le16 0 @ digest @ c) (4 + get_hash_size L a) cert_chain_responder =
      Inr (?len @ le16 0 @ digest @ cert_chain_responder)"
    using poke_at_end [of "?len @ le16 0 @ digest" "4 + get_hash_size L a" cert_chain_responder c "[]"]
      buf assms(2) by simp
  ultimately show ?thesis
    using assms(1,2) by (simp add: fill_cert_chain_def Let_def spdm_cert_chain_def)
qed

lemma fill_cert_chain_failed:
  assumes "hash_all L a ca_cert_der_responder = None"
    and "length buf = 4 + get_hash_size L a + 2315"
  shows "fill_cert_chain L a (4 + get_hash_size L a + 2315) buf = Inr None"
  using assms by (simp add: fill_cert_chain_def poke_def)

section \<open>Properties\<close>

text \<open>An allocator returns a block of the size asked for, or nothing.\<close>

definition malloc_contract :: "(nat \<Rightarrow> bytes option) \<Rightarrow> bool" where
  "malloc_contract malloc \<longleftrightarrow> (\<forall>n b. malloc n = Some b \<longrightarrow> length b = n)"

lemma allocated:
  "malloc_contract malloc \<Longrightarrow> malloc n = Some buf \<Longrightarrow> length buf = n"
  by (simp add: malloc_contract_def)

text \<open>
  C10: What the responder installs as its own certificate chain and what the requester installs as
  the chain of its peer are the same bytes, and they are the SPDM certificate chain (length,
  digest of the root certificate, the three certificates): parsing them gives back exactly the
  digest and the certificates.  Neither version stores outside its buffer.
\<close>

theorem both_ends_install_the_chain:
  assumes "digest_contract L" and "malloc_contract malloc" and "malloc_contract malloc'"
    and "x509_contract X" and "x509_contract X'" and "asym_algo \<noteq> 0" and "get_hash_size L hash_algo \<le> LIBSPDM_MAX_HASH_SIZE"
    and "malloc (4 + get_hash_size L hash_algo + 2315) = Some buf"
    and "malloc' (4 + get_hash_size L hash_algo + 2315) = Some buf'"
    and "hash_all L hash_algo ca_cert_der_responder = Some digest"
  shows "\<exists>chain o1 o2.
    parse_cert_chain (get_hash_size L hash_algo) chain = Some (digest, cert_chain_responder) \<and>
    read_responder_public_certificate_chain S L X malloc param hash_algo asym_algo w = Inr o1 \<and>
    returned o1 \<and>
    world o1 = snd (set_data S LIBSPDM_DATA_LOCAL_PUBLIC_CERT_CHAIN local_parameter chain w) \<and>
    read_responder_public_certificate_chain_bios S' L X' malloc' local_parameter
      hash_algo asym_algo w' = Inr o2 \<and>
    returned o2 \<and>
    world o2 = snd (set_data S' LIBSPDM_DATA_PEER_PUBLIC_CERT_CHAIN local_parameter chain w')"
proof -
  let ?chain = "spdm_cert_chain digest cert_chain_responder"
  have d: "length digest = get_hash_size L hash_algo"
    using assms(1,10) by (simp add: digest_contract_def)
  have fill: "fill_cert_chain L hash_algo (4 + get_hash_size L hash_algo + 2315) b =
      Inr (Some ?chain)" if "length b = 4 + get_hash_size L hash_algo + 2315" for b
    using assms(10) d that by (rule fill_cert_chain_ok)
  have "parse_cert_chain (get_hash_size L hash_algo) ?chain = Some (digest, cert_chain_responder)"
    using parse_spdm_cert_chain [of digest cert_chain_responder] d assms(7) by simp
  then show ?thesis
    using fill [OF allocated [OF assms(2,8)]] fill [OF allocated [OF assms(3,9)]] assms(6,8,9)
      x509_checks_verdicts [OF assms(4)] x509_checks_verdicts [OF assms(5)]
    by (intro exI [of _ ?chain])
      (simp add: read_responder_public_certificate_chain_def local_parameter_def
        read_responder_public_certificate_chain_bios_def Let_def case_prod_beta)
qed

theorem both_ends_install_the_chain_witness:
  "\<exists>chain. parse_cert_chain 32 chain =
      Some (take 32 (ca_cert_der_responder @ replicate 32 0), cert_chain_responder) \<and>
    (\<exists>o1. read_responder_public_certificate_chain
        (recorder (\<lambda>_. LIBSPDM_STATUS_SUCCESS) (\<lambda>_. LIBSPDM_STATUS_SUCCESS)) demo_lib
        rejecting_x509 (\<lambda>n. Some (replicate n 0)) local_parameter 1 1 [] =
        Inr o1 \<and>
      world o1 = [Data LIBSPDM_DATA_LOCAL_PUBLIC_CERT_CHAIN local_parameter chain])"
proof -
  let ?S = "recorder (\<lambda>_. LIBSPDM_STATUS_SUCCESS) (\<lambda>_. LIBSPDM_STATUS_SUCCESS)"
  have m: "malloc_contract (\<lambda>n. Some (replicate n 0))"
    by (simp add: malloc_contract_def)
  show ?thesis
    using both_ends_install_the_chain [where S = ?S and S' = ?S and w = "[]" and w' = "[]"
        and asym_algo = 1 and hash_algo = 1 and X = rejecting_x509 and X' = rejecting_x509 and param = local_parameter
        and buf = "replicate 2351 0" and buf' = "replicate 2351 0"
        and digest = "take 32 (ca_cert_der_responder @ replicate 32 0)",
        OF demo_lib_contract m m rejecting_x509_contract rejecting_x509_contract]
    by auto
qed

text \<open>
  C20: The verdicts of the X.509 checks are printed and have no other effect.  The BIOS has the root certificate of the stored chain verified against the chain and the
  leaf certificate checked, and prints exactly the verdicts that are negative; whatever they are, if the digest can be computed the chain is installed as the
  one to expect of the peer and the function returns true, and otherwise the buffer is released.
\<close>

theorem x509_verdicts_only_printed:
  assumes "digest_contract L" and "malloc_contract malloc" and "x509_contract X" and "asym_algo \<noteq> 0"
    and "get_hash_size L hash_algo \<le> LIBSPDM_MAX_HASH_SIZE"
    and "malloc (4 + get_hash_size L hash_algo + 2315) = Some buf"
  shows "read_responder_public_certificate_chain_bios S L X malloc local_parameter hash_algo asym_algo w =
    Inr (case hash_all L hash_algo ca_cert_der_responder of
        None \<Rightarrow> \<lparr>returned = False, printed = verdicts X hash_algo asym_algo @ [Hash_Error], buffer = Freed, world = w\<rparr>
      | Some digest \<Rightarrow>
          \<lparr>returned = True, printed = verdicts X hash_algo asym_algo, buffer = Kept,
           world = snd (set_data S LIBSPDM_DATA_PEER_PUBLIC_CERT_CHAIN local_parameter
             (spdm_cert_chain digest cert_chain_responder) w)\<rparr>)"
proof -
  note len = allocated [OF assms(2,6)] and checks = x509_checks_verdicts [OF assms(3)]
  show ?thesis
  proof (cases "hash_all L hash_algo ca_cert_der_responder")
    case None
    then show ?thesis
      using fill_cert_chain_failed [OF None len] assms(4-6) checks
      by (simp add: read_responder_public_certificate_chain_bios_def Let_def)
  next
    case (Some digest)
    then have "length digest = get_hash_size L hash_algo"
      using assms(1) by (simp add: digest_contract_def)
    from fill_cert_chain_ok [OF Some this len] show ?thesis
      using Some assms(4-6) checks
      by (simp add: read_responder_public_certificate_chain_bios_def Let_def case_prod_beta local_parameter_def)
  qed
qed

theorem x509_verdicts_only_printed_witness:
  "\<exists>out. read_responder_public_certificate_chain_bios
      (recorder (\<lambda>_. LIBSPDM_STATUS_SUCCESS) (\<lambda>_. LIBSPDM_STATUS_SUCCESS)) demo_lib
      rejecting_x509 (\<lambda>n. Some (replicate n 0)) local_parameter 1 1 [] = Inr out \<and>
    returned out \<and> printed out = [Verify_Failed, Leaf_Check_Failed]"
proof -
  have m: "malloc_contract (\<lambda>n. Some (replicate n 0))"
    by (simp add: malloc_contract_def)
  have "verdicts rejecting_x509 1 1 = [Verify_Failed, Leaf_Check_Failed]"
    by (simp add: verdicts_def rejecting_x509_def)
  then show ?thesis
    using x509_verdicts_only_printed [where asym_algo = 1 and hash_algo = 1 and w = "[]" and buf = "replicate 2351 0"
        and S = "recorder (\<lambda>_. LIBSPDM_STATUS_SUCCESS) (\<lambda>_. LIBSPDM_STATUS_SUCCESS)",
        OF demo_lib_contract m rejecting_x509_contract]
    by auto
qed

text \<open>
  The chain buffer is never lost: whatever fails, it is kept exactly when the function returns
  true (the context refers to it), freed when the digest fails, and otherwise was not allocated.
\<close>

theorem cert_chain_buffer_fate:
  assumes "digest_contract L" and "malloc_contract malloc" and "x509_contract X"
  shows "\<exists>out. read_responder_public_certificate_chain S L X malloc param hash_algo asym_algo w =
      Inr out \<and>
    (returned out \<longleftrightarrow> buffer out = Kept) \<and>
    (buffer out = Freed \<longleftrightarrow> asym_algo \<noteq> 0 \<and>
       malloc (4 + get_hash_size L hash_algo + 2315) \<noteq> None \<and>
       hash_all L hash_algo ca_cert_der_responder = None)"
proof (cases "malloc (4 + get_hash_size L hash_algo + 2315)")
  case None
  then show ?thesis
    by (simp add: read_responder_public_certificate_chain_def Let_def)
next
  case (Some buf)
  note len = allocated [OF assms(2) Some] and checks = x509_checks_verdicts [OF assms(3)]
  show ?thesis
  proof (cases "hash_all L hash_algo ca_cert_der_responder")
    case None
    with fill_cert_chain_failed [OF None len] Some checks show ?thesis
      by (simp add: read_responder_public_certificate_chain_def Let_def)
  next
    case (Some digest)
    then have "length digest = get_hash_size L hash_algo"
      using assms(1) by (simp add: digest_contract_def)
    from fill_cert_chain_ok [OF Some this len] \<open>malloc _ = Some buf\<close> Some checks show ?thesis
      by (simp add: read_responder_public_certificate_chain_def Let_def case_prod_beta)
  qed
qed

theorem cert_chain_buffer_fate_witness:
  "\<exists>out. read_responder_public_certificate_chain
      (recorder (\<lambda>_. LIBSPDM_STATUS_SUCCESS) (\<lambda>_. LIBSPDM_STATUS_SUCCESS))
      (demo_lib\<lparr>hash_all := \<lambda>_ _. None\<rparr>)
      rejecting_x509 (\<lambda>n. Some (replicate n 0)) local_parameter 1 1 [] =
    Inr out \<and> buffer out = Freed"
proof -
  have "digest_contract (demo_lib\<lparr>hash_all := \<lambda>_ _. None\<rparr>)"
    using demo_lib_contract by (simp add: digest_contract_def demo_lib_def)
  moreover have "malloc_contract (\<lambda>n. Some (replicate n 0))"
    by (simp add: malloc_contract_def)
  ultimately show ?thesis
    using cert_chain_buffer_fate [where hash_algo = 1 and asym_algo = 1, OF _ _ rejecting_x509_contract] by fastforce
qed

end
