(* ===== verification/Endpoints.thy ===== *)
theory Endpoints
  imports Cert_Chain Spdm_Link
begin

text \<open>
  The two firmwares' main flows: \<open>spdm_requester\<close> of the BIOS (\<open>bios/spdm_requester.c\<close>), \<open>main\<close> of
  the MicroBlaze (\<open>Microblaze/requester.c\<close>) and \<open>spdm_responder\<close>, the responder the BIOS can run in
  itself (\<open>bios/spdm_responder.c\<close>), with the configuration each gives its context.
\<close>

section \<open>Values of the standard\<close>

text \<open>Capability flags of requests and responses (they agree where both exist).\<close>

definition CACHE_CAP :: u32 where [simp]: "CACHE_CAP = 0x1"
definition CERT_CAP :: u32 where [simp]: "CERT_CAP = 0x2"
definition CHAL_CAP :: u32 where [simp]: "CHAL_CAP = 0x4"
definition MEAS_CAP_SIG :: u32 where [simp]: "MEAS_CAP_SIG = 0x10"
definition MEAS_FRESH_CAP :: u32 where [simp]: "MEAS_FRESH_CAP = 0x20"
definition ENCRYPT_CAP :: u32 where [simp]: "ENCRYPT_CAP = 0x40"
definition MAC_CAP :: u32 where [simp]: "MAC_CAP = 0x80"
definition KEY_EX_CAP :: u32 where [simp]: "KEY_EX_CAP = 0x200"
definition PSK_CAP_RESPONDER_WITH_CONTEXT :: u32 where [simp]: "PSK_CAP_RESPONDER_WITH_CONTEXT = 0x800"
definition ENCAP_CAP :: u32 where [simp]: "ENCAP_CAP = 0x1000"
definition HBEAT_CAP :: u32 where [simp]: "HBEAT_CAP = 0x2000"
definition KEY_UPD_CAP :: u32 where [simp]: "KEY_UPD_CAP = 0x4000"
definition HANDSHAKE_IN_THE_CLEAR_CAP :: u32 where [simp]: "HANDSHAKE_IN_THE_CLEAR_CAP = 0x8000"
definition CHUNK_CAP :: u32 where [simp]: "CHUNK_CAP = 0x20000"
definition SET_CERT_CAP :: u32 where [simp]: "SET_CERT_CAP = 0x80000"
definition CSR_CAP :: u32 where [simp]: "CSR_CAP = 0x100000"

text \<open>Algorithms.\<close>

definition RSASSA_2048 :: u32 where [simp]: "RSASSA_2048 = 0x1"
definition RSAPSS_2048 :: u32 where [simp]: "RSAPSS_2048 = 0x2"
definition RSASSA_3072 :: u32 where [simp]: "RSASSA_3072 = 0x4"
definition RSAPSS_3072 :: u32 where [simp]: "RSAPSS_3072 = 0x8"
definition ECDSA_P256 :: u32 where [simp]: "ECDSA_P256 = 0x10"
definition ECDSA_P384 :: u32 where [simp]: "ECDSA_P384 = 0x80"
definition BASE_HASH_SHA_256 :: u32 where [simp]: "BASE_HASH_SHA_256 = 0x1"
definition BASE_HASH_SHA_384 :: u32 where [simp]: "BASE_HASH_SHA_384 = 0x2"
definition BASE_HASH_SHA3_512 :: u32 where [simp]: "BASE_HASH_SHA3_512 = 0x20"
definition MEAS_HASH_SHA_256 :: u32 where [simp]: "MEAS_HASH_SHA_256 = 0x2"
definition MEAS_HASH_SHA_384 :: u32 where [simp]: "MEAS_HASH_SHA_384 = 0x4"
definition MEAS_HASH_SHA_512 :: u32 where [simp]: "MEAS_HASH_SHA_512 = 0x8"
definition FFDHE_2048 :: u16 where [simp]: "FFDHE_2048 = 0x1"
definition FFDHE_3072 :: u16 where [simp]: "FFDHE_3072 = 0x2"
definition SECP_256_R1 :: u16 where [simp]: "SECP_256_R1 = 0x8"
definition SECP_384_R1 :: u16 where [simp]: "SECP_384_R1 = 0x10"
definition AES_128_GCM :: u16 where [simp]: "AES_128_GCM = 0x1"
definition AES_256_GCM :: u16 where [simp]: "AES_256_GCM = 0x2"
definition CHACHA20_POLY1305 :: u16 where [simp]: "CHACHA20_POLY1305 = 0x4"
definition KEY_SCHEDULE_HMAC_HASH :: u16 where [simp]: "KEY_SCHEDULE_HMAC_HASH = 0x1"
definition OPAQUE_DATA_FORMAT_1 :: u8 where [simp]: "OPAQUE_DATA_FORMAT_1 = 0x2"

section \<open>Configuration of the three endpoints\<close>

record spdm_config =
  capability_flags :: u32
  support_measurement_spec :: u8
  support_measurement_hash_algo :: u32
  support_asym_algo :: u32
  support_hash_algo :: u32
  support_dhe_algo :: u16
  support_aead_algo :: u16
  support_req_asym_algo :: u16
  support_key_schedule_algo :: u16
  support_other_params_support :: u8

text \<open>The globals of \<open>bios/spdm_requester.c\<close>; the measurement digest is a constant of the flow.\<close>

definition requester_config :: spdm_config where
  "requester_config =
     \<lparr>capability_flags = CERT_CAP OR CHAL_CAP OR ENCRYPT_CAP OR MAC_CAP OR KEY_EX_CAP OR ENCAP_CAP OR
        KEY_UPD_CAP OR CHUNK_CAP,
      support_measurement_spec = SPDM_MEASUREMENT_BLOCK_HEADER_SPECIFICATION_DMTF,
      support_measurement_hash_algo = MEAS_HASH_SHA_256,
      support_asym_algo = ECDSA_P384 OR ECDSA_P256 OR RSAPSS_3072 OR RSAPSS_2048 OR RSASSA_3072 OR
        RSASSA_2048,
      support_hash_algo = BASE_HASH_SHA_384 OR BASE_HASH_SHA_256,
      support_dhe_algo = SECP_256_R1 OR FFDHE_2048,
      support_aead_algo = AES_128_GCM OR AES_256_GCM OR CHACHA20_POLY1305,
      support_req_asym_algo =
        ucast (RSAPSS_3072 OR RSAPSS_2048 OR RSASSA_3072 OR RSASSA_2048),
      support_key_schedule_algo = KEY_SCHEDULE_HMAC_HASH,
      support_other_params_support = OPAQUE_DATA_FORMAT_1\<rparr>"

text \<open>The globals of \<open>Microblaze/requester.c\<close>.\<close>

definition responder_config :: spdm_config where
  "responder_config =
     \<lparr>capability_flags = CERT_CAP OR CHAL_CAP OR MEAS_CAP_SIG OR ENCRYPT_CAP OR MAC_CAP OR
        KEY_EX_CAP OR ENCAP_CAP OR KEY_UPD_CAP OR CHUNK_CAP,
      support_measurement_spec = SPDM_MEASUREMENT_BLOCK_HEADER_SPECIFICATION_DMTF,
      support_measurement_hash_algo = MEAS_HASH_SHA_256,
      support_asym_algo = RSASSA_2048,
      support_hash_algo = BASE_HASH_SHA_256,
      support_dhe_algo = SECP_384_R1 OR SECP_256_R1 OR FFDHE_3072 OR FFDHE_2048,
      support_aead_algo = CHACHA20_POLY1305,
      support_req_asym_algo = ucast RSASSA_2048,
      support_key_schedule_algo = KEY_SCHEDULE_HMAC_HASH,
      support_other_params_support = OPAQUE_DATA_FORMAT_1\<rparr>"

text \<open>The globals of \<open>bios/spdm_responder.c\<close>.\<close>

definition bios_responder_config :: spdm_config where
  "bios_responder_config =
     \<lparr>capability_flags = CACHE_CAP OR CERT_CAP OR CHAL_CAP OR MEAS_CAP_SIG OR MEAS_FRESH_CAP OR
        ENCRYPT_CAP OR MAC_CAP OR KEY_EX_CAP OR PSK_CAP_RESPONDER_WITH_CONTEXT OR ENCAP_CAP OR
        HBEAT_CAP OR KEY_UPD_CAP OR HANDSHAKE_IN_THE_CLEAR_CAP OR CHUNK_CAP OR SET_CERT_CAP OR
        CSR_CAP,
      support_measurement_spec = SPDM_MEASUREMENT_BLOCK_HEADER_SPECIFICATION_DMTF,
      support_measurement_hash_algo = MEAS_HASH_SHA_512 OR MEAS_HASH_SHA_384 OR MEAS_HASH_SHA_256,
      support_asym_algo = ECDSA_P384 OR ECDSA_P256,
      support_hash_algo = BASE_HASH_SHA_384 OR BASE_HASH_SHA_256 OR BASE_HASH_SHA3_512,
      support_dhe_algo = SECP_384_R1 OR SECP_256_R1 OR FFDHE_3072 OR FFDHE_2048,
      support_aead_algo = AES_256_GCM OR CHACHA20_POLY1305,
      support_req_asym_algo =
        ucast (RSAPSS_3072 OR RSAPSS_2048 OR RSASSA_3072 OR RSASSA_2048),
      support_key_schedule_algo = KEY_SCHEDULE_HMAC_HASH,
      support_other_params_support = OPAQUE_DATA_FORMAT_1\<rparr>"

definition spdm_version_12 :: bytes where
  "spdm_version_12 = le16 (push_bit SPDM_VERSION_NUMBER_SHIFT_BIT SPDM_MESSAGE_VERSION_12)"

text \<open>The calls of \<open>libspdm_set_data\<close>, in the order of each flow.\<close>

definition requester_items :: "(libspdm_data_type \<times> bytes) list" where
  "requester_items = (let cfg = requester_config in
     [(LIBSPDM_DATA_SPDM_VERSION, spdm_version_12),
      (LIBSPDM_DATA_CAPABILITY_CT_EXPONENT, [0x5]),
      (LIBSPDM_DATA_CAPABILITY_FLAGS, le32 (capability_flags cfg)),
      (LIBSPDM_DATA_CAPABILITY_RTT_US, replicate 8 0),
      (LIBSPDM_DATA_MEASUREMENT_HASH_ALGO, le32 (support_measurement_hash_algo cfg)),
      (LIBSPDM_DATA_MEASUREMENT_SPEC, [support_measurement_spec cfg]),
      (LIBSPDM_DATA_BASE_ASYM_ALGO, le32 (support_asym_algo cfg)),
      (LIBSPDM_DATA_BASE_HASH_ALGO, le32 (support_hash_algo cfg)),
      (LIBSPDM_DATA_DHE_NAME_GROUP, le16 (support_dhe_algo cfg)),
      (LIBSPDM_DATA_AEAD_CIPHER_SUITE, le16 (support_aead_algo cfg)),
      (LIBSPDM_DATA_REQ_BASE_ASYM_ALG, le16 (support_req_asym_algo cfg)),
      (LIBSPDM_DATA_KEY_SCHEDULE, le16 (support_key_schedule_algo cfg)),
      (LIBSPDM_DATA_OTHER_PARAMS_SUPPORT, [support_other_params_support cfg])])"

definition responder_items :: "(libspdm_data_type \<times> bytes) list" where
  "responder_items = (let cfg = responder_config in
     [(LIBSPDM_DATA_SPDM_VERSION, spdm_version_12),
      (LIBSPDM_DATA_CAPABILITY_CT_EXPONENT, [0x5]),
      (LIBSPDM_DATA_CAPABILITY_FLAGS, le32 (capability_flags cfg)),
      (LIBSPDM_DATA_CAPABILITY_RTT_US, replicate 8 0),
      (LIBSPDM_DATA_MEASUREMENT_SPEC, [support_measurement_spec cfg]),
      (LIBSPDM_DATA_MEASUREMENT_HASH_ALGO, le32 (support_measurement_hash_algo cfg)),
      (LIBSPDM_DATA_BASE_ASYM_ALGO, le32 (support_asym_algo cfg)),
      (LIBSPDM_DATA_BASE_HASH_ALGO, le32 (support_hash_algo cfg)),
      (LIBSPDM_DATA_DHE_NAME_GROUP, le16 (support_dhe_algo cfg)),
      (LIBSPDM_DATA_AEAD_CIPHER_SUITE, le16 (support_aead_algo cfg)),
      (LIBSPDM_DATA_REQ_BASE_ASYM_ALG, le16 (support_req_asym_algo cfg)),
      (LIBSPDM_DATA_KEY_SCHEDULE, le16 (support_key_schedule_algo cfg)),
      (LIBSPDM_DATA_OTHER_PARAMS_SUPPORT, [support_other_params_support cfg]),
      (LIBSPDM_DATA_HEARTBEAT_PERIOD, [0xF0])])"

definition bios_responder_items :: "(libspdm_data_type \<times> bytes) list" where
  "bios_responder_items = (let cfg = bios_responder_config in
     [(LIBSPDM_DATA_SPDM_VERSION, spdm_version_12),
      (LIBSPDM_DATA_SECURED_MESSAGE_VERSION, le16 (push_bit SPDM_VERSION_NUMBER_SHIFT_BIT 0x1)),
      (LIBSPDM_DATA_CAPABILITY_CT_EXPONENT, [0]),
      (LIBSPDM_DATA_CAPABILITY_FLAGS, le32 (capability_flags cfg)),
      (LIBSPDM_DATA_MEASUREMENT_SPEC, [support_measurement_spec cfg]),
      (LIBSPDM_DATA_MEASUREMENT_HASH_ALGO, le32 (support_measurement_hash_algo cfg)),
      (LIBSPDM_DATA_BASE_ASYM_ALGO, le32 (support_asym_algo cfg)),
      (LIBSPDM_DATA_BASE_HASH_ALGO, le32 (support_hash_algo cfg)),
      (LIBSPDM_DATA_DHE_NAME_GROUP, le16 (support_dhe_algo cfg)),
      (LIBSPDM_DATA_AEAD_CIPHER_SUITE, le16 (support_aead_algo cfg)),
      (LIBSPDM_DATA_REQ_BASE_ASYM_ALG, le16 (support_req_asym_algo cfg)),
      (LIBSPDM_DATA_KEY_SCHEDULE, le16 (support_key_schedule_algo cfg)),
      (LIBSPDM_DATA_OTHER_PARAMS_SUPPORT, [support_other_params_support cfg]),
      (LIBSPDM_DATA_HEARTBEAT_PERIOD, [0xF0])])"

section \<open>The requester\<close>

text \<open>
  The allocations of the context and of the scratch buffer are given as their success; everything
  before the first protocol call is \<open>requester_setup\<close>.
\<close>

definition requester_setup ::
  "'w libspdm \<Rightarrow> crypt_lib \<Rightarrow> x509_lib \<Rightarrow> (nat \<Rightarrow> bytes option) \<Rightarrow> 'w \<Rightarrow> fault + 'w" where
  "requester_setup S L X malloc w =
     (let w = context_op S Init_Context w;
          w = context_op S Register_Device_Io w;
          w = context_op S Register_Transport_Mctp w;
          w = context_op S Register_Device_Buffer w;
          w = context_op S Set_Scratch_Buffer w;
          (statuses, w) = set_data_items S requester_items w in
      and_then (read_responder_public_certificate_chain_bios S L X malloc local_parameter
          BASE_HASH_SHA_256 RSASSA_2048 w) (\<lambda>out. Inr (world out)))"

definition spdm_requester ::
  "'w libspdm \<Rightarrow> crypt_lib \<Rightarrow> x509_lib \<Rightarrow> (nat \<Rightarrow> bytes option) \<Rightarrow> bool \<Rightarrow> bool \<Rightarrow> 'w \<Rightarrow>
   fault + (requester_outcome \<times> 'w)" where
  "spdm_requester S L X malloc context_ok scratch_ok w =
     (if \<not> context_ok then Inr (Returns_NULL, w)
      else if \<not> scratch_ok then
        Inr (Returns_NULL,
          context_op S Register_Device_Buffer (context_op S Register_Transport_Mctp
            (context_op S Register_Device_Io (context_op S Init_Context w))))
      else
        and_then (requester_setup S L X malloc w) (\<lambda>w.
          let (status, w) = protocol_op S Init_Connection w in
          if status \<noteq> LIBSPDM_STATUS_SUCCESS then Inr (Loops_Forever, w)
          else
            let (digest, w) = protocol_op S Get_Digest w;
                (certificate, w) = protocol_op S Get_Certificate w;
                (challenge, w) = protocol_op S Challenge w;
                (measurement, w) = protocol_op S Get_Measurement w;
                (session, w) = protocol_op S Start_Session w in
            Inr (Returns_Context
              [(Init_Connection, status), (Get_Digest, digest), (Get_Certificate, certificate),
               (Challenge, challenge), (Get_Measurement, measurement), (Start_Session, session)], w)))"

section \<open>The responders\<close>

text \<open>
  The device I/O of the BIOS's own responder: a send prints and reports success with nothing sent;
  a receive assigns the register it reads to its own parameter, so that the caller's message and
  size stay what they were.
\<close>

definition spdm_responder_send_message_bios ::
  "bytes \<Rightarrow> 'f link \<Rightarrow> libspdm_return_t \<times> 'f link" where
  "spdm_responder_send_message_bios message l = (LIBSPDM_STATUS_SUCCESS, l)"

definition spdm_responder_receive_message_bios ::
  "nat \<times> bytes \<Rightarrow> 'f link \<Rightarrow> libspdm_return_t \<times> (nat \<times> bytes) \<times> 'f link" where
  "spdm_responder_receive_message_bios size_and_message l =
     (let message = SPDM_register l in (LIBSPDM_STATUS_SUCCESS, size_and_message, l))"

definition spdm_get_response_vendor_defined_request ::
  "bool \<Rightarrow> bool \<Rightarrow> fault + libspdm_return_t" where
  "spdm_get_response_vendor_defined_request asserts is_app_message =
     and_then (assert_that asserts is_app_message) (\<lambda>_. Inr LIBSPDM_STATUS_SUCCESS)"

definition libspdm_get_response_vendor_defined_request :: libspdm_return_t where
  "libspdm_get_response_vendor_defined_request = LIBSPDM_STATUS_SUCCESS"

text \<open>The dispatch loops; \<open>stop\<close> is the condition under which the loop is left.\<close>

partial_function (option) dispatch_loop ::
  "(libspdm_return_t \<Rightarrow> bool) \<Rightarrow> 'w libspdm \<Rightarrow> 'w \<Rightarrow> 'w option" where
  "dispatch_loop stop S w =
     (let (status, w') = responder_dispatch_message S w in
      if stop status then Some w' else dispatch_loop stop S w')"

text \<open>
  \<open>main\<close> of the MicroBlaze: \<open>on_link\<close> applies a register access to the part of the state that is the
  link; the ready signal goes up before the loop.  \<open>None\<close> is a loop that never ends; the value
  \<open>False\<close> stands for the NULL return.
\<close>

definition microblaze_main ::
  "'f fifo_ip \<Rightarrow> (('f link \<Rightarrow> 'f link) \<Rightarrow> 'w \<Rightarrow> 'w) \<Rightarrow> 'w libspdm \<Rightarrow> crypt_lib \<Rightarrow> x509_lib \<Rightarrow>
   (nat \<Rightarrow> bytes option) \<Rightarrow> bool \<Rightarrow> bool \<Rightarrow> 'w \<Rightarrow> (fault + (bool \<times> 'w)) option" where
  "microblaze_main F on_link S L X malloc context_ok scratch_ok w =
     (if \<not> context_ok then Some (Inr (False, w))
      else
        let w = context_op S Init_Context w;
            w = context_op S Register_Device_Io w;
            w = context_op S Register_Transport_Mctp w;
            w = context_op S Register_Device_Buffer w in
        if \<not> scratch_ok then Some (Inr (False, w))
        else
          let w = context_op S Set_Scratch_Buffer w;
              (statuses, w) = set_data_items S responder_items w in
          case read_responder_public_certificate_chain S L X malloc local_parameter
                 BASE_HASH_SHA_256 RSASSA_2048 w of
            Inl e \<Rightarrow> Some (Inl e)
          | Inr out \<Rightarrow>
              let w = on_link (XGpio_DiscreteWrite F Gpio_mux 2 1) (world out) in
              map_option (\<lambda>w.
                let w = context_op S Register_Get_Response w;
                    w = context_op S Register_Session_State_Callback w;
                    w = context_op S Register_Connection_State_Callback w in
                Inr (True, context_op S Deinit_Context w))
              (dispatch_loop (\<lambda>status. status = LIBSPDM_STATUS_UNSUPPORTED_CAP) S w))"

definition spdm_responder ::
  "'w libspdm \<Rightarrow> bool \<Rightarrow> bool \<Rightarrow> 'w \<Rightarrow> (bool \<times> 'w) option" where
  "spdm_responder S context_ok scratch_ok w =
     (if \<not> context_ok then Some (False, w)
      else
        let w = context_op S Init_Context w;
            w = context_op S Register_Device_Io w;
            w = context_op S Register_Transport_Mctp w;
            w = context_op S Register_Device_Buffer w in
        if \<not> scratch_ok then Some (False, w)
        else
          let w = context_op S Set_Scratch_Buffer w;
              (statuses, w) = set_data_items S bios_responder_items w in
          map_option (\<lambda>w. (True, context_op S Register_Get_Response w))
            (dispatch_loop (\<lambda>status. status \<noteq> LIBSPDM_STATUS_SUCCESS) S w))"

section \<open>What the requester's result says\<close>

definition setup_trace :: "bytes \<Rightarrow> recorded list" where
  "setup_trace chain =
     map Context [Init_Context, Register_Device_Io, Register_Transport_Mctp, Register_Device_Buffer,
       Set_Scratch_Buffer] @
     map (\<lambda>(d, v). Data d local_parameter v) requester_items @
     [Data LIBSPDM_DATA_PEER_PUBLIC_CERT_CHAIN local_parameter chain]"

definition authentication_calls :: "protocol_call list" where
  "authentication_calls = [Get_Digest, Get_Certificate, Challenge, Get_Measurement, Start_Session]"

lemma set_data_items_recorder:
  "set_data_items (recorder v r) items w =
     (map (\<lambda>_. LIBSPDM_STATUS_SUCCESS) items,
      w @ map (\<lambda>(d, b). Data d local_parameter b) items)"
  by (induction items arbitrary: w) (auto simp: Let_def split: prod.split)

lemma bios_installs_chain:
  assumes "digest_contract L" and "malloc_contract malloc" and "x509_contract X" and "a \<noteq> 0"
    and "malloc (4 + get_hash_size L h + 2315) = Some buf"
    and "hash_all L h ca_cert_der_responder = Some digest"
  shows "\<exists>out. read_responder_public_certificate_chain_bios S L X malloc local_parameter h a w =
      Inr out \<and>
    world out = snd (set_data S LIBSPDM_DATA_PEER_PUBLIC_CERT_CHAIN local_parameter
      (spdm_cert_chain digest cert_chain_responder) w)"
proof -
  have "length digest = get_hash_size L h"
    using assms(1,6) by (simp add: digest_contract_def)
  from fill_cert_chain_ok [OF assms(6) this allocated [OF assms(2,5)]] x509_checks_verdicts [OF assms(3)] show ?thesis
    using assms(4,5)
    by (simp add: read_responder_public_certificate_chain_bios_def Let_def case_prod_beta
        local_parameter_def)
qed

lemma requester_setup_recorder:
  assumes "digest_contract L" and "malloc_contract malloc" and "x509_contract X"
    and "malloc (4 + get_hash_size L BASE_HASH_SHA_256 + 2315) = Some buf"
    and "hash_all L BASE_HASH_SHA_256 ca_cert_der_responder = Some digest"
  shows "requester_setup (recorder verdict r) L X malloc [] =
    Inr (setup_trace (spdm_cert_chain digest cert_chain_responder))"
proof -
  let ?w = "map Context [Init_Context, Register_Device_Io, Register_Transport_Mctp,
      Register_Device_Buffer, Set_Scratch_Buffer] @
    map (\<lambda>(d, v). Data d local_parameter v) requester_items"
  obtain out where "read_responder_public_certificate_chain_bios (recorder verdict r) L X malloc
      local_parameter BASE_HASH_SHA_256 RSASSA_2048 ?w = Inr out"
    "world out = setup_trace (spdm_cert_chain digest cert_chain_responder)"
    using bios_installs_chain [where S = "recorder verdict r" and X = X and a = RSASSA_2048
        and w = ?w, OF assms(1-3) _ assms(4,5)]
    by (auto simp: setup_trace_def)
  then show ?thesis
    by (simp add: requester_setup_def Let_def set_data_items_recorder)
qed


definition failing_authentication :: "protocol_call \<Rightarrow> libspdm_return_t" where
  "failing_authentication c =
     (if c = Init_Connection then LIBSPDM_STATUS_SUCCESS else LIBSPDM_STATUS_OTHER_ERROR)"


section \<open>The dispatch loops\<close>

fun nth_dispatch :: "'w libspdm \<Rightarrow> nat \<Rightarrow> 'w \<Rightarrow> libspdm_return_t \<times> 'w" where
  "nth_dispatch S 0 w = responder_dispatch_message S w"
| "nth_dispatch S (Suc n) w = nth_dispatch S n (snd (responder_dispatch_message S w))"

lemma dispatch_loop_ends:
  assumes "stop (fst (nth_dispatch S n w))" and "\<And>i. i < n \<Longrightarrow> \<not> stop (fst (nth_dispatch S i w))"
  shows "dispatch_loop stop S w = Some (snd (nth_dispatch S n w))"
  using assms
proof (induction n arbitrary: w)
  case 0
  then show ?case
    by (simp add: dispatch_loop.simps case_prod_beta)
next
  case (Suc n)
  have "\<not> stop (fst (responder_dispatch_message S w))"
    using Suc.prems(2) [of 0] by simp
  then have "dispatch_loop stop S w = dispatch_loop stop S (snd (responder_dispatch_message S w))"
    by (subst dispatch_loop.simps) (simp add: case_prod_beta Let_def)
  moreover have "\<not> stop (fst (nth_dispatch S i (snd (responder_dispatch_message S w))))"
    if "i < n" for i
    using Suc.prems(2) [of "Suc i"] that by simp
  ultimately show ?case
    using Suc by simp
qed

lemma dispatch_loop_result:
  assumes "dispatch_loop stop S w = Some w'"
  shows "\<exists>n. stop (fst (nth_dispatch S n w))"
proof (rule dispatch_loop.raw_induct
    [of "\<lambda>stop S w w'. \<exists>n. stop (fst (nth_dispatch S n w))", OF _ assms])
  fix loop stop S w w'
  assume IH: "\<And>stop (S :: 'a libspdm) w w'. loop stop S w = Some w' \<Longrightarrow>
      \<exists>n. stop (fst (nth_dispatch S n w))"
    and step: "(let (status, v) = responder_dispatch_message S w in
      if stop status then Some v else loop stop S v) = Some (w' :: 'a)"
  show "\<exists>n. stop (fst (nth_dispatch S n w))"
  proof (cases "stop (fst (responder_dispatch_message S w))")
    case True
    then show ?thesis by (intro exI [of _ 0]) simp
  next
    case False
    then have "loop stop S (snd (responder_dispatch_message S w)) = Some w'"
      using step by (simp add: case_prod_beta Let_def)
    from IH [OF this] obtain n
      where "stop (fst (nth_dispatch S n (snd (responder_dispatch_message S w))))" by blast
    then show ?thesis by (intro exI [of _ "Suc n"]) simp
  qed
qed

lemma dispatch_loop_None:
  "(\<And>n. \<not> stop (fst (nth_dispatch S n w))) \<Longrightarrow> dispatch_loop stop S w = None"
  using dispatch_loop_result [of stop S w] by (cases "dispatch_loop stop S w") auto

text \<open>The state in which the MicroBlaze enters its loop.\<close>

definition microblaze_ready ::
  "'f fifo_ip \<Rightarrow> (('f link \<Rightarrow> 'f link) \<Rightarrow> 'w \<Rightarrow> 'w) \<Rightarrow> 'w libspdm \<Rightarrow> bytes \<Rightarrow> 'w \<Rightarrow> 'w" where
  "microblaze_ready F on_link S chain w =
     (let w = context_op S Init_Context w;
          w = context_op S Register_Device_Io w;
          w = context_op S Register_Transport_Mctp w;
          w = context_op S Register_Device_Buffer w;
          w = context_op S Set_Scratch_Buffer w;
          w = snd (set_data_items S responder_items w);
          w = snd (set_data S LIBSPDM_DATA_LOCAL_PUBLIC_CERT_CHAIN local_parameter chain w) in
      on_link (XGpio_DiscreteWrite F Gpio_mux 2 1) w)"

lemma microblaze_installs_chain:
  assumes "digest_contract L" and "malloc_contract malloc" and "x509_contract X" and "a \<noteq> 0"
    and "malloc (4 + get_hash_size L h + 2315) = Some buf"
    and "hash_all L h ca_cert_der_responder = Some digest"
  shows "\<exists>out. read_responder_public_certificate_chain S L X malloc local_parameter h a w =
      Inr out \<and>
    world out = snd (set_data S LIBSPDM_DATA_LOCAL_PUBLIC_CERT_CHAIN local_parameter
      (spdm_cert_chain digest cert_chain_responder) w)"
proof -
  have "length digest = get_hash_size L h"
    using assms(1,6) by (simp add: digest_contract_def)
  from fill_cert_chain_ok [OF assms(6) this allocated [OF assms(2,5)]] x509_checks_verdicts [OF assms(3)] show ?thesis
    using assms(4,5)
    by (simp add: read_responder_public_certificate_chain_def Let_def case_prod_beta)
qed

lemma microblaze_main_loop:
  assumes "digest_contract L" and "malloc_contract malloc" and "x509_contract X"
    and "malloc (4 + get_hash_size L BASE_HASH_SHA_256 + 2315) = Some buf"
    and "hash_all L BASE_HASH_SHA_256 ca_cert_der_responder = Some digest"
  shows "microblaze_main F on_link S L X malloc True True w =
    map_option (\<lambda>w. Inr (True, context_op S Deinit_Context
        (context_op S Register_Connection_State_Callback
          (context_op S Register_Session_State_Callback
            (context_op S Register_Get_Response w)))))
      (dispatch_loop (\<lambda>status. status = LIBSPDM_STATUS_UNSUPPORTED_CAP) S
        (microblaze_ready F on_link S (spdm_cert_chain digest cert_chain_responder) w))"
proof -
  let ?w = "snd (set_data_items S responder_items (context_op S Set_Scratch_Buffer
    (context_op S Register_Device_Buffer (context_op S Register_Transport_Mctp
      (context_op S Register_Device_Io (context_op S Init_Context w))))))"
  obtain out where "read_responder_public_certificate_chain S L X malloc local_parameter
      BASE_HASH_SHA_256 RSASSA_2048 ?w = Inr out"
    "world out = snd (set_data S LIBSPDM_DATA_LOCAL_PUBLIC_CERT_CHAIN local_parameter
      (spdm_cert_chain digest cert_chain_responder) ?w)"
    using microblaze_installs_chain [where S = S and X = X and a = RSASSA_2048 and w = ?w,
        OF assms(1-3) _ assms(4,5)] by auto
  then show ?thesis
    by (simp add: microblaze_main_def microblaze_ready_def Let_def case_prod_beta)
qed

text \<open>
  C8: The MicroBlaze firmware, once configured, serves messages until one is answered with
  "unsupported capability": if that never happens it never returns, and otherwise it returns after
  exactly that message.  Its vendor-defined handler and its two callbacks are registered only after
  the loop, so no message is ever served with them.
\<close>

theorem microblaze_serves:
  fixes on_link :: "('f link \<Rightarrow> 'f link) \<Rightarrow> 'w \<Rightarrow> 'w"
  assumes "digest_contract L" and "malloc_contract malloc" and "x509_contract X"
    and "malloc (4 + get_hash_size L BASE_HASH_SHA_256 + 2315) = Some buf"
    and "hash_all L BASE_HASH_SHA_256 ca_cert_der_responder = Some digest"
    and "start = microblaze_ready F on_link S (spdm_cert_chain digest cert_chain_responder) w"
  shows "((\<forall>n. fst (nth_dispatch S n start) \<noteq> LIBSPDM_STATUS_UNSUPPORTED_CAP) \<longrightarrow>
      microblaze_main F on_link S L X malloc True True w = None) \<and>
    (\<forall>n. fst (nth_dispatch S n start) = LIBSPDM_STATUS_UNSUPPORTED_CAP \<and>
        (\<forall>i<n. fst (nth_dispatch S i start) \<noteq> LIBSPDM_STATUS_UNSUPPORTED_CAP) \<longrightarrow>
      microblaze_main F on_link S L X malloc True True w =
        Some (Inr (True, context_op S Deinit_Context
          (context_op S Register_Connection_State_Callback
            (context_op S Register_Session_State_Callback
              (context_op S Register_Get_Response (snd (nth_dispatch S n start))))))))"
proof -
  let ?stop = "\<lambda>status. status = LIBSPDM_STATUS_UNSUPPORTED_CAP"
  note main = microblaze_main_loop [OF assms(1-5), of F on_link S w, folded assms(6)]
  show ?thesis
  proof (intro conjI impI allI)
    assume "\<forall>n. fst (nth_dispatch S n start) \<noteq> LIBSPDM_STATUS_UNSUPPORTED_CAP"
    then have "dispatch_loop ?stop S start = None"
      by (intro dispatch_loop_None) simp
    then show "microblaze_main F on_link S L X malloc True True w = None"
      unfolding main by simp
  next
    fix n
    assume "fst (nth_dispatch S n start) = LIBSPDM_STATUS_UNSUPPORTED_CAP \<and>
      (\<forall>i<n. fst (nth_dispatch S i start) \<noteq> LIBSPDM_STATUS_UNSUPPORTED_CAP)"
    then have "dispatch_loop ?stop S start = Some (snd (nth_dispatch S n start))"
      by (intro dispatch_loop_ends) simp_all
    then show "microblaze_main F on_link S L X malloc True True w =
        Some (Inr (True, context_op S Deinit_Context
          (context_op S Register_Connection_State_Callback
            (context_op S Register_Session_State_Callback
              (context_op S Register_Get_Response (snd (nth_dispatch S n start)))))))"
      unfolding main by simp
  qed
qed

theorem microblaze_serves_witness:
  "\<exists>w'. microblaze_main list_fifo (\<lambda>f w. w)
     (recorder (\<lambda>_. LIBSPDM_STATUS_SUCCESS)
        (\<lambda>n. if n = 1 then LIBSPDM_STATUS_UNSUPPORTED_CAP else LIBSPDM_STATUS_SUCCESS))
     demo_lib rejecting_x509 (\<lambda>n. Some (replicate n 0)) True True [] = Some (Inr (True, w')) \<and>
   drop (length w' - 6) w' = [Dispatch, Dispatch, Context Register_Get_Response,
     Context Register_Session_State_Callback, Context Register_Connection_State_Callback,
     Context Deinit_Context]"
proof -
  let ?S = "recorder (\<lambda>_. LIBSPDM_STATUS_SUCCESS)
        (\<lambda>n. if n = 1 then LIBSPDM_STATUS_UNSUPPORTED_CAP else LIBSPDM_STATUS_SUCCESS)"
  let ?chain = "spdm_cert_chain (take 32 (ca_cert_der_responder @ replicate 32 0)) cert_chain_responder"
  let ?start = "microblaze_ready list_fifo (\<lambda>f w. w) ?S ?chain []"
  have m: "malloc_contract (\<lambda>n. Some (replicate n 0))"
    by (simp add: malloc_contract_def)
  have none: "filter (\<lambda>r. r = Dispatch) ?start = []"
    by (auto simp: microblaze_ready_def Let_def set_data_items_recorder filter_empty_conv)
  then have dispatches: "fst (nth_dispatch ?S 1 ?start) = LIBSPDM_STATUS_UNSUPPORTED_CAP"
    "\<forall>i<1. fst (nth_dispatch ?S i ?start) \<noteq> LIBSPDM_STATUS_UNSUPPORTED_CAP"
    "snd (nth_dispatch ?S 1 ?start) = ?start @ [Dispatch, Dispatch]"
    by simp_all
  have "malloc_contract (\<lambda>n. Some (replicate n 0)) \<longrightarrow> microblaze_main list_fifo (\<lambda>f w. w) ?S
      demo_lib rejecting_x509 (\<lambda>n. Some (replicate n 0)) True True [] =
    Some (Inr (True, context_op ?S Deinit_Context (context_op ?S Register_Connection_State_Callback
      (context_op ?S Register_Session_State_Callback (context_op ?S Register_Get_Response
        (snd (nth_dispatch ?S 1 ?start)))))))"
    using microblaze_serves [where S = ?S and F = list_fifo and on_link = "\<lambda>f w. w" and X = rejecting_x509
        and w = "[]" and buf = "replicate 2351 0" and start = ?start and L = demo_lib
        and malloc = "\<lambda>n. Some (replicate n 0)"
        and digest = "take 32 (ca_cert_der_responder @ replicate 32 0)",
        OF demo_lib_contract m rejecting_x509_contract, THEN conjunct2, rule_format, OF _ _ refl conjI, of 1]
      dispatches(1,2) by simp
  with m dispatches(3) show ?thesis
    by simp
qed

end
