(* ===== verification/Serial_Boot.thy ===== *)
theory Serial_Boot
  imports Libspdm
begin

text \<open>
  Booting over the serial line, first half of \<open>bios/boot.c\<close>: the wait for the host's acknowledge
  (\<open>check_ack\<close>), the frame receiver and the command loop of \<open>serialboot\<close>, which runs the SPDM
  requester first.

  The header \<open>sfl.h\<close> that defines the protocol's constants and the routine \<open>crc16\<close> belong to LiteX
  and are parameters.  The hardware is the sequence of what the polling loops see: each poll gives
  whether the timer has run down and the character that has arrived, if any.  A loop that has used
  up the given polls is still waiting, which is the value \<open>None\<close>.
\<close>

section \<open>Parameters and state\<close>

record sfl_params =
  SFL_MAGIC_REQ :: bytes
  SFL_MAGIC_ACK :: bytes
  SFL_CMD_ABORT :: u8
  SFL_CMD_LOAD :: u8
  SFL_CMD_JUMP :: u8
  SFL_ACK_SUCCESS :: u8
  SFL_ACK_CRCERROR :: u8
  SFL_ACK_UNKNOWN :: u8
  SFL_ACK_ERROR :: u8
  crc16 :: "bytes \<Rightarrow> u16"

record poll =
  timer_zero :: bool
  rx :: "u8 option"

datatype ack = ACK_TIMEOUT | ACK_CANCELLED | ACK_OK

record sfl_frame =
  payload_length :: u8
  crc_0 :: u8
  crc_1 :: u8
  cmd :: u8
  payload :: bytes

text \<open>What the loader does to its environment, and how it ends.\<close>

datatype action = Uart_Write u8 | Memcpy u32 bytes

datatype boot_end = Return int | Boot u64 u64 u64 u64

definition boot :: "u64 \<Rightarrow> u64 \<Rightarrow> u64 \<Rightarrow> u64 \<Rightarrow> boot_end" where
  "boot r1 r2 r3 addr = Boot r1 r2 r3 addr"

section \<open>Waiting for the acknowledge\<close>

definition cancel_char :: "u8 \<Rightarrow> bool" where
  "cancel_char c \<longleftrightarrow> c = 0x51 \<or> c = 0x1B"

fun check_ack_from :: "bytes \<Rightarrow> nat \<Rightarrow> poll list \<Rightarrow> (ack \<times> poll list) option" where
  "check_ack_from str recognized [] = None"
| "check_ack_from str recognized (e # es) =
     (if timer_zero e then Some (ACK_TIMEOUT, es)
      else case rx e of
        None \<Rightarrow> check_ack_from str recognized es
      | Some c \<Rightarrow>
          if cancel_char c then Some (ACK_CANCELLED, es)
          else if c = str ! recognized then
            if Suc recognized = length str then Some (ACK_OK, es)
            else check_ack_from str (Suc recognized) es
          else check_ack_from str (if c = str ! 0 then 1 else 0) es)"

definition check_ack :: "sfl_params \<Rightarrow> poll list \<Rightarrow> (ack \<times> poll list) option" where
  "check_ack P es = check_ack_from (SFL_MAGIC_ACK P) 0 es"

section \<open>Receiving a frame\<close>

definition get_uint32 :: "bytes \<Rightarrow> u32" where
  "get_uint32 data =
     push_bit 24 (ucast (data ! 0)) OR push_bit 16 (ucast (data ! 1)) OR
     push_bit 8 (ucast (data ! 2)) OR ucast (data ! 3)"

text \<open>
  The receive loop; the first component of the result is the variable \<open>timeout\<close>.  While \<open>i\<close> is 0 the
  timer is not consulted.
\<close>

fun get_frame ::
  "nat \<Rightarrow> sfl_frame \<Rightarrow> poll list \<Rightarrow> (fault + (bool \<times> sfl_frame \<times> poll list)) option" where
  "get_frame i frame [] = None"
| "get_frame i frame (e # es) =
     (if i \<noteq> 0 \<and> timer_zero e then Some (Inr (True, frame, es))
      else case rx e of
        None \<Rightarrow> get_frame i frame es
      | Some c \<Rightarrow>
          if i = 0 then get_frame 1 (frame\<lparr>payload_length := c\<rparr>) es
          else if i = 1 then get_frame 2 (frame\<lparr>crc_0 := c\<rparr>) es
          else if i = 2 then get_frame 3 (frame\<lparr>crc_1 := c\<rparr>) es
          else if i = 3 then get_frame 4 (frame\<lparr>cmd := c\<rparr>) es
          else case poke (payload frame) (i - 4) [c] of
            Inl f \<Rightarrow> Some (Inl f)
          | Inr pl \<Rightarrow>
              if i = unat (payload_length frame) + 4 - 1
              then Some (Inr (False, frame\<lparr>payload := pl\<rparr>, es))
              else get_frame (Suc i) (frame\<lparr>payload := pl\<rparr>) es)"

section \<open>The command loop\<close>

definition MAX_FAILURES :: nat where
  [simp]: "MAX_FAILURES = 256"

definition frame_crc_ok :: "sfl_params \<Rightarrow> sfl_frame \<Rightarrow> bool" where
  "frame_crc_ok P frame \<longleftrightarrow>
     unat (crc16 P (take (unat (payload_length frame) + 1) (cmd frame # payload frame))) =
     256 * unat (crc_0 frame) + unat (crc_1 frame)"

text \<open>
  One received frame: what is written, and whether the loop goes on (with the new failure count) or
  ends.  A LOAD whose payload is shorter than its address makes the size of the copy negative,
  which as a \<open>size_t\<close> leaves every object.
\<close>

datatype frame_result = Continue nat | Finish boot_end

definition handle_frame ::
  "sfl_params \<Rightarrow> nat \<Rightarrow> bool \<times> sfl_frame \<Rightarrow> fault + (action list \<times> frame_result)" where
  "handle_frame P failures tf =
     (let (timeout, frame) = tf in
      if timeout then Inr ([Uart_Write (SFL_ACK_ERROR P)], Continue failures)
      else if \<not> frame_crc_ok P frame then
        Inr ([Uart_Write (SFL_ACK_CRCERROR P)],
          if Suc failures = MAX_FAILURES then Finish (Return 1) else Continue (Suc failures))
      else if cmd frame = SFL_CMD_ABORT P then
        Inr ([Uart_Write (SFL_ACK_SUCCESS P)], Finish (Return 1))
      else if cmd frame = SFL_CMD_LOAD P then
        if unat (payload_length frame) < 4 then Inl Out_Of_Bounds
        else
          and_then (peek (payload frame) 4 (unat (payload_length frame) - 4)) (\<lambda>bs.
          Inr ([Memcpy (get_uint32 (payload frame)) bs, Uart_Write (SFL_ACK_SUCCESS P)],
            Continue 0))
      else if cmd frame = SFL_CMD_JUMP P then
        Inr ([Uart_Write (SFL_ACK_SUCCESS P)],
          Finish (boot 0 0 0 (ucast (get_uint32 (payload frame)))))
      else
        Inr ([Uart_Write (SFL_ACK_UNKNOWN P)],
          if Suc failures = MAX_FAILURES then Finish (Return 1) else Continue (Suc failures)))"

lemma get_frame_consumes:
  "get_frame i frame es = Some (Inr (t, fr, es')) \<Longrightarrow> length es' < length es"
  by (induction i frame es rule: get_frame.induct)
    (fastforce split: if_splits option.splits sum.splits)+

function serial_loop ::
  "sfl_params \<Rightarrow> nat \<Rightarrow> sfl_frame \<Rightarrow> poll list \<Rightarrow> (fault + (action list \<times> boot_end)) option" where
  "serial_loop P failures frame es =
     (case get_frame 0 frame es of
        None \<Rightarrow> None
      | Some (Inl f) \<Rightarrow> Some (Inl f)
      | Some (Inr (timeout, frame', es')) \<Rightarrow>
          (case handle_frame P failures (timeout, frame') of
             Inl f \<Rightarrow> Some (Inl f)
           | Inr (acts, Finish e) \<Rightarrow> Some (Inr (acts, e))
           | Inr (acts, Continue failures') \<Rightarrow>
               map_option (\<lambda>r. and_then r (\<lambda>(rest, e). Inr (acts @ rest, e)))
                 (serial_loop P failures' frame' es')))"
  by pat_completeness auto
termination
  by (relation "measure (\<lambda>(P, failures, frame, es). length es)") (auto dest: get_frame_consumes)

declare serial_loop.simps [simp del]

text \<open>
  \<open>serialboot\<close>: \<open>requester\<close> is how the call of \<open>spdm_requester\<close> ended; its value is not used.
\<close>

definition serialboot ::
  "sfl_params \<Rightarrow> requester_outcome \<Rightarrow> sfl_frame \<Rightarrow> poll list \<Rightarrow>
   (fault + (action list \<times> boot_end)) option" where
  "serialboot P requester frame es =
     (if requester = Loops_Forever then None
      else
        let acts = map Uart_Write (SFL_MAGIC_REQ P) in
        case check_ack P es of
          None \<Rightarrow> None
        | Some (ACK_TIMEOUT, es) \<Rightarrow> Some (Inr (acts, Return 1))
        | Some (ACK_CANCELLED, es) \<Rightarrow> Some (Inr (acts, Return 0))
        | Some (ACK_OK, es) \<Rightarrow>
            map_option (\<lambda>r. and_then r (\<lambda>(rest, e). Inr (acts @ rest, e)))
              (serial_loop P 0 frame es))"

section \<open>Frames on the wire\<close>

definition arrives :: "bytes \<Rightarrow> poll list" where
  "arrives bs = map (\<lambda>c. \<lparr>timer_zero = False, rx = Some c\<rparr>) bs"

definition be32 :: "u32 \<Rightarrow> bytes" where
  "be32 w = [ucast (drop_bit 24 w), ucast (drop_bit 16 w), ucast (drop_bit 8 w), ucast w]"

text \<open>A frame as a host sends it.\<close>

definition encode_frame :: "sfl_params \<Rightarrow> u8 \<Rightarrow> bytes \<Rightarrow> bytes" where
  "encode_frame P c pl =
     (let crc = crc16 P (c # pl) in
      [of_nat (length pl), ucast (drop_bit 8 crc), ucast crc, c] @ pl)"

section \<open>Receiving what was sent\<close>

lemma arrives_simps [simp]:
  "arrives [] = []"
  "arrives (c # bs) = \<lparr>timer_zero = False, rx = Some c\<rparr> # arrives bs"
  "arrives (xs @ ys) = arrives xs @ arrives ys"
  by (simp_all add: arrives_def)

lemma get_uint32_be32 [simp]: "get_uint32 (be32 w @ rest) = w"
proof (rule bit_word_eqI)
  fix n
  assume "n < LENGTH(32)"
  then consider "n < 8" | "8 \<le> n" "n < 16" | "16 \<le> n" "n < 24" | "24 \<le> n" "n < 32"
    by fastforce
  then show "bit (get_uint32 (be32 w @ rest)) n = bit w n"
    by cases (auto simp: get_uint32_def be32_def bit_simps)
qed

lemma length_be32 [simp]: "length (be32 w) = 4"
  by (simp add: be32_def)

lemma get_payload:
  assumes "rest \<noteq> []" and "unat (payload_length frame) = k + length rest"
    and "k + length rest \<le> length (payload frame)"
  shows "get_frame (k + 4) frame (arrives rest @ es) =
    Some (Inr (False, frame\<lparr>payload := take k (payload frame) @ rest @
      drop (k + length rest) (payload frame)\<rparr>, es))"
  using assms
proof (induction rest arbitrary: k frame)
  case (Cons c rest)
  let ?pl = "take k (payload frame) @ [c] @ drop (Suc k) (payload frame)"
  have poke: "poke (payload frame) k [c] = Inr ?pl"
    using Cons.prems(3) by (simp add: poke_def)
  show ?case
  proof (cases "rest = []")
    case True
    then show ?thesis
      using poke Cons.prems(2) by simp
  next
    case False
    have k: "k < length (payload frame)"
      using Cons.prems(3) by simp
    have "get_frame (Suc k + 4) (frame\<lparr>payload := ?pl\<rparr>) (arrives rest @ es) =
      Some (Inr (False, (frame\<lparr>payload := ?pl\<rparr>)\<lparr>payload := take (Suc k) ?pl @ rest @
        drop (Suc k + length rest) ?pl\<rparr>, es))"
      using Cons.IH [of "frame\<lparr>payload := ?pl\<rparr>" "Suc k"] False Cons.prems by simp
    moreover have "take (Suc k) ?pl = take k (payload frame) @ [c]"
      using k by simp
    moreover have "drop (Suc k + length rest) ?pl = drop (Suc k + length rest) (payload frame)"
      using k by (simp add: add.commute)
    moreover have "k + 4 \<noteq> unat (payload_length frame) + 4 - 1"
      using False Cons.prems(2) by (cases rest) simp_all
    ultimately show ?thesis
      using poke Cons.prems(2) by simp
  qed
qed simp

lemma get_encoded_frame:
  assumes "pl \<noteq> []" and "length pl \<le> 255" and "length pl \<le> length (payload frame)"
  shows "get_frame 0 frame (arrives ([of_nat (length pl), c0, c1, c] @ pl) @ es) =
    Some (Inr (False, \<lparr>payload_length = of_nat (length pl), crc_0 = c0, crc_1 = c1, cmd = c,
      payload = pl @ drop (length pl) (payload frame)\<rparr>, es))"
proof -
  let ?f = "\<lparr>payload_length = of_nat (length pl), crc_0 = c0, crc_1 = c1, cmd = c,
    payload = payload frame\<rparr>"
  have f: "frame\<lparr>payload_length := of_nat (length pl), crc_0 := c0, crc_1 := c1, cmd := c\<rparr> = ?f"
    by (cases frame) simp
  have "unat (of_nat (length pl) :: u8) = length pl"
    using assms(2) by (simp add: unat_of_nat)
  then have "get_frame 4 ?f (arrives pl @ es) =
      Some (Inr (False, ?f\<lparr>payload := pl @ drop (length pl) (payload frame)\<rparr>, es))"
    using get_payload [of pl ?f 0 es] assms by simp
  then show ?thesis
    by (simp add: f)
qed

lemma split_crc: "256 * unat (ucast (drop_bit 8 crc) :: u8) + unat (ucast crc :: u8) = unat (crc :: u16)"
proof -
  have less: "unat crc < 65536"
    using unsigned_less [of crc] by simp
  have "unat (ucast (drop_bit 8 crc) :: u8) = unat crc div 256"
    using less
    by (simp add: unsigned_ucast_eq drop_bit_eq_div take_bit_eq_mod unat_div_distrib)
  moreover have "unat (ucast crc :: u8) = unat crc mod 256"
    by (simp add: unsigned_ucast_eq take_bit_eq_mod)
  ultimately show ?thesis by simp
qed

text \<open>A received frame that was encoded by the host passes the check and is executed.\<close>

lemma encoded_crc_ok:
  assumes "length pl \<le> 255"
  shows "frame_crc_ok P \<lparr>payload_length = of_nat (length pl),
    crc_0 = ucast (drop_bit 8 (crc16 P (c # pl))), crc_1 = ucast (crc16 P (c # pl)), cmd = c,
    payload = pl @ rest\<rparr>"
proof -
  have "unat (of_nat (length pl) :: u8) = length pl"
    using assms by (simp add: unat_of_nat)
  then show ?thesis
    by (simp add: frame_crc_ok_def split_crc)
qed

definition sfl_ok :: "sfl_params \<Rightarrow> bool" where
  "sfl_ok P \<longleftrightarrow> distinct [SFL_CMD_ABORT P, SFL_CMD_LOAD P, SFL_CMD_JUMP P] \<and>
     SFL_MAGIC_ACK P \<noteq> [] \<and> hd (SFL_MAGIC_ACK P) \<notin> set (tl (SFL_MAGIC_ACK P)) \<and>
     list_all (\<lambda>c. \<not> cancel_char c) (SFL_MAGIC_ACK P)"

lemma sfl_cmds:
  assumes "sfl_ok P"
  shows "SFL_CMD_LOAD P \<noteq> SFL_CMD_ABORT P" "SFL_CMD_JUMP P \<noteq> SFL_CMD_ABORT P"
    "SFL_CMD_JUMP P \<noteq> SFL_CMD_LOAD P"
  using assms by (auto simp: sfl_ok_def)

lemma serial_loop_load:
  assumes "sfl_ok P" and "length d \<le> 251" and "255 \<le> length (payload frame)"
  shows "\<exists>frame'. length (payload frame') = length (payload frame) \<and>
    serial_loop P failures frame
      (arrives (encode_frame P (SFL_CMD_LOAD P) (be32 a @ d)) @ es) =
    map_option (\<lambda>r. and_then r (\<lambda>(rest, e).
        Inr ([Memcpy a d, Uart_Write (SFL_ACK_SUCCESS P)] @ rest, e)))
      (serial_loop P 0 frame' es)"
proof -
  let ?pl = "be32 a @ d" and ?c = "SFL_CMD_LOAD P"
  let ?f = "\<lparr>payload_length = of_nat (length ?pl), crc_0 = ucast (drop_bit 8 (crc16 P (?c # ?pl))),
    crc_1 = ucast (crc16 P (?c # ?pl)), cmd = ?c, payload = ?pl @ drop (length ?pl) (payload frame)\<rparr>"
  have "?pl \<noteq> []" by (simp add: be32_def)
  then have get: "get_frame 0 frame (arrives (encode_frame P ?c ?pl) @ es) = Some (Inr (False, ?f, es))"
    using get_encoded_frame [of ?pl frame] assms(2,3)
    by (simp add: encode_frame_def Let_def del: arrives_simps)
  have len: "unat (of_nat (length ?pl) :: u8) = 4 + length d"
    using assms(2) by (simp add: unat_of_nat del: of_nat_add)
  have "peek (payload ?f) 4 (4 + length d - 4) = Inr d"
    by (simp add: peek_def)
  moreover have "frame_crc_ok P ?f"
    by (rule encoded_crc_ok) (use assms(2) in simp)
  ultimately have "handle_frame P failures (False, ?f) =
      Inr ([Memcpy a d, Uart_Write (SFL_ACK_SUCCESS P)], Continue 0)"
    using len by (simp add: handle_frame_def sfl_cmds [OF assms(1)] del: of_nat_add length_append)
  with get have "serial_loop P failures frame (arrives (encode_frame P ?c ?pl) @ es) =
      map_option (\<lambda>r. and_then r (\<lambda>(rest, e).
        Inr ([Memcpy a d, Uart_Write (SFL_ACK_SUCCESS P)] @ rest, e))) (serial_loop P 0 ?f es)"
    by (subst serial_loop.simps) simp
  then show ?thesis
    using assms(2,3) by (intro exI [of _ ?f]) simp
qed

lemma serial_loop_jump:
  assumes "sfl_ok P" and "255 \<le> length (payload frame)"
  shows "serial_loop P failures frame
      (arrives (encode_frame P (SFL_CMD_JUMP P) (be32 a)) @ es) =
    Some (Inr ([Uart_Write (SFL_ACK_SUCCESS P)], Boot 0 0 0 (ucast a)))"
proof -
  let ?c = "SFL_CMD_JUMP P"
  let ?f = "\<lparr>payload_length = of_nat (length (be32 a)),
    crc_0 = ucast (drop_bit 8 (crc16 P (?c # be32 a))), crc_1 = ucast (crc16 P (?c # be32 a)),
    cmd = ?c, payload = be32 a @ drop (length (be32 a)) (payload frame)\<rparr>"
  have "be32 a \<noteq> []" by (simp add: be32_def)
  then have get: "get_frame 0 frame (arrives (encode_frame P ?c (be32 a)) @ es) =
      Some (Inr (False, ?f, es))"
    using get_encoded_frame [of "be32 a" frame] assms(2)
    by (simp add: encode_frame_def Let_def del: arrives_simps)
  have "handle_frame P failures (False, ?f) =
      Inr ([Uart_Write (SFL_ACK_SUCCESS P)], Finish (Boot 0 0 0 (ucast a)))"
    using encoded_crc_ok [of "be32 a" P ?c "drop (length (be32 a)) (payload frame)"]
    by (simp add: handle_frame_def sfl_cmds [OF assms(1)] boot_def)
  with get show ?thesis
    by (subst serial_loop.simps) simp
qed

lemma serial_loop_image:
  assumes "sfl_ok P" and "list_all (\<lambda>(a, d). length d \<le> 251) segs" and "255 \<le> length (payload frame)"
  shows "serial_loop P failures frame
      (arrives (concat (map (\<lambda>(a, d). encode_frame P (SFL_CMD_LOAD P) (be32 a @ d)) segs) @
        encode_frame P (SFL_CMD_JUMP P) (be32 entry)) @ es) =
    Some (Inr (concat (map (\<lambda>(a, d). [Memcpy a d, Uart_Write (SFL_ACK_SUCCESS P)]) segs) @
      [Uart_Write (SFL_ACK_SUCCESS P)], Boot 0 0 0 (ucast entry)))"
  using assms(2,3)
proof (induction segs arbitrary: failures frame)
  case Nil
  then show ?case
    using serial_loop_jump [OF assms(1)] by (simp del: arrives_simps)
next
  case (Cons seg segs)
  obtain a d where seg: "seg = (a, d)" by fastforce
  let ?rest = "arrives (concat (map (\<lambda>(a, d). encode_frame P (SFL_CMD_LOAD P) (be32 a @ d)) segs) @
    encode_frame P (SFL_CMD_JUMP P) (be32 entry)) @ es"
  obtain frame' where "length (payload frame') = length (payload frame)"
    and load: "serial_loop P failures frame
      (arrives (encode_frame P (SFL_CMD_LOAD P) (be32 a @ d)) @ ?rest) =
    map_option (\<lambda>r. and_then r (\<lambda>(rest, e).
        Inr ([Memcpy a d, Uart_Write (SFL_ACK_SUCCESS P)] @ rest, e)))
      (serial_loop P 0 frame' ?rest)"
    using serial_loop_load [OF assms(1), of d frame failures a ?rest] Cons.prems seg by auto
  then show ?case
    using Cons.IH [of frame' 0] Cons.prems seg by simp
qed

lemma check_ack_exact:
  assumes "list_all (\<lambda>c. \<not> cancel_char c) str" and "k < length str"
  shows "check_ack_from str k (arrives (drop k str) @ es) = Some (ACK_OK, es)"
  using assms(2)
proof (induction "length str - Suc k" arbitrary: k)
  case 0
  then have "drop k str = [str ! k]" "Suc k = length str"
    by (simp_all add: Cons_nth_drop_Suc [symmetric])
  then show ?case
    using assms(1) 0 by (simp add: list_all_length)
next
  case (Suc n)
  then have "drop k str = str ! k # drop (Suc k) str" "Suc k < length str"
    by (simp_all add: Cons_nth_drop_Suc)
  then show ?case
    using Suc.hyps(1) [of "Suc k"] Suc.hyps(2) assms(1) by (simp add: list_all_length)
qed

lemma check_ack_noise:
  assumes "list_all (\<lambda>c. \<not> cancel_char c) (noise @ str)" and "hd str \<notin> set (tl str)"
    and "k < length str"
  shows "\<exists>es'. check_ack_from str k (arrives (noise @ str) @ es) = Some (ACK_OK, es')"
  using assms(1,3)
proof (induction noise arbitrary: k)
  case Nil
  then have str: "str = str ! 0 # drop 1 str"
    by (metis Cons_nth_drop_Suc One_nat_def drop_0 less_nat_zero_code neq0_conv)
  show ?case
  proof (cases "k = 0")
    case True
    then show ?thesis
      using check_ack_exact [of str 0 es] Nil by auto
  next
    case False
    then have "tl str ! (k - 1) = str ! k" "k - 1 < length (tl str)"
      using Nil.prems(2) by (auto simp: nth_tl)
    then have "str ! k \<in> set (tl str)"
      by (metis nth_mem)
    then have "str ! 0 \<noteq> str ! k"
      using assms(2) str by (metis list.sel(1))
    moreover have "1 < length str" "\<not> cancel_char (str ! 0)"
      using False Nil.prems by (simp, cases str) simp_all
    ultimately have "check_ack_from str k (arrives str @ es) =
        check_ack_from str 1 (arrives (drop 1 str) @ es)"
      by (subst (2) str) (simp del: One_nat_def)
    then show ?thesis
      using check_ack_exact [of str 1 es] \<open>1 < length str\<close> Nil.prems(1) by simp
  qed
next
  case (Cons c noise)
  have "0 < length str" using Cons.prems(2) by (cases str) simp_all
  moreover have "1 < length str" if "c = str ! 0" "c \<noteq> str ! k"
    using that Cons.prems(2) by (cases k) auto
  ultimately show ?case
    using Cons.IH [of "Suc k"] Cons.IH [of 1] Cons.IH [of 0] Cons.prems by auto
qed

section \<open>Properties\<close>

text \<open>The constants of LiteX's \<open>sfl.h\<close>, with a checksum that adds the bytes.\<close>

definition litex_sfl :: sfl_params where
  "litex_sfl =
     \<lparr>SFL_MAGIC_REQ = [0x73, 0x4C, 0x35, 0x44, 0x64, 0x53, 0x4D, 0x6D, 0x6B, 0x65, 0x6B, 0x72, 0x6F, 0x0A],
      SFL_MAGIC_ACK = [0x7A, 0x36, 0x49, 0x48, 0x47, 0x37, 0x63, 0x59, 0x44, 0x49, 0x44, 0x36, 0x6F, 0x0A],
      SFL_CMD_ABORT = 0, SFL_CMD_LOAD = 1, SFL_CMD_JUMP = 2,
      SFL_ACK_SUCCESS = 0x4B, SFL_ACK_CRCERROR = 0x43, SFL_ACK_UNKNOWN = 0x55, SFL_ACK_ERROR = 0x45,
      crc16 = (\<lambda>bs. sum_list (map ucast bs))\<rparr>"

lemma litex_sfl_ok: "sfl_ok litex_sfl"
  by (simp add: sfl_ok_def litex_sfl_def cancel_char_def)

definition demo_frame :: sfl_frame where
  "demo_frame = \<lparr>payload_length = 0, crc_0 = 0, crc_1 = 0, cmd = 0, payload = replicate 255 0\<rparr>"

lemma serialboot_image:
  assumes "sfl_ok P" and "requester \<noteq> Loops_Forever" and "255 \<le> length (payload frame)"
    and "list_all (\<lambda>(a, d). length d \<le> 251) segs"
  shows "serialboot P requester frame
      (arrives (SFL_MAGIC_ACK P @
        concat (map (\<lambda>(a, d). encode_frame P (SFL_CMD_LOAD P) (be32 a @ d)) segs) @
        encode_frame P (SFL_CMD_JUMP P) (be32 entry)) @ es) =
    Some (Inr (map Uart_Write (SFL_MAGIC_REQ P) @
      concat (map (\<lambda>(a, d). [Memcpy a d, Uart_Write (SFL_ACK_SUCCESS P)]) segs) @
      [Uart_Write (SFL_ACK_SUCCESS P)], Boot 0 0 0 (ucast entry)))"
proof -
  let ?frames = "concat (map (\<lambda>(a, d). encode_frame P (SFL_CMD_LOAD P) (be32 a @ d)) segs) @
    encode_frame P (SFL_CMD_JUMP P) (be32 entry)"
  have "check_ack P (arrives (SFL_MAGIC_ACK P) @ arrives ?frames @ es) =
      Some (ACK_OK, arrives ?frames @ es)"
    using check_ack_exact [of "SFL_MAGIC_ACK P" 0 "arrives ?frames @ es"] assms(1)
    by (simp add: check_ack_def sfl_ok_def del: arrives_simps)
  moreover have "arrives (SFL_MAGIC_ACK P @ ?frames) @ es =
      arrives (SFL_MAGIC_ACK P) @ arrives ?frames @ es"
    by simp
  ultimately show ?thesis
    using assms(2) serial_loop_image [OF assms(1,4,3), of 0 entry es]
    by (simp add: serialboot_def Let_def del: arrives_simps)
qed

text \<open>
  C9: A download over the serial line works end to end: when the host acknowledges and sends any
  sequence of LOAD frames and then a JUMP, the BIOS writes its request, copies every segment's
  bytes to its address in order, acknowledges each frame once with "success", and starts the
  program at the address of the JUMP.
\<close>

theorem serialboot_downloads:
  assumes "sfl_ok P" and "requester \<noteq> Loops_Forever" and "255 \<le> length (payload frame)"
    and "list_all (\<lambda>(a, d). length d \<le> 251) segs"
  shows "serialboot P requester frame
      (arrives (SFL_MAGIC_ACK P @
        concat (map (\<lambda>(a, d). encode_frame P (SFL_CMD_LOAD P) (be32 a @ d)) segs) @
        encode_frame P (SFL_CMD_JUMP P) (be32 entry)) @ es) =
    Some (Inr (map Uart_Write (SFL_MAGIC_REQ P) @
      concat (map (\<lambda>(a, d). [Memcpy a d, Uart_Write (SFL_ACK_SUCCESS P)]) segs) @
      [Uart_Write (SFL_ACK_SUCCESS P)], Boot 0 0 0 (ucast entry)))"
  using assms by (rule serialboot_image)

theorem serialboot_downloads_witness:
  "serialboot litex_sfl Returns_NULL demo_frame
     (arrives (SFL_MAGIC_ACK litex_sfl @
        encode_frame litex_sfl 1 (be32 0x40000000 @ [0x13, 0, 0, 0]) @
        encode_frame litex_sfl 2 (be32 0x40000000))) =
   Some (Inr (map Uart_Write (SFL_MAGIC_REQ litex_sfl) @
     [Memcpy 0x40000000 [0x13, 0, 0, 0], Uart_Write 0x4B, Uart_Write 0x4B],
     Boot 0 0 0 0x40000000))"
  using serialboot_downloads [where requester = Returns_NULL and frame = demo_frame
      and segs = "[(0x40000000, [0x13, 0, 0, 0])]" and entry = "0x40000000" and es = "[]",
      OF litex_sfl_ok]
  by (simp add: demo_frame_def litex_sfl_def del: arrives_simps)

text \<open>
  The acknowledge is recognised behind any noise: whatever characters (other than the two that
  cancel) arrive before it, the wait ends with OK no later than the acknowledge's last character.
\<close>

theorem check_ack_recognises:
  assumes "sfl_ok P" and "list_all (\<lambda>c. \<not> cancel_char c) noise"
  shows "\<exists>es'. check_ack P (arrives (noise @ SFL_MAGIC_ACK P) @ es) = Some (ACK_OK, es')"
  using check_ack_noise [of noise "SFL_MAGIC_ACK P" 0 es] assms
  by (simp add: check_ack_def sfl_ok_def del: arrives_simps)

theorem check_ack_recognises_witness:
  "\<exists>es'. check_ack litex_sfl (arrives ([0x7A, 0x36, 0x7A] @ SFL_MAGIC_ACK litex_sfl)) =
     Some (ACK_OK, es')"
  using check_ack_recognises [OF litex_sfl_ok, of "[0x7A, 0x36, 0x7A]" "[]"]
  by (simp add: cancel_char_def del: arrives_simps)

lemma check_ack_sound_from:
  assumes "check_ack_from str k es = Some (ACK_OK, es')" and "k < length str"
  shows "\<exists>used. es = used @ es' \<and>
    (\<exists>before. take k str @ List.map_filter rx used = before @ str)"
  using assms
proof (induction str k es rule: check_ack_from.induct)
  case (2 str k e es)
  show ?case
  proof (cases "rx e")
    case None
    then obtain used where "es = used @ es'"
      "\<exists>before. take k str @ List.map_filter rx used = before @ str"
      using 2 by (auto split: if_splits)
    then show ?thesis
      using None by (intro exI [of _ "e # used"]) (simp add: map_filter_def)
  next
    case (Some c)
    consider (match) "c = str ! k" "Suc k = length str" "es = es'"
      | (more) "c = str ! k" "Suc k < length str" "check_ack_from str (Suc k) es = Some (ACK_OK, es')"
      | (restart) "c = str ! 0" "check_ack_from str 1 es = Some (ACK_OK, es')" "c \<noteq> str ! k"
      | (reset) "check_ack_from str 0 es = Some (ACK_OK, es')" "c \<noteq> str ! k" "c \<noteq> str ! 0"
      using "2.prems" Some by (fastforce split: if_splits)
    then show ?thesis
    proof cases
      case match
      then have "take k str @ [c] = str"
        by (metis lessI take_Suc_conv_app_nth take_all_iff order_refl "2.prems"(2))
      then show ?thesis
        using match Some by (intro exI [of _ "[e]"]) (auto simp: map_filter_def)
    next
      case more
      then obtain used b where "es = used @ es'" "take (Suc k) str @ List.map_filter rx used = b @ str"
        using "2.IH" "2.prems" Some by (auto split: if_splits)
      then show ?thesis
        using more Some "2.prems"(2)
        by (intro exI [of _ "e # used"]) (auto simp: map_filter_def take_Suc_conv_app_nth)
    next
      case restart
      then have "1 < length str"
        using "2.prems"(2) by (cases k) auto
      then obtain used b where "es = used @ es'" "take 1 str @ List.map_filter rx used = b @ str"
        using "2.IH" "2.prems" Some restart by (auto split: if_splits)
      moreover have "take 1 str = [c]"
        using restart(1) \<open>1 < length str\<close> by (cases str) simp_all
      ultimately show ?thesis
        using Some by (intro exI [of _ "e # used"])
          (auto simp: map_filter_def intro!: exI [of _ "take k str @ b"])
    next
      case reset
      have "str \<noteq> []"
        using "2.prems"(2) by auto
      with reset obtain used b where "es = used @ es'" "List.map_filter rx used = b @ str"
        using "2.IH" "2.prems" Some by (auto split: if_splits)
      then show ?thesis
        using Some by (intro exI [of _ "e # used"])
          (auto simp: map_filter_def intro!: exI [of _ "take k str @ c # b"])
    qed
  qed
qed simp

text \<open>
  The wait reports OK only when the acknowledge has really arrived: the characters received up
  to that point end with it.
\<close>

theorem check_ack_sound:
  assumes "sfl_ok P" and "check_ack P es = Some (ACK_OK, es')"
  shows "\<exists>used before. es = used @ es' \<and> List.map_filter rx used = before @ SFL_MAGIC_ACK P"
  using check_ack_sound_from [of "SFL_MAGIC_ACK P" 0 es es'] assms
  by (auto simp: check_ack_def sfl_ok_def)

theorem check_ack_sound_witness:
  "\<exists>used before es'. arrives ([1, 2] @ SFL_MAGIC_ACK litex_sfl @ [3]) = used @ es' \<and>
     List.map_filter rx used = before @ SFL_MAGIC_ACK litex_sfl"
proof -
  have "check_ack litex_sfl (arrives ([1, 2] @ SFL_MAGIC_ACK litex_sfl @ [3])) =
      Some (ACK_OK, arrives [3])"
    by (simp add: check_ack_def litex_sfl_def cancel_char_def)
  from check_ack_sound [OF litex_sfl_ok this] show ?thesis by blast
qed

text \<open>Frames whose checksum is wrong.\<close>

definition corrupt_frame :: "sfl_params \<Rightarrow> u8 \<times> u8 \<times> u8 \<times> bytes \<Rightarrow> bool" where
  "corrupt_frame P = (\<lambda>(c0, c1, c, pl). pl \<noteq> [] \<and> length pl \<le> 255 \<and>
     unat (crc16 P (c # pl)) \<noteq> 256 * unat c0 + unat c1)"

definition wire :: "u8 \<times> u8 \<times> u8 \<times> bytes \<Rightarrow> bytes" where
  "wire = (\<lambda>(c0, c1, c, pl). [of_nat (length pl), c0, c1, c] @ pl)"

lemma serial_loop_corrupt:
  assumes "corrupt_frame P f" and "255 \<le> length (payload frame)"
  shows "\<exists>frame'. length (payload frame') = length (payload frame) \<and>
    serial_loop P failures frame (arrives (wire f) @ es) =
    (if Suc failures = MAX_FAILURES then Some (Inr ([Uart_Write (SFL_ACK_CRCERROR P)], Return 1))
     else map_option (\<lambda>r. and_then r (\<lambda>(rest, e).
         Inr ([Uart_Write (SFL_ACK_CRCERROR P)] @ rest, e)))
       (serial_loop P (Suc failures) frame' es))"
proof -
  obtain c0 c1 c pl where f: "f = (c0, c1, c, pl)" by (metis prod_cases4)
  let ?f = "\<lparr>payload_length = of_nat (length pl), crc_0 = c0, crc_1 = c1, cmd = c,
    payload = pl @ drop (length pl) (payload frame)\<rparr>"
  have pl: "pl \<noteq> []" "length pl \<le> 255" "unat (crc16 P (c # pl)) \<noteq> 256 * unat c0 + unat c1"
    using assms(1) f by (simp_all add: corrupt_frame_def)
  have "unat (of_nat (length pl) :: u8) = length pl"
    using pl(2) by (simp add: unat_of_nat)
  then have "\<not> frame_crc_ok P ?f"
    using pl(3) by (simp add: frame_crc_ok_def)
  moreover have "get_frame 0 frame (arrives (wire f) @ es) = Some (Inr (False, ?f, es))"
    using get_encoded_frame [of pl frame c0 c1 c es] pl(1,2) assms(2) f by (simp add: wire_def)
  ultimately show ?thesis
    using pl(2) assms(2)
    by (intro exI [of _ ?f], subst serial_loop.simps) (simp add: handle_frame_def)
qed

lemma serial_loop_gives_up:
  assumes "length fs + failures = MAX_FAILURES" and "fs \<noteq> []" and "list_all (corrupt_frame P) fs"
    and "255 \<le> length (payload frame)"
  shows "serial_loop P failures frame (arrives (concat (map wire fs)) @ es) =
    Some (Inr (replicate (length fs) (Uart_Write (SFL_ACK_CRCERROR P)), Return 1))"
  using assms
proof (induction fs arbitrary: failures frame)
  case (Cons f fs)
  obtain frame' where f': "length (payload frame') = length (payload frame)"
    and step: "serial_loop P failures frame (arrives (wire f) @ arrives (concat (map wire fs)) @ es) =
    (if Suc failures = MAX_FAILURES then Some (Inr ([Uart_Write (SFL_ACK_CRCERROR P)], Return 1))
     else map_option (\<lambda>r. and_then r (\<lambda>(rest, e).
         Inr ([Uart_Write (SFL_ACK_CRCERROR P)] @ rest, e)))
       (serial_loop P (Suc failures) frame' (arrives (concat (map wire fs)) @ es)))"
    using serial_loop_corrupt [of P f frame failures "arrives (concat (map wire fs)) @ es"] Cons.prems
    by auto
  show ?case
  proof (cases "fs = []")
    case True
    with step Cons.prems(1) show ?thesis by simp
  next
    case False
    have "serial_loop P (Suc failures) frame' (arrives (concat (map wire fs)) @ es) =
        Some (Inr (replicate (length fs) (Uart_Write (SFL_ACK_CRCERROR P)), Return 1))"
      using Cons.IH [of "Suc failures" frame'] Cons.prems False f' by simp
    moreover have "Suc failures \<noteq> MAX_FAILURES"
      using Cons.prems(1) False by (cases fs) simp_all
    ultimately show ?thesis
      using step by simp
  qed
qed simp

text \<open>
  256 corrupt frames in a row end the download: each is answered with the checksum error code
  and nothing is copied or started; after the last one the loader returns 1, so that the other
  boot methods are tried.
\<close>

theorem serial_boot_gives_up:
  assumes "length fs = MAX_FAILURES" and "list_all (corrupt_frame P) fs"
    and "255 \<le> length (payload frame)"
  shows "serial_loop P 0 frame (arrives (concat (map wire fs)) @ es) =
    Some (Inr (replicate MAX_FAILURES (Uart_Write (SFL_ACK_CRCERROR P)), Return 1))"
  using serial_loop_gives_up [of fs 0 P frame es] assms by fastforce

theorem serial_boot_gives_up_witness:
  "serial_loop litex_sfl 0 demo_frame (arrives (concat (replicate 256 [1, 0, 0, 1, 7]))) =
     Some (Inr (replicate 256 (Uart_Write 0x43), Return 1))"
proof -
  have "map wire (replicate 256 (0, 0, 1, [7])) = replicate 256 [1, 0, 0, 1, 7]"
    by (simp add: wire_def map_replicate)
  moreover have "list_all (corrupt_frame litex_sfl) (replicate 256 (0, 0, 1, [7]))"
    by (simp add: list_all_iff corrupt_frame_def litex_sfl_def)
  ultimately show ?thesis
    using serial_boot_gives_up [of "replicate 256 (0, 0, 1, [7])" litex_sfl demo_frame "[]"]
    by (simp add: demo_frame_def litex_sfl_def)
qed

lemma get_frame_overflow:
  assumes "payload_length frame = 0" and "k \<le> length (payload frame)"
    and "length (payload frame) < k + length bs"
  shows "get_frame (k + 4) frame (arrives bs @ es) = Some (Inl Out_Of_Bounds)"
  using assms
proof (induction bs arbitrary: k frame)
  case (Cons c bs)
  show ?case
  proof (cases "k = length (payload frame)")
    case False
    let ?pl = "take k (payload frame) @ [c] @ drop (Suc k) (payload frame)"
    have "poke (payload frame) k [c] = Inr ?pl" "length ?pl = length (payload frame)"
      using Cons.prems False by (simp_all add: poke_def)
    then show ?thesis
      using Cons.IH [of "frame\<lparr>payload := ?pl\<rparr>" "Suc k"] Cons.prems False by simp
  qed (simp add: poke_def)
qed simp

text \<open>
  C21: A frame that announces an empty payload is never complete: the receiver keeps storing what
  arrives, and one character more than the payload array holds is stored outside the frame.
\<close>

theorem empty_payload_overflows:
  assumes "length (payload frame) < length bs"
  shows "get_frame 0 frame (arrives ([0, c0, c1, c] @ bs) @ es) = Some (Inl Out_Of_Bounds)"
  using get_frame_overflow [of "frame\<lparr>payload_length := 0, crc_0 := c0, crc_1 := c1, cmd := c\<rparr>" 0 bs es]
    assms by simp

theorem empty_payload_overflows_witness:
  "get_frame 0 demo_frame (arrives ([0, 0, 0, 1] @ replicate 256 7)) = Some (Inl Out_Of_Bounds)"
  using empty_payload_overflows [of demo_frame "replicate 256 7" 0 0 1 "[]"]
  by (simp add: demo_frame_def del: arrives_simps)

end
