(* ===== verification/Image_Boot.thy ===== *)
theory Image_Boot
  imports Serial_Boot
begin

text \<open>
  Booting from an image, second half of \<open>bios/boot.c\<close>: from flash, over the network, from an SD card
  and from a SATA disk; the last three either through a \<open>boot.json\<close> that lists files and addresses
  or with a plain \<open>boot.bin\<close>.

  Parameters: the file system (FatFs), \<open>tftp_get\<close>, the JSON tokenizer (jsmn), \<open>crc32\<close> and the
  addresses of the SoC.  Of the C library \<open>strtoul\<close> with base 0, \<open>strncmp\<close> and \<open>memcpy\<close> are modelled.
  Memory is a function from 64-bit addresses to bytes.
\<close>

section \<open>Memory and C strings\<close>

type_synonym mem = "u64 \<Rightarrow> u8"

fun mem_write :: "u64 \<Rightarrow> bytes \<Rightarrow> mem \<Rightarrow> mem" where
  "mem_write a [] m = m"
| "mem_write a (b # bs) m = mem_write (a + 1) bs (m(a := b))"

definition mem_read :: "u64 \<Rightarrow> nat \<Rightarrow> mem \<Rightarrow> bytes" where
  "mem_read a n m = map (\<lambda>i. m (a + of_nat i)) [0..<n]"

text \<open>The text up to the terminating NUL; no terminator inside the object is an over-read.\<close>

definition c_string :: "bytes \<Rightarrow> fault + bytes" where
  "c_string buf = (if 0 \<in> set buf then Inr (takeWhile (\<lambda>c. c \<noteq> 0) buf) else Inl Out_Of_Bounds)"

definition strncmp_eq :: "bytes \<Rightarrow> bytes \<Rightarrow> bool" where
  "strncmp_eq buf lit \<longleftrightarrow> take (length lit) buf = lit"

definition is_space :: "u8 \<Rightarrow> bool" where
  "is_space c \<longleftrightarrow> c = 0x20 \<or> (0x09 \<le> c \<and> c \<le> 0x0D)"

definition digit_value :: "u8 \<Rightarrow> nat option" where
  "digit_value c =
     (if 0x30 \<le> c \<and> c \<le> 0x39 then Some (unat c - 0x30)
      else if 0x61 \<le> c \<and> c \<le> 0x7A then Some (unat c - 0x61 + 10)
      else if 0x41 \<le> c \<and> c \<le> 0x5A then Some (unat c - 0x41 + 10)
      else None)"

text \<open>The digits of a number in the given base; \<open>None\<close> when they run to the end of the object.\<close>

fun scan_digits :: "nat \<Rightarrow> nat \<Rightarrow> bytes \<Rightarrow> nat option" where
  "scan_digits base acc [] = None"
| "scan_digits base acc (c # cs) =
     (case digit_value c of
        Some d \<Rightarrow> if d < base then scan_digits base (base * acc + d) cs else Some acc
      | None \<Rightarrow> Some acc)"

definition scan_number :: "bytes \<Rightarrow> nat option" where
  "scan_number cs =
     (case cs of
        c0 # c1 # rest \<Rightarrow>
          if c0 = 0x30 \<and> (c1 = 0x78 \<or> c1 = 0x58) then scan_digits 16 0 rest
          else if c0 = 0x30 then scan_digits 8 0 (c1 # rest)
          else scan_digits 10 0 cs
      | _ \<Rightarrow> scan_digits 10 0 cs)"

definition strtoul :: "bytes \<Rightarrow> fault + u64" where
  "strtoul buf =
     (let cs = dropWhile is_space buf;
          (neg, cs) = (case cs of c # r \<Rightarrow> if c = 0x2D then (True, r)
                                   else if c = 0x2B then (False, r) else (False, cs)
                       | [] \<Rightarrow> (False, cs)) in
      case scan_number cs of
        None \<Rightarrow> Inl Out_Of_Bounds
      | Some v \<Rightarrow>
          if 2 ^ 64 \<le> v then Inr (- 1)
          else Inr (if neg then - of_nat v else of_nat v))"

section \<open>JSON boot files\<close>

datatype jsmntype = JSMN_UNDEFINED | JSMN_OBJECT | JSMN_ARRAY | JSMN_STRING | JSMN_PRIMITIVE

record jsmntok =
  tok_type :: jsmntype
  tok_start :: int
  tok_end :: int
  tok_size :: int

record json_boot_state =
  boot_r1 :: u64
  boot_r2 :: u64
  boot_r3 :: u64
  boot_addr :: u64
  image_found :: bool
  boot_addr_found :: bool

definition json_boot_start :: json_boot_state where
  "json_boot_start = \<lparr>boot_r1 = 0, boot_r2 = 0, boot_r3 = 0, boot_addr = 0,
     image_found = False, boot_addr_found = False\<rparr>"

lemma json_boot_start_simps [simp]:
  "boot_r1 json_boot_start = 0" "boot_r2 json_boot_start = 0" "boot_r3 json_boot_start = 0"
  "boot_addr json_boot_start = 0" "\<not> image_found json_boot_start"
  "\<not> boot_addr_found json_boot_start"
  by (simp_all add: json_boot_start_def)

text \<open>
  The text of a token, copied into a zeroed array of 32 characters: a range outside the JSON buffer
  or longer than the array is an out-of-bounds access.
\<close>

definition token_text :: "bytes \<Rightarrow> jsmntok \<Rightarrow> fault + bytes" where
  "token_text json t =
     (if 0 \<le> tok_start t \<and> tok_start t \<le> tok_end t \<and> tok_end t \<le> int (length json) \<and>
         tok_end t - tok_start t \<le> 32
      then let txt = take (nat (tok_end t - tok_start t)) (drop (nat (tok_start t)) json) in
        Inr (txt @ replicate (32 - length txt) 0)
      else Inl Out_Of_Bounds)"

text \<open>
  One element.  \<open>copy name addr\<close> copies a file into memory; its result is whether it succeeded, and
  \<open>None\<close> when it never returns.  The step gives \<open>None\<close> in the last component of its result when the
  boot attempt is given up because a copy failed.
\<close>

type_synonym copier = "bytes \<Rightarrow> u64 \<Rightarrow> mem \<Rightarrow> (bool \<times> mem) option"

definition json_element ::
  "copier \<Rightarrow> bytes \<Rightarrow> bytes \<Rightarrow> json_boot_state \<Rightarrow> mem \<Rightarrow>
   (fault + (json_boot_state option \<times> mem)) option" where
  "json_element copy json_name json_value st m =
     (if strncmp_eq json_name (map (\<lambda>c. of_char c) ''bootargs'') then Some (Inr (Some st, m))
      else if strncmp_eq json_name (map (\<lambda>c. of_char c) ''addr'') then
        Some (and_then (strtoul json_value) (\<lambda>v.
          Inr (Some (st\<lparr>boot_addr := v, boot_addr_found := True\<rparr>), m)))
      else if strncmp_eq json_name (map (\<lambda>c. of_char c) ''r1'') then
        Some (and_then (strtoul json_value) (\<lambda>v. Inr (Some (st\<lparr>boot_r1 := v\<rparr>), m)))
      else if strncmp_eq json_name (map (\<lambda>c. of_char c) ''r2'') then
        Some (and_then (strtoul json_value) (\<lambda>v. Inr (Some (st\<lparr>boot_r2 := v\<rparr>), m)))
      else if strncmp_eq json_name (map (\<lambda>c. of_char c) ''r3'') then
        Some (and_then (strtoul json_value) (\<lambda>v. Inr (Some (st\<lparr>boot_r3 := v\<rparr>), m)))
      else
        case and_then (c_string json_name) (\<lambda>name.
               and_then (strtoul json_value) (\<lambda>addr. Inr (name, addr))) of
          Inl f \<Rightarrow> Some (Inl f)
        | Inr (name, addr) \<Rightarrow>
            map_option (\<lambda>(ok, m).
              if \<not> ok then Inr (None, m)
              else Inr (Some (st\<lparr>image_found := True,
                boot_addr := (if boot_addr_found st then boot_addr st else addr)\<rparr>), m))
            (copy name addr m))"

text \<open>The loop over the token array \<open>t\<close>; \<open>n\<close> counts the remaining iterations.\<close>

fun json_loop ::
  "copier \<Rightarrow> bytes \<Rightarrow> jsmntok list \<Rightarrow> nat \<Rightarrow> nat \<Rightarrow> json_boot_state \<Rightarrow> mem \<Rightarrow>
   (fault + (json_boot_state option \<times> mem)) option" where
  "json_loop copy json t 0 i st m = Some (Inr (Some st, m))"
| "json_loop copy json t (Suc n) i st m =
     (if \<not> i < length t then Some (Inl Out_Of_Bounds)
      else if tok_type (t ! i) = JSMN_STRING \<and> tok_size (t ! i) = 1 then
        if \<not> Suc i < length t then Some (Inl Out_Of_Bounds)
        else
          case and_then (token_text json (t ! i)) (\<lambda>name.
                 and_then (token_text json (t ! Suc i)) (\<lambda>val. Inr (name, val))) of
            Inl f \<Rightarrow> Some (Inl f)
          | Inr (name, val) \<Rightarrow>
              (case json_element copy name val st m of
                 None \<Rightarrow> None
               | Some (Inl f) \<Rightarrow> Some (Inl f)
               | Some (Inr (None, m)) \<Rightarrow> Some (Inr (None, m))
               | Some (Inr (Some st, m)) \<Rightarrow> json_loop copy json t n (Suc i) st m)
      else json_loop copy json t n (Suc i) st m)"

text \<open>
  Parsing and the loop, the common part of the three \<open>*boot_from_json\<close>.  The tokenizer gets the text
  up to its terminator and returns its \<open>int\<close> result and the contents of the array of 32 tokens; the
  result is stored in a \<open>uint8_t\<close>, and the loop runs while \<open>i < count - 1\<close>.
\<close>

definition boot_from_json ::
  "(bytes \<Rightarrow> int \<times> jsmntok list) \<Rightarrow> copier \<Rightarrow> bytes \<Rightarrow> mem \<Rightarrow>
   (fault + (boot_end option \<times> mem)) option" where
  "boot_from_json jsmn_parse copy json_buffer m =
     (case c_string json_buffer of
        Inl f \<Rightarrow> Some (Inl f)
      | Inr text \<Rightarrow>
          let (result, t) = jsmn_parse text;
              count = unat (word_of_int result :: u8) in
          map_option (\<lambda>r. and_then r (\<lambda>(st, m).
            Inr (case st of
                   Some st \<Rightarrow> if image_found st
                     then Some (boot (boot_r1 st) (boot_r2 st) (boot_r3 st) (boot_addr st)) else None
                 | None \<Rightarrow> None, m)))
          (json_loop copy json_buffer t (count - 1) 0 json_boot_start m))"

section \<open>Files\<close>

text \<open>
  FatFs: whether the volume mounts, whether a file opens, and what a read of at most \<open>n\<close> bytes at a
  position of the file gives (\<open>None\<close> for a result other than \<open>FR_OK\<close>).
\<close>

record fatfs =
  f_mount :: bool
  f_open :: "bytes \<Rightarrow> bool"
  f_read :: "bytes \<Rightarrow> nat \<Rightarrow> nat \<Rightarrow> bytes option"

text \<open>The read loop; \<open>pos\<close> is the file position, whose low 32 bits are \<open>offset\<close>.\<close>

partial_function (option) copy_chunks ::
  "fatfs \<Rightarrow> bytes \<Rightarrow> u64 \<Rightarrow> nat \<Rightarrow> mem \<Rightarrow> (bool \<times> mem) option" where
  "copy_chunks D filename ram_address pos m =
     (case f_read D filename pos 0x8000 of
        None \<Rightarrow> Some (False, m)
      | Some bs \<Rightarrow>
          if bs = [] then Some (True, m)
          else copy_chunks D filename ram_address (pos + length bs)
            (mem_write (ram_address + ucast (of_nat pos :: u32)) bs m))"

definition copy_file_from_sdcard_to_ram :: "fatfs \<Rightarrow> copier" where
  "copy_file_from_sdcard_to_ram D filename ram_address m =
     (if \<not> f_mount D then Some (False, m)
      else if \<not> f_open D filename then Some (False, m)
      else copy_chunks D filename ram_address 0 m)"

definition copy_file_from_sata_to_ram :: "fatfs \<Rightarrow> copier" where
  "copy_file_from_sata_to_ram D filename ram_address m =
     (if \<not> f_mount D then Some (False, m)
      else if \<not> f_open D filename then Some (False, m)
      else copy_chunks D filename ram_address 0 m)"

text \<open>
  The JSON file is read with one call into the uninitialised array \<open>junk\<close> of 1024 characters, and
  the result code of that call is ignored: after a failed read the array is what it was.
\<close>

definition read_json :: "fatfs \<Rightarrow> bytes \<Rightarrow> bytes \<Rightarrow> bytes" where
  "read_json D filename junk =
     (case f_read D filename 0 1024 of
        None \<Rightarrow> junk
      | Some bs \<Rightarrow> take 1024 bs @ drop (length bs) junk)"

definition sdcardboot_from_json ::
  "(bytes \<Rightarrow> int \<times> jsmntok list) \<Rightarrow> fatfs \<Rightarrow> bytes \<Rightarrow> bytes \<Rightarrow> mem \<Rightarrow>
   (fault + (boot_end option \<times> mem)) option" where
  "sdcardboot_from_json jsmn D junk filename m =
     (if \<not> f_mount D then Some (Inr (None, m))
      else if \<not> f_open D filename then Some (Inr (None, m))
      else boot_from_json jsmn (copy_file_from_sdcard_to_ram D) (read_json D filename junk) m)"

definition sataboot_from_json ::
  "(bytes \<Rightarrow> int \<times> jsmntok list) \<Rightarrow> fatfs \<Rightarrow> bytes \<Rightarrow> bytes \<Rightarrow> mem \<Rightarrow>
   (fault + (boot_end option \<times> mem)) option" where
  "sataboot_from_json jsmn D junk filename m =
     (if \<not> f_mount D then Some (Inr (None, m))
      else if \<not> f_open D filename then Some (Inr (None, m))
      else boot_from_json jsmn (copy_file_from_sata_to_ram D) (read_json D filename junk) m)"

definition boot_from_bin :: "copier \<Rightarrow> u64 \<Rightarrow> bytes \<Rightarrow> mem \<Rightarrow> (fault + (boot_end option \<times> mem)) option" where
  "boot_from_bin copy MAIN_RAM_BASE filename m =
     map_option (\<lambda>(ok, m). Inr (if ok then Some (boot 0 0 0 MAIN_RAM_BASE) else None, m))
       (copy filename MAIN_RAM_BASE m)"

definition sdcardboot_from_bin ::
  "fatfs \<Rightarrow> u64 \<Rightarrow> bytes \<Rightarrow> mem \<Rightarrow> (fault + (boot_end option \<times> mem)) option" where
  "sdcardboot_from_bin D = boot_from_bin (copy_file_from_sdcard_to_ram D)"

definition sataboot_from_bin ::
  "fatfs \<Rightarrow> u64 \<Rightarrow> bytes \<Rightarrow> mem \<Rightarrow> (fault + (boot_end option \<times> mem)) option" where
  "sataboot_from_bin D = boot_from_bin (copy_file_from_sata_to_ram D)"

text \<open>A second method is tried when the first returns.\<close>

definition or_else ::
  "(mem \<Rightarrow> (fault + (boot_end option \<times> mem)) option) \<Rightarrow>
   (mem \<Rightarrow> (fault + (boot_end option \<times> mem)) option) \<Rightarrow> mem \<Rightarrow>
   (fault + (boot_end option \<times> mem)) option" where
  "or_else first second m =
     (case first m of
        Some (Inr (None, m)) \<Rightarrow> second m
      | r \<Rightarrow> r)"

definition boot_json :: bytes where "boot_json = map (\<lambda>c. of_char c) ''boot.json''"
definition boot_bin :: bytes where "boot_bin = map (\<lambda>c. of_char c) ''boot.bin''"

definition sdcardboot ::
  "(bytes \<Rightarrow> int \<times> jsmntok list) \<Rightarrow> fatfs \<Rightarrow> bytes \<Rightarrow> u64 \<Rightarrow> mem \<Rightarrow>
   (fault + (boot_end option \<times> mem)) option" where
  "sdcardboot jsmn D junk MAIN_RAM_BASE =
     or_else (sdcardboot_from_json jsmn D junk boot_json) (sdcardboot_from_bin D MAIN_RAM_BASE boot_bin)"

definition sataboot ::
  "(bytes \<Rightarrow> int \<times> jsmntok list) \<Rightarrow> fatfs \<Rightarrow> bytes \<Rightarrow> u64 \<Rightarrow> mem \<Rightarrow>
   (fault + (boot_end option \<times> mem)) option" where
  "sataboot jsmn D junk MAIN_RAM_BASE =
     or_else (sataboot_from_json jsmn D junk boot_json) (sataboot_from_bin D MAIN_RAM_BASE boot_bin)"

section \<open>The network\<close>

text \<open>
  \<open>tftp_get\<close> returns the size it reports and the bytes it has stored at the given pointer (which
  need not agree when a transfer fails).
\<close>

type_synonym tftp = "u32 \<Rightarrow> u16 \<Rightarrow> bytes \<Rightarrow> int \<times> bytes"

definition copy_file_from_tftp_to_ram :: "tftp \<Rightarrow> u32 \<Rightarrow> u16 \<Rightarrow> bytes \<Rightarrow> u64 \<Rightarrow> mem \<Rightarrow> int \<times> mem" where
  "copy_file_from_tftp_to_ram tftp_get ip server_port filename buffer m =
     (let (size, data) = tftp_get ip server_port filename in (size, mem_write buffer data m))"

definition tftp_copier :: "tftp \<Rightarrow> u32 \<Rightarrow> u16 \<Rightarrow> copier" where
  "tftp_copier tftp_get ip server_port filename addr m =
     (let (size, m) = copy_file_from_tftp_to_ram tftp_get ip server_port filename addr m in
      Some (0 < size, m))"

definition netboot_from_json ::
  "(bytes \<Rightarrow> int \<times> jsmntok list) \<Rightarrow> tftp \<Rightarrow> bytes \<Rightarrow> bytes \<Rightarrow> u32 \<Rightarrow> u16 \<Rightarrow> mem \<Rightarrow>
   (fault + (boot_end option \<times> mem)) option" where
  "netboot_from_json jsmn tftp_get junk filename ip tftp_port m =
     (let (size, data) = tftp_get ip tftp_port filename in
      case poke junk 0 data of
        Inl f \<Rightarrow> Some (Inl f)
      | Inr json_buffer \<Rightarrow>
          if size \<le> 0 then Some (Inr (None, m))
          else boot_from_json jsmn (tftp_copier tftp_get ip tftp_port) json_buffer m)"

definition netboot_from_bin ::
  "tftp \<Rightarrow> u64 \<Rightarrow> bytes \<Rightarrow> u32 \<Rightarrow> u16 \<Rightarrow> mem \<Rightarrow> (fault + (boot_end option \<times> mem)) option" where
  "netboot_from_bin tftp_get MAIN_RAM_BASE filename ip tftp_port =
     boot_from_bin (tftp_copier tftp_get ip tftp_port) MAIN_RAM_BASE filename"

definition TFTP_SERVER_PORT :: u16 where [simp]: "TFTP_SERVER_PORT = 69"

text \<open>\<open>params\<close> are the command's parameters; \<open>IPTOINT\<close> is the macro of the network library.\<close>

definition netboot ::
  "(bytes \<Rightarrow> int \<times> jsmntok list) \<Rightarrow> tftp \<Rightarrow> bytes \<Rightarrow> u64 \<Rightarrow> (u32 list \<Rightarrow> u32) \<Rightarrow> u32 list \<Rightarrow>
   bytes list \<Rightarrow> mem \<Rightarrow> (fault + (boot_end option \<times> mem)) option" where
  "netboot jsmn tftp_get junk MAIN_RAM_BASE IPTOINT remote_ip params =
     (let ip = IPTOINT remote_ip in
      case params of
        filename # _ \<Rightarrow> netboot_from_json jsmn tftp_get junk filename ip TFTP_SERVER_PORT
      | [] \<Rightarrow> or_else (netboot_from_json jsmn tftp_get junk boot_json ip TFTP_SERVER_PORT)
          (netboot_from_bin tftp_get MAIN_RAM_BASE boot_bin ip TFTP_SERVER_PORT))"

section \<open>Flash\<close>

definition MMPTR :: "u32 \<Rightarrow> mem \<Rightarrow> u32" where
  "MMPTR a m = (let b = (\<lambda>i. ucast (m (ucast a + i)) :: u32) in
     b 0 OR push_bit 8 (b 1) OR push_bit 16 (b 2) OR push_bit 24 (b 3))"

text \<open>0 for a length out of range or a wrong checksum.\<close>

definition check_image_in_flash :: "(bytes \<Rightarrow> u32) \<Rightarrow> u32 \<Rightarrow> mem \<Rightarrow> u32" where
  "check_image_in_flash crc32 base_address m =
     (let length = MMPTR base_address m in
      if length < 32 \<or> 16 * 1024 * 1024 < length then 0
      else
        let crc = MMPTR (base_address + 4) m;
            got_crc = crc32 (mem_read (ucast (base_address + 8)) (unat length) m) in
        if crc \<noteq> got_crc then 0 else length)"

text \<open>The copy loop in pieces of 32 KB.\<close>

function copy_flash_chunks :: "u32 \<Rightarrow> u64 \<Rightarrow> u32 \<Rightarrow> u32 \<Rightarrow> mem \<Rightarrow> mem" where
  "copy_flash_chunks flash_address ram_address offset len m =
     (if len = 0 then m
      else
        let chunk_length = min len 0x8000;
            chunk = mem_read (ucast flash_address + ucast offset + 8) (unat chunk_length) m in
        copy_flash_chunks flash_address ram_address (offset + chunk_length) (len - chunk_length)
          (mem_write (ram_address + ucast offset) chunk m))"
  by pat_completeness auto
termination
proof (relation "measure (\<lambda>(f, r, offset, len, m). unat len)")
  fix len chunk :: u32
  assume "len \<noteq> 0" and "chunk = min len 0x8000"
  then have "chunk \<noteq> 0" "chunk \<le> len"
    by (auto simp: min_def)
  then have "unat (len - chunk) = unat len - unat chunk" "unat chunk \<noteq> 0" "unat chunk \<le> unat len"
    by (simp_all add: unat_sub word_le_nat_alt unat_eq_zero)
  then show "((f, r, offset, len - chunk, m'), f', r', offset', len, m) \<in>
      measure (\<lambda>(f, r, offset, len, m). unat len)"
    for f r offset m' f' r' offset' m
    by simp
qed simp

declare copy_flash_chunks.simps [simp del]

definition copy_image_from_flash_to_ram :: "(bytes \<Rightarrow> u32) \<Rightarrow> u32 \<Rightarrow> u64 \<Rightarrow> mem \<Rightarrow> bool \<times> mem" where
  "copy_image_from_flash_to_ram crc32 flash_address ram_address m =
     (let length = check_image_in_flash crc32 flash_address m in
      if 0 < length then (True, copy_flash_chunks flash_address ram_address 0 length m)
      else (False, m))"

text \<open>\<open>flashboot\<close>, for a SoC with main RAM and (second definition) for one without.\<close>

definition flashboot :: "(bytes \<Rightarrow> u32) \<Rightarrow> u32 \<Rightarrow> u64 \<Rightarrow> mem \<Rightarrow> boot_end option \<times> mem" where
  "flashboot crc32 FLASH_BOOT_ADDRESS MAIN_RAM_BASE m =
     (let length = check_image_in_flash crc32 FLASH_BOOT_ADDRESS m in
      if length = 0 then (None, m)
      else
        let (result, m) = copy_image_from_flash_to_ram crc32 FLASH_BOOT_ADDRESS MAIN_RAM_BASE m in
        if \<not> result then (None, m) else (Some (boot 0 0 0 MAIN_RAM_BASE), m))"

definition flashboot_xip :: "(bytes \<Rightarrow> u32) \<Rightarrow> u32 \<Rightarrow> mem \<Rightarrow> boot_end option" where
  "flashboot_xip crc32 FLASH_BOOT_ADDRESS m =
     (let length = check_image_in_flash crc32 FLASH_BOOT_ADDRESS m in
      if length = 0 then None else Some (boot 0 0 0 (ucast FLASH_BOOT_ADDRESS + 8)))"

section \<open>Memory lemmas\<close>

lemma mem_write_append:
  "mem_write a (xs @ ys) m = mem_write (a + of_nat (length xs)) ys (mem_write a xs m)"
  by (induction xs arbitrary: a m) (simp_all add: add.assoc)

lemma mem_write_outside:
  assumes "length bs \<le> unat (x - a)"
  shows "mem_write a bs m x = m x"
  using assms
proof (induction bs arbitrary: a m)
  case (Cons b bs)
  have "x \<noteq> a"
    using Cons.prems by auto
  moreover have "unat (x - (a + 1)) = unat (x - a) - 1"
    using \<open>x \<noteq> a\<close> by (simp add: diff_diff_eq [symmetric] unat_minus_one)
  ultimately have "mem_write (a + 1) bs (m(a := b)) x = (m(a := b)) x"
    using Cons.prems by (intro Cons.IH) simp
  then show ?case
    using \<open>x \<noteq> a\<close> by simp
qed simp

lemma mem_write_inside:
  assumes "i < length bs" and "length bs \<le> 2 ^ 64"
  shows "mem_write a bs m (a + of_nat i) = bs ! i"
  using assms
proof (induction bs arbitrary: a m i)
  case (Cons b bs)
  show ?case
  proof (cases i)
    case 0
    have "length bs \<le> unat (a - (a + 1))"
      using Cons.prems(2) by (simp add: unsigned_minus_1_eq_mask mask_eq_exp_minus_1)
    from mem_write_outside [OF this, of "m(a := b)"] show ?thesis
      using 0 by simp
  next
    case (Suc j)
    then have "mem_write (a + 1) bs (m(a := b)) ((a + 1) + of_nat j) = bs ! j"
      using Cons.prems by (intro Cons.IH) simp_all
    then show ?thesis
      using Suc by (simp add: add.assoc)
  qed
qed simp

lemma mem_read_write:
  assumes "length bs \<le> 2 ^ 64"
  shows "mem_read a (length bs) (mem_write a bs m) = bs"
  using assms by (intro nth_equalityI) (simp_all add: mem_read_def mem_write_inside)

section \<open>Copying a file\<close>

text \<open>
  What FatFs documents of a file that opens: a read gives the next bytes, at most as many as asked
  for, and none at the end.  A FAT file is smaller than 4 GB.
\<close>

definition holds_file :: "fatfs \<Rightarrow> bytes \<Rightarrow> bytes \<Rightarrow> bool" where
  "holds_file D filename contents \<longleftrightarrow>
     f_mount D \<and> f_open D filename \<and> length contents < 2 ^ 32 \<and>
     (\<forall>pos n. f_read D filename pos n = Some (take n (drop pos contents)))"

lemma copy_chunks_from:
  assumes "holds_file D filename contents" and "pos \<le> length contents"
  shows "copy_chunks D filename a pos m =
    Some (True, mem_write (a + of_nat pos) (drop pos contents) m)"
  using assms(2)
proof (induction "length contents - pos" arbitrary: pos m rule: less_induct)
  case less
  let ?bs = "take 0x8000 (drop pos contents)"
  have read: "f_read D filename pos 0x8000 = Some ?bs"
    using assms(1) by (simp add: holds_file_def)
  show ?case
  proof (cases "pos = length contents")
    case True
    then show ?thesis
      using read by (simp add: copy_chunks.simps)
  next
    case False
    have off: "ucast (of_nat pos :: u32) = (of_nat pos :: u64)"
    proof -
      have "pos < 2 ^ 32"
        using less.prems assms(1) by (simp add: holds_file_def)
      then have "unat (of_nat pos :: u32) = pos"
        by (simp add: unat_of_nat)
      then show ?thesis
        by (metis of_nat_unat)
    qed
    have "pos + length ?bs \<le> length contents" "?bs \<noteq> []"
      using less.prems False by auto
    then have "copy_chunks D filename a pos m =
        copy_chunks D filename a (pos + length ?bs) (mem_write (a + of_nat pos) ?bs m)"
      using read off by (subst copy_chunks.simps) simp
    also have "\<dots> = Some (True, mem_write (a + of_nat (pos + length ?bs)) (drop (pos + length ?bs) contents)
        (mem_write (a + of_nat pos) ?bs m))"
      using \<open>pos + length ?bs \<le> length contents\<close> \<open>?bs \<noteq> []\<close> False less.prems
      by (intro less.hyps) auto
    also have "\<dots> = Some (True, mem_write (a + of_nat pos) (?bs @ drop (pos + length ?bs) contents) m)"
      by (simp add: mem_write_append add.assoc)
    also have "?bs @ drop (pos + length ?bs) contents = drop pos contents"
    proof -
      have "drop (pos + length ?bs) contents = drop 0x8000 (drop pos contents)"
        by (auto simp: min_def add.commute)
      then show ?thesis
        by (metis append_take_drop_id)
    qed
    finally show ?thesis .
  qed
qed

lemma copy_file_ok:
  assumes "holds_file D filename contents"
  shows "copy_file_from_sdcard_to_ram D filename a m = Some (True, mem_write a contents m)"
  using copy_chunks_from [OF assms, of 0 a m] assms
  by (simp add: copy_file_from_sdcard_to_ram_def holds_file_def)

text \<open>
  C22: Copying a file from the SD card returns, reports success and leaves exactly the file's bytes
  at the given address: reading them back gives the contents, and no byte outside that range
  changes.
\<close>

theorem sdcard_copy_correct:
  assumes "holds_file D filename contents"
  shows "\<exists>m'. copy_file_from_sdcard_to_ram D filename a m = Some (True, m') \<and>
    mem_read a (length contents) m' = contents \<and>
    (\<forall>x. length contents \<le> unat (x - a) \<longrightarrow> m' x = m x)"
proof -
  have "length contents \<le> 2 ^ 64"
    using assms by (simp add: holds_file_def)
  then show ?thesis
    using copy_file_ok [OF assms] mem_read_write mem_write_outside by blast
qed

definition demo_disk :: "bytes \<Rightarrow> fatfs" where
  "demo_disk contents = \<lparr>f_mount = True, f_open = (\<lambda>_. True),
     f_read = (\<lambda>_ pos n. Some (take n (drop pos contents)))\<rparr>"

theorem sdcard_copy_correct_witness:
  "\<exists>m'. copy_file_from_sdcard_to_ram (demo_disk [1, 2, 3]) boot_bin 0x40000000 (\<lambda>_. 0) = Some (True, m') \<and>
     mem_read 0x40000000 3 m' = [1, 2, 3]"
  using sdcard_copy_correct [where D = "demo_disk [1, 2, 3]" and filename = boot_bin
      and contents = "[1, 2, 3]" and a = "0x40000000" and m = "\<lambda>_. 0"]
  by (auto simp: holds_file_def demo_disk_def numeral_3_eq_3)

section \<open>What a boot file asks for\<close>

text \<open>The elements of a boot file, as the chain of comparisons classifies them.\<close>

datatype entry = Bootargs | Addr u64 | R1 u64 | R2 u64 | R3 u64 | Image bytes u64

definition entry_of :: "bytes \<Rightarrow> bytes \<Rightarrow> fault + entry" where
  "entry_of name val =
     (if strncmp_eq name (map (\<lambda>c. of_char c) ''bootargs'') then Inr Bootargs
      else if strncmp_eq name (map (\<lambda>c. of_char c) ''addr'') then and_then (strtoul val) (\<lambda>v. Inr (Addr v))
      else if strncmp_eq name (map (\<lambda>c. of_char c) ''r1'') then and_then (strtoul val) (\<lambda>v. Inr (R1 v))
      else if strncmp_eq name (map (\<lambda>c. of_char c) ''r2'') then and_then (strtoul val) (\<lambda>v. Inr (R2 v))
      else if strncmp_eq name (map (\<lambda>c. of_char c) ''r3'') then and_then (strtoul val) (\<lambda>v. Inr (R3 v))
      else and_then (c_string name) (\<lambda>n. and_then (strtoul val) (\<lambda>a. Inr (Image n a))))"

text \<open>The specification: the memory after the images, and the last value given for each register.\<close>

fun load_images :: "(bytes \<Rightarrow> bytes option) \<Rightarrow> entry list \<Rightarrow> mem \<Rightarrow> mem" where
  "load_images files [] m = m"
| "load_images files (Image n a # es) m =
     load_images files es (case files n of Some c \<Rightarrow> mem_write a c m | None \<Rightarrow> m)"
| "load_images files (_ # es) m = load_images files es m"

fun last_image :: "u64 \<Rightarrow> entry list \<Rightarrow> u64" where
  "last_image d [] = d"
| "last_image d (Image n a # es) = last_image a es"
| "last_image d (_ # es) = last_image d es"

fun last_addr :: "entry list \<Rightarrow> u64 option" where
  "last_addr [] = None"
| "last_addr (Addr v # es) = (case last_addr es of None \<Rightarrow> Some v | r \<Rightarrow> r)"
| "last_addr (_ # es) = last_addr es"

definition entry_point :: "entry list \<Rightarrow> u64" where
  "entry_point es = (case last_addr es of Some v \<Rightarrow> v | None \<Rightarrow> last_image 0 es)"

definition has_image :: "entry list \<Rightarrow> bool" where
  "has_image es \<longleftrightarrow> list_ex (\<lambda>e. case e of Image n a \<Rightarrow> True | _ \<Rightarrow> False) es"

fun reg_values :: "entry list \<Rightarrow> u64 \<times> u64 \<times> u64 \<Rightarrow> u64 \<times> u64 \<times> u64" where
  "reg_values [] r = r"
| "reg_values (R1 v # es) (r1, r2, r3) = reg_values es (v, r2, r3)"
| "reg_values (R2 v # es) (r1, r2, r3) = reg_values es (r1, v, r3)"
| "reg_values (R3 v # es) (r1, r2, r3) = reg_values es (r1, r2, v)"
| "reg_values (_ # es) r = reg_values es r"

section \<open>The loop against the specification\<close>

definition step_state :: "entry \<Rightarrow> json_boot_state \<Rightarrow> json_boot_state" where
  "step_state e st =
     (case e of
        Bootargs \<Rightarrow> st
      | Addr v \<Rightarrow> st\<lparr>boot_addr := v, boot_addr_found := True\<rparr>
      | R1 v \<Rightarrow> st\<lparr>boot_r1 := v\<rparr>
      | R2 v \<Rightarrow> st\<lparr>boot_r2 := v\<rparr>
      | R3 v \<Rightarrow> st\<lparr>boot_r3 := v\<rparr>
      | Image n a \<Rightarrow> st\<lparr>image_found := True,
          boot_addr := (if boot_addr_found st then boot_addr st else a)\<rparr>)"

definition copies_files :: "copier \<Rightarrow> (bytes \<Rightarrow> bytes option) \<Rightarrow> bool" where
  "copies_files copy files \<longleftrightarrow>
     (\<forall>n c a m. files n = Some c \<longrightarrow> copy n a m = Some (True, mem_write a c m))"

lemma json_element_entry:
  assumes "entry_of name val = Inr e" and "copies_files copy files"
    and "\<And>n a. e = Image n a \<Longrightarrow> files n \<noteq> None"
  shows "json_element copy name val st m =
    Some (Inr (Some (step_state e st), load_images files [e] m))"
  using assms
  by (auto simp: json_element_def entry_of_def step_state_def copies_files_def and_then_eq_Inr
      ex_bool_eq split: if_splits)

text \<open>
  The tokens jsmn produces for an object of string pairs: the object, then for every pair the key (a
  string with one child) and its value.
\<close>

definition pair_token :: "bytes \<Rightarrow> jsmntok \<times> jsmntok \<Rightarrow> entry \<Rightarrow> bool" where
  "pair_token json kv e \<longleftrightarrow>
     tok_type (fst kv) = JSMN_STRING \<and> tok_size (fst kv) = 1 \<and> tok_size (snd kv) = 0 \<and>
     (\<exists>name val. token_text json (fst kv) = Inr name \<and> token_text json (snd kv) = Inr val \<and>
        entry_of name val = Inr e)"

definition object_tokens :: "bytes \<Rightarrow> jsmntok list \<Rightarrow> entry list \<Rightarrow> bool" where
  "object_tokens json t es \<longleftrightarrow>
     (\<exists>obj kvs rest. t = obj # concat (map (\<lambda>(k, v). [k, v]) kvs) @ rest \<and>
        tok_type obj = JSMN_OBJECT \<and> list_all2 (pair_token json) kvs es)"

text \<open>The loop ends before the last value, or visits it without effect.\<close>

lemma json_loop_pairs:
  assumes "list_all2 (pair_token json) kvs es" and "copies_files copy files"
    and "\<And>n a. Image n a \<in> set es \<Longrightarrow> files n \<noteq> None"
    and "length pre = i" and "n = 2 * length kvs \<or> Suc n = 2 * length kvs"
  shows "json_loop copy json (pre @ concat (map (\<lambda>(k, v). [k, v]) kvs) @ rest) n i st m =
    Some (Inr (Some (fold step_state es st), load_images files es m))"
  using assms(1,3,4,5)
proof (induction kvs es arbitrary: pre i n st m rule: list_all2_induct)
  case Nil
  then show ?case by simp
next
  case (Cons kv kvs e es)
  obtain k v where kv: "kv = (k, v)" by fastforce
  let ?t = "pre @ k # v # concat (map (\<lambda>(k, v). [k, v]) kvs) @ rest"
  let ?st = "step_state e st" and ?m = "load_images files [e] m"
  have t: "?t ! i = k" "?t ! Suc i = v" "Suc i < length ?t"
    using Cons.prems(2) by (simp_all add: nth_append)
  obtain name val where tx: "token_text json k = Inr name" "token_text json v = Inr val"
    "entry_of name val = Inr e" and types: "tok_type k = JSMN_STRING" "tok_size k = 1" "tok_size v = 0"
    using Cons.hyps(1) kv by (auto simp: pair_token_def)
  have e: "json_element copy name val st m = Some (Inr (Some ?st, ?m))"
    using json_element_entry [OF tx(3) assms(2)] Cons.prems(1) by auto
  obtain n' where n': "n = Suc n'" "n' = Suc (2 * length kvs) \<or> n' = 2 * length kvs"
    using Cons.prems(3) by (cases n) auto
  have key: "json_loop copy json ?t n i st m = json_loop copy json ?t n' (Suc i) ?st ?m"
    using t tx types e n'(1) by simp
  have images: "load_images files es ?m = load_images files (e # es) m"
    by (cases e) simp_all
  show ?case
  proof (cases n')
    case 0
    then show ?thesis
      using n'(2) key kv images Cons.hyps(2) by simp
  next
    case (Suc n'')
    have "json_loop copy json ?t n' (Suc i) ?st ?m = json_loop copy json ?t n'' (Suc (Suc i)) ?st ?m"
      using t(2,3) types(3) Suc by simp
    also have "\<dots> = json_loop copy json ((pre @ [k, v]) @ concat (map (\<lambda>(k, v). [k, v]) kvs) @ rest)
        n'' (Suc (Suc i)) ?st ?m"
      by simp
    also have "\<dots> = Some (Inr (Some (fold step_state es ?st), load_images files es ?m))"
      using Cons.prems n'(2) Suc by (intro Cons.IH) auto
    finally show ?thesis
      using key kv images by simp
  qed
qed

lemma fold_step_found:
  "image_found (fold step_state es st) \<longleftrightarrow> image_found st \<or> has_image es"
proof (induction es arbitrary: st)
  case (Cons e es)
  then show ?case by (cases e) (simp_all add: has_image_def step_state_def)
qed (simp add: has_image_def)

lemma fold_step_regs:
  "(boot_r1 (fold step_state es st), boot_r2 (fold step_state es st), boot_r3 (fold step_state es st)) =
     reg_values es (boot_r1 st, boot_r2 st, boot_r3 st)"
proof (induction es arbitrary: st)
  case (Cons e es)
  then show ?case by (cases e) (simp_all add: step_state_def)
qed simp

lemma fold_step_addr:
  "boot_addr (fold step_state es st) =
     (case last_addr es of
        Some v \<Rightarrow> v
      | None \<Rightarrow> if boot_addr_found st then boot_addr st else last_image (boot_addr st) es)"
proof (induction es arbitrary: st)
  case (Cons e es)
  then show ?case by (cases e) (simp_all add: step_state_def split: option.split)
qed simp

lemma boot_from_json_plan:
  assumes "c_string json = Inr text" and "jsmn text = (int (1 + 2 * length es), t)"
    and "object_tokens json t es" and "length es < 128"
    and "copies_files copy files" and "\<And>n a. Image n a \<in> set es \<Longrightarrow> files n \<noteq> None"
  shows "boot_from_json jsmn copy json m =
    Some (Inr (if has_image es
      then case reg_values es (0, 0, 0) of (r1, r2, r3) \<Rightarrow> Some (Boot r1 r2 r3 (entry_point es))
      else None, load_images files es m))"
proof -
  obtain obj kvs rest where t: "t = obj # concat (map (\<lambda>(k, v). [k, v]) kvs) @ rest"
    "tok_type obj = JSMN_OBJECT" "list_all2 (pair_token json) kvs es"
    using assms(3) by (auto simp: object_tokens_def)
  have len: "length kvs = length es"
    using t(3) by (rule list_all2_lengthD)
  have count: "unat (word_of_int (int (1 + 2 * length es)) :: u8) - 1 = 2 * length kvs"
    using assms(4) len by (simp add: unat_of_nat del: of_nat_add of_nat_mult of_nat_Suc)
  let ?st = "fold step_state es json_boot_start"
  have "json_loop copy json t (2 * length kvs) 0 json_boot_start m =
      Some (Inr (Some ?st, load_images files es m))"
  proof (cases "kvs = []")
    case True
    then show ?thesis
      using t(3) by simp
  next
    case False
    then obtain n where n: "2 * length kvs = Suc n"
      by (cases kvs) auto
    have "json_loop copy json ([obj] @ concat (map (\<lambda>(k, v). [k, v]) kvs) @ rest) n 1
        json_boot_start m = Some (Inr (Some ?st, load_images files es m))"
      using n by (intro json_loop_pairs [OF t(3) assms(5,6)]) simp_all
    then show ?thesis
      using n t by simp
  qed
  moreover have "reg_values es (0, 0, 0) = (boot_r1 ?st, boot_r2 ?st, boot_r3 ?st)"
    using fold_step_regs [of es json_boot_start] by simp
  moreover have "boot_addr ?st = entry_point es" "image_found ?st \<longleftrightarrow> has_image es"
    using fold_step_addr [of es json_boot_start] fold_step_found [of es json_boot_start]
    by (simp_all add: entry_point_def split: option.split)
  ultimately show ?thesis
    using assms(1,2) count
    by (auto simp: boot_from_json_def Let_def boot_def)
qed

lemma sdcard_copies_files:
  assumes "\<And>n c. files n = Some c \<Longrightarrow> holds_file D n c"
  shows "copies_files (copy_file_from_sdcard_to_ram D) files"
  using assms copy_file_ok by (simp add: copies_files_def)

text \<open>
  C11: Booting an SD card whose \<open>boot.json\<close> is an object of string pairs does what the file says:
  every image is copied to its address, in the order of the file, the registers get the last value
  given for each, and the program starts at the last \<open>addr\<close> given or, without one, at the address of
  the last image.
\<close>

theorem sdcardboot_follows_json:
  assumes "f_mount D" and "f_open D boot_json" and "c_string (read_json D boot_json junk) = Inr text"
    and "jsmn text = (int (1 + 2 * length es), t)"
    and "object_tokens (read_json D boot_json junk) t es" and "length es < 128"
    and "\<And>n c. files n = Some c \<Longrightarrow> holds_file D n c"
    and "\<And>n a. Image n a \<in> set es \<Longrightarrow> files n \<noteq> None" and "has_image es"
  shows "sdcardboot jsmn D junk base m =
    Some (Inr (case reg_values es (0, 0, 0) of (r1, r2, r3) \<Rightarrow>
      Some (Boot r1 r2 r3 (entry_point es)), load_images files es m))"
proof -
  have "copies_files (copy_file_from_sdcard_to_ram D) files"
    using assms(7) by (rule sdcard_copies_files)
  from boot_from_json_plan [where jsmn = jsmn and m = m, OF assms(3-6) this assms(8)]
  show ?thesis
    using assms(1,2,9)
    by (simp add: sdcardboot_def or_else_def sdcardboot_from_json_def split: prod.split)
qed

definition demo_json :: bytes where
  "demo_json = [0x7B, 0x22, 0x61, 0x22, 0x3A, 0x22, 0x30, 0x78, 0x34, 0x30, 0x22, 0x7D, 0]"

definition demo_key_token :: jsmntok where
  "demo_key_token = \<lparr>tok_type = JSMN_STRING, tok_start = 2, tok_end = 3, tok_size = 1\<rparr>"

definition demo_value_token :: jsmntok where
  "demo_value_token = \<lparr>tok_type = JSMN_STRING, tok_start = 6, tok_end = 10, tok_size = 0\<rparr>"

definition demo_tokens :: "jsmntok list" where
  "demo_tokens =
     [\<lparr>tok_type = JSMN_OBJECT, tok_start = 0, tok_end = 12, tok_size = 1\<rparr>,
      demo_key_token, demo_value_token]"

definition demo_card :: fatfs where
  "demo_card = \<lparr>f_mount = True, f_open = (\<lambda>_. True),
     f_read = (\<lambda>name pos n. Some (take n (drop pos (if name = boot_json then demo_json else [1, 2, 3]))))\<rparr>"

lemma demo_card_json: "read_json demo_card boot_json (replicate 1024 0) = demo_json @ replicate 1011 0"
  by (simp add: read_json_def demo_card_def demo_json_def)

lemma demo_key: "token_text (demo_json @ r) demo_key_token = Inr (0x61 # replicate 31 0)"
  by (simp add: token_text_def demo_key_token_def demo_json_def)

lemma demo_value:
  "token_text (demo_json @ r) demo_value_token = Inr ([0x30, 0x78, 0x34, 0x30] @ 0 # replicate 27 0)"
  using replicate_Suc [of 27 "0 :: u8"]
  by (simp add: token_text_def demo_value_token_def demo_json_def)

lemma demo_entry:
  "entry_of (0x61 # replicate 31 0) ([0x30, 0x78, 0x34, 0x30] @ 0 # replicate 27 0) =
     Inr (Image [0x61] 0x40)"
  by (simp add: entry_of_def strncmp_eq_def c_string_def strtoul_def scan_number_def is_space_def
      digit_value_def)

lemma demo_pair:
  "pair_token (demo_json @ r) (demo_key_token, demo_value_token) (Image [0x61] 0x40)"
  unfolding pair_token_def fst_conv snd_conv
  using demo_key [of r] demo_value [of r] demo_entry
  by (intro conjI exI) (assumption | simp add: demo_key_token_def demo_value_token_def)+

lemma demo_card_tokens:
  "object_tokens (demo_json @ r) demo_tokens [Image [0x61] 0x40]"
  unfolding object_tokens_def
proof (intro exI conjI)
  show "demo_tokens = hd demo_tokens #
      concat (map (\<lambda>(k, v). [k, v]) [(demo_key_token, demo_value_token)]) @ []"
    "tok_type (hd demo_tokens) = JSMN_OBJECT"
    by (simp_all add: demo_tokens_def)
  show "list_all2 (pair_token (demo_json @ r)) [(demo_key_token, demo_value_token)]
      [Image [0x61] 0x40]"
    using demo_pair by (simp only: list_all2_Cons list_all2_Nil)
qed

theorem sdcardboot_follows_json_witness:
  "\<exists>m'. sdcardboot (\<lambda>_. (3, demo_tokens)) demo_card (replicate 1024 0) 0x40000000 (\<lambda>_. 0) =
     Some (Inr (Some (Boot 0 0 0 0x40), m'))"
proof -
  let ?files = "\<lambda>n. if n = boot_json then None else Some [1, 2, 3]"
  have json: "c_string (read_json demo_card boot_json (replicate 1024 0)) =
      Inr (takeWhile (\<lambda>c. c \<noteq> 0) demo_json)"
    unfolding demo_card_json by (simp add: c_string_def demo_json_def)
  have files: "holds_file demo_card n c" if "?files n = Some c" for n c
    using that by (auto simp: holds_file_def demo_card_def split: if_splits)
  have "[0x61] \<noteq> boot_json"
    by (simp add: boot_json_def)
  then have image: "?files n \<noteq> None" if "Image n a \<in> set [Image [0x61] 0x40]" for n a
    using that by simp
  have "sdcardboot (\<lambda>_. (3, demo_tokens)) demo_card (replicate 1024 0) 0x40000000 (\<lambda>_. 0) =
    Some (Inr (case reg_values [Image [0x61] 0x40] (0, 0, 0) of (r1, r2, r3) \<Rightarrow>
      Some (Boot r1 r2 r3 (entry_point [Image [0x61] 0x40])),
      load_images ?files [Image [0x61] 0x40] (\<lambda>_. 0)))"
  proof (rule sdcardboot_follows_json [where t = demo_tokens, OF _ _ json])
    show "object_tokens (read_json demo_card boot_json (replicate 1024 0)) demo_tokens
        [Image [0x61] 0x40]"
      unfolding demo_card_json by (rule demo_card_tokens)
  qed (use files image in \<open>auto simp: demo_card_def has_image_def\<close>)
  then show ?thesis
    by (simp add: entry_point_def)
qed

lemma json_loop_runs_off:
  assumes "list_all (\<lambda>k. \<not> (tok_type k = JSMN_STRING \<and> tok_size k = 1)) t"
    and "length t < i + n" and "i \<le> length t"
  shows "json_loop copy json t n i st m = Some (Inl Out_Of_Bounds)"
  using assms(2,3)
proof (induction n arbitrary: i)
  case (Suc n)
  then show ?case
    using assms(1) by (cases "i = length t") (auto simp: list_all_length)
qed simp

text \<open>
  C23: A tokenizer error is not noticed: jsmn reports errors as -1, -2 or -3, the code stores the
  result in an unsigned byte, and the loop then runs over more than 250 entries of an array of 32:
  with an array that holds no key it reads outside it.
\<close>

theorem json_error_overruns:
  assumes "c_string json = Inr text" and "jsmn text = (err, t)" and "err \<in> {- 1, - 2, - 3}"
    and "length t = 32" and "list_all (\<lambda>k. \<not> (tok_type k = JSMN_STRING \<and> tok_size k = 1)) t"
  shows "boot_from_json jsmn copy json m = Some (Inl Out_Of_Bounds)"
proof -
  have "252 \<le> unat (word_of_int err :: u8) - 1"
    using assms(3) by (auto simp: unsigned_minus_1_eq_mask mask_eq_exp_minus_1)
  then have "json_loop copy json t (unat (word_of_int err :: u8) - 1) 0 json_boot_start m =
      Some (Inl Out_Of_Bounds)"
    using json_loop_runs_off [OF assms(5), of 0] assms(4) by simp
  then show ?thesis
    using assms(1,2) by (simp add: boot_from_json_def)
qed

theorem json_error_overruns_witness:
  "boot_from_json (\<lambda>_. (- 2, replicate 32 \<lparr>tok_type = JSMN_UNDEFINED, tok_start = -1, tok_end = -1,
     tok_size = 0\<rparr>)) (copy_file_from_sdcard_to_ram demo_card) demo_json (\<lambda>_. 0) =
   Some (Inl Out_Of_Bounds)"
  by (rule json_error_overruns [of _ "takeWhile (\<lambda>c. c \<noteq> 0) demo_json" _ "- 2"
        "replicate 32 \<lparr>tok_type = JSMN_UNDEFINED, tok_start = -1, tok_end = -1, tok_size = 0\<rparr>"])
    (simp_all add: c_string_def demo_json_def list_all_iff)

section \<open>Flash images\<close>

lemma mem_read_append:
  "mem_read a (j + k) m = mem_read a j m @ mem_read (a + of_nat j) k m"
proof -
  have "[0..<j + k] = [0..<j] @ map (\<lambda>i. i + j) [0..<k]"
    by (metis map_add_upt upt_add_eq_append zero_le add.commute)
  then show ?thesis
    by (simp add: mem_read_def add.commute add.left_commute)
qed

lemma length_mem_read [simp]: "length (mem_read a n m) = n"
  by (simp add: mem_read_def)

definition apart :: "u64 \<Rightarrow> nat \<Rightarrow> u64 \<Rightarrow> nat \<Rightarrow> bool" where
  "apart a n b k \<longleftrightarrow> (\<forall>i<n. k \<le> unat (a + of_nat i - b))"

lemma mem_read_unaffected:
  "apart a n b (length bs) \<Longrightarrow> mem_read a n (mem_write b bs m) = mem_read a n m"
  by (simp add: mem_read_def apart_def mem_write_outside)

lemma apart_part:
  assumes "apart a n b k" and "j + l \<le> n" and "h \<le> k"
  shows "apart (a + of_nat j) l b h"
  unfolding apart_def
proof (intro allI impI)
  fix i
  assume "i < l"
  then have "k \<le> unat (a + of_nat (j + i) - b)"
    using assms(1) [unfolded apart_def, rule_format, of "j + i"] assms(2) by simp
  then show "h \<le> unat (a + of_nat j + of_nat i - b)"
    using assms(3) by (simp add: add.assoc)
qed

lemma copy_flash_from:
  assumes "apart src n ram n" and "src = ucast flash + 8" and "n < 2 ^ 32"
    and "unat off + unat len = n"
  shows "copy_flash_chunks flash ram off len (mem_write ram (mem_read src (unat off) m) m) =
    mem_write ram (mem_read src n m) m"
  using assms(4)
proof (induction "unat len" arbitrary: off len rule: less_induct)
  case less
  show ?case
  proof (cases "len = 0")
    case True
    then show ?thesis
      using less.prems by (simp add: copy_flash_chunks.simps)
  next
    case False
    define c where "c = min len 0x8000"
    have c: "c \<noteq> 0" "c \<le> len"
      using False by (auto simp: c_def min_def)
    then have uc: "unat (len - c) = unat len - unat c" "unat c \<le> unat len" "unat c \<noteq> 0"
      by (simp_all add: unat_sub word_le_nat_alt unat_eq_zero)
    have uo: "unat (off + c) = unat off + unat c"
      using less.prems uc(2) assms(3) by (simp add: unat_word_ariths(1))
    let ?m = "mem_write ram (mem_read src (unat off) m) m"
    have addr: "ucast flash + ucast off + 8 = src + (ucast off :: u64)"
      by (simp add: assms(2))
    have "apart (src + of_nat (unat off)) (unat c) ram (unat off)"
      using less.prems uc(2) by (intro apart_part [OF assms(1)]) simp_all
    then have chunk: "mem_read (src + ucast off) (unat c) ?m = mem_read (src + ucast off) (unat c) m"
      by (intro mem_read_unaffected) simp
    have "copy_flash_chunks flash ram off len ?m =
        copy_flash_chunks flash ram (off + c) (len - c)
          (mem_write (ram + ucast off) (mem_read (src + ucast off) (unat c) m) ?m)"
      by (subst copy_flash_chunks.simps) (simp add: False Let_def c_def [symmetric] addr chunk)
    also have "mem_write (ram + ucast off) (mem_read (src + ucast off) (unat c) m) ?m =
        mem_write ram (mem_read src (unat (off + c)) m) m"
      by (simp add: uo mem_read_append mem_write_append)
    also have "copy_flash_chunks flash ram (off + c) (len - c)
        (mem_write ram (mem_read src (unat (off + c)) m) m) = mem_write ram (mem_read src n m) m"
      using less.prems uc uo by (intro less.hyps) simp_all
    finally show ?thesis .
  qed
qed

text \<open>A valid image: a length in range and a matching checksum over the data that follows.\<close>

definition valid_flash_image :: "(bytes \<Rightarrow> u32) \<Rightarrow> u32 \<Rightarrow> mem \<Rightarrow> bool" where
  "valid_flash_image crc32 base m \<longleftrightarrow>
     32 \<le> MMPTR base m \<and> MMPTR base m \<le> 16 * 1024 * 1024 \<and>
     MMPTR (base + 4) m = crc32 (mem_read (ucast (base + 8)) (unat (MMPTR base m)) m)"

lemma check_image_eq:
  "check_image_in_flash crc32 base m = (if valid_flash_image crc32 base m then MMPTR base m else 0)"
  by (auto simp: check_image_in_flash_def valid_flash_image_def Let_def not_less)

text \<open>
  C24: Booting from flash starts exactly when the image is valid (length and checksum); it then
  starts at the base of the main RAM, which holds the image's bytes, and otherwise nothing is
  written.  The image must not overlap the RAM it is copied to.
\<close>

theorem flashboot_correct:
  assumes "unat base + 8 < 2 ^ 32"
    and "apart (ucast (base + 8)) (unat (MMPTR base m)) ram (unat (MMPTR base m))"
  shows "(valid_flash_image crc32 base m \<longrightarrow>
      (\<exists>m'. flashboot crc32 base ram m = (Some (Boot 0 0 0 ram), m') \<and>
        mem_read ram (unat (MMPTR base m)) m' =
          mem_read (ucast (base + 8)) (unat (MMPTR base m)) m)) \<and>
    (\<not> valid_flash_image crc32 base m \<longrightarrow> flashboot crc32 base ram m = (None, m))"
proof (cases "valid_flash_image crc32 base m")
  case True
  let ?n = "MMPTR base m" and ?src = "ucast (base + 8) :: u64"
  have pos: "?n \<noteq> 0"
    using True by (auto simp: valid_flash_image_def)
  have "unat (base + 8) = unat base + 8"
    using assms(1) by (simp add: unat_word_ariths(1))
  then have src: "?src = ucast base + 8"
    by (metis of_nat_unat of_nat_add of_nat_numeral)
  have "unat ?n < 2 ^ 32"
    using unsigned_less [of ?n] by simp
  with copy_flash_from [OF assms(2) src, of 0 ?n m]
  have copy: "copy_flash_chunks base ram 0 ?n m = mem_write ram (mem_read ?src (unat ?n) m) m"
    by (simp add: mem_read_def)
  have "mem_read ram (length (mem_read ?src (unat ?n) m)) (mem_write ram (mem_read ?src (unat ?n) m) m) =
      mem_read ?src (unat ?n) m"
    using \<open>unat ?n < 2 ^ 32\<close> by (intro mem_read_write) simp
  then show ?thesis
    using True pos copy
    by (simp add: flashboot_def copy_image_from_flash_to_ram_def check_image_eq Let_def boot_def
        word_neq_0_conv)
next
  case False
  then show ?thesis
    by (simp add: flashboot_def check_image_eq)
qed

lemma unat_numeral_4096: "unat (0x1000 :: u64) = 0x1000"
  by simp

theorem flashboot_correct_witness:
  "\<exists>m'. flashboot (\<lambda>_. 0) 0x1000 0 (\<lambda>a. if a = 0x1000 then 32 else 0) =
     (Some (Boot 0 0 0 0), m') \<and> mem_read 0 32 m' = replicate 32 0"
proof -
  let ?m = "\<lambda>a :: u64. if a = 0x1000 then 32 else (0 :: u8)"
  have len: "MMPTR 0x1000 ?m = 32" "MMPTR (0x1000 + 4) ?m = 0"
    by (simp_all add: MMPTR_def Let_def)
  have "apart (ucast (0x1000 + 8 :: u32)) 32 0 32"
    by (simp add: apart_def unat_word_ariths(1) unat_of_nat)
  moreover have "valid_flash_image (\<lambda>_. 0) 0x1000 ?m"
    unfolding valid_flash_image_def len by simp
  moreover have "mem_read (ucast (0x1000 + 8 :: u32)) 32 ?m = replicate 32 0"
  proof (rule nth_equalityI)
    fix i
    assume "i < length (mem_read (ucast (0x1000 + 8 :: u32)) 32 ?m)"
    then have "i < 32" by simp
    then have "unat (0x1008 + of_nat i :: u64) \<noteq> 0x1000"
      by (simp add: unat_word_ariths(1) unat_of_nat)
    then have "0x1008 + of_nat i \<noteq> (0x1000 :: u64)"
      by (metis unat_numeral_4096)
    with \<open>i < 32\<close> show "mem_read (ucast (0x1000 + 8 :: u32)) 32 ?m ! i = replicate 32 0 ! i"
      by (simp add: mem_read_def)
  qed simp
  moreover have "unat (0x1000 :: u32) + 8 < 2 ^ 32"
    by simp
  ultimately show ?thesis
    using flashboot_correct [of "0x1000" ?m 0 "\<lambda>_. 0"] unfolding len by simp
qed

end
