(* ===== verification/Bios_Cmds.thy ===== *)
theory Bios_Cmds
  imports Endpoints Image_Boot "HOL-Library.Multiset"
begin

text \<open>
  The commands of \<open>bios/cmds/cmd_bios.c\<close>, the two that run the SPDM endpoints included, and the byte
  swap of \<open>bios/bswapsi2.c\<close>.  What a handler prints is a list of \<open>console\<close> lines; the command table
  that the linker collects, the registers and the LiteX routines a handler calls are arguments.
\<close>

section \<open>Printing\<close>

record command_struct =
  cmd_name :: bytes
  cmd_help :: "bytes option"
  cmd_group :: nat

datatype console =
  Banner | Command_Line bytes bytes | New_Line | Ident bytes | Uptime u64 u64 | Usage
  | Incorrect_Address | Incorrect_Length | Incorrect_Value | Crc32 u32 | Buttons u32 | Leds u32

definition dash :: bytes where
  "dash = [0x2D]"

definition command_line :: "command_struct \<Rightarrow> console" where
  "command_line command = Command_Line (cmd_name command) (case cmd_help command of Some h \<Rightarrow> h | None \<Rightarrow> dash)"

text \<open>The inner loop of \<open>help\<close>, with its flag \<open>not_empty\<close>.\<close>

fun help_group :: "nat \<Rightarrow> command_struct list \<Rightarrow> bool \<Rightarrow> console list \<times> bool" where
  "help_group i [] not_empty = ([], not_empty)"
| "help_group i (command # cmds) not_empty =
     (if cmd_group command = i then
        let (out, flag) = help_group i cmds True in (command_line command # out, flag)
      else help_group i cmds not_empty)"

fun help_groups :: "nat list \<Rightarrow> command_struct list \<Rightarrow> console list" where
  "help_groups [] cmds = []"
| "help_groups (i # is) cmds =
     (let (out, not_empty) = help_group i cmds False in
      out @ (if not_empty then [New_Line] else []) @ help_groups is cmds)"

definition help_handler :: "nat \<Rightarrow> command_struct list \<Rightarrow> console list" where
  "help_handler NB_OF_GROUPS cmds = Banner # help_groups [0..<NB_OF_GROUPS] cmds"

text \<open>\<open>ident_mem\<close> gives the word of the identifier memory at an index, if the SoC has one.\<close>

definition IDENT_SIZE :: nat where
  [simp]: "IDENT_SIZE = 256"

definition ident_handler :: "(nat \<Rightarrow> u32) option \<Rightarrow> fault + console list" where
  "ident_handler ident_mem =
     (case ident_mem of
        None \<Rightarrow> Inr [Ident dash]
      | Some word_at \<Rightarrow>
          let buffer = map (\<lambda>i. ucast (word_at i)) [0..<IDENT_SIZE] in
          if buffer ! 0 \<noteq> 0 then and_then (c_string buffer) (\<lambda>s. Inr [Ident s])
          else Inr [Ident dash])"

text \<open>The counter is latched before it is read: \<open>cycles\<close> is the state of the timer.\<close>

definition uptime_handler :: "u64 \<Rightarrow> u64 \<Rightarrow> console list" where
  "uptime_handler CONFIG_CLOCK_FREQUENCY cycles =
     (let uptime = cycles in [Uptime uptime (uptime div CONFIG_CLOCK_FREQUENCY)])"

section \<open>Numbers on the command line\<close>

text \<open>
  Whether \<open>strtoul(text, &c, 0)\<close> leaves \<open>c\<close> at the end of the text.  Without a digit it leaves \<open>c\<close> at
  the beginning, so the empty text counts as a number and a sign alone does not.
\<close>

definition all_digits :: "nat \<Rightarrow> bytes \<Rightarrow> bool" where
  "all_digits base cs \<longleftrightarrow> list_all (\<lambda>c. \<exists>d<base. digit_value c = Some d) cs"

definition number_to_end :: "bytes \<Rightarrow> bool" where
  "number_to_end cs =
     (case cs of
        [] \<Rightarrow> False
      | c0 # rest \<Rightarrow>
          if c0 = 0x30 then
            (case rest of
               [] \<Rightarrow> True
             | c1 # ds \<Rightarrow> if c1 = 0x78 \<or> c1 = 0x58 then ds \<noteq> [] \<and> all_digits 16 ds
                 else all_digits 8 rest)
          else all_digits 10 cs)"

definition strtoul_to_end :: "bytes \<Rightarrow> bool" where
  "strtoul_to_end text =
     (text = [] \<or>
      (case dropWhile is_space text of
         [] \<Rightarrow> False
       | c # r \<Rightarrow> number_to_end (if c = 0x2D \<or> c = 0x2B then r else c # r)))"

definition crc_handler :: "(bytes \<Rightarrow> u32) \<Rightarrow> bytes list \<Rightarrow> mem \<Rightarrow> fault + console list" where
  "crc_handler crc32 params m =
     (case params of
        p0 # p1 # _ \<Rightarrow>
          and_then (strtoul (p0 @ [0])) (\<lambda>addr.
          if \<not> strtoul_to_end p0 then Inr [Incorrect_Address]
          else
            and_then (strtoul (p1 @ [0])) (\<lambda>len.
            if \<not> strtoul_to_end p1 then Inr [Incorrect_Length]
            else Inr [Crc32 (crc32 (mem_read addr (unat len) m))]))
      | _ \<Rightarrow> Inr [Usage])"

definition buttons_handler :: "u32 \<Rightarrow> console list" where
  "buttons_handler buttons_in = [Buttons buttons_in]"

text \<open>The new value of the LED register, if it is written; the value is an \<open>unsigned int\<close>.\<close>

definition leds_handler :: "bytes list \<Rightarrow> u32 \<Rightarrow> fault + (console list \<times> u32)" where
  "leds_handler params leds_out =
     (case params of
        [] \<Rightarrow> Inr ([Usage], leds_out)
      | p0 # _ \<Rightarrow>
          and_then (strtoul (p0 @ [0])) (\<lambda>v.
          if \<not> strtoul_to_end p0 then Inr ([Incorrect_Value], leds_out)
          else let val = ucast v :: u32 in Inr ([Leds val], val)))"

section \<open>The SPDM commands\<close>

text \<open>Both handlers drop the pointer the endpoint returns.\<close>

definition spdm_responder_handler :: "'w libspdm \<Rightarrow> bool \<Rightarrow> bool \<Rightarrow> 'w \<Rightarrow> 'w option" where
  "spdm_responder_handler S context_ok scratch_ok w =
     map_option snd (spdm_responder S context_ok scratch_ok w)"

text \<open>\<open>None\<close> is the endless loop of a failed connection.\<close>

definition spdm_requester_handler ::
  "'w libspdm \<Rightarrow> crypt_lib \<Rightarrow> x509_lib \<Rightarrow> (nat \<Rightarrow> bytes option) \<Rightarrow> bool \<Rightarrow> bool \<Rightarrow> 'w \<Rightarrow>
   (fault + 'w) option" where
  "spdm_requester_handler S L X malloc context_ok scratch_ok w =
     (case spdm_requester S L X malloc context_ok scratch_ok w of
        Inl f \<Rightarrow> Some (Inl f)
      | Inr (Loops_Forever, w) \<Rightarrow> None
      | Inr (_, w) \<Rightarrow> Some (Inr w))"

text \<open>The trace switch of the simulator.\<close>

definition cmd_sim_trace_handler :: "bool \<Rightarrow> bool" where
  "cmd_sim_trace_handler sim_trace_enable = (\<not> sim_trace_enable)"

section \<open>The byte swap\<close>

definition bswapsi2 :: "u32 \<Rightarrow> u32" where
  "bswapsi2 u =
     drop_bit 24 (u AND 0xff000000) OR drop_bit 8 (u AND 0x00ff0000) OR
     push_bit 8 (u AND 0x0000ff00) OR push_bit 24 (u AND 0x000000ff)"

section \<open>The listing of commands\<close>

definition shown :: "console list \<Rightarrow> console list" where
  "shown out = filter (\<lambda>l. l \<noteq> Banner \<and> l \<noteq> New_Line) out"

lemma shown_append [simp]: "shown (xs @ ys) = shown xs @ shown ys"
  by (simp add: shown_def)

lemma shown_command [simp]: "shown (command_line command # out) = command_line command # shown out"
  by (simp add: shown_def command_line_def)

lemma shown_layout [simp]: "shown [] = []" "shown (Banner # out) = shown out" "shown (New_Line # out) = shown out"
  by (simp_all add: shown_def)

lemma help_group_lines:
  "fst (help_group i cmds f) = map command_line (filter (\<lambda>c. cmd_group c = i) cmds)"
  by (induction i cmds f rule: help_group.induct) (auto simp: case_prod_beta)

lemma shown_lines [simp]: "shown (map command_line cmds) = map command_line cmds"
  by (induction cmds) simp_all

lemma shown_help_groups:
  "shown (help_groups is cmds) =
     map command_line (concat (map (\<lambda>i. filter (\<lambda>c. cmd_group c = i) cmds) is))"
  by (induction "is") (simp_all add: case_prod_beta help_group_lines)

lemma concat_groups_mset:
  "distinct is \<Longrightarrow> mset (concat (map (\<lambda>i. filter (\<lambda>c. cmd_group c = i) cmds) is)) =
     filter_mset (\<lambda>c. cmd_group c \<in> set is) (mset cmds)"
proof (induction "is")
  case (Cons i "is")
  have "filter_mset (\<lambda>c. cmd_group c \<in> set (i # is)) (mset cmds) =
      filter_mset (\<lambda>c. cmd_group c = i) (mset cmds) + filter_mset (\<lambda>c. cmd_group c \<in> set is) (mset cmds)"
    using Cons.prems by (intro multiset_eqI) (auto simp: count_filter_mset)
  then show ?case
    using Cons by simp
qed simp

lemma sorted_one_group: "sorted (map cmd_group (filter (\<lambda>c. cmd_group c = i) cmds))"
  by (induction cmds) auto

lemma concat_groups_sorted:
  "sorted is \<Longrightarrow> sorted (map cmd_group (concat (map (\<lambda>i. filter (\<lambda>c. cmd_group c = i) cmds) is)))"
  by (induction "is") (auto simp: sorted_append sorted_one_group)

text \<open>
  The help command prints every command of the table whose group is in range exactly as often as
  the table holds it, in the order of the groups, and no other command.
\<close>

theorem help_lists_commands:
  "\<exists>listed. shown (help_handler NB_OF_GROUPS cmds) = map command_line listed \<and>
     mset listed = filter_mset (\<lambda>c. cmd_group c < NB_OF_GROUPS) (mset cmds) \<and>
     sorted (map cmd_group listed)"
proof (intro exI conjI)
  let ?listed = "concat (map (\<lambda>i. filter (\<lambda>c. cmd_group c = i) cmds) [0..<NB_OF_GROUPS])"
  show "shown (help_handler NB_OF_GROUPS cmds) = map command_line ?listed"
    by (simp only: help_handler_def shown_layout shown_help_groups)
  show "mset ?listed = filter_mset (\<lambda>c. cmd_group c < NB_OF_GROUPS) (mset cmds)"
    by (subst concat_groups_mset) simp_all
  show "sorted (map cmd_group ?listed)"
    by (rule concat_groups_sorted) simp
qed

section \<open>Byte order\<close>

lemma bswapsi2_masks:
  "bswapsi2 u = drop_bit 24 (u AND push_bit 24 (mask 8)) OR drop_bit 8 (u AND push_bit 16 (mask 8)) OR
     push_bit 8 (u AND push_bit 8 (mask 8)) OR push_bit 24 (u AND mask 8)"
  by (simp add: bswapsi2_def mask_eq_exp_minus_1)

lemma bit_bswapsi2:
  "bit (bswapsi2 u) n \<longleftrightarrow> n < 32 \<and> bit u (if n < 8 then n + 24 else if n < 16 then n + 8
     else if n < 24 then n - 8 else n - 24)"
  unfolding bswapsi2_masks by (auto simp: bit_simps add.commute)

text \<open>
  The byte swap is its own inverse, and its result has the four bytes of its argument in the
  opposite order.
\<close>

theorem bswapsi2_reverses:
  "bswapsi2 (bswapsi2 u) = u \<and> le32 (bswapsi2 u) = rev (le32 u)"
proof
  show "bswapsi2 (bswapsi2 u) = u"
    by (rule bit_word_eqI) (auto simp: bit_bswapsi2)
  show "le32 (bswapsi2 u) = rev (le32 u)"
    by (auto simp: le32_def bit_bswapsi2 bit_simps add.commute intro!: bit_word_eqI)
qed

end
