(* ===== verification/Net_Config.thy ===== *)
theory Net_Config
  imports Image_Boot
begin

text \<open>
  The network settings of the BIOS (\<open>bios/boot.c\<close>): \<open>parse_ip\<close>, \<open>parse_mac_addr\<close> and the commands that
  use them.  The local arrays are uninitialised in C; their first contents are parameters.  \<open>atoi\<close> and
  \<open>strtol\<close> read their buffer up to the first character that is not a digit: without one inside the
  array they read past it.
\<close>

section \<open>Numbers\<close>

definition signed_number :: "nat \<Rightarrow> bytes \<Rightarrow> fault + int" where
  "signed_number base buf =
     (let cs = dropWhile is_space buf;
          (neg, cs) = (case cs of c # r \<Rightarrow> if c = 0x2D then (True, r)
                                   else if c = 0x2B then (False, r) else (False, cs)
                       | [] \<Rightarrow> (False, cs)) in
      case scan_digits base 0 cs of
        None \<Rightarrow> Inl Out_Of_Bounds
      | Some v \<Rightarrow> Inr (if neg then - int v else int v))"

definition atoi :: "bytes \<Rightarrow> fault + int" where
  "atoi buf = signed_number 10 buf"

text \<open>\<open>strtol(buf, NULL, 16)\<close>, with its optional prefix \<open>0x\<close>.\<close>

definition strtol16 :: "bytes \<Rightarrow> fault + int" where
  "strtol16 buf =
     (let cs = dropWhile is_space buf in
      case cs of
        c0 # c1 # rest \<Rightarrow>
          if c0 = 0x30 \<and> (c1 = 0x78 \<or> c1 = 0x58) then signed_number 16 rest
          else signed_number 16 cs
      | _ \<Rightarrow> signed_number 16 cs)"

definition set_number :: "u32 list \<Rightarrow> nat \<Rightarrow> int \<Rightarrow> fault + u32 list" where
  "set_number xs n v = (if n < length xs then Inr (xs[n := word_of_int v]) else Inl Out_Of_Bounds)"

section \<open>IP addresses\<close>

text \<open>The loop; the result is \<open>None\<close> where the C function returns -1.\<close>

fun parse_ip_loop ::
  "nat \<Rightarrow> bytes \<Rightarrow> nat \<Rightarrow> nat \<Rightarrow> nat \<Rightarrow> bytes \<Rightarrow> u32 list \<Rightarrow> fault + (nat \<times> bytes \<times> u32 list) option" where
  "parse_ip_loop sz [] i n k buf ip = Inr (Some (n, buf, ip))"
| "parse_ip_loop sz (c # cs) i n k buf ip =
     (if (c = 0x2E \<and> k \<noteq> 0) \<or> (c = 0x0A \<and> i = sz - 1) then
        and_then (atoi buf) (\<lambda>v.
        and_then (set_number ip n v) (\<lambda>ip.
          parse_ip_loop sz cs (Suc i) (Suc n) 0 (replicate (length buf) 0) ip))
      else if 0x30 \<le> c \<and> c \<le> 0x39 \<and> k < 3 then
        and_then (poke buf k [c]) (\<lambda>buf. parse_ip_loop sz cs (Suc i) n (Suc k) buf ip)
      else Inr None)"

definition parse_ip ::
  "bytes \<Rightarrow> u32 list \<Rightarrow> bytes \<Rightarrow> u32 list \<Rightarrow> fault + (u8 \<times> u32 list)" where
  "parse_ip buf ip_to_set ip_address ip_to_change =
     (let size = unat (of_nat (length ip_address) :: u8) in
      if size < 7 \<or> 15 < size then Inr (- 1, ip_to_change)
      else
        and_then (parse_ip_loop size (take size ip_address) 0 0 0 buf ip_to_set) (\<lambda>r.
        case r of
          None \<Rightarrow> Inr (- 1, ip_to_change)
        | Some (n, buf, ip) \<Rightarrow>
            and_then (atoi buf) (\<lambda>v.
            and_then (set_number ip n v) (\<lambda>ip.
            if n \<noteq> 3 then Inr (- 1, ip_to_change)
            else Inr (0, take 4 ip @ drop 4 ip_to_change)))))"

section \<open>MAC addresses\<close>

definition is_hex :: "u8 \<Rightarrow> bool" where
  "is_hex c \<longleftrightarrow> (0x30 \<le> c \<and> c \<le> 0x39) \<or> (0x61 \<le> c \<and> c \<le> 0x66) \<or> (0x41 \<le> c \<and> c \<le> 0x46)"

fun parse_mac_loop ::
  "nat \<Rightarrow> bytes \<Rightarrow> nat \<Rightarrow> nat \<Rightarrow> nat \<Rightarrow> bytes \<Rightarrow> u32 list \<Rightarrow> fault + (nat \<times> bytes \<times> u32 list) option" where
  "parse_mac_loop sz [] i n k buf mac = Inr (Some (n, buf, mac))"
| "parse_mac_loop sz (c # cs) i n k buf mac =
     (if (c = 0x3A \<and> k \<noteq> 0) \<or> (c = 0x0A \<and> i = sz - 1) then
        and_then (strtol16 buf) (\<lambda>v.
        and_then (set_number mac n v) (\<lambda>mac.
          parse_mac_loop sz cs (Suc i) (Suc n) 0 (replicate (length buf) 0) mac))
      else if is_hex c \<and> k < 2 then
        and_then (poke buf k [c]) (\<lambda>buf. parse_mac_loop sz cs (Suc i) n (Suc k) buf mac)
      else Inr None)"

definition parse_mac_addr ::
  "bytes \<Rightarrow> u32 list \<Rightarrow> bytes \<Rightarrow> bytes \<Rightarrow> fault + (u8 \<times> bytes)" where
  "parse_mac_addr buf mac_to_set mac_address macadr =
     (let size = unat (of_nat (length mac_address) :: u8) in
      if size \<noteq> 17 then Inr (- 1, macadr)
      else
        and_then (parse_mac_loop size (take size mac_address) 0 0 0 buf mac_to_set) (\<lambda>r.
        case r of
          None \<Rightarrow> Inr (- 1, macadr)
        | Some (n, buf, mac) \<Rightarrow>
            and_then (strtol16 buf) (\<lambda>v.
            and_then (set_number mac n v) (\<lambda>mac.
            if n \<noteq> 5 then Inr (- 1, macadr)
            else Inr (0, map ucast (take 6 mac) @ drop 6 macadr)))))"

section \<open>The commands\<close>

record net_state =
  local_ip :: "u32 list"
  remote_ip :: "u32 list"
  macadr :: bytes
  udp_ip :: "u32 list option"
  udp_mac :: "bytes option"

definition net_start :: net_state where
  "net_start = \<lparr>local_ip = [192, 168, 1, 50], remote_ip = [192, 168, 1, 100],
     macadr = [0x10, 0xE2, 0xD5, 0, 0, 0], udp_ip = None, udp_mac = None\<rparr>"

text \<open>
  \<open>junk_buf\<close> and \<open>junk_set\<close> are the uninitialised arrays of the parser; what the UDP stack is told is
  kept in \<open>udp_ip\<close> and \<open>udp_mac\<close>.
\<close>

definition set_local_ip :: "bytes \<Rightarrow> u32 list \<Rightarrow> bytes \<Rightarrow> net_state \<Rightarrow> fault + net_state" where
  "set_local_ip junk_buf junk_set ip_address s =
     and_then (parse_ip junk_buf junk_set ip_address (local_ip s)) (\<lambda>(r, ip).
       Inr (if r = 0 then s\<lparr>local_ip := ip, udp_ip := Some ip\<rparr> else s))"

definition set_remote_ip :: "bytes \<Rightarrow> u32 list \<Rightarrow> bytes \<Rightarrow> net_state \<Rightarrow> fault + net_state" where
  "set_remote_ip junk_buf junk_set ip_address s =
     and_then (parse_ip junk_buf junk_set ip_address (remote_ip s)) (\<lambda>(r, ip).
       Inr (if r = 0 then s\<lparr>remote_ip := ip\<rparr> else s))"

definition set_mac_addr :: "bytes \<Rightarrow> u32 list \<Rightarrow> bytes \<Rightarrow> net_state \<Rightarrow> fault + net_state" where
  "set_mac_addr junk_buf junk_set mac_address s =
     and_then (parse_mac_addr junk_buf junk_set mac_address (macadr s)) (\<lambda>(r, mac).
       Inr (if r = 0 then s\<lparr>macadr := mac, udp_mac := Some mac\<rparr> else s))"

section \<open>Reading octets\<close>

lemma hex_digit: "is_hex c \<Longrightarrow> \<exists>d<16. digit_value c = Some d"
proof -
  assume "is_hex c"
  then have "(0x30 \<le> unat c \<and> unat c \<le> 0x39) \<or> (0x61 \<le> unat c \<and> unat c \<le> 0x66) \<or>
      (0x41 \<le> unat c \<and> unat c \<le> 0x46)"
    by (simp add: is_hex_def word_le_nat_alt)
  then show ?thesis
    by (auto simp: digit_value_def word_le_nat_alt)
qed

lemma hex_no_space: "is_hex c \<Longrightarrow> \<not> is_space c \<and> c \<noteq> 0x2D \<and> c \<noteq> 0x2B \<and> c \<noteq> 0x78 \<and> c \<noteq> 0x58"
  by (auto simp: is_hex_def is_space_def word_le_nat_alt)

text \<open>Two hexadecimal digits fill the buffer: the conversion runs past it.\<close>

lemma strtol16_two_digits:
  assumes "is_hex c" and "is_hex d"
  shows "strtol16 [c, d] = Inl Out_Of_Bounds"
proof -
  obtain u v where "digit_value c = Some u" "u < 16" "digit_value d = Some v" "v < 16"
    using hex_digit assms by blast
  then show ?thesis
    using hex_no_space [OF assms(1)] hex_no_space [OF assms(2)]
    by (simp add: strtol16_def signed_number_def Let_def)
qed

definition mac_buffer :: "nat \<Rightarrow> bytes \<Rightarrow> bool" where
  "mac_buffer k buf \<longleftrightarrow> length buf = 2 \<and> k \<le> 2 \<and> list_all is_hex (take k buf)"

lemma mac_buffer_full: "mac_buffer 2 buf \<Longrightarrow> strtol16 buf = Inl Out_Of_Bounds"
  using strtol16_two_digits by (auto simp: mac_buffer_def length_Suc_conv numeral_2_eq_2)

lemma mac_buffer_store:
  assumes "mac_buffer k buf" and "is_hex c" and "k < 2"
  shows "\<exists>buf'. poke buf k [c] = Inr buf' \<and> mac_buffer (Suc k) buf'"
  using assms by (auto simp: mac_buffer_def poke_def less_2_cases_iff)

lemma mac_loop_inv:
  assumes "parse_mac_loop sz cs i n k buf mac = Inr (Some (n', buf', mac'))"
    and "mac_buffer k buf" and "i \<le> 2 * n + k"
  shows "\<exists>k'. mac_buffer k' buf' \<and> i + length cs \<le> 2 * n' + k'"
  using assms
proof (induction sz cs i n k buf mac rule: parse_mac_loop.induct)
  case (1 sz i n k buf mac)
  then show ?case by auto
next
  case (2 sz c cs i n k buf mac)
  show ?case
  proof (cases "(c = 0x3A \<and> k \<noteq> 0) \<or> (c = 0x0A \<and> i = sz - 1)")
    case True
    then obtain v mac1 where v: "strtol16 buf = Inr v" "set_number mac n v = Inr mac1"
      and rest: "parse_mac_loop sz cs (Suc i) (Suc n) 0 (replicate (length buf) 0) mac1 =
        Inr (Some (n', buf', mac'))"
      using "2.prems"(1) by (auto simp: and_then_eq_Inr)
    have "k \<noteq> 2"
      using mac_buffer_full "2.prems"(2) v(1) by auto
    then have "Suc i \<le> 2 * Suc n + 0"
      using "2.prems"(2,3) by (simp add: mac_buffer_def)
    moreover have "mac_buffer 0 (replicate (length buf) 0)"
      using "2.prems"(2) by (simp add: mac_buffer_def)
    ultimately show ?thesis
      using "2.IH"(1) [OF True v rest] by simp
  next
    case False
    then have hex: "is_hex c \<and> k < 2"
      using "2.prems"(1) by (auto split: if_splits)
    then obtain buf1 where buf1: "poke buf k [c] = Inr buf1" "mac_buffer (Suc k) buf1"
      using mac_buffer_store "2.prems"(2) by blast
    then have "parse_mac_loop sz cs (Suc i) n (Suc k) buf1 mac = Inr (Some (n', buf', mac'))"
      using "2.prems"(1) by (simp only: parse_mac_loop.simps(2) if_not_P [OF False] if_P [OF hex]
        buf1(1) and_then_Inr)
    from "2.IH"(2) [OF False hex buf1(1) this buf1(2)] show ?thesis
      using "2.prems"(3) by simp
  qed
qed

text \<open>
  C25: No MAC address can be set: whatever the text and whatever the uninitialised memory holds,
  \<open>parse_mac_addr\<close> either rejects the text or reads outside its two-character buffer, because two
  digits leave no room for the terminator that \<open>strtol\<close> needs.  It never reports success.
\<close>

theorem parse_mac_never_succeeds:
  assumes "length junk_buf = 2"
  shows "(\<exists>f. parse_mac_addr junk_buf junk_set mac_address old = Inl f) \<or>
    parse_mac_addr junk_buf junk_set mac_address old = Inr (- 1, old)"
proof -
  let ?size = "unat (of_nat (length mac_address) :: u8)"
  have False if size: "?size = 17"
    and loop: "parse_mac_loop ?size (take ?size mac_address) 0 0 0 junk_buf junk_set =
      Inr (Some (5, buf, mac))" and conv: "strtol16 buf = Inr v" for buf mac v
  proof -
    have "length (take ?size mac_address) = 17"
      using size by (simp add: unat_of_nat)
    moreover obtain k where "mac_buffer k buf" "0 + length (take ?size mac_address) \<le> 2 * 5 + k"
      using mac_loop_inv [OF loop] assms by (auto simp: mac_buffer_def)
    ultimately show False
      by (simp add: mac_buffer_def)
  qed
  then show ?thesis
    by (auto simp: parse_mac_addr_def Let_def and_then_def split: sum.splits option.splits if_splits)
qed

theorem parse_mac_never_succeeds_witness:
  "(\<exists>f. parse_mac_addr [0, 0] (replicate 6 0) (replicate 17 0x31) (replicate 6 0) = Inl f) \<or>
   parse_mac_addr [0, 0] (replicate 6 0) (replicate 17 0x31) (replicate 6 0) =
     Inr (- 1, replicate 6 0)"
  by (rule parse_mac_never_succeeds) simp

section \<open>IP addresses that parse, and those that cannot\<close>

definition is_digit :: "u8 \<Rightarrow> bool" where
  "is_digit c \<longleftrightarrow> 0x30 \<le> c \<and> c \<le> 0x39"

fun decimal :: "nat \<Rightarrow> bytes \<Rightarrow> nat" where
  "decimal acc [] = acc"
| "decimal acc (c # cs) = decimal (10 * acc + (unat c - 0x30)) cs"

lemma digit_facts:
  assumes "is_digit c"
  shows "digit_value c = Some (unat c - 0x30)" "unat c - 0x30 < 10"
    "\<not> is_space c" "c \<noteq> 0x2D" "c \<noteq> 0x2B" "c \<noteq> 0x2E" "c \<noteq> 0x0A"
  using assms by (auto simp: is_digit_def digit_value_def is_space_def word_le_nat_alt)

lemma scan_digits_stops:
  assumes "list_all is_digit ds" and "\<And>d. digit_value c = Some d \<Longrightarrow> \<not> d < 10"
  shows "scan_digits 10 acc (ds @ c # rest) = Some (decimal acc ds)"
  using assms(1)
proof (induction ds arbitrary: acc)
  case Nil
  then show ?case
    using assms(2) by (auto split: option.split)
qed (simp add: digit_facts)

lemma scan_digits_runs_off:
  "list_all is_digit ds \<Longrightarrow> scan_digits 10 acc ds = None"
  by (induction ds arbitrary: acc) (simp_all add: digit_facts)

lemma atoi_digits:
  assumes "list_all is_digit ds" and "ds \<noteq> []" and "\<And>d. digit_value c = Some d \<Longrightarrow> \<not> d < 10"
  shows "atoi (ds @ c # rest) = Inr (int (decimal 0 ds))"
  using assms(1,2) scan_digits_stops [OF assms(1,3), where acc = 0 and rest = rest]
  by (cases ds) (auto simp: atoi_def signed_number_def digit_facts Let_def)

lemma atoi_runs_off:
  assumes "list_all is_digit ds" and "ds \<noteq> []"
  shows "atoi ds = Inl Out_Of_Bounds"
  using assms scan_digits_runs_off [of ds 0]
  by (cases ds) (auto simp: atoi_def signed_number_def digit_facts Let_def)

lemma ip_loop_digits:
  assumes "list_all is_digit ds" and "k + length ds \<le> 3" and "length buf = 3"
  shows "parse_ip_loop sz (ds @ rest) i n k buf ip =
    parse_ip_loop sz rest (i + length ds) n (k + length ds)
      (take k buf @ ds @ drop (k + length ds) buf) ip"
  using assms
proof (induction ds arbitrary: i k buf)
  case (Cons c ds)
  let ?buf = "take k buf @ [c] @ drop (Suc k) buf"
  have poke: "poke buf k [c] = Inr ?buf"
    using Cons.prems by (simp add: poke_def)
  have "parse_ip_loop sz (ds @ rest) (Suc i) n (Suc k) ?buf ip =
      parse_ip_loop sz rest (Suc i + length ds) n (Suc k + length ds)
        (take (Suc k) ?buf @ ds @ drop (Suc k + length ds) ?buf) ip"
    using Cons.prems by (intro Cons.IH) simp_all
  moreover have "take (Suc k) ?buf = take k buf @ [c]"
    using Cons.prems by simp
  moreover have "drop (Suc k + length ds) ?buf = drop (Suc k + length ds) buf"
    using Cons.prems by (simp add: add.commute)
  ultimately show ?case
    using poke Cons.prems digit_facts [of c] by (simp add: is_digit_def)
qed simp

definition octet :: "bytes \<Rightarrow> bool" where
  "octet ds \<longleftrightarrow> list_all is_digit ds \<and> ds \<noteq> [] \<and> length ds \<le> 2"

lemma octet_in_buffer:
  assumes "octet ds" and "length buf = 3" and "\<And>d. digit_value (buf ! length ds) = Some d \<Longrightarrow> \<not> d < 10"
  shows "atoi (ds @ drop (length ds) buf) = Inr (int (decimal 0 ds))"
proof -
  have "drop (length ds) buf = buf ! length ds # drop (Suc (length ds)) buf"
    using assms(1,2) by (simp add: Cons_nth_drop_Suc octet_def)
  then show ?thesis
    using atoi_digits [of ds "buf ! length ds"] assms by (simp add: octet_def)
qed

lemma ip_loop_octet:
  assumes "octet ds" and "length buf = 3" and "\<And>d. digit_value (buf ! length ds) = Some d \<Longrightarrow> \<not> d < 10"
    and "n < length ip"
  shows "parse_ip_loop sz (ds @ 0x2E # rest) i n 0 buf ip =
    parse_ip_loop sz rest (i + length ds + 1) (Suc n) 0 (replicate 3 0)
      (ip[n := of_nat (decimal 0 ds)])"
  using ip_loop_digits [of ds 0 buf sz "0x2E # rest" i n ip] octet_in_buffer [OF assms(1-3)] assms
  by (simp add: octet_def set_number_def)

lemma zero_no_digit: "digit_value (replicate 3 0 ! j) = Some d \<Longrightarrow> j < 3 \<Longrightarrow> \<not> d < 10"
  by (simp add: digit_value_def)

text \<open>
  A dotted quad whose numbers have one or two digits is accepted and gives its four numbers,
  provided the uninitialised character behind the first number is not a digit (the buffer is only
  cleared after the first number).
\<close>

theorem parse_ip_short_octets:
  assumes "octet a" "octet b" "octet c" "octet d" and "length junk_buf = 3" and "length junk_set = 4"
    and "\<And>v. digit_value (junk_buf ! length a) = Some v \<Longrightarrow> \<not> v < 10" and "length old = 4"
  shows "parse_ip junk_buf junk_set (a @ [0x2E] @ b @ [0x2E] @ c @ [0x2E] @ d) old =
    Inr (0, [of_nat (decimal 0 a), of_nat (decimal 0 b), of_nat (decimal 0 c), of_nat (decimal 0 d)])"
proof -
  let ?t = "a @ [0x2E] @ b @ [0x2E] @ c @ [0x2E] @ d"
  have len: "1 \<le> length x \<and> length x \<le> 2" if "octet x" for x
    using that by (cases x) (auto simp: octet_def)
  have size: "unat (of_nat (length ?t) :: u8) = length ?t" "7 \<le> length ?t" "length ?t \<le> 15"
    using len [OF assms(1)] len [OF assms(2)] len [OF assms(3)] len [OF assms(4)]
    by (simp_all add: unat_of_nat del: of_nat_add of_nat_Suc)
  obtain s0 s1 s2 s3 where set: "junk_set = [s0, s1, s2, s3]"
    using assms(6) by (auto simp: length_Suc_conv numeral_eq_Suc)
  have zero: "digit_value (replicate 3 0 ! length x) = Some v \<Longrightarrow> \<not> v < 10" if "octet x" for x v
    using zero_no_digit [of "length x" v] len [OF that] by simp
  have loop: "\<exists>i. parse_ip_loop (length ?t) ?t 0 0 0 junk_buf junk_set =
      parse_ip_loop (length ?t) d i 3 0 (replicate 3 0)
        [of_nat (decimal 0 a), of_nat (decimal 0 b), of_nat (decimal 0 c), s3]"
    using ip_loop_octet [OF assms(1,5,7), of 0 junk_set "length ?t" "b @ [0x2E] @ c @ [0x2E] @ d" 0]
      ip_loop_octet [OF assms(2) _ zero [OF assms(2)], of _ 1]
      ip_loop_octet [OF assms(3) _ zero [OF assms(3)], of _ 2] set
    by (auto simp: numeral_2_eq_2 numeral_3_eq_3)
  moreover have "parse_ip_loop (length ?t) (d @ []) i 3 0 (replicate 3 0) ip =
      Inr (Some (3, d @ drop (length d) (replicate 3 0), ip))" for i ip
    using ip_loop_digits [of d 0 "replicate 3 0" "length ?t" "[]" i 3 ip] len [OF assms(4)] assms(4)
    by (simp add: octet_def)
  moreover have "atoi (d @ drop (length d) (replicate 3 0)) = Inr (int (decimal 0 d))"
    using octet_in_buffer [OF assms(4), of "replicate 3 0"] zero [OF assms(4)] by simp
  ultimately show ?thesis
    using size assms(8) by (auto simp: parse_ip_def Let_def set_number_def)
qed

theorem parse_ip_short_octets_witness:
  "parse_ip (replicate 3 0) (replicate 4 0) [0x31, 0x30, 0x2E, 0x30, 0x2E, 0x30, 0x2E, 0x37] (replicate 4 0) =
    Inr (0, [10, 0, 0, 7])"
  using parse_ip_short_octets [where a = "[0x31, 0x30]" and b = "[0x30]" and c = "[0x30]" and
      d = "[0x37]" and junk_buf = "replicate 3 0" and junk_set = "replicate 4 0" and old = "replicate 4 0"]
  by (simp add: octet_def is_digit_def digit_value_def)

text \<open>
  An address whose first number has three digits, such as the default 192.168.1.50, is never
  parsed within bounds: the three digits fill \<open>buf\<close>, which leaves no terminator, and \<open>atoi\<close> reads past
  the array.
\<close>

theorem parse_ip_three_digits_overrun:
  assumes "list_all is_digit a" and "length a = 3" and "length junk_buf = 3"
    and "7 \<le> length (a @ 0x2E # rest)" and "length (a @ 0x2E # rest) \<le> 15"
  shows "parse_ip junk_buf junk_set (a @ 0x2E # rest) old = Inl Out_Of_Bounds"
proof -
  let ?t = "a @ 0x2E # rest"
  have size: "unat (of_nat (length ?t) :: u8) = length ?t"
    using assms(5) by (simp add: unat_of_nat del: of_nat_add of_nat_Suc)
  have "a \<noteq> []"
    using assms(2) by auto
  then have "parse_ip_loop (length ?t) ?t 0 0 0 junk_buf junk_set = Inl Out_Of_Bounds"
    using ip_loop_digits [where ds = a and k = 0 and buf = junk_buf and rest = "0x2E # rest"]
      atoi_runs_off [OF assms(1)] assms(1-3) by simp
  then show ?thesis
    using size assms(4,5) by (simp add: parse_ip_def Let_def del: length_append take_append)
qed

theorem parse_ip_three_digits_overrun_witness:
  "parse_ip (replicate 3 0) (replicate 4 0)
     [0x31, 0x39, 0x32, 0x2E, 0x31, 0x36, 0x38, 0x2E, 0x31, 0x2E, 0x35, 0x30] (replicate 4 0) =
   Inl Out_Of_Bounds"
  using parse_ip_three_digits_overrun [where a = "[0x31, 0x39, 0x32]" and
      rest = "[0x31, 0x36, 0x38, 0x2E, 0x31, 0x2E, 0x35, 0x30]" and junk_buf = "replicate 3 0" and
      junk_set = "replicate 4 0" and old = "replicate 4 0"]
  by (simp add: is_digit_def)

end
