(* ===== verification/Bignum_Core.thy ===== *)
theory Bignum_Core
  imports Prelude
begin

text \<open>
  The multi-precision integers of \<open>library/bignum.c\<close>: representation, memory, copies and bits.

  An MPI is a sign and an array of limbs, least significant limb first; \<open>X->n\<close> is the length of the
  list and \<open>X->p\<close> is NULL exactly when it is 0.  The type of a limb is a word of any length: 32 bits on
  the MicroBlaze, 64 on the RISC-V.  What the build decides is the record \<open>platform\<close>: the largest
  number of limbs (\<open>MBEDTLS_MPI_MAX_LIMBS\<close>, in a header that is not part of the repository), the sizes
  \<open>calloc\<close> can serve and the width of \<open>size_t\<close>.  An operation that fails returns its error code;
  what it leaves in its output then is not used by any caller and not modelled.  \<open>Array_Overrun\<close> is no
  error code: it stands for an access outside an array, which C leaves undefined; \<open>Undefined_Shift\<close> is a shift
  by a number that is too large, and \<open>Callback_Error\<close> carries the code that a function of the caller returned.

  An input of an operation may be the output object itself: an operand is \<open>Self\<close> or another object.
\<close>

section \<open>Representation\<close>

record 'limb mpi =
  mpi_s :: int
  mpi_p :: "'limb list"

datatype 'limb operand = Self | Other "'limb mpi"

fun deref :: "'limb mpi \<Rightarrow> 'limb operand \<Rightarrow> 'limb mpi" where
  "deref X Self = X"
| "deref X (Other Y) = Y"

datatype mpi_error =
  MBEDTLS_ERR_MPI_FILE_IO_ERROR | MBEDTLS_ERR_MPI_BAD_INPUT_DATA
  | MBEDTLS_ERR_MPI_INVALID_CHARACTER | MBEDTLS_ERR_MPI_BUFFER_TOO_SMALL
  | MBEDTLS_ERR_MPI_NEGATIVE_VALUE | MBEDTLS_ERR_MPI_DIVISION_BY_ZERO
  | MBEDTLS_ERR_MPI_NOT_ACCEPTABLE | MBEDTLS_ERR_MPI_ALLOC_FAILED | Array_Overrun | Undefined_Shift | Callback_Error int

record platform =
  MAX_LIMBS :: nat
  calloc :: "nat \<Rightarrow> bool"
  SIZE_BITS :: nat

abbreviation mpi_n :: "'limb mpi \<Rightarrow> nat" where
  "mpi_n X \<equiv> length (mpi_p X)"

definition ciL :: "'l::len itself \<Rightarrow> nat" where
  "ciL _ = LENGTH('l) div 8"

definition biL :: "'l::len itself \<Rightarrow> nat" where
  [simp]: "biL _ = LENGTH('l)"

definition BITS_TO_LIMBS :: "'l::len itself \<Rightarrow> nat \<Rightarrow> nat" where
  "BITS_TO_LIMBS T i = i div biL T + of_bool (i mod biL T \<noteq> 0)"

definition CHARS_TO_LIMBS :: "'l::len itself \<Rightarrow> nat \<Rightarrow> nat" where
  "CHARS_TO_LIMBS T i = i div ciL T + of_bool (i mod ciL T \<noteq> 0)"

section \<open>Memory\<close>

definition mbedtls_mpi_init :: "'l::len word mpi" where
  "mbedtls_mpi_init = \<lparr>mpi_s = 1, mpi_p = []\<rparr>"

definition mbedtls_mpi_free :: "'l::len word mpi \<Rightarrow> 'l word mpi" where
  "mbedtls_mpi_free X = \<lparr>mpi_s = 1, mpi_p = []\<rparr>"

definition mbedtls_mpi_grow ::
  "platform \<Rightarrow> 'l::len word mpi \<Rightarrow> nat \<Rightarrow> mpi_error + 'l word mpi" where
  "mbedtls_mpi_grow M X nblimbs =
     (if MAX_LIMBS M < nblimbs then Inl MBEDTLS_ERR_MPI_ALLOC_FAILED
      else if mpi_n X < nblimbs then
        if \<not> calloc M nblimbs then Inl MBEDTLS_ERR_MPI_ALLOC_FAILED
        else Inr (X\<lparr>mpi_p := mpi_p X @ replicate (nblimbs - mpi_n X) 0\<rparr>)
      else Inr X)"

text \<open>
  The two loops that skip leading zero limbs: \<open>top_limb\<close> stops at index 0 whatever that limb is,
  \<open>used_limbs\<close> counts the limbs up to the highest one that is not 0.
\<close>

fun top_limb :: "'l::len word list \<Rightarrow> nat \<Rightarrow> nat" where
  "top_limb p 0 = 0"
| "top_limb p (Suc i) = (if p ! Suc i \<noteq> 0 then Suc i else top_limb p i)"

fun used_limbs :: "'l::len word list \<Rightarrow> nat \<Rightarrow> nat" where
  "used_limbs p 0 = 0"
| "used_limbs p (Suc i) = (if p ! i \<noteq> 0 then Suc i else used_limbs p i)"

definition mbedtls_mpi_shrink ::
  "platform \<Rightarrow> 'l::len word mpi \<Rightarrow> nat \<Rightarrow> mpi_error + 'l word mpi" where
  "mbedtls_mpi_shrink M X nblimbs =
     (if MAX_LIMBS M < nblimbs then Inl MBEDTLS_ERR_MPI_ALLOC_FAILED
      else if mpi_n X \<le> nblimbs then mbedtls_mpi_grow M X nblimbs
      else
        let i = Suc (top_limb (mpi_p X) (mpi_n X - 1));
            i = (if i < nblimbs then nblimbs else i) in
        if \<not> calloc M i then Inl MBEDTLS_ERR_MPI_ALLOC_FAILED
        else Inr (X\<lparr>mpi_p := take i (mpi_p X)\<rparr>))"

definition mbedtls_mpi_resize_clear ::
  "platform \<Rightarrow> 'l::len word mpi \<Rightarrow> nat \<Rightarrow> mpi_error + 'l word mpi" where
  "mbedtls_mpi_resize_clear M X limbs =
     (if limbs = 0 then Inr (mbedtls_mpi_free X)
      else if mpi_n X = limbs then Inr \<lparr>mpi_s = 1, mpi_p = replicate limbs 0\<rparr>
      else mbedtls_mpi_grow M (mbedtls_mpi_free X) limbs)"

definition mbedtls_mpi_copy ::
  "platform \<Rightarrow> 'l::len word mpi \<Rightarrow> 'l word operand \<Rightarrow> mpi_error + 'l word mpi" where
  "mbedtls_mpi_copy M X op =
     (case op of
        Self \<Rightarrow> Inr X
      | Other Y \<Rightarrow>
          if mpi_n Y = 0 then
            Inr (if mpi_n X \<noteq> 0 then \<lparr>mpi_s = 1, mpi_p = replicate (mpi_n X) 0\<rparr> else X)
          else
            let i = Suc (top_limb (mpi_p Y) (mpi_n Y - 1));
                X = X\<lparr>mpi_s := mpi_s Y\<rparr> in
            and_then
              (if mpi_n X < i then mbedtls_mpi_grow M X i
               else Inr (X\<lparr>mpi_p := take i (mpi_p X) @ replicate (mpi_n X - i) 0\<rparr>))
              (\<lambda>X. Inr (X\<lparr>mpi_p := take i (mpi_p Y) @ drop i (mpi_p X)\<rparr>)))"

definition mbedtls_mpi_swap :: "'l::len word mpi \<Rightarrow> 'l word mpi \<Rightarrow> 'l word mpi \<times> 'l word mpi" where
  "mbedtls_mpi_swap X Y = (let T = X; X = Y; Y = T in (X, Y))"

text \<open>
  The absolute value and the sign of an \<open>mbedtls_mpi_sint\<close>.  For the least value the negation overflows in C, which is undefined; the model
  wraps, as two's complement hardware does, and no property of the library is about that argument.
\<close>

definition sint_abs :: "'l::len word \<Rightarrow> 'l word" where
  "sint_abs z = (if sint z < 0 then - z else z)"

definition sint_sign :: "'l::len word \<Rightarrow> int" where
  "sint_sign z = (if sint z < 0 then - 1 else 1)"

definition mbedtls_mpi_lset ::
  "platform \<Rightarrow> 'l::len word mpi \<Rightarrow> 'l word \<Rightarrow> mpi_error + 'l word mpi" where
  "mbedtls_mpi_lset M X z =
     and_then (mbedtls_mpi_grow M X 1) (\<lambda>X.
       Inr \<lparr>mpi_s = sint_sign z, mpi_p = (replicate (mpi_n X) 0)[0 := sint_abs z]\<rparr>)"

section \<open>Bits\<close>

definition mbedtls_mpi_get_bit :: "'l::len word mpi \<Rightarrow> nat \<Rightarrow> 'l word" where
  "mbedtls_mpi_get_bit X pos =
     (if mpi_n X * biL TYPE('l) \<le> pos then 0
      else drop_bit (pos mod biL TYPE('l)) (mpi_p X ! (pos div biL TYPE('l))) AND 1)"

definition mbedtls_mpi_set_bit ::
  "platform \<Rightarrow> 'l::len word mpi \<Rightarrow> nat \<Rightarrow> u8 \<Rightarrow> mpi_error + 'l word mpi" where
  "mbedtls_mpi_set_bit M X pos val =
     (let off = pos div biL TYPE('l); idx = pos mod biL TYPE('l) in
      if val \<noteq> 0 \<and> val \<noteq> 1 then Inl MBEDTLS_ERR_MPI_BAD_INPUT_DATA
      else if mpi_n X * biL TYPE('l) \<le> pos \<and> val = 0 then Inr X
      else
        and_then
          (if mpi_n X * biL TYPE('l) \<le> pos then mbedtls_mpi_grow M X (off + 1) else Inr X)
          (\<lambda>X. let p = mpi_p X;
                   p = p[off := p ! off AND NOT (push_bit idx 1)];
                   p = p[off := p ! off OR push_bit idx (ucast val)] in
               Inr (X\<lparr>mpi_p := p\<rparr>)))"

text \<open>The inner and the outer loop of \<open>mbedtls_mpi_lsb\<close>.\<close>

fun lsb_limb :: "'l::len word \<Rightarrow> nat \<Rightarrow> nat \<Rightarrow> nat option" where
  "lsb_limb x 0 j = None"
| "lsb_limb x (Suc k) j = (if drop_bit j x AND 1 \<noteq> 0 then Some j else lsb_limb x k (Suc j))"

fun lsb_limbs :: "'l::len word list \<Rightarrow> nat \<Rightarrow> nat" where
  "lsb_limbs [] count = 0"
| "lsb_limbs (x # xs) count =
     (case lsb_limb x LENGTH('l) 0 of
        Some j \<Rightarrow> count + j
      | None \<Rightarrow> lsb_limbs xs (count + LENGTH('l)))"

definition mbedtls_mpi_lsb :: "'l::len word mpi \<Rightarrow> nat" where
  "mbedtls_mpi_lsb X = lsb_limbs (mpi_p X) 0"

text \<open>\<open>mbedtls_clz\<close>: the mask starts at the highest bit; \<open>k\<close> counts the remaining iterations.\<close>

fun clz_loop :: "'l::len word \<Rightarrow> 'l word \<Rightarrow> nat \<Rightarrow> nat \<Rightarrow> nat" where
  "clz_loop x msk 0 j = j"
| "clz_loop x msk (Suc k) j =
     (if x AND msk \<noteq> 0 then j else clz_loop x (drop_bit 1 msk) k (Suc j))"

definition mbedtls_clz :: "'l::len word \<Rightarrow> nat" where
  "mbedtls_clz x = clz_loop x (push_bit (LENGTH('l) - 1) 1) LENGTH('l) 0"

definition mbedtls_mpi_bitlen :: "'l::len word mpi \<Rightarrow> nat" where
  "mbedtls_mpi_bitlen X =
     (if mpi_n X = 0 then 0
      else
        let i = top_limb (mpi_p X) (mpi_n X - 1);
            j = biL TYPE('l) - mbedtls_clz (mpi_p X ! i) in
        i * biL TYPE('l) + j)"

definition mbedtls_mpi_size :: "'l::len word mpi \<Rightarrow> nat" where
  "mbedtls_mpi_size X = drop_bit 3 (mbedtls_mpi_bitlen X + 7)"

section \<open>Values\<close>

text \<open>The number a list of limbs stands for, and the value of an MPI.\<close>

fun limbs_val :: "'l::len word list \<Rightarrow> nat" where
  "limbs_val [] = 0"
| "limbs_val (x # xs) = unat x + 2 ^ LENGTH('l) * limbs_val xs"

definition mpi_abs :: "'l::len word mpi \<Rightarrow> nat" where
  "mpi_abs X = limbs_val (mpi_p X)"

definition mpi_val :: "'l::len word mpi \<Rightarrow> int" where
  "mpi_val X = mpi_s X * int (mpi_abs X)"

text \<open>The type invariant: a sign, and not more limbs than the library allows.\<close>

definition mpi_ok :: "platform \<Rightarrow> 'l::len word mpi \<Rightarrow> bool" where
  "mpi_ok M X \<longleftrightarrow> (mpi_s X = 1 \<or> mpi_s X = - 1) \<and> mpi_n X \<le> MAX_LIMBS M"

lemma limb_less [simp]: "unat (x :: 'l::len word) < 2 ^ LENGTH('l)"
  by (rule unsigned_less)

lemma limbs_val_append:
  fixes xs :: "'l::len word list"
  shows "limbs_val (xs @ ys) = limbs_val xs + 2 ^ (LENGTH('l) * length xs) * limbs_val ys"
  by (induction xs) (simp_all add: algebra_simps power_add)

lemma limbs_val_zeros [simp]: "limbs_val (replicate n 0) = 0"
  by (induction n) simp_all

lemma limbs_val_pad [simp]: "limbs_val (xs @ replicate n 0) = limbs_val xs"
  by (simp add: limbs_val_append)

lemma limbs_val_less:
  fixes xs :: "'l::len word list"
  shows "limbs_val xs < 2 ^ (LENGTH('l) * length xs)"
proof (induction xs)
  case (Cons x xs)
  have "limbs_val (x # xs) < 2 ^ LENGTH('l) * (limbs_val xs + 1)"
    using limb_less [of x] by simp
  also have "\<dots> \<le> 2 ^ LENGTH('l) * 2 ^ (LENGTH('l) * length xs)"
    using Cons by (intro mult_left_mono) simp_all
  finally show ?case
    by (simp add: power_add algebra_simps)
qed simp

lemma limbs_val_less_mono:
  fixes xs :: "'l::len word list"
  assumes "length xs \<le> k"
  shows "limbs_val xs < 2 ^ (LENGTH('l) * k)"
proof -
  have "(2 :: nat) ^ (LENGTH('l) * length xs) \<le> 2 ^ (LENGTH('l) * k)"
    using assms by (intro power_increasing) simp_all
  then show ?thesis
    using limbs_val_less [of xs] by linarith
qed

lemma limbs_val_eq_0_iff: "limbs_val xs = 0 \<longleftrightarrow> (\<forall>x\<in>set xs. x = 0)"
  by (induction xs) (auto simp: unat_eq_0)

lemma limbs_val_take_drop:
  fixes xs :: "'l::len word list"
  assumes "k \<le> length xs"
  shows "limbs_val xs = limbs_val (take k xs) + 2 ^ (LENGTH('l) * k) * limbs_val (drop k xs)"
  using limbs_val_append [of "take k xs" "drop k xs"] assms by (simp add: min_def)

lemma limbs_val_take:
  fixes xs :: "'l::len word list"
  shows "limbs_val (take k xs) = limbs_val xs mod 2 ^ (LENGTH('l) * k)"
proof (cases "k \<le> length xs")
  case True
  then show ?thesis
    using limbs_val_take_drop [OF True] limbs_val_less [of "take k xs"] by simp
next
  case False
  then show ?thesis
    using limbs_val_less_mono [of xs k] by simp
qed

lemma limbs_val_drop:
  fixes xs :: "'l::len word list"
  shows "limbs_val (drop k xs) = limbs_val xs div 2 ^ (LENGTH('l) * k)"
proof (cases "k \<le> length xs")
  case True
  then show ?thesis
    using limbs_val_take_drop [OF True] limbs_val_less [of "take k xs"] by simp
next
  case False
  then show ?thesis
    using limbs_val_less_mono [of xs k] by simp
qed

lemma limbs_val_nth:
  fixes xs :: "'l::len word list"
  assumes "k < length xs"
  shows "unat (xs ! k) = limbs_val xs div 2 ^ (LENGTH('l) * k) mod 2 ^ LENGTH('l)"
proof -
  have "limbs_val (drop k xs) mod 2 ^ LENGTH('l) = unat (xs ! k)"
    using assms limb_less [of "xs ! k"]
    by (simp flip: Cons_nth_drop_Suc)
  then show ?thesis
    by (simp add: limbs_val_drop)
qed

lemma limbs_val_eq_iff:
  fixes xs :: "'l::len word list"
  assumes "length xs = length ys"
  shows "limbs_val xs = limbs_val ys \<longleftrightarrow> xs = ys"
proof
  assume "limbs_val xs = limbs_val ys"
  then show "xs = ys"
    using assms by (intro nth_equalityI) (simp_all add: limbs_val_nth word_unat_eq_iff)
qed simp

lemma bit_limbs_val:
  fixes xs :: "'l::len word list"
  shows "bit (limbs_val xs) i \<longleftrightarrow>
    i div LENGTH('l) < length xs \<and> bit (xs ! (i div LENGTH('l))) (i mod LENGTH('l))"
proof (cases "i div LENGTH('l) < length xs")
  case True
  let ?k = "i div LENGTH('l)" and ?j = "i mod LENGTH('l)"
  have i: "i = LENGTH('l) * ?k + ?j" and j: "?j < LENGTH('l)"
    by simp_all
  have "bit (xs ! ?k) ?j \<longleftrightarrow> bit (take_bit LENGTH('l) (drop_bit (LENGTH('l) * ?k) (limbs_val xs))) ?j"
    unfolding limbs_val_nth [OF True, folded drop_bit_eq_div take_bit_eq_mod, symmetric]
    by (simp add: bit_unsigned_iff)
  also have "\<dots> \<longleftrightarrow> bit (limbs_val xs) (LENGTH('l) * ?k + ?j)"
    using j by (simp add: bit_simps)
  also have "\<dots> \<longleftrightarrow> bit (limbs_val xs) i"
    using i by simp
  finally show ?thesis
    using True by simp
next
  case False
  then have "LENGTH('l) * length xs \<le> i"
    by (simp add: not_less less_eq_div_iff_mult_less_eq mult.commute)
  then have "(2 :: nat) ^ (LENGTH('l) * length xs) \<le> 2 ^ i"
    by (intro power_increasing) simp_all
  then have "limbs_val xs < 2 ^ i"
    using limbs_val_less [of xs] by linarith
  then show ?thesis
    using False by (simp add: bit_iff_odd)
qed

section \<open>Significant limbs\<close>

lemma used_limbs_le: "used_limbs p n \<le> n"
  by (induction n) auto

lemma used_limbs_zero: "used_limbs p n \<le> k \<Longrightarrow> k < n \<Longrightarrow> p ! k = 0"
  by (induction n) (auto simp: less_Suc_eq split: if_splits)

lemma used_limbs_top: "used_limbs p n = Suc k \<Longrightarrow> p ! k \<noteq> 0"
  by (induction n) (auto split: if_splits)

lemma top_limb_used: "top_limb p n = used_limbs p (Suc n) - 1"
  by (induction n) auto

lemma drop_zeros: "(\<And>k. i \<le> k \<Longrightarrow> k < length p \<Longrightarrow> p ! k = 0) \<Longrightarrow> drop i p = replicate (length p - i) 0"
  by (rule nth_equalityI) auto

lemma drop_used_limbs:
  "used_limbs p (length p) \<le> i \<Longrightarrow> drop i p = replicate (length p - i) 0"
  by (rule drop_zeros) (metis le_trans used_limbs_zero)

lemma take_used_limbs:
  fixes p :: "'l::len word list"
  assumes "used_limbs p (length p) \<le> i"
  shows "limbs_val (take i p) = limbs_val p"
proof -
  have "p = take i p @ replicate (length p - i) 0"
    using drop_used_limbs [OF assms] append_take_drop_id [of i p] by simp
  then show ?thesis
    using limbs_val_pad by metis
qed

lemma used_limbs_lower:
  fixes p :: "'l::len word list"
  assumes "used_limbs p (length p) = Suc k"
  shows "2 ^ (LENGTH('l) * k) \<le> limbs_val p"
proof -
  have k: "k < length p"
    using assms used_limbs_le [of p "length p"] by simp
  have "unat (p ! k) \<noteq> 0"
    using used_limbs_top [OF assms] by (simp add: unat_eq_0)
  then have "limbs_val p div 2 ^ (LENGTH('l) * k) \<noteq> 0"
    using limbs_val_nth [OF k] by (metis mod_0)
  then show ?thesis
    by (simp add: div_eq_0_iff)
qed

lemma used_limbs_upper:
  fixes p :: "'l::len word list"
  shows "limbs_val p < 2 ^ (LENGTH('l) * used_limbs p (length p))"
  using take_used_limbs [OF order_refl, of p]
    limbs_val_less_mono [of "take (used_limbs p (length p)) p" "used_limbs p (length p)"] by simp

lemma used_limbs_eq_0: "used_limbs p (length p) = 0 \<longleftrightarrow> limbs_val p = 0"
proof (cases "used_limbs p (length p)")
  case 0
  then show ?thesis
    using used_limbs_upper [of p] by simp
next
  case (Suc k)
  then have "0 < limbs_val p"
    using used_limbs_lower [OF Suc] by (metis zero_less_numeral zero_less_power less_le_trans)
  then show ?thesis
    using Suc by simp
qed

text \<open>The loops with \<open>i > 0\<close> keep one limb.\<close>

definition kept_limbs :: "'l::len word list \<Rightarrow> nat" where
  "kept_limbs p = Suc (top_limb p (length p - 1))"

lemma kept_limbs_max: "p \<noteq> [] \<Longrightarrow> kept_limbs p = max 1 (used_limbs p (length p))"
  by (cases "length p") (auto simp: kept_limbs_def top_limb_used simp del: used_limbs.simps)

lemma kept_limbs_bounds:
  assumes "p \<noteq> []"
  shows "used_limbs p (length p) \<le> kept_limbs p" "1 \<le> kept_limbs p" "kept_limbs p \<le> length p"
  using assms used_limbs_le [of p "length p"] by (simp_all add: kept_limbs_max Suc_leI)

section \<open>What the memory operations keep\<close>

lemma init_simps [simp]:
  "mpi_p mbedtls_mpi_init = []" "mpi_s mbedtls_mpi_init = 1" "mpi_abs mbedtls_mpi_init = 0"
  "mpi_val mbedtls_mpi_init = 0" "mpi_ok M mbedtls_mpi_init"
  by (simp_all add: mbedtls_mpi_init_def mpi_abs_def mpi_val_def mpi_ok_def)

lemma free_is_init: "mbedtls_mpi_free X = mbedtls_mpi_init"
  by (simp add: mbedtls_mpi_free_def mbedtls_mpi_init_def)

text \<open>Allocations of up to \<open>k\<close> limbs succeed.\<close>

definition plenty :: "platform \<Rightarrow> nat \<Rightarrow> bool" where
  "plenty M k \<longleftrightarrow> k \<le> MAX_LIMBS M \<and> (\<forall>n\<le>k. calloc M n)"

lemma plenty_mono: "plenty M k \<Longrightarrow> j \<le> k \<Longrightarrow> plenty M j"
  by (auto simp: plenty_def)

lemma grow_fact:
  assumes "mbedtls_mpi_grow M X n = Inr Y"
  shows "mpi_p Y = mpi_p X @ replicate (n - mpi_n X) 0" "mpi_s Y = mpi_s X"
    "mpi_n Y = max (mpi_n X) n" "mpi_abs Y = mpi_abs X" "mpi_val Y = mpi_val X"
  using assms by (auto simp: mbedtls_mpi_grow_def mpi_abs_def mpi_val_def split: if_splits)

lemma grow_ok: "mbedtls_mpi_grow M X n = Inr Y \<Longrightarrow> mpi_ok M X \<Longrightarrow> mpi_ok M Y"
  by (auto simp: mbedtls_mpi_grow_def mpi_ok_def split: if_splits)

lemma grow_succeeds: "plenty M n \<Longrightarrow> \<exists>Y. mbedtls_mpi_grow M X n = Inr Y"
  by (auto simp: mbedtls_mpi_grow_def plenty_def)

lemma grow_eq:
  "plenty M n \<Longrightarrow> mbedtls_mpi_grow M X n = Inr (X\<lparr>mpi_p := mpi_p X @ replicate (n - mpi_n X) 0\<rparr>)"
  by (auto simp: mbedtls_mpi_grow_def plenty_def)

lemma grow_errors: "mbedtls_mpi_grow M X n = Inl e \<Longrightarrow> e = MBEDTLS_ERR_MPI_ALLOC_FAILED"
  by (auto simp: mbedtls_mpi_grow_def split: if_splits)

lemma copy_fact:
  fixes X :: "'l::len word mpi"
  assumes "mbedtls_mpi_copy M X (Other Y) = Inr Z"
  shows "mpi_abs Z = mpi_abs Y" "mpi_val Z = mpi_val Y" "mpi_n X \<le> mpi_n Z" "mpi_n Z \<le> max (mpi_n X) (mpi_n Y)"
    "mpi_n Y = 0 \<Longrightarrow> mpi_n Z = mpi_n X" "mpi_n Y \<noteq> 0 \<Longrightarrow> mpi_s Z = mpi_s Y"
proof -
  let ?k = "kept_limbs (mpi_p Y)"
  have "mpi_p Z = take ?k (mpi_p Y) @ replicate (mpi_n X - ?k) 0 \<and> mpi_s Z = mpi_s Y \<and> ?k \<le> mpi_n Y \<and>
      limbs_val (take ?k (mpi_p Y)) = limbs_val (mpi_p Y)" if "mpi_n Y \<noteq> 0"
    using that assms kept_limbs_bounds [of "mpi_p Y"] take_used_limbs [of "mpi_p Y" ?k]
    by (auto simp: mbedtls_mpi_copy_def Let_def kept_limbs_def [symmetric] outcome_simps grow_fact
        simp del: One_nat_def dest: grow_fact split: if_splits)
  then show "mpi_abs Z = mpi_abs Y" "mpi_val Z = mpi_val Y" "mpi_n X \<le> mpi_n Z"
    "mpi_n Z \<le> max (mpi_n X) (mpi_n Y)"
    "mpi_n Y = 0 \<Longrightarrow> mpi_n Z = mpi_n X" "mpi_n Y \<noteq> 0 \<Longrightarrow> mpi_s Z = mpi_s Y"
    using assms
    by (auto simp: mbedtls_mpi_copy_def mpi_abs_def mpi_val_def split: if_splits)
qed

lemma copy_self [simp]: "mbedtls_mpi_copy M X Self = Inr X"
  by (simp add: mbedtls_mpi_copy_def)

lemma copy_succeeds:
  assumes "plenty M (mpi_n Y)"
  shows "\<exists>Z. mbedtls_mpi_copy M X (Other Y) = Inr Z"
proof (cases "mpi_p Y = []")
  case False
  then have "plenty M (kept_limbs (mpi_p Y))"
    using plenty_mono [OF assms] kept_limbs_bounds by blast
  then show ?thesis
    by (auto simp: mbedtls_mpi_copy_def Let_def kept_limbs_def [symmetric] grow_eq simp del: One_nat_def)
qed (simp add: mbedtls_mpi_copy_def)

section \<open>Setting from an integer\<close>

lemma sint_abs_val: "sint_sign z * int (unat (sint_abs z)) = sint (z :: 'l::len word)"
proof -
  have bounds: "- (2 ^ (LENGTH('l) - 1)) \<le> sint z" "sint z < 2 ^ (LENGTH('l) - 1)"
    using sint_greater_eq [of z] sint_less [of z] by simp_all
  have half: "(2 :: int) ^ (LENGTH('l) - 1) < 2 ^ LENGTH('l)"
    by (intro power_strict_increasing) simp_all
  have z: "word_of_int (sint z) = z"
    by simp
  show ?thesis
  proof (cases "sint z < 0")
    case True
    have "uint (- z) = uint (word_of_int (- sint z) :: 'l word)"
      by simp
    also have "\<dots> = - sint z"
      using True bounds half by (simp only: uint_word_of_int) (rule mod_pos_pos_trivial; linarith)
    finally show ?thesis
      using True by (simp add: sint_abs_def sint_sign_def)
  next
    case False
    have "uint z = uint (word_of_int (sint z) :: 'l word)"
      by simp
    also have "\<dots> = sint z"
      using False bounds half by (simp only: uint_word_of_int) (rule mod_pos_pos_trivial; linarith)
    finally show ?thesis
      using False by (simp add: sint_abs_def sint_sign_def)
  qed
qed

lemma sint_sign_cases: "sint_sign z = 1 \<or> sint_sign z = - 1"
  by (simp add: sint_sign_def)

lemma lset_fact:
  fixes X :: "'l::len word mpi"
  assumes "mbedtls_mpi_lset M X z = Inr Y"
  shows "mpi_val Y = sint z" "mpi_abs Y = unat (sint_abs z)" "mpi_n Y = max 1 (mpi_n X)" "mpi_ok M X \<Longrightarrow> mpi_ok M Y"
    "mpi_s Y = sint_sign z" "mpi_p Y = sint_abs z # replicate (mpi_n X - 1) 0"
proof -
  obtain Z where Z: "mbedtls_mpi_grow M X 1 = Inr Z" "Y = \<lparr>mpi_s = sint_sign z, mpi_p = (replicate (mpi_n Z) 0)[0 := sint_abs z]\<rparr>"
    using assms by (auto simp: mbedtls_mpi_lset_def outcome_simps)
  have n: "mpi_n Z = max 1 (mpi_n X)"
    using grow_fact [OF Z(1)] by simp
  then have "mpi_n Z = Suc (mpi_n X - 1)"
    by simp
  then show p: "mpi_p Y = sint_abs z # replicate (mpi_n X - 1) 0"
    using Z(2) by simp
  then show abs: "mpi_abs Y = unat (sint_abs z)"
    by (simp add: mpi_abs_def)
  show s: "mpi_s Y = sint_sign z"
    using Z(2) by simp
  show "mpi_val Y = sint z"
    using sint_abs_val [of z] by (simp add: mpi_val_def abs s)
  show "mpi_n Y = max 1 (mpi_n X)"
    using Z(2) n by simp
  show "mpi_ok M Y" if "mpi_ok M X"
    using grow_ok [OF Z(1) that] sint_sign_cases [of z] Z(2) by (simp add: mpi_ok_def)
qed

lemma lset_succeeds: "plenty M 1 \<Longrightarrow> \<exists>Y. mbedtls_mpi_lset M X z = Inr Y"
  by (simp add: mbedtls_mpi_lset_def grow_eq)

lemma copy_ok:
  assumes "mbedtls_mpi_copy M X op = Inr Z" and "mpi_ok M X" and "mpi_ok M (deref X op)"
  shows "mpi_ok M Z"
proof (cases op)
  case (Other Y)
  show ?thesis
  proof (cases "mpi_n Y = 0")
    case True
    then show ?thesis
      using assms Other by (auto simp: mbedtls_mpi_copy_def mpi_ok_def split: if_splits)
  next
    case False
    then show ?thesis
      using assms Other copy_fact [of M X Y Z] by (auto simp: mpi_ok_def)
  qed
qed (use assms in simp)

lemma shrink_fact:
  assumes "mbedtls_mpi_shrink M X n = Inr Y"
  shows "mpi_val Y = mpi_val X" "mpi_abs Y = mpi_abs X" "n \<le> mpi_n Y" "mpi_n Y \<le> max n (mpi_n X)"
proof -
  have "mpi_val Y = mpi_val X \<and> mpi_abs Y = mpi_abs X \<and> n \<le> mpi_n Y \<and> mpi_n Y \<le> max n (mpi_n X)"
  proof (cases "mpi_n X \<le> n")
    case True
    then show ?thesis
      using assms by (auto simp: mbedtls_mpi_shrink_def grow_fact split: if_splits)
  next
    case False
    let ?i = "max n (kept_limbs (mpi_p X))"
    have "mpi_p X \<noteq> []"
      using False by auto
    note k = kept_limbs_bounds [OF this]
    have Y: "Y = X\<lparr>mpi_p := take ?i (mpi_p X)\<rparr>"
      using assms False
      by (auto simp: mbedtls_mpi_shrink_def Let_def kept_limbs_def [symmetric] max_def simp del: One_nat_def split: if_splits)
    have "used_limbs (mpi_p X) (mpi_n X) \<le> ?i"
      using k by simp
    then show ?thesis
      using take_used_limbs [of "mpi_p X" ?i] k False by (simp add: Y mpi_abs_def mpi_val_def)
  qed
  then show "mpi_val Y = mpi_val X" "mpi_abs Y = mpi_abs X" "n \<le> mpi_n Y" "mpi_n Y \<le> max n (mpi_n X)"
    by simp_all
qed

lemma resize_clear_fact:
  assumes "mbedtls_mpi_resize_clear M X n = Inr Y"
  shows "Y = \<lparr>mpi_s = 1, mpi_p = replicate n 0\<rparr>"
  using assms by (auto simp: mbedtls_mpi_resize_clear_def mbedtls_mpi_free_def mbedtls_mpi_grow_def split: if_splits)

lemma resize_clear_eq:
  assumes "plenty M n"
  shows "mbedtls_mpi_resize_clear M X n = Inr \<lparr>mpi_s = 1, mpi_p = replicate n 0\<rparr>"
  using assms by (auto simp: mbedtls_mpi_resize_clear_def mbedtls_mpi_free_def grow_eq)

section \<open>Reading and writing bits\<close>

lemma limb_bit: "drop_bit j x AND 1 = (0 :: 'l::len word) \<longleftrightarrow> \<not> bit x j"
  by (simp add: bit_iff_odd_drop_bit and_one_eq odd_iff_mod_2_eq_one)

lemma get_bit_val: "mbedtls_mpi_get_bit X pos = of_bool (bit (mpi_abs X) pos)"
proof (cases "mpi_n X * LENGTH('a) \<le> pos")
  case True
  then show ?thesis
    by (simp add: mbedtls_mpi_get_bit_def mpi_abs_def bit_limbs_val not_less less_eq_div_iff_mult_less_eq)
next
  case False
  then have "pos div LENGTH('a) < mpi_n X"
    by (simp add: div_less_iff_less_mult)
  then show ?thesis
    using False by (simp add: mbedtls_mpi_get_bit_def mpi_abs_def bit_limbs_val and_one_eq
      bit_iff_odd_drop_bit [of "mpi_p X ! (pos div LENGTH('a))"] mod_2_eq_odd)
qed

lemma bit_limbs_val_Cons:
  fixes x :: "'l::len word"
  shows "bit (limbs_val (x # xs)) i \<longleftrightarrow> (if i < LENGTH('l) then bit x i else bit (limbs_val xs) (i - LENGTH('l)))"
  unfolding bit_limbs_val by (auto simp: le_div_geq le_mod_geq not_less simp del: limbs_val.simps)


text \<open>The lowest bit that is set.\<close>

lemma lsb_limb_bit:
  "lsb_limb x k j = Some l \<Longrightarrow> j \<le> l \<and> l < j + k \<and> bit x l \<and> (\<forall>i. j \<le> i \<and> i < l \<longrightarrow> \<not> bit x i)"
proof (induction x k j rule: lsb_limb.induct)
  case (2 x k j)
  then show ?case
    by (cases "bit x j") (auto simp: limb_bit, metis le_antisym not_less_eq_eq)
qed simp

lemma lsb_limb_None: "lsb_limb x k j = None \<Longrightarrow> j \<le> i \<Longrightarrow> i < j + k \<Longrightarrow> \<not> bit x i"
proof (induction x k j rule: lsb_limb.induct)
  case (2 x k j)
  then show ?case
    by (cases "i = j") (auto simp: limb_bit split: if_splits)
qed simp

lemma lsb_limbs_bit:
  fixes xs :: "'l::len word list"
  assumes "limbs_val xs \<noteq> 0"
  shows "\<exists>l. lsb_limbs xs count = count + l \<and> bit (limbs_val xs) l \<and> (\<forall>i<l. \<not> bit (limbs_val xs) i)"
  using assms
proof (induction xs arbitrary: count)
  case (Cons x xs)
  show ?case
  proof (cases "lsb_limb x LENGTH('l) 0")
    case None
    have "x = 0"
      by (rule bit_word_eqI) (use lsb_limb_None [OF None] in simp)
    then have "limbs_val xs \<noteq> 0"
      using Cons.prems by simp
    from Cons.IH [OF this, of "count + LENGTH('l)"] obtain l where
      "lsb_limbs xs (count + LENGTH('l)) = count + LENGTH('l) + l" "bit (limbs_val xs) l"
      "\<forall>i<l. \<not> bit (limbs_val xs) i" by blast
    then show ?thesis
      using None \<open>x = 0\<close>
      by (intro exI [of _ "LENGTH('l) + l"]) (simp add: bit_limbs_val_Cons del: limbs_val.simps)
  next
    case (Some l)
    then show ?thesis
      using lsb_limb_bit [OF Some]
      by (intro exI [of _ l]) (simp add: bit_limbs_val_Cons del: limbs_val.simps)
  qed
qed simp

lemma lsb_limbs_0: "limbs_val xs = 0 \<Longrightarrow> lsb_limbs xs count = 0"
proof (induction xs arbitrary: count)
  case (Cons x xs)
  then have "x = 0"
    by (simp add: unat_eq_0)
  moreover have "lsb_limb (0 :: 'a word) k j = None" for k j
    by (induction k arbitrary: j) simp_all
  ultimately show ?case
    using Cons by simp
qed simp

lemma lowest_bit_dvd:
  fixes v :: nat
  assumes "bit v l" and "\<forall>i<l. \<not> bit v i"
  shows "2 ^ l dvd v" "odd (v div 2 ^ l)"
proof -
  have "take_bit l v = 0"
    using assms(2) by (intro bit_eqI) (simp add: bit_take_bit_iff)
  then show "2 ^ l dvd v"
    by (simp add: take_bit_eq_mod mod_0_imp_dvd)
  show "odd (v div 2 ^ l)"
    using assms(1) by (simp add: bit_iff_odd)
qed

lemma lsb_val:
  assumes "mpi_abs X \<noteq> 0"
  shows "2 ^ mbedtls_mpi_lsb X dvd mpi_abs X" "odd (mpi_abs X div 2 ^ mbedtls_mpi_lsb X)"
  using lsb_limbs_bit [of "mpi_p X" 0] lowest_bit_dvd assms
  by (auto simp: mbedtls_mpi_lsb_def mpi_abs_def)

lemma lsb_zero: "mpi_abs X = 0 \<Longrightarrow> mbedtls_mpi_lsb X = 0"
  by (simp add: mbedtls_mpi_lsb_def mpi_abs_def lsb_limbs_0)

text \<open>Leading zeros.\<close>

lemma top_bit_nat:
  fixes v :: nat
  assumes "v < 2 ^ Suc k"
  shows "bit v k \<longleftrightarrow> 2 ^ k \<le> v"
proof -
  have "v div 2 ^ k < 2"
    using assms by (simp add: div_less_iff_less_mult mult.commute)
  then have "odd (v div 2 ^ k) \<longleftrightarrow> v div 2 ^ k \<noteq> 0"
    by (metis less_2_cases odd_one even_zero One_nat_def)
  then show ?thesis
    by (simp add: bit_iff_odd div_eq_0_iff not_less)
qed

lemma clz_loop_val:
  fixes x :: "'l::len word"
  assumes "k + j = LENGTH('l)" and "unat x < 2 ^ k" and "0 < k \<Longrightarrow> msk = push_bit (k - 1) 1"
  shows "clz_loop x msk k j \<le> LENGTH('l) \<and> unat x < 2 ^ (LENGTH('l) - clz_loop x msk k j) \<and>
    (x \<noteq> 0 \<longrightarrow> clz_loop x msk k j < LENGTH('l) \<and> 2 ^ (LENGTH('l) - clz_loop x msk k j - 1) \<le> unat x)"
  using assms
proof (induction x msk k j rule: clz_loop.induct)
  case (1 x msk j)
  then show ?case
    by (simp add: unat_eq_0)
next
  case (2 x msk k j)
  have k: "k < LENGTH('l)" "j < LENGTH('l)"
    using "2.prems"(1) by simp_all
  have top: "bit x k \<longleftrightarrow> 2 ^ k \<le> unat x"
    using top_bit_nat [OF "2.prems"(2)] by (simp add: bit_unsigned_iff)
  show ?case
  proof (cases "bit x k")
    case True
    have "LENGTH('l) - j = Suc k" "LENGTH('l) - Suc j = k"
      using "2.prems"(1) by simp_all
    then show ?thesis
      using True top "2.prems"(2,3) k by (simp add: and_exp_eq_0_iff_not_bit)
  next
    case False
    have "drop_bit 1 msk = push_bit (k - 1) 1" if "0 < k"
      using "2.prems"(3) that k(1) by (auto intro!: bit_word_eqI simp: bit_simps)
    then show ?thesis
      using "2.IH" False top "2.prems" k(1) by (simp add: and_exp_eq_0_iff_not_bit not_le)
  qed
qed

lemma clz_val:
  fixes x :: "'l::len word"
  shows "mbedtls_clz x \<le> LENGTH('l)" "unat x < 2 ^ (LENGTH('l) - mbedtls_clz x)"
    "x \<noteq> 0 \<Longrightarrow> mbedtls_clz x < LENGTH('l)"
    "x \<noteq> 0 \<Longrightarrow> 2 ^ (LENGTH('l) - mbedtls_clz x - 1) \<le> unat x"
  using clz_loop_val [of "LENGTH('l)" 0 x "push_bit (LENGTH('l) - 1) 1"]
  by (simp_all add: mbedtls_clz_def)

text \<open>\<open>mbedtls_mpi_bitlen\<close> is the number of binary digits.\<close>

lemma bitlen_limbs:
  fixes p :: "'l::len word list"
  assumes "p \<noteq> []"
  defines "i \<equiv> top_limb p (length p - 1)"
  shows "i < length p" "unat (p ! i) = limbs_val p div 2 ^ (LENGTH('l) * i)"
    "limbs_val p \<noteq> 0 \<Longrightarrow> p ! i \<noteq> 0" "limbs_val p = 0 \<Longrightarrow> i = 0"
proof -
  have i: "Suc i = kept_limbs p"
    by (simp add: i_def kept_limbs_def)
  note k = kept_limbs_bounds [OF assms(1)] kept_limbs_max [OF assms(1)]
  show "i < length p"
    using k(3) i by simp
  then have "unat (p ! i) = limbs_val (take (Suc i) p) div 2 ^ (LENGTH('l) * i)"
    using limbs_val_less [of "take i p"] by (simp add: take_Suc_conv_app_nth limbs_val_append)
  then show "unat (p ! i) = limbs_val p div 2 ^ (LENGTH('l) * i)"
    using take_used_limbs [of p "Suc i"] k i by simp
  show "p ! i \<noteq> 0" if "limbs_val p \<noteq> 0"
    using that used_limbs_top [of p "length p" i] used_limbs_eq_0 [of p] k i by simp
  show "i = 0" if "limbs_val p = 0"
    using that used_limbs_eq_0 [of p] k i by simp
qed

lemma bitlen_bounds:
  fixes X :: "'l::len word mpi"
  shows "mpi_abs X < 2 ^ mbedtls_mpi_bitlen X"
    "mpi_abs X \<noteq> 0 \<Longrightarrow> 0 < mbedtls_mpi_bitlen X \<and> 2 ^ (mbedtls_mpi_bitlen X - 1) \<le> mpi_abs X"
    "mbedtls_mpi_bitlen X \<le> mpi_n X * LENGTH('l)"
proof -
  let ?p = "mpi_p X" and ?L = "LENGTH('l)"
  define i where "i = top_limb ?p (mpi_n X - 1)"
  define b where "b = ?L - mbedtls_clz (?p ! i)"
  have all: "mpi_abs X < 2 ^ (i * ?L + b) \<and> i * ?L + b \<le> mpi_n X * ?L \<and>
      (mpi_abs X \<noteq> 0 \<longrightarrow> 0 < b \<and> 2 ^ (i * ?L + b - 1) \<le> mpi_abs X)" if "?p \<noteq> []"
  proof -
    note t = bitlen_limbs [OF that, folded i_def]
    have "limbs_val ?p div 2 ^ (?L * i) < 2 ^ b"
      using clz_val(2) [of "?p ! i"] t(2) by (simp add: b_def)
    then have "limbs_val ?p < 2 ^ (i * ?L + b)"
      by (simp add: div_less_iff_less_mult power_add mult.commute)
    moreover have "i * ?L + b \<le> Suc i * ?L"
      by (simp add: b_def)
    then have "i * ?L + b \<le> mpi_n X * ?L"
      using t(1) by (meson Suc_leI le_trans mult_le_mono1)
    moreover have "0 < b \<and> 2 ^ (i * ?L + b - 1) \<le> limbs_val ?p" if nz: "limbs_val ?p \<noteq> 0"
    proof -
      have b: "0 < b" and "2 ^ (b - 1) \<le> limbs_val ?p div 2 ^ (?L * i)"
        using clz_val(3,4) [OF t(3) [OF nz]] t(2) by (simp_all add: b_def)
      then have "2 ^ (b - 1) * 2 ^ (?L * i) \<le> limbs_val ?p"
        by (simp add: less_eq_div_iff_mult_less_eq)
      then show ?thesis
        using b by (simp add: mult.commute add.commute flip: power_add)
    qed
    ultimately show ?thesis
      by (simp add: mpi_abs_def)
  qed
  have len: "mbedtls_mpi_bitlen X = (if ?p = [] then 0 else i * ?L + b)"
    by (simp add: mbedtls_mpi_bitlen_def Let_def i_def b_def)
  have empty: "mpi_abs X = 0" if "?p = []"
    using that by (simp add: mpi_abs_def)
  show "mpi_abs X < 2 ^ mbedtls_mpi_bitlen X" "mbedtls_mpi_bitlen X \<le> mpi_n X * ?L"
    using all empty by (auto simp: len)
  show "0 < mbedtls_mpi_bitlen X \<and> 2 ^ (mbedtls_mpi_bitlen X - 1) \<le> mpi_abs X" if "mpi_abs X \<noteq> 0"
    using all empty that by (auto simp: len)
qed

section \<open>Properties\<close>

text \<open>The constants of a 64-bit build, for the examples.\<close>

definition demo_platform :: platform where
  "demo_platform = \<lparr>MAX_LIMBS = 10000, calloc = \<lambda>_. True, SIZE_BITS = 64\<rparr>"

lemma demo_plenty: "k \<le> 10000 \<Longrightarrow> plenty demo_platform k"
  by (simp add: plenty_def demo_platform_def)

lemma clz_loop_zero: "clz_loop 0 msk k j = k + j"
  by (induction k arbitrary: msk j) simp_all

text \<open>
  \<open>mbedtls_mpi_bitlen\<close> is the number of binary digits of the magnitude: the least exponent of two
  that exceeds it, however many leading zero limbs the number carries.
\<close>

theorem bitlen_is_least: "mbedtls_mpi_bitlen X = (LEAST n. mpi_abs X < 2 ^ n)"
proof (rule Least_equality [symmetric])
  show "mpi_abs X < 2 ^ mbedtls_mpi_bitlen X"
    by (rule bitlen_bounds)
  show "mbedtls_mpi_bitlen X \<le> n" if "mpi_abs X < 2 ^ n" for n
  proof (cases "mpi_abs X = 0")
    case True
    then have "mpi_p X = [] \<or> mpi_p X ! top_limb (mpi_p X) (mpi_n X - 1) = 0 \<and> top_limb (mpi_p X) (mpi_n X - 1) = 0"
      using bitlen_limbs(2,4) [of "mpi_p X"] by (auto simp: mpi_abs_def unat_eq_0)
    moreover have "mbedtls_clz (0 :: 'a word) = LENGTH('a)"
      by (simp add: mbedtls_clz_def clz_loop_zero)
    ultimately show ?thesis
      by (auto simp: mbedtls_mpi_bitlen_def Let_def)
  next
    case False
    then have "(2 :: nat) ^ (mbedtls_mpi_bitlen X - 1) < 2 ^ n"
      using bitlen_bounds(2) [of X] that by linarith
    then show ?thesis
      by simp
  qed
qed

lemma set_bit_limb:
  fixes x :: "'l::len word"
  assumes "i < LENGTH('l)" and "v = 0 \<or> v = 1"
  shows "bit (x AND NOT (push_bit i 1) OR push_bit i (ucast (v :: u8))) j \<longleftrightarrow>
    j < LENGTH('l) \<and> (if j = i then v = 1 else bit x j)"
  using assms by (auto simp: bit_simps)

lemma set_bit_fact:
  fixes X :: "'l::len word mpi"
  assumes "mbedtls_mpi_set_bit M X pos v = Inr Y"
  shows "bit (mpi_abs Y) i \<longleftrightarrow> (if i = pos then v = 1 else bit (mpi_abs X) i)"
proof -
  let ?L = "LENGTH('l)"
  have v: "v = 0 \<or> v = 1"
    using assms by (auto simp: mbedtls_mpi_set_bit_def Let_def split: if_splits)
  show ?thesis
  proof (cases "mpi_n X * ?L \<le> pos \<and> v = 0")
    case True
    then show ?thesis
      using assms v by (auto simp: mbedtls_mpi_set_bit_def Let_def mpi_abs_def bit_limbs_val not_less
          less_eq_div_iff_mult_less_eq)
  next
    case False
    let ?off = "pos div ?L" and ?idx = "pos mod ?L"
    obtain Z where Z: "mpi_abs Z = mpi_abs X" "?off < mpi_n Z"
      and Y: "mpi_p Y = (mpi_p Z)[?off := mpi_p Z ! ?off AND NOT (push_bit ?idx 1) OR push_bit ?idx (ucast v)]"
    proof (cases "mpi_n X * ?L \<le> pos")
      case True
      then obtain Z where "mbedtls_mpi_grow M X (?off + 1) = Inr Z"
        "Y = Z\<lparr>mpi_p := (mpi_p Z)[?off := mpi_p Z ! ?off AND NOT (push_bit ?idx 1),
           ?off := (mpi_p Z)[?off := mpi_p Z ! ?off AND NOT (push_bit ?idx 1)] ! ?off OR push_bit ?idx (ucast v)]\<rparr>"
        using assms False v by (auto simp: mbedtls_mpi_set_bit_def Let_def outcome_simps)
      then show ?thesis
        using grow_fact [of M X "?off + 1" Z] by (intro that [of Z]) simp_all
    next
      case in_range: False
      then have "?off < mpi_n X"
        by (simp add: div_less_iff_less_mult)
      then show ?thesis
        using assms False v in_range by (intro that [of X]) (auto simp: mbedtls_mpi_set_bit_def Let_def)
    qed
    have idx: "?idx < ?L"
      by simp
    have same: "i mod ?L = ?idx \<longleftrightarrow> i = pos" if "i div ?L = ?off"
      using that by (metis div_mult_mod_eq)
    have "bit (mpi_abs Y) i \<longleftrightarrow> (if i = pos then v = 1 else bit (mpi_abs Z) i)"
    proof (cases "i div ?L = ?off")
      case True
      then show ?thesis
        using Z(2) same [OF True] set_bit_limb [OF idx v]
        by (simp only: mpi_abs_def bit_limbs_val Y length_list_update nth_list_update_eq if_True) auto
    next
      case False
      then show ?thesis
        by (auto simp: mpi_abs_def bit_limbs_val Y)
    qed
    then show ?thesis
      using Z(1) by simp
  qed
qed

text \<open>
  A bit that is set is read back, and no other bit changes, also when the number has to grow for
  it.
\<close>

theorem get_bit_set_bit:
  assumes "mbedtls_mpi_set_bit M X pos v = Inr Y"
  shows "mbedtls_mpi_get_bit Y i = (if i = pos then ucast v else mbedtls_mpi_get_bit X i)"
proof -
  have "v = 0 \<or> v = 1"
    using assms by (auto simp: mbedtls_mpi_set_bit_def Let_def split: if_splits)
  then show ?thesis
    using set_bit_fact [OF assms] by (auto simp: get_bit_val)
qed

theorem get_bit_set_bit_witness:
  "\<exists>Y. mbedtls_mpi_set_bit demo_platform (mbedtls_mpi_init :: 64 word mpi) 70 1 = Inr Y \<and>
     mbedtls_mpi_get_bit Y 70 = 1 \<and> mbedtls_mpi_get_bit Y 69 = 0"
proof -
  have set: "\<exists>Y. mbedtls_mpi_set_bit demo_platform (mbedtls_mpi_init :: 64 word mpi) 70 1 = Inr Y"
    by (simp add: mbedtls_mpi_set_bit_def mbedtls_mpi_grow_def demo_platform_def Let_def)
  have "mbedtls_mpi_get_bit (mbedtls_mpi_init :: 64 word mpi) 69 = 0"
    by (simp add: mbedtls_mpi_get_bit_def)
  with set show ?thesis
    using get_bit_set_bit by fastforce
qed

end
