(* ===== verification/Bignum_Arith.thy ===== *)
theory Bignum_Arith
  imports Bignum_Core
begin

text \<open>
  Comparison, addition, subtraction and shifts of \<open>library/bignum.c\<close>, each proved to compute the
  operation of the integers on the values of its operands.
\<close>

section \<open>Comparison\<close>

fun cmp_limbs :: "'l::len word list \<Rightarrow> 'l word list \<Rightarrow> nat \<Rightarrow> int" where
  "cmp_limbs x y 0 = 0"
| "cmp_limbs x y (Suc i) =
     (if y ! i < x ! i then 1 else if x ! i < y ! i then - 1 else cmp_limbs x y i)"

definition mbedtls_mpi_cmp_abs :: "'l::len word mpi \<Rightarrow> 'l word mpi \<Rightarrow> int" where
  "mbedtls_mpi_cmp_abs X Y =
     (let i = used_limbs (mpi_p X) (mpi_n X); j = used_limbs (mpi_p Y) (mpi_n Y) in
      if i = 0 \<and> j = 0 then 0
      else if j < i then 1
      else if i < j then - 1
      else cmp_limbs (mpi_p X) (mpi_p Y) i)"

definition mbedtls_mpi_cmp_mpi :: "'l::len word mpi \<Rightarrow> 'l word mpi \<Rightarrow> int" where
  "mbedtls_mpi_cmp_mpi X Y =
     (let i = used_limbs (mpi_p X) (mpi_n X); j = used_limbs (mpi_p Y) (mpi_n Y) in
      if i = 0 \<and> j = 0 then 0
      else if j < i then mpi_s X
      else if i < j then - mpi_s Y
      else if 0 < mpi_s X \<and> mpi_s Y < 0 then 1
      else if 0 < mpi_s Y \<and> mpi_s X < 0 then - 1
      else mpi_s X * cmp_limbs (mpi_p X) (mpi_p Y) i)"

text \<open>The one-limb MPI that the functions with an integer argument build on their stack.\<close>

definition mpi_of_sint :: "'l::len word \<Rightarrow> 'l word mpi" where
  "mpi_of_sint z = \<lparr>mpi_s = sint_sign z, mpi_p = [sint_abs z]\<rparr>"

definition mbedtls_mpi_cmp_int :: "'l::len word mpi \<Rightarrow> 'l word \<Rightarrow> int" where
  "mbedtls_mpi_cmp_int X z = mbedtls_mpi_cmp_mpi X (mpi_of_sint z)"

section \<open>Addition and subtraction\<close>

text \<open>The first loop of \<open>mbedtls_mpi_add_abs\<close>.\<close>

fun add_limbs :: "'l::len word \<Rightarrow> 'l word list \<Rightarrow> 'l word list \<Rightarrow> 'l word list \<times> 'l word" where
  "add_limbs c (p # ps) (b # bs) =
     (let tmp = b;
          p = p + c; c = of_bool (p < c);
          p = p + tmp; c = c + of_bool (p < tmp);
          (ps, c) = add_limbs c ps bs in
      (p # ps, c))"
| "add_limbs c ps bs = ([], c)"

lemma grow_new_limb:
  assumes "mbedtls_mpi_grow M X (Suc i) = Inr Y"
  shows "i < mpi_n Y" "mpi_n X \<le> i \<Longrightarrow> mpi_p Y ! i = 0" "mpi_n X \<le> i \<Longrightarrow> mpi_n Y = Suc i"
proof -
  have p: "mpi_p Y = mpi_p X @ replicate (Suc i - mpi_n X) 0" "mpi_n Y = max (mpi_n X) (Suc i)"
    using grow_fact [OF assms] by blast+
  show "i < mpi_n Y" "mpi_n X \<le> i \<Longrightarrow> mpi_n Y = Suc i"
    unfolding p(2) by simp_all
  show "mpi_p Y ! i = 0" if "mpi_n X \<le> i"
    unfolding p(1) using that by (simp add: nth_append)
qed

text \<open>The loop that propagates the carry, growing the number when it runs out of limbs.\<close>

function add_carry :: "platform \<Rightarrow> 'l::len word mpi \<Rightarrow> nat \<Rightarrow> 'l word \<Rightarrow> mpi_error + 'l word mpi" where
  "add_carry M X i c =
     (if c = 0 then Inr X
      else
        and_then (if mpi_n X \<le> i then mbedtls_mpi_grow M X (i + 1) else Inr X) (\<lambda>X.
          let p = mpi_p X ! i + c in
          add_carry M (X\<lparr>mpi_p := (mpi_p X)[i := p]\<rparr>) (i + 1) (of_bool (p < c))))"
  by pat_completeness auto

termination
  by (relation "measure (\<lambda>(M, X, i, c). if c = 0 then 0 else Suc (mpi_n X - i))")
    (auto simp: Let_def not_le grow_new_limb split: if_splits)

declare add_carry.simps [simp del]

definition mbedtls_mpi_add_abs ::
  "platform \<Rightarrow> 'l::len word mpi \<Rightarrow> 'l word operand \<Rightarrow> 'l word operand \<Rightarrow> mpi_error + 'l word mpi" where
  "mbedtls_mpi_add_abs M X A B =
     (let (A, B) = (if B = Self then (Self, A) else (A, B)) in
      and_then (mbedtls_mpi_copy M X A) (\<lambda>X.
      let X = X\<lparr>mpi_s := 1\<rparr>;
          b = mpi_p (deref X B);
          j = used_limbs b (length b) in
      and_then (mbedtls_mpi_grow M X j) (\<lambda>X.
      let (low, c) = add_limbs 0 (take j (mpi_p X)) (take j b) in
      add_carry M (X\<lparr>mpi_p := low @ drop j (mpi_p X)\<rparr>) j c)))"

text \<open>\<open>mpi_sub_hlp\<close>: the limbs of the difference and the borrow.\<close>

fun mpi_sub_hlp :: "'l::len word \<Rightarrow> 'l word list \<Rightarrow> 'l word list \<Rightarrow> 'l word list \<times> 'l word" where
  "mpi_sub_hlp c (l # ls) (r # rs) =
     (let z = of_bool (l < c); t = l - c;
          c = of_bool (t < r) + z; d = t - r;
          (ds, c) = mpi_sub_hlp c ls rs in
      (d # ds, c))"
| "mpi_sub_hlp c ls rs = ([], c)"

text \<open>The loop that propagates the borrow; \<open>None\<close> when it runs out of limbs.\<close>

fun sub_borrow :: "'l::len word list \<Rightarrow> 'l word list option" where
  "sub_borrow [] = None"
| "sub_borrow (p # ps) =
     (if p = 0 then map_option (\<lambda>qs. (p - 1) # qs) (sub_borrow ps) else Some ((p - 1) # ps))"

definition mbedtls_mpi_sub_abs ::
  "platform \<Rightarrow> 'l::len word mpi \<Rightarrow> 'l word operand \<Rightarrow> 'l word operand \<Rightarrow> mpi_error + 'l word mpi" where
  "mbedtls_mpi_sub_abs M X A B =
     (let a = mpi_p (deref X A); b = mpi_p (deref X B);
          n = used_limbs b (length b) in
      if length a < n then Inl MBEDTLS_ERR_MPI_NEGATIVE_VALUE
      else
        and_then (mbedtls_mpi_grow M X (length a)) (\<lambda>X.
        let p = take n (mpi_p X) @ drop n a @ replicate (mpi_n X - length a) 0;
            (low, carry) = mpi_sub_hlp 0 (take n a) (take n b);
            p = low @ drop n p in
        if carry \<noteq> 0 then
          (case sub_borrow (drop n p) of
             None \<Rightarrow> Inl MBEDTLS_ERR_MPI_NEGATIVE_VALUE
           | Some high \<Rightarrow> Inr \<lparr>mpi_s = 1, mpi_p = take n p @ high\<rparr>)
        else Inr \<lparr>mpi_s = 1, mpi_p = p\<rparr>))"

definition mbedtls_mpi_add_mpi ::
  "platform \<Rightarrow> 'l::len word mpi \<Rightarrow> 'l word operand \<Rightarrow> 'l word operand \<Rightarrow> mpi_error + 'l word mpi" where
  "mbedtls_mpi_add_mpi M X A B =
     (let s = mpi_s (deref X A) in
      if mpi_s (deref X A) * mpi_s (deref X B) < 0 then
        if 0 \<le> mbedtls_mpi_cmp_abs (deref X A) (deref X B) then
          and_then (mbedtls_mpi_sub_abs M X A B) (\<lambda>X. Inr (X\<lparr>mpi_s := s\<rparr>))
        else
          and_then (mbedtls_mpi_sub_abs M X B A) (\<lambda>X. Inr (X\<lparr>mpi_s := - s\<rparr>))
      else
        and_then (mbedtls_mpi_add_abs M X A B) (\<lambda>X. Inr (X\<lparr>mpi_s := s\<rparr>)))"

definition mbedtls_mpi_sub_mpi ::
  "platform \<Rightarrow> 'l::len word mpi \<Rightarrow> 'l word operand \<Rightarrow> 'l word operand \<Rightarrow> mpi_error + 'l word mpi" where
  "mbedtls_mpi_sub_mpi M X A B =
     (let s = mpi_s (deref X A) in
      if 0 < mpi_s (deref X A) * mpi_s (deref X B) then
        if 0 \<le> mbedtls_mpi_cmp_abs (deref X A) (deref X B) then
          and_then (mbedtls_mpi_sub_abs M X A B) (\<lambda>X. Inr (X\<lparr>mpi_s := s\<rparr>))
        else
          and_then (mbedtls_mpi_sub_abs M X B A) (\<lambda>X. Inr (X\<lparr>mpi_s := - s\<rparr>))
      else
        and_then (mbedtls_mpi_add_abs M X A B) (\<lambda>X. Inr (X\<lparr>mpi_s := s\<rparr>)))"

definition mbedtls_mpi_add_int ::
  "platform \<Rightarrow> 'l::len word mpi \<Rightarrow> 'l word operand \<Rightarrow> 'l word \<Rightarrow> mpi_error + 'l word mpi" where
  "mbedtls_mpi_add_int M X A b = mbedtls_mpi_add_mpi M X A (Other (mpi_of_sint b))"

definition mbedtls_mpi_sub_int ::
  "platform \<Rightarrow> 'l::len word mpi \<Rightarrow> 'l word operand \<Rightarrow> 'l word \<Rightarrow> mpi_error + 'l word mpi" where
  "mbedtls_mpi_sub_int M X A b = mbedtls_mpi_sub_mpi M X A (Other (mpi_of_sint b))"

section \<open>Shifts\<close>

text \<open>
  The loops that move whole limbs; the index counts down (left shift) or up (right shift).  As \<open>biL\<close> is
  a power of two, \<open>count & (biL - 1)\<close> is the remainder.
\<close>

fun shift_up :: "nat \<Rightarrow> nat \<Rightarrow> 'l::len word list \<Rightarrow> 'l word list" where
  "shift_up v 0 p = p"
| "shift_up v (Suc i) p =
     (if v < Suc i then shift_up v i (p[i := p ! (i - v)]) else shift_up v i (p[i := 0]))"

fun shl_limbs :: "nat \<Rightarrow> 'l::len word \<Rightarrow> 'l word list \<Rightarrow> 'l word list" where
  "shl_limbs t r0 [] = []"
| "shl_limbs t r0 (x # xs) = (push_bit t x OR r0) # shl_limbs t (drop_bit (LENGTH('l) - t) x) xs"

definition mbedtls_mpi_shift_l :: "platform \<Rightarrow> 'l::len word mpi \<Rightarrow> nat \<Rightarrow> mpi_error + 'l word mpi" where
  "mbedtls_mpi_shift_l M X count =
     (let v0 = count div biL TYPE('l); t1 = count mod biL TYPE('l);
          i = (mbedtls_mpi_bitlen X + count) mod 2 ^ SIZE_BITS M in
      and_then
        (if mpi_n X * biL TYPE('l) < i then mbedtls_mpi_grow M X (BITS_TO_LIMBS TYPE('l) i) else Inr X)
        (\<lambda>X. let p = (if 0 < v0 then shift_up v0 (mpi_n X) (mpi_p X) else mpi_p X);
                 p = (if 0 < t1 then take v0 p @ shl_limbs t1 0 (drop v0 p) else p) in
             Inr (X\<lparr>mpi_p := p\<rparr>)))"

text \<open>The loop of the right shift: \<open>k\<close> counts the remaining indices.\<close>

fun shift_down :: "nat \<Rightarrow> nat \<Rightarrow> nat \<Rightarrow> 'l::len word list \<Rightarrow> 'l word list" where
  "shift_down v 0 i p = p"
| "shift_down v (Suc k) i p =
     (if i < length p - v then shift_down v k (Suc i) (p[i := p ! (i + v)])
      else shift_down v k (Suc i) (p[i := 0]))"

text \<open>The shift inside the limbs goes from the highest limb down; the second component is \<open>r0\<close>.\<close>

fun shr_limbs :: "nat \<Rightarrow> 'l::len word list \<Rightarrow> 'l word list \<times> 'l word" where
  "shr_limbs v [] = ([], 0)"
| "shr_limbs v (x # xs) =
     (let (ys, r0) = shr_limbs v xs; r1 = push_bit (LENGTH('l) - v) x in
      ((drop_bit v x OR r0) # ys, r1))"

definition mbedtls_mpi_shift_r :: "platform \<Rightarrow> 'l::len word mpi \<Rightarrow> nat \<Rightarrow> mpi_error + 'l word mpi" where
  "mbedtls_mpi_shift_r M X count =
     (let v0 = count div biL TYPE('l); v1 = count mod biL TYPE('l) in
      if mpi_n X < v0 \<or> (v0 = mpi_n X \<and> 0 < v1) then mbedtls_mpi_lset M X 0
      else
        let p = (if 0 < v0 then shift_down v0 (mpi_n X) 0 (mpi_p X) else mpi_p X);
            p = (if 0 < v1 then fst (shr_limbs v1 p) else p) in
        Inr (X\<lparr>mpi_p := p\<rparr>))"

section \<open>Comparison is comparison of the values\<close>

lemma limbs_val_take_Suc:
  fixes x :: "'l::len word list"
  assumes "i < length x"
  shows "limbs_val (take (Suc i) x) = limbs_val (take i x) + 2 ^ (LENGTH('l) * i) * unat (x ! i)"
  using assms by (simp add: take_Suc_conv_app_nth limbs_val_append)

lemma leading_digit_less:
  fixes u v a b B :: nat
  assumes "u < B" and "a < b"
  shows "u + B * a < v + B * b"
proof -
  have "u + B * a < B * Suc a"
    using assms(1) by simp
  also have "\<dots> \<le> B * b"
    using assms(2) by (intro mult_le_mono2) simp
  finally show ?thesis
    by simp
qed

lemma cmp_limbs_val:
  fixes x y :: "'l::len word list"
  assumes "i \<le> length x" and "i \<le> length y"
  shows "cmp_limbs x y i = sgn (int (limbs_val (take i x)) - int (limbs_val (take i y)))"
  using assms
proof (induction i)
  case (Suc i)
  let ?B = "2 ^ (LENGTH('l) * i) :: nat"
  have small: "limbs_val (take i x) < ?B" "limbs_val (take i y) < ?B"
    by (simp_all add: limbs_val_less_mono)
  have val: "limbs_val (take (Suc i) x) = limbs_val (take i x) + ?B * unat (x ! i)"
    "limbs_val (take (Suc i) y) = limbs_val (take i y) + ?B * unat (y ! i)"
    using Suc.prems by (simp_all add: limbs_val_take_Suc)
  consider "y ! i < x ! i" | "x ! i < y ! i" | "x ! i = y ! i"
    by (rule linorder_cases)
  then show ?case
  proof cases
    case 1
    then have "limbs_val (take (Suc i) y) < limbs_val (take (Suc i) x)"
      unfolding val by (intro leading_digit_less small) (simp add: word_less_nat_alt)
    then show ?thesis
      using 1 by simp
  next
    case 2
    then have "limbs_val (take (Suc i) x) < limbs_val (take (Suc i) y)"
      unfolding val by (intro leading_digit_less small) (simp add: word_less_nat_alt)
    then show ?thesis
      using 2 by auto
  next
    case 3
    then show ?thesis
      using Suc by (simp add: val)
  qed
qed simp

lemma used_limbs_mono:
  fixes x y :: "'l::len word list"
  assumes "used_limbs y (length y) < used_limbs x (length x)"
  shows "limbs_val y < limbs_val x"
proof -
  obtain k where k: "used_limbs x (length x) = Suc k" "used_limbs y (length y) \<le> k"
    using assms by (metis less_Suc_eq_le not_less_eq old.nat.exhaust zero_less_Suc not_less0)
  have "limbs_val y < 2 ^ (LENGTH('l) * used_limbs y (length y))"
    by (rule used_limbs_upper)
  also have "\<dots> \<le> 2 ^ (LENGTH('l) * k)"
    using k(2) by (intro power_increasing) simp_all
  also have "\<dots> \<le> limbs_val x"
    using k(1) by (rule used_limbs_lower)
  finally show ?thesis .
qed

lemma cmp_same_used:
  fixes X Y :: "'l::len word mpi"
  defines "i \<equiv> used_limbs (mpi_p X) (mpi_n X)"
  assumes "i = used_limbs (mpi_p Y) (mpi_n Y)"
  shows "cmp_limbs (mpi_p X) (mpi_p Y) i = sgn (int (mpi_abs X) - int (mpi_abs Y))"
    "i = 0 \<longleftrightarrow> mpi_abs X = 0" "i = 0 \<longleftrightarrow> mpi_abs Y = 0"
proof -
  have "i \<le> mpi_n X" "i \<le> mpi_n Y"
    using used_limbs_le [of "mpi_p X" "mpi_n X"] used_limbs_le [of "mpi_p Y" "mpi_n Y"] assms by metis+
  moreover have "limbs_val (take i (mpi_p X)) = mpi_abs X" "limbs_val (take i (mpi_p Y)) = mpi_abs Y"
    using assms take_used_limbs [of "mpi_p X" i] take_used_limbs [of "mpi_p Y" i] by (simp_all add: mpi_abs_def)
  ultimately show "cmp_limbs (mpi_p X) (mpi_p Y) i = sgn (int (mpi_abs X) - int (mpi_abs Y))"
    using cmp_limbs_val by metis
  show "i = 0 \<longleftrightarrow> mpi_abs X = 0" "i = 0 \<longleftrightarrow> mpi_abs Y = 0"
    using assms used_limbs_eq_0 by (metis mpi_abs_def)+
qed

lemma cmp_abs_val:
  "mbedtls_mpi_cmp_abs X Y = sgn (int (mpi_abs X) - int (mpi_abs Y))"
proof -
  let ?i = "used_limbs (mpi_p X) (mpi_n X)" and ?j = "used_limbs (mpi_p Y) (mpi_n Y)"
  consider "?j < ?i" | "?i < ?j" | "?i = ?j"
    by (rule linorder_cases)
  then show ?thesis
  proof cases
    case 1
    then show ?thesis
      using used_limbs_mono [OF 1] by (simp add: mbedtls_mpi_cmp_abs_def mpi_abs_def Let_def)
  next
    case 2
    then show ?thesis
      using used_limbs_mono [OF 2] by (simp add: mbedtls_mpi_cmp_abs_def mpi_abs_def Let_def)
  next
    case 3
    then show ?thesis
      using cmp_same_used [OF 3] by (auto simp: mbedtls_mpi_cmp_abs_def Let_def)
  qed
qed

definition has_sign :: "'l::len word mpi \<Rightarrow> bool" where
  "has_sign X \<longleftrightarrow> mpi_s X = 1 \<or> mpi_s X = - 1"

lemma sgn_dominates:
  fixes s t :: int and a b :: nat
  assumes "s = 1 \<or> s = - 1" and "t = 1 \<or> t = - 1" and "b < a"
  shows "sgn (s * int a - t * int b) = s" "sgn (t * int b - s * int a) = - s"
  using assms by auto

lemma cmp_mpi_val:
  assumes "has_sign X" and "has_sign Y"
  shows "mbedtls_mpi_cmp_mpi X Y = sgn (mpi_val X - mpi_val Y)"
proof -
  let ?i = "used_limbs (mpi_p X) (mpi_n X)" and ?j = "used_limbs (mpi_p Y) (mpi_n Y)"
  note s = assms [unfolded has_sign_def]
  consider "?j < ?i" | "?i < ?j" | "?i = ?j"
    by (rule linorder_cases)
  then show ?thesis
  proof cases
    case 1
    then show ?thesis
      using used_limbs_mono [OF 1] sgn_dominates [OF s] by (simp add: mbedtls_mpi_cmp_mpi_def mpi_val_def mpi_abs_def Let_def)
  next
    case 2
    then show ?thesis
      using used_limbs_mono [OF 2] sgn_dominates [OF s(2,1)] by (simp add: mbedtls_mpi_cmp_mpi_def mpi_val_def mpi_abs_def Let_def)
  next
    case 3
    then show ?thesis
      using s cmp_same_used [OF 3]
      by (auto simp: mbedtls_mpi_cmp_mpi_def mpi_val_def Let_def simp flip: sgn_minus)
  qed
qed

lemma mpi_of_sint_simps [simp]:
  "mpi_val (mpi_of_sint z) = sint z" "has_sign (mpi_of_sint z)" "mpi_n (mpi_of_sint z) = 1"
  "mpi_abs (mpi_of_sint z) = unat (sint_abs z)"
  using sint_abs_val [of z] sint_sign_cases [of z]
  by (simp_all add: mpi_of_sint_def mpi_val_def mpi_abs_def has_sign_def)

lemma cmp_int_val: "has_sign X \<Longrightarrow> mbedtls_mpi_cmp_int X z = sgn (mpi_val X - sint z)"
  by (simp add: mbedtls_mpi_cmp_int_def cmp_mpi_val)

section \<open>Addition\<close>

lemma add_carry_out:
  fixes x c :: "'l::len word"
  shows "unat (x + c) + 2 ^ LENGTH('l) * of_bool (x + c < c) = unat x + unat c"
proof (cases "unat x + unat c < 2 ^ LENGTH('l)")
  case True
  then have "unat (x + c) = unat x + unat c"
    by (simp add: unat_word_ariths(1))
  then show ?thesis
    by (simp add: word_less_nat_alt)
next
  case False
  then have "unat x + unat c - 2 ^ LENGTH('l) < 2 ^ LENGTH('l)"
    using limb_less [of x] limb_less [of c] by linarith
  then have "unat (x + c) = unat x + unat c - 2 ^ LENGTH('l)"
    using False by (simp add: unat_word_ariths(1) not_less le_mod_geq)
  moreover have "unat x + unat c - 2 ^ LENGTH('l) < unat c"
    using limb_less [of x] False by linarith
  ultimately show ?thesis
    using False by (simp add: word_less_nat_alt)
qed

lemma sub_borrow_out:
  fixes x c :: "'l::len word"
  shows "unat (x - c) + unat c = unat x + 2 ^ LENGTH('l) * of_bool (x < c)"
proof (cases "x < c")
  case True
  have "unat (x - c + c) + 2 ^ LENGTH('l) * of_bool (x - c + c < c) = unat (x - c) + unat c"
    by (rule add_carry_out)
  then show ?thesis
    using True by simp
next
  case False
  have "unat (x - c + c) + 2 ^ LENGTH('l) * of_bool (x - c + c < c) = unat (x - c) + unat c"
    by (rule add_carry_out)
  then show ?thesis
    using False by simp
qed

lemma unat_of_bool: "unat (of_bool P :: 'l::len word) = of_bool P"
  by (cases P) simp_all

lemma of_bool_sum:
  assumes "of_bool P + of_bool Q \<le> (1 :: nat)"
  shows "unat (of_bool P + of_bool Q :: 'l::len word) = of_bool P + of_bool Q"
  using assms by (cases P; cases Q) simp_all

text \<open>One step of a carry chain, in numbers.\<close>

lemma carry_chain:
  fixes q p b c k R P S T c' B :: nat
  assumes "q + B * k = p + b + c" and "R + P * c' = S + T + k"
  shows "(q + B * R) + (B * P) * c' = (p + B * S) + (b + B * T) + c"
proof -
  have "B * (R + P * c') = B * (S + T + k)"
    using assms(2) by simp
  then have "B * R + (B * P) * c' = B * S + B * T + B * k"
    by (simp add: algebra_simps)
  then show ?thesis
    using assms(1) by linarith
qed

lemma carry_update:
  fixes W P z X p B k c :: nat
  assumes "W + P * z = X + P * p" and "p + B * k = z + c"
  shows "W + (P * B) * k = X + P * c"
proof -
  have "P * (p + B * k) = P * (z + c)"
    using assms(2) by simp
  then have "P * p + (P * B) * k = P * z + P * c"
    by (simp add: distrib_left mult.assoc)
  then show ?thesis
    using assms(1) by linarith
qed

lemma add_limbs_val:
  fixes ps bs :: "'l::len word list"
  assumes "length ps = length bs" and "unat c \<le> 1" and "add_limbs c ps bs = (qs, c')"
  shows "limbs_val qs + 2 ^ (LENGTH('l) * length bs) * unat c' = limbs_val ps + limbs_val bs + unat c \<and>
    unat c' \<le> 1 \<and> length qs = length bs"
  using assms
proof (induction c ps bs arbitrary: qs c' rule: add_limbs.induct)
  case (1 c p ps b bs)
  let ?B = "2 ^ LENGTH('l) :: nat"
  let ?c1 = "of_bool (p + c < c) :: nat" and ?c2 = "of_bool (p + c + b < b) :: nat"
  let ?q = "p + c + b" and ?c = "of_bool (p + c < c) + of_bool (p + c + b < b) :: 'l word"
  have q: "unat ?q + ?B * (?c1 + ?c2) = unat p + unat c + unat b"
    using add_carry_out [of p c] add_carry_out [of "p + c" b] by (simp add: algebra_simps)
  also have "\<dots> < ?B * 2"
    using limb_less [of p] limb_less [of b] "1.prems"(2) by linarith
  finally have "?c1 + ?c2 < 2"
    by (metis add_lessD1 add.commute mult_less_cancel1)
  then have le: "?c1 + ?c2 \<le> 1"
    by linarith
  have c1: "unat ?c = ?c1 + ?c2"
    by (rule of_bool_sum [OF le])
  have c2: "unat ?c \<le> 1"
    unfolding c1 by (rule le)
  obtain qs' where qs': "add_limbs ?c ps bs = (qs', c')" "qs = ?q # qs'"
    using "1.prems"(3) by (auto simp: Let_def split: prod.splits)
  have "limbs_val qs' + 2 ^ (LENGTH('l) * length bs) * unat c' = limbs_val ps + limbs_val bs + unat ?c \<and>
      unat c' \<le> 1 \<and> length qs' = length bs"
    using "1.IH" [OF refl refl refl refl refl _ c2 qs'(1)] "1.prems"(1) by simp
  then have rest: "limbs_val qs' + 2 ^ (LENGTH('l) * length bs) * unat c' =
      limbs_val ps + limbs_val bs + (?c1 + ?c2)" "unat c' \<le> 1" "length qs' = length bs"
    unfolding c1 by blast+
  have "unat ?q + ?B * (?c1 + ?c2) = unat p + unat b + unat c"
    using q by simp
  from carry_chain [OF this rest(1)] show ?case
    using rest(2,3) qs'(2) by (simp only: limbs_val.simps length_Cons mult_Suc_right power_add simp_thms)
qed simp_all

lemma limbs_val_update:
  fixes p :: "'l::len word list"
  assumes "i < length p"
  shows "limbs_val (p[i := x]) + 2 ^ (LENGTH('l) * i) * unat (p ! i) =
    limbs_val p + 2 ^ (LENGTH('l) * i) * unat x"
  using assms
proof (induction p arbitrary: i)
  case (Cons a p)
  show ?case
  proof (cases i)
    case (Suc j)
    then have "2 ^ LENGTH('l) * (limbs_val (p[j := x]) + 2 ^ (LENGTH('l) * j) * unat (p ! j)) =
        2 ^ LENGTH('l) * (limbs_val p + 2 ^ (LENGTH('l) * j) * unat x)"
      using Cons.IH [of j] Cons.prems by simp
    then show ?thesis
      using Suc by (simp add: distrib_left power_add ac_simps)
  qed simp
qed simp

lemma add_carry_val:
  fixes X :: "'l::len word mpi"
  assumes "add_carry M X i c = Inr Y" and "i \<le> mpi_n X" and "unat c \<le> 1"
  shows "mpi_abs Y = mpi_abs X + 2 ^ (LENGTH('l) * i) * unat c" "mpi_s Y = mpi_s X"
    "mpi_n X \<le> mpi_n Y" "mpi_n Y \<le> mpi_n X + 1"
proof -
  have "mpi_abs Y = mpi_abs X + 2 ^ (LENGTH('l) * i) * unat c \<and> mpi_s Y = mpi_s X \<and>
    mpi_n X \<le> mpi_n Y \<and> mpi_n Y \<le> (if i < mpi_n X \<or> c \<noteq> 0 then mpi_n X + 1 else mpi_n X)"
    using assms
  proof (induction M X i c rule: add_carry.induct)
    case (1 M X i c)
    show ?case
    proof (cases "c = 0")
      case True
      then show ?thesis
        using "1.prems"(1) by (simp add: add_carry.simps)
    next
      case False
      then have c: "c = 1"
        using "1.prems"(3) by (metis le_SucE le_zero_eq unat_eq_0 One_nat_def word_unat_eq_iff unsigned_1)
      obtain Z where Z: "(if mpi_n X \<le> i then mbedtls_mpi_grow M X (i + 1) else Inr X) = Inr Z"
        using "1.prems"(1) False by (subst (asm) add_carry.simps) (auto simp: outcome_simps)
      let ?p = "mpi_p Z ! i + c" and ?W = "Z\<lparr>mpi_p := (mpi_p Z)[i := mpi_p Z ! i + c]\<rparr>"
      let ?c = "of_bool (?p < c) :: 'l word"
      have Y: "add_carry M ?W (i + 1) ?c = Inr Y"
        using "1.prems"(1) False Z by (subst (asm) add_carry.simps) (simp add: Let_def)
      have n: "i < mpi_n Z" "mpi_abs Z = mpi_abs X" "mpi_s Z = mpi_s X"
        "mpi_n Z = (if mpi_n X \<le> i then Suc i else mpi_n X)" "mpi_n X \<le> i \<Longrightarrow> mpi_p Z ! i = 0"
        using Z grow_new_limb [of M X i Z] grow_fact [of M X "Suc i" Z] by (auto split: if_splits)
      have upd: "mpi_abs ?W + 2 ^ (LENGTH('l) * i) * unat (mpi_p Z ! i) =
          mpi_abs X + 2 ^ (LENGTH('l) * i) * unat ?p"
        using limbs_val_update [OF n(1), of ?p] n(2) by (simp add: mpi_abs_def)
      have step: "unat ?p + 2 ^ LENGTH('l) * unat ?c = unat (mpi_p Z ! i) + unat c"
        using add_carry_out [of "mpi_p Z ! i" c] by (simp only: unat_of_bool)
      have W: "mpi_abs ?W + 2 ^ (LENGTH('l) * (i + 1)) * unat ?c =
          mpi_abs X + 2 ^ (LENGTH('l) * i) * unat c"
        unfolding distrib_left mult_1_right power_add by (rule carry_update [OF upd step])
      have "mpi_abs Y = mpi_abs ?W + 2 ^ (LENGTH('l) * (i + 1)) * unat ?c \<and> mpi_s Y = mpi_s ?W \<and>
          mpi_n ?W \<le> mpi_n Y \<and> mpi_n Y \<le> (if i + 1 < mpi_n ?W \<or> ?c \<noteq> 0 then mpi_n ?W + 1 else mpi_n ?W)"
        using n(1) by (intro "1.IH" [OF False Z refl Y]) simp_all
      moreover have "?c = 0" if "mpi_n X \<le> i"
        using n(5) [OF that] c by simp
      ultimately show ?thesis
        using W n(3,4) False "1.prems"(2) by (auto split: if_splits)
    qed
  qed
  then show "mpi_abs Y = mpi_abs X + 2 ^ (LENGTH('l) * i) * unat c" "mpi_s Y = mpi_s X"
    "mpi_n X \<le> mpi_n Y" "mpi_n Y \<le> mpi_n X + 1"
    by (auto split: if_splits)
qed

lemma add_carry_succeeds:
  fixes X :: "'l::len word mpi"
  assumes "plenty M (mpi_n X + 1)" and "i \<le> mpi_n X"
  shows "\<exists>Y. add_carry M X i c = Inr Y"
  using assms
proof (induction M X i c rule: add_carry.induct)
  case (1 M X i c)
  show ?case
  proof (cases "c = 0")
    case False
    show ?thesis
    proof (cases "mpi_n X \<le> i")
      case True
      then have "i = mpi_n X"
        using "1.prems"(2) by simp
      obtain Z where Z: "mbedtls_mpi_grow M X (i + 1) = Inr Z"
        using grow_succeeds "1.prems"(1) \<open>i = mpi_n X\<close> by blast
      have zero: "mpi_p Z ! i = 0"
        using grow_new_limb [of M X i Z] Z True by simp
      show ?thesis
        using True False Z zero
        by (subst add_carry.simps) (simp add: Let_def, subst add_carry.simps, simp)
    next
      case in_range: False
      have "\<exists>Y. add_carry M (X\<lparr>mpi_p := (mpi_p X)[i := mpi_p X ! i + c]\<rparr>) (i + 1)
          (of_bool (mpi_p X ! i + c < c)) = Inr Y"
        using in_range "1.prems" by (intro "1.IH" [OF False _ refl]) simp_all
      then show ?thesis
        using in_range False by (subst add_carry.simps) (simp add: Let_def)
    qed
  qed (simp add: add_carry.simps)
qed

lemma copy_deref:
  assumes "mbedtls_mpi_copy M X A = Inr Y"
  shows "mpi_abs Y = mpi_abs (deref X A)" "mpi_val Y = mpi_val (deref X A)" "mpi_n X \<le> mpi_n Y"
    "mpi_n Y \<le> max (mpi_n X) (mpi_n (deref X A))"
proof -
  have "mpi_abs Y = mpi_abs (deref X A) \<and> mpi_val Y = mpi_val (deref X A) \<and> mpi_n X \<le> mpi_n Y \<and>
    mpi_n Y \<le> max (mpi_n X) (mpi_n (deref X A))"
  proof (cases A)
    case (Other B)
    show ?thesis
      using copy_fact [OF assms [unfolded Other]] by (simp add: Other)
  qed (use assms in simp)
  then show "mpi_abs Y = mpi_abs (deref X A)" "mpi_val Y = mpi_val (deref X A)" "mpi_n X \<le> mpi_n Y"
    "mpi_n Y \<le> max (mpi_n X) (mpi_n (deref X A))"
    by simp_all
qed

lemma copy_deref_succeeds: "plenty M (mpi_n (deref X A)) \<Longrightarrow> \<exists>Y. mbedtls_mpi_copy M X A = Inr Y"
  using copy_succeeds by (cases A) auto

text \<open>The part of \<open>mbedtls_mpi_add_abs\<close> behind the copy.\<close>

lemma add_abs_core:
  fixes X Y :: "'l::len word mpi" and b :: "'l word list"
  defines "j \<equiv> used_limbs b (length b)"
  assumes X: "mbedtls_mpi_grow M X j = Inr Z" and add: "add_limbs 0 (take j (mpi_p Z)) (take j b) = (low, c)"
    and carry: "add_carry M (Z\<lparr>mpi_p := low @ drop j (mpi_p Z)\<rparr>) j c = Inr Y"
  shows "mpi_abs Y = mpi_abs X + limbs_val b" "mpi_s Y = mpi_s X"
    "mpi_n X \<le> mpi_n Y" "mpi_n Y \<le> max (mpi_n X) (length b) + 1"
proof -
  let ?W = "Z\<lparr>mpi_p := low @ drop j (mpi_p Z)\<rparr>"
  have j: "j \<le> length b" "j \<le> mpi_n Z" "mpi_n Z = max (mpi_n X) j"
    using used_limbs_le [of b] grow_fact [OF X] by (simp_all add: j_def)
  have lens: "length (take j (mpi_p Z)) = j" "length (take j b) = j"
    using j by simp_all
  have low: "limbs_val low + 2 ^ (LENGTH('l) * j) * unat c = limbs_val (take j (mpi_p Z)) + limbs_val (take j b)"
    "unat c \<le> 1" "length low = j"
    using add_limbs_val [OF _ _ add] unfolding lens by simp_all
  have "limbs_val (take j b) = limbs_val b"
    using take_used_limbs [of b j] by (simp add: j_def)
  moreover have "mpi_abs Z = limbs_val (take j (mpi_p Z)) + 2 ^ (LENGTH('l) * j) * limbs_val (drop j (mpi_p Z))"
    using limbs_val_take_drop [OF j(2)] by (simp add: mpi_abs_def)
  moreover have "mpi_abs ?W = limbs_val low + 2 ^ (LENGTH('l) * j) * limbs_val (drop j (mpi_p Z))"
    using low(3) by (simp add: mpi_abs_def limbs_val_append)
  moreover note add_carry_val [OF carry _ low(2)]
  ultimately show "mpi_abs Y = mpi_abs X + limbs_val b" "mpi_s Y = mpi_s X"
    "mpi_n X \<le> mpi_n Y" "mpi_n Y \<le> max (mpi_n X) (length b) + 1"
    using low j grow_fact [OF X] by simp_all
qed

lemma add_abs_fact:
  fixes X Y :: "'l::len word mpi"
  assumes "mbedtls_mpi_add_abs M X A B = Inr Y"
  shows "mpi_abs Y = mpi_abs (deref X A) + mpi_abs (deref X B)" "mpi_s Y = 1" "mpi_n X \<le> mpi_n Y"
    "mpi_n Y \<le> max (mpi_n X) (max (mpi_n (deref X A)) (mpi_n (deref X B))) + 1"
proof -
  obtain A' B' where swap: "(if B = Self then (Self, A) else (A, B)) = (A', B')"
    by fastforce
  have self: "B' = Self \<Longrightarrow> A' = Self" and sum: "mpi_abs (deref X A) + mpi_abs (deref X B) =
      mpi_abs (deref X A') + mpi_abs (deref X B')"
    "max (mpi_n (deref X A)) (mpi_n (deref X B)) = max (mpi_n (deref X A')) (mpi_n (deref X B'))"
    using swap by (auto split: if_splits)
  obtain C where C: "mbedtls_mpi_copy M X A' = Inr C"
    using assms unfolding mbedtls_mpi_add_abs_def swap by (auto simp: outcome_simps)
  let ?C = "C\<lparr>mpi_s := 1\<rparr>" and ?b = "mpi_p (deref (C\<lparr>mpi_s := 1\<rparr>) B')"
  have b: "?b = mpi_p (deref X B')"
    using self C by (cases B') auto
  let ?j = "used_limbs ?b (length ?b)"
  obtain Z where Z: "mbedtls_mpi_grow M ?C ?j = Inr Z"
    using assms C unfolding mbedtls_mpi_add_abs_def swap by (auto simp: outcome_simps Let_def)
  obtain low c where low: "add_limbs 0 (take ?j (mpi_p Z)) (take ?j ?b) = (low, c)"
    by fastforce
  have "add_carry M (Z\<lparr>mpi_p := low @ drop ?j (mpi_p Z)\<rparr>) ?j c = Inr Y"
    using assms C Z low unfolding mbedtls_mpi_add_abs_def swap by (simp add: Let_def)
  note core = add_abs_core [OF Z low this]
  have C_abs: "mpi_abs ?C = mpi_abs (deref X A')"
    using copy_deref(1) [OF C] by (simp add: mpi_abs_def)
  show "mpi_abs Y = mpi_abs (deref X A) + mpi_abs (deref X B)"
    using core(1) unfolding C_abs b sum by (simp add: mpi_abs_def)
  show "mpi_s Y = 1" "mpi_n X \<le> mpi_n Y"
    "mpi_n Y \<le> max (mpi_n X) (max (mpi_n (deref X A)) (mpi_n (deref X B))) + 1"
    using core(2-4) copy_deref(3,4) [OF C] unfolding b sum by simp_all
qed

lemma add_abs_succeeds:
  fixes X :: "'l::len word mpi"
  assumes "plenty M (max (mpi_n X) (max (mpi_n (deref X A)) (mpi_n (deref X B))) + 1)"
  shows "\<exists>Y. mbedtls_mpi_add_abs M X A B = Inr Y"
proof -
  obtain A' B' where swap: "(if B = Self then (Self, A) else (A, B)) = (A', B')"
    by fastforce
  have self: "B' = Self \<Longrightarrow> A' = Self" and sum:
    "max (mpi_n (deref X A)) (mpi_n (deref X B)) = max (mpi_n (deref X A')) (mpi_n (deref X B'))"
    using swap by (auto split: if_splits)
  have "plenty M (mpi_n (deref X A'))"
    using assms unfolding sum by (rule plenty_mono) simp
  then obtain C where C: "mbedtls_mpi_copy M X A' = Inr C"
    using copy_deref_succeeds by blast
  let ?C = "C\<lparr>mpi_s := 1\<rparr>" and ?b = "mpi_p (deref (C\<lparr>mpi_s := 1\<rparr>) B')"
  let ?j = "used_limbs ?b (length ?b)"
  have b: "?b = mpi_p (deref X B')"
    using self C by (cases B') auto
  have j: "?j \<le> mpi_n (deref X B')"
    using used_limbs_le [of ?b "length ?b"] by (simp only: b)
  then have "plenty M ?j"
    using assms unfolding sum by (elim plenty_mono) simp
  then obtain Z where Z: "mbedtls_mpi_grow M ?C ?j = Inr Z"
    using grow_succeeds by blast
  obtain low c where low: "add_limbs 0 (take ?j (mpi_p Z)) (take ?j ?b) = (low, c)"
    by fastforce
  have "?j \<le> mpi_n Z" "mpi_n Z = max (mpi_n C) ?j"
    using grow_fact(3) [OF Z] by simp_all
  moreover have "length low = ?j"
    using add_limbs_val [OF _ _ low] calculation(1) used_limbs_le [of ?b "length ?b"] by simp
  ultimately have "\<exists>Y. add_carry M (Z\<lparr>mpi_p := low @ drop ?j (mpi_p Z)\<rparr>) ?j c = Inr Y"
    using assms copy_deref(4) [OF C] j unfolding sum
    by (intro add_carry_succeeds) (auto elim!: plenty_mono)
  then show ?thesis
    using C Z low unfolding mbedtls_mpi_add_abs_def swap by (auto simp: Let_def)
qed

section \<open>Subtraction\<close>

lemma sub_hlp_val:
  fixes ls rs :: "'l::len word list"
  assumes "length ls = length rs" and "unat c \<le> 1" and "mpi_sub_hlp c ls rs = (ds, c')"
  shows "limbs_val ds + limbs_val rs + unat c = limbs_val ls + 2 ^ (LENGTH('l) * length rs) * unat c' \<and>
    unat c' \<le> 1 \<and> length ds = length rs"
  using assms
proof (induction c ls rs arbitrary: ds c' rule: mpi_sub_hlp.induct)
  case (1 c l ls r rs)
  let ?B = "2 ^ LENGTH('l) :: nat"
  let ?z = "of_bool (l < c) :: nat" and ?w = "of_bool (l - c < r) :: nat"
  let ?d = "l - c - r" and ?c = "of_bool (l - c < r) + of_bool (l < c) :: 'l word"
  have d: "unat ?d + unat r + unat c = unat l + ?B * (?w + ?z)"
    using sub_borrow_out [of l c] sub_borrow_out [of "l - c" r] by (simp add: algebra_simps)
  have "unat ?d + unat r + unat c < ?B * 2"
    using limb_less [of ?d] limb_less [of r] "1.prems"(2) by linarith
  then have "?B * (?w + ?z) < ?B * 2"
    unfolding d by linarith
  then have le: "?w + ?z \<le> 1"
    by (simp only: mult_less_cancel1) linarith
  have c1: "unat ?c = ?w + ?z"
    by (rule of_bool_sum [OF le])
  have c2: "unat ?c \<le> 1"
    unfolding c1 by (rule le)
  obtain ds' where ds': "mpi_sub_hlp ?c ls rs = (ds', c')" "ds = ?d # ds'"
    using "1.prems"(3) by (auto simp: Let_def split: prod.splits)
  have "limbs_val ds' + limbs_val rs + unat ?c = limbs_val ls + 2 ^ (LENGTH('l) * length rs) * unat c' \<and>
      unat c' \<le> 1 \<and> length ds' = length rs"
    by (rule "1.IH" [OF refl refl refl refl _ c2 ds'(1)]) (use "1.prems"(1) in simp)
  then have rest: "limbs_val ls + 2 ^ (LENGTH('l) * length rs) * unat c' = limbs_val ds' + limbs_val rs + (?w + ?z)"
    "unat c' \<le> 1" "length ds' = length rs"
    unfolding c1 by simp_all
  have "unat l + ?B * (?w + ?z) = unat ?d + unat r + unat c"
    using d by simp
  from carry_chain [OF this rest(1)]
  have "unat ?d + ?B * limbs_val ds' + (unat r + ?B * limbs_val rs) + unat c =
      unat l + ?B * limbs_val ls + ?B * 2 ^ (LENGTH('l) * length rs) * unat c'"
    by simp
  then show ?case
    using rest(2,3) ds'(2) by (simp only: limbs_val.simps length_Cons mult_Suc_right power_add simp_thms)
qed simp_all

lemma sub_borrow_val:
  "sub_borrow ps = Some qs \<Longrightarrow> limbs_val qs + 1 = limbs_val ps \<and> length qs = length ps"
proof (induction ps arbitrary: qs)
  case (Cons p ps)
  show ?case
  proof (cases "p = 0")
    case True
    then obtain rs where "sub_borrow ps = Some rs" "qs = - 1 # rs"
      using Cons.prems by auto
    moreover have "limbs_val ps = Suc (limbs_val rs)" "length rs = length ps"
      using Cons.IH [of rs] calculation(1) by simp_all
    ultimately show ?thesis
      using True by (simp add: unsigned_minus_1_eq_mask mask_eq_exp_minus_1)
  next
    case False
    then have "0 < unat p" "unat (p - 1) = unat p - 1"
      using unat_minus_one by (simp_all add: unat_eq_0 neq0_conv [symmetric] del: neq0_conv)
    then show ?thesis
      using Cons.prems False by auto
  qed
qed simp

lemma sub_borrow_None: "sub_borrow ps = None \<longleftrightarrow> limbs_val ps = 0"
  by (induction ps) (auto simp: unat_eq_0)

lemma sub_abs_fact:
  fixes X Y :: "'l::len word mpi"
  assumes "mbedtls_mpi_sub_abs M X A B = Inr Y"
  shows "mpi_abs Y + mpi_abs (deref X B) = mpi_abs (deref X A)" "mpi_s Y = 1"
    "mpi_n Y = max (mpi_n X) (mpi_n (deref X A))"
proof -
  let ?a = "mpi_p (deref X A)" and ?b = "mpi_p (deref X B)"
  let ?n = "used_limbs ?b (length ?b)" and ?P = "2 ^ (LENGTH('l) * used_limbs ?b (length ?b)) :: nat"
  have n: "?n \<le> length ?a" "?n \<le> length ?b"
    using assms used_limbs_le [of ?b "length ?b"] by (auto simp: mbedtls_mpi_sub_abs_def Let_def split: if_splits)
  obtain Z where Z: "mbedtls_mpi_grow M X (length ?a) = Inr Z"
    using assms n by (auto simp: mbedtls_mpi_sub_abs_def Let_def outcome_simps not_less)
  have nZ: "mpi_n Z = max (mpi_n X) (length ?a)"
    using grow_fact(3) [OF Z] .
  obtain low c where low: "mpi_sub_hlp 0 (take ?n ?a) (take ?n ?b) = (low, c)"
    by fastforce
  have lens: "length (take ?n ?a) = ?n" "length (take ?n ?b) = ?n"
    using n by simp_all
  have v: "limbs_val low + mpi_abs (deref X B) = limbs_val (take ?n ?a) + ?P * unat c" "unat c \<le> 1" "length low = ?n"
    using sub_hlp_val [OF _ _ low] take_used_limbs [of ?b ?n] unfolding lens by (simp_all add: mpi_abs_def)
  have a: "mpi_abs (deref X A) = limbs_val (take ?n ?a) + ?P * limbs_val (drop ?n ?a)"
    using limbs_val_take_drop [OF n(1)] by (simp add: mpi_abs_def)
  let ?high = "drop ?n ?a @ replicate (mpi_n Z - length ?a) 0"
  have drops: "drop ?n (take ?n (mpi_p Z) @ r) = r" "drop ?n (low @ r) = r" "take ?n (low @ r) = low" for r
    using n(1) nZ v(3) by simp_all
  have Y: "(if c \<noteq> 0 then case sub_borrow ?high of None \<Rightarrow> Inl MBEDTLS_ERR_MPI_NEGATIVE_VALUE
       | Some high \<Rightarrow> Inr \<lparr>mpi_s = 1, mpi_p = low @ high\<rparr>
     else Inr \<lparr>mpi_s = 1, mpi_p = low @ ?high\<rparr>) = Inr Y"
    using assms n(1) Z low
    by (simp add: mbedtls_mpi_sub_abs_def Let_def not_less drops del: drop_append take_append cong: if_cong option.case_cong)
  show "mpi_abs Y + mpi_abs (deref X B) = mpi_abs (deref X A)" "mpi_s Y = 1"
    "mpi_n Y = max (mpi_n X) (mpi_n (deref X A))"
  proof -
    have "mpi_abs Y + mpi_abs (deref X B) = mpi_abs (deref X A) \<and> mpi_s Y = 1 \<and>
      mpi_n Y = max (mpi_n X) (mpi_n (deref X A))"
    proof (cases "c = 0")
      case True
      then have "Y = \<lparr>mpi_s = 1, mpi_p = low @ ?high\<rparr>"
        using Y by simp
      moreover have "length (low @ ?high) = max (mpi_n X) (mpi_n (deref X A))"
        using v(3) n nZ by simp
      ultimately show ?thesis
        using True v a by (simp add: mpi_abs_def limbs_val_append)
    next
      case False
      then obtain high where high: "sub_borrow ?high = Some high" "Y = \<lparr>mpi_s = 1, mpi_p = low @ high\<rparr>"
        using Y by (auto split: option.splits)
      have "unat c = 1"
        using v(2) False by (metis le_SucE le_zero_eq unat_eq_0 One_nat_def)
      moreover have "limbs_val high + 1 = limbs_val (drop ?n ?a)" "length high = length ?high"
        using sub_borrow_val [OF high(1)] by simp_all
      then have "?P * limbs_val (drop ?n ?a) = ?P * limbs_val high + ?P"
        by (metis distrib_left mult_1_right)
      ultimately show ?thesis
        using v a high(2) n nZ \<open>length high = length ?high\<close> by (simp add: mpi_abs_def limbs_val_append)
    qed
    then show "mpi_abs Y + mpi_abs (deref X B) = mpi_abs (deref X A)" "mpi_s Y = 1"
      "mpi_n Y = max (mpi_n X) (mpi_n (deref X A))"
      by simp_all
  qed
qed

lemma sub_abs_error:
  fixes X :: "'l::len word mpi"
  assumes "mbedtls_mpi_sub_abs M X A B = Inl e" and "plenty M (mpi_n (deref X A))"
  shows "e = MBEDTLS_ERR_MPI_NEGATIVE_VALUE \<and> mpi_abs (deref X A) < mpi_abs (deref X B)"
proof -
  let ?a = "mpi_p (deref X A)" and ?b = "mpi_p (deref X B)"
  let ?n = "used_limbs ?b (length ?b)" and ?P = "2 ^ (LENGTH('l) * used_limbs ?b (length ?b)) :: nat"
  show ?thesis
  proof (cases "length ?a < ?n")
    case True
    then have "used_limbs ?a (length ?a) < ?n"
      using used_limbs_le [of ?a "length ?a"] by simp
    then show ?thesis
      using True assms(1) used_limbs_mono [of ?a ?b] by (simp add: mbedtls_mpi_sub_abs_def mpi_abs_def)
  next
    case False
    then have n: "?n \<le> length ?a" "?n \<le> length ?b"
      using used_limbs_le [of ?b "length ?b"] by simp_all
    obtain Z where Z: "mbedtls_mpi_grow M X (length ?a) = Inr Z"
      using grow_succeeds [OF assms(2)] by blast
    have nZ: "mpi_n Z = max (mpi_n X) (length ?a)"
      using grow_fact(3) [OF Z] .
    obtain low c where low: "mpi_sub_hlp 0 (take ?n ?a) (take ?n ?b) = (low, c)"
      by fastforce
    have lens: "length (take ?n ?a) = ?n" "length (take ?n ?b) = ?n"
      using n by simp_all
    have v: "limbs_val low + mpi_abs (deref X B) = limbs_val (take ?n ?a) + ?P * unat c" "length low = ?n"
      using sub_hlp_val [OF _ _ low] take_used_limbs [of ?b ?n] unfolding lens by (simp_all add: mpi_abs_def)
    let ?high = "drop ?n ?a @ replicate (mpi_n Z - length ?a) 0"
    have drops: "drop ?n (take ?n (mpi_p Z) @ r) = r" "drop ?n (low @ r) = r" "take ?n (low @ r) = low" for r
      using n(1) nZ v(2) by simp_all
    have "(if c \<noteq> 0 then case sub_borrow ?high of None \<Rightarrow> Inl MBEDTLS_ERR_MPI_NEGATIVE_VALUE
         | Some high \<Rightarrow> Inr \<lparr>mpi_s = 1, mpi_p = low @ high\<rparr>
       else Inr \<lparr>mpi_s = 1, mpi_p = low @ ?high\<rparr>) = Inl e"
      using assms(1) n(1) Z low
      by (simp add: mbedtls_mpi_sub_abs_def Let_def not_less drops del: drop_append take_append
          cong: if_cong option.case_cong)
    then have e: "e = MBEDTLS_ERR_MPI_NEGATIVE_VALUE" "c \<noteq> 0" "sub_borrow ?high = None"
      by (auto split: if_splits option.splits)
    then have "limbs_val (drop ?n ?a) = 0"
      by (simp add: sub_borrow_None)
    then have a: "mpi_abs (deref X A) = limbs_val (take ?n ?a)"
      using limbs_val_take_drop [OF n(1)] by (simp add: mpi_abs_def)
    have "limbs_val low < ?P"
      using limbs_val_less [of low] v(2) by simp
    moreover have "unat c \<noteq> 0"
      using e(2) by (simp add: unat_eq_0)
    then have "?P \<le> ?P * unat c"
      by simp
    ultimately show ?thesis
      using v(1) a e(1) by linarith
  qed
qed

lemma sub_abs_succeeds:
  assumes "plenty M (mpi_n (deref X A))" and "mpi_abs (deref X B) \<le> mpi_abs (deref X A)"
  shows "\<exists>Y. mbedtls_mpi_sub_abs M X A B = Inr Y"
  using sub_abs_error [OF _ assms(1), of B] assms(2) by (cases "mbedtls_mpi_sub_abs M X A B") fastforce+

section \<open>Signed addition and subtraction\<close>

lemma set_sign_simps [simp]:
  "mpi_val (X\<lparr>mpi_s := s\<rparr>) = s * int (mpi_abs X)" "mpi_abs (X\<lparr>mpi_s := s\<rparr>) = mpi_abs X"
  by (simp_all add: mpi_val_def mpi_abs_def)

text \<open>The common shape of the two: \<open>opposite\<close> tells whether the magnitudes are subtracted.\<close>

definition signed_sum ::
  "platform \<Rightarrow> bool \<Rightarrow> 'l::len word mpi \<Rightarrow> 'l word operand \<Rightarrow> 'l word operand \<Rightarrow> mpi_error + 'l word mpi" where
  "signed_sum M opposite X A B =
     (let s = mpi_s (deref X A) in
      if opposite then
        if 0 \<le> mbedtls_mpi_cmp_abs (deref X A) (deref X B) then
          and_then (mbedtls_mpi_sub_abs M X A B) (\<lambda>X. Inr (X\<lparr>mpi_s := s\<rparr>))
        else
          and_then (mbedtls_mpi_sub_abs M X B A) (\<lambda>X. Inr (X\<lparr>mpi_s := - s\<rparr>))
      else
        and_then (mbedtls_mpi_add_abs M X A B) (\<lambda>X. Inr (X\<lparr>mpi_s := s\<rparr>)))"

lemma signed_sum_fact:
  fixes X Y :: "'l::len word mpi"
  assumes "signed_sum M opposite X A B = Inr Y" and "has_sign (deref X A)"
  shows "mpi_val Y = mpi_val (deref X A) +
      (if opposite then - mpi_s (deref X A) else mpi_s (deref X A)) * int (mpi_abs (deref X B))"
    "has_sign Y" "mpi_n X \<le> mpi_n Y"
    "mpi_n Y \<le> max (mpi_n X) (max (mpi_n (deref X A)) (mpi_n (deref X B))) + 1"
proof -
  let ?a = "deref X A" and ?b = "deref X B"
  have "mpi_val Y = mpi_val ?a + (if opposite then - mpi_s ?a else mpi_s ?a) * int (mpi_abs ?b) \<and>
    has_sign Y \<and> mpi_n X \<le> mpi_n Y \<and> mpi_n Y \<le> max (mpi_n X) (max (mpi_n ?a) (mpi_n ?b)) + 1"
  proof (cases opposite)
    case opp: True
    show ?thesis
    proof (cases "0 \<le> mbedtls_mpi_cmp_abs ?a ?b")
      case True
      then obtain Z where "mbedtls_mpi_sub_abs M X A B = Inr Z" "Y = Z\<lparr>mpi_s := mpi_s ?a\<rparr>"
        using assms(1) opp by (auto simp: signed_sum_def Let_def outcome_simps)
      then show ?thesis
        using sub_abs_fact [of M X A B Z] opp assms(2)
        by (auto simp: has_sign_def mpi_val_def simp flip: of_nat_add)
    next
      case False
      then obtain Z where "mbedtls_mpi_sub_abs M X B A = Inr Z" "Y = Z\<lparr>mpi_s := - mpi_s ?a\<rparr>"
        using assms(1) opp by (auto simp: signed_sum_def Let_def outcome_simps)
      then show ?thesis
        using sub_abs_fact [of M X B A Z] opp assms(2)
        by (auto simp: has_sign_def mpi_val_def simp flip: of_nat_add)
    qed
  next
    case False
    then obtain Z where "mbedtls_mpi_add_abs M X A B = Inr Z" "Y = Z\<lparr>mpi_s := mpi_s ?a\<rparr>"
      using assms(1) by (auto simp: signed_sum_def Let_def outcome_simps)
    then show ?thesis
      using add_abs_fact [of M X A B Z] assms(2) False by (auto simp: has_sign_def mpi_val_def)
  qed
  then show "mpi_val Y = mpi_val ?a + (if opposite then - mpi_s ?a else mpi_s ?a) * int (mpi_abs ?b)"
    "has_sign Y" "mpi_n X \<le> mpi_n Y" "mpi_n Y \<le> max (mpi_n X) (max (mpi_n ?a) (mpi_n ?b)) + 1"
    by blast+
qed

lemma signed_sum_succeeds:
  assumes "plenty M (max (mpi_n X) (max (mpi_n (deref X A)) (mpi_n (deref X B))) + 1)"
  shows "\<exists>Y. signed_sum M opposite X A B = Inr Y"
proof -
  have n: "plenty M (mpi_n (deref X A))" "plenty M (mpi_n (deref X B))"
    using assms by (auto elim: plenty_mono)
  have "\<exists>Y. mbedtls_mpi_sub_abs M X A B = Inr Y" if "0 \<le> mbedtls_mpi_cmp_abs (deref X A) (deref X B)"
    using that by (intro sub_abs_succeeds n) (simp add: cmp_abs_val sgn_if split: if_splits)
  moreover have "\<exists>Y. mbedtls_mpi_sub_abs M X B A = Inr Y" if "\<not> 0 \<le> mbedtls_mpi_cmp_abs (deref X A) (deref X B)"
    using that by (intro sub_abs_succeeds n) (simp add: cmp_abs_val sgn_if split: if_splits)
  ultimately show ?thesis
    using add_abs_succeeds [OF assms] unfolding signed_sum_def Let_def
    by (auto simp: outcome_simps)
qed

lemma add_mpi_sum: "mbedtls_mpi_add_mpi M X A B = signed_sum M (mpi_s (deref X A) * mpi_s (deref X B) < 0) X A B"
  by (simp add: mbedtls_mpi_add_mpi_def signed_sum_def)

lemma sub_mpi_sum: "mbedtls_mpi_sub_mpi M X A B = signed_sum M (0 < mpi_s (deref X A) * mpi_s (deref X B)) X A B"
  by (simp add: mbedtls_mpi_sub_mpi_def signed_sum_def)

lemma add_mpi_fact:
  assumes "mbedtls_mpi_add_mpi M X A B = Inr Y" and "has_sign (deref X A)" and "has_sign (deref X B)"
  shows "mpi_val Y = mpi_val (deref X A) + mpi_val (deref X B)" "has_sign Y" "mpi_n X \<le> mpi_n Y"
    "mpi_n Y \<le> max (mpi_n X) (max (mpi_n (deref X A)) (mpi_n (deref X B))) + 1"
proof -
  note fact = signed_sum_fact [OF assms(1) [unfolded add_mpi_sum] assms(2)]
  show "mpi_val Y = mpi_val (deref X A) + mpi_val (deref X B)"
    using fact(1) assms(2,3) by (auto simp: has_sign_def mpi_val_def)
  show "has_sign Y" "mpi_n X \<le> mpi_n Y"
    "mpi_n Y \<le> max (mpi_n X) (max (mpi_n (deref X A)) (mpi_n (deref X B))) + 1"
    by (rule fact)+
qed

lemma sub_mpi_fact:
  assumes "mbedtls_mpi_sub_mpi M X A B = Inr Y" and "has_sign (deref X A)" and "has_sign (deref X B)"
  shows "mpi_val Y = mpi_val (deref X A) - mpi_val (deref X B)" "has_sign Y" "mpi_n X \<le> mpi_n Y"
    "mpi_n Y \<le> max (mpi_n X) (max (mpi_n (deref X A)) (mpi_n (deref X B))) + 1"
proof -
  note fact = signed_sum_fact [OF assms(1) [unfolded sub_mpi_sum] assms(2)]
  show "mpi_val Y = mpi_val (deref X A) - mpi_val (deref X B)"
    using fact(1) assms(2,3) by (auto simp: has_sign_def mpi_val_def)
  show "has_sign Y" "mpi_n X \<le> mpi_n Y"
    "mpi_n Y \<le> max (mpi_n X) (max (mpi_n (deref X A)) (mpi_n (deref X B))) + 1"
    by (rule fact)+
qed

lemmas add_mpi_succeeds = signed_sum_succeeds [of M X A B "mpi_s (deref X A) * mpi_s (deref X B) < 0" for M X A B,
  folded add_mpi_sum]
lemmas sub_mpi_succeeds = signed_sum_succeeds [of M X A B "0 < mpi_s (deref X A) * mpi_s (deref X B)" for M X A B,
  folded sub_mpi_sum]

section \<open>Shifts multiply and divide by powers of two\<close>

lemma shift_up_eq:
  "i \<le> length p \<Longrightarrow> shift_up v i p = take i (replicate v 0 @ p) @ drop i p"
proof (induction i arbitrary: p)
  case (Suc i)
  define x where "x = (if v < Suc i then p ! (i - v) else 0)"
  have "shift_up v (Suc i) p = shift_up v i (p[i := x])"
    by (simp add: x_def)
  also have "\<dots> = take i (replicate v 0 @ p[i := x]) @ drop i (p[i := x])"
    using Suc.prems by (intro Suc.IH) simp
  also have "take i (replicate v 0 @ p[i := x]) = take i (replicate v 0 @ p)"
    by simp
  also have "drop i (p[i := x]) = x # drop (Suc i) p"
    using Suc.prems by (simp add: drop_update_swap flip: Cons_nth_drop_Suc)
  also have "take i (replicate v 0 @ p) @ x # drop (Suc i) p = take (Suc i) (replicate v 0 @ p) @ drop (Suc i) p"
    using Suc.prems by (subst take_Suc_conv_app_nth) (auto simp: x_def nth_append)
  finally show ?case .
qed simp

lemma or_disjoint_val:
  fixes x y :: "'l::len word"
  assumes "\<And>i. bit x i \<Longrightarrow> \<not> bit y i"
  shows "unat (x OR y) = unat x + unat y"
proof -
  have "unat (x OR y) = unat x OR unat y"
    by (simp add: unsigned_or_eq)
  also have "\<dots> = unat x + unat y"
    by (rule disjunctive_add [symmetric]) (use assms in \<open>auto simp: bit_unsigned_iff\<close>)
  finally show ?thesis .
qed

lemma high_bits_clear:
  fixes x :: "'l::len word"
  assumes "unat x < 2 ^ t" and "t \<le> i"
  shows "\<not> bit x i"
proof
  assume "bit x i"
  then have "bit (unat x) i"
    by (simp add: bit_unsigned_iff bit_imp_le_length)
  moreover have "take_bit t (unat x) = unat x"
    using assms(1) by (simp add: take_bit_nat_eq_self)
  ultimately show False
    using assms(2) by (metis bit_take_bit_iff not_less)
qed

lemma power_split: "k \<le> n \<Longrightarrow> (2 :: nat) ^ n = 2 ^ k * 2 ^ (n - k)"
  by (simp flip: power_add)

lemma unat_push_bit: "unat (push_bit t x) = unat x * 2 ^ t mod 2 ^ LENGTH('l)" for x :: "'l::len word"
  by (rule trans [OF unsigned_push_bit_eq]) (simp only: take_bit_eq_mod push_bit_eq_mult)

lemma unat_drop_bit: "unat (drop_bit t x) = unat x div 2 ^ t" for x :: "'l::len word"
  by (rule trans [OF unsigned_drop_bit_eq]) (simp add: drop_bit_eq_div take_bit_nat_eq_self)

lemma shl_limb:
  fixes x r :: "'l::len word"
  assumes "t < LENGTH('l)" and "unat r < 2 ^ t"
  shows "unat (push_bit t x OR r) + 2 ^ LENGTH('l) * unat (drop_bit (LENGTH('l) - t) x) = unat x * 2 ^ t + unat r"
    "unat (drop_bit (LENGTH('l) - t) x) < 2 ^ t"
proof -
  have "unat (push_bit t x OR r) = unat (push_bit t x) + unat r"
    by (rule or_disjoint_val) (use high_bits_clear [OF assms(2)] in \<open>auto simp: bit_simps\<close>)
  moreover have "unat (push_bit t x) = unat x * 2 ^ t mod 2 ^ LENGTH('l)"
    by (rule unat_push_bit)
  moreover have B: "(2 :: nat) ^ LENGTH('l) = 2 ^ (LENGTH('l) - t) * 2 ^ t"
    using assms(1) by (simp flip: power_add)
  have d: "unat (drop_bit (LENGTH('l) - t) x) = unat x div 2 ^ (LENGTH('l) - t)"
    by (rule unat_drop_bit)
  moreover have "unat x * 2 ^ t div 2 ^ LENGTH('l) = unat x div 2 ^ (LENGTH('l) - t)"
    unfolding B by simp
  ultimately show "unat (push_bit t x OR r) + 2 ^ LENGTH('l) * unat (drop_bit (LENGTH('l) - t) x) = unat x * 2 ^ t + unat r"
    using mult_div_mod_eq [of "2 ^ LENGTH('l)" "unat x * 2 ^ t"] by simp
  show "unat (drop_bit (LENGTH('l) - t) x) < 2 ^ t"
    unfolding d using limb_less [of x] by (simp add: div_less_iff_less_mult B mult.commute)
qed

lemma shl_limbs_val:
  fixes xs :: "'l::len word list"
  assumes "t < LENGTH('l)" and "unat r < 2 ^ t"
  shows "limbs_val (shl_limbs t r xs) = (limbs_val xs * 2 ^ t + unat r) mod 2 ^ (LENGTH('l) * length xs)"
    "length (shl_limbs t r xs) = length xs"
proof -
  show "limbs_val (shl_limbs t r xs) = (limbs_val xs * 2 ^ t + unat r) mod 2 ^ (LENGTH('l) * length xs)"
    using assms(2)
  proof (induction xs arbitrary: r)
    case (Cons x xs)
    let ?B = "2 ^ LENGTH('l) :: nat" and ?m = "push_bit t x OR r" and ?q = "drop_bit (LENGTH('l) - t) x"
    note limb = shl_limb [OF assms(1) Cons.prems, of x]
    have "limbs_val (x # xs) * 2 ^ t + unat r = unat ?m + ?B * (limbs_val xs * 2 ^ t + unat ?q)"
      using limb(1) by (simp add: algebra_simps)
    moreover have "\<dots> mod (?B * 2 ^ (LENGTH('l) * length xs)) =
        unat ?m + ?B * ((limbs_val xs * 2 ^ t + unat ?q) mod 2 ^ (LENGTH('l) * length xs))"
      by (simp add: mod_mult2_eq)
    ultimately show ?case
      using Cons.IH [OF limb(2)] by (simp add: power_add)
  qed simp
  show "length (shl_limbs t r xs) = length xs"
    by (induction t r xs rule: shl_limbs.induct) simp_all
qed

lemma shift_l_limbs:
  fixes p :: "'l::len word list"
  assumes "limbs_val p * 2 ^ c < 2 ^ (LENGTH('l) * length p)" and "c div LENGTH('l) \<le> length p"
  defines "v \<equiv> c div LENGTH('l)" and "t \<equiv> c mod LENGTH('l)"
  defines "q \<equiv> (if 0 < v then shift_up v (length p) p else p)"
  shows "limbs_val (if 0 < t then take v q @ shl_limbs t 0 (drop v q) else q) = limbs_val p * 2 ^ c"
    "length (if 0 < t then take v q @ shl_limbs t 0 (drop v q) else q) = length p"
proof -
  let ?L = "LENGTH('l)"
  have c: "(2 :: nat) ^ c = 2 ^ (?L * v) * 2 ^ t"
    by (simp add: v_def t_def flip: power_add)
  have v: "v \<le> length p" and t: "t < ?L"
    using assms(2) by (simp_all add: v_def t_def)
  have q: "q = replicate v 0 @ take (length p - v) p"
    using v by (simp add: q_def shift_up_eq)
  have len: "length q = length p"
    using v by (simp add: q)
  have n: "(2 :: nat) ^ (?L * length p) = 2 ^ (?L * v) * 2 ^ (?L * (length p - v))"
    using v by (simp add: algebra_simps flip: power_add)
  have small: "limbs_val p * 2 ^ t < 2 ^ (?L * (length p - v))"
    using assms(1) unfolding c n by (simp add: algebra_simps)
  then have "limbs_val p < 2 ^ (?L * (length p - v))"
    by (rule le_less_trans [rotated]) simp
  then have p: "limbs_val (take (length p - v) p) = limbs_val p"
    by (simp add: limbs_val_take)
  show "limbs_val (if 0 < t then take v q @ shl_limbs t 0 (drop v q) else q) = limbs_val p * 2 ^ c"
    using shl_limbs_val(1) [OF t, of 0 "take (length p - v) p"] small
    by (auto simp: q p c limbs_val_append)
  show "length (if 0 < t then take v q @ shl_limbs t 0 (drop v q) else q) = length p"
    using shl_limbs_val(2) [OF t, of 0] len v by simp
qed

lemma BITS_TO_LIMBS_le: "BITS_TO_LIMBS TYPE('l::len) i \<le> n \<longleftrightarrow> i \<le> n * LENGTH('l)"
proof -
  let ?L = "LENGTH('l)"
  have "i = i div ?L * ?L + i mod ?L" "i mod ?L < ?L"
    by simp_all
  show ?thesis
  proof (cases "i mod ?L = 0")
    case True
    then have i: "i = i div ?L * ?L"
      using div_mult_mod_eq [of i ?L] by linarith
    have "BITS_TO_LIMBS TYPE('l) i = i div ?L"
      using True by (simp add: BITS_TO_LIMBS_def)
    then show ?thesis
      by (subst (2) i) simp
  next
    case False
    then have "BITS_TO_LIMBS TYPE('l) i = Suc (i div ?L)"
      by (simp add: BITS_TO_LIMBS_def)
    moreover have "Suc (i div ?L) \<le> n \<longleftrightarrow> i < n * ?L"
      by (simp add: Suc_le_eq div_less_iff_less_mult)
    moreover have "i \<noteq> n * ?L"
      using False by auto
    ultimately show ?thesis
      by auto
  qed
qed

lemma shift_l_fact:
  fixes X Y :: "'l::len word mpi"
  assumes "mbedtls_mpi_shift_l M X c = Inr Y" and "mbedtls_mpi_bitlen X + c < 2 ^ SIZE_BITS M"
  shows "mpi_abs Y = mpi_abs X * 2 ^ c" "mpi_s Y = mpi_s X"
    "mpi_n Y = max (mpi_n X) (BITS_TO_LIMBS TYPE('l) (mbedtls_mpi_bitlen X + c))"
proof -
  let ?L = "LENGTH('l)" and ?i = "mbedtls_mpi_bitlen X + c"
  obtain Z where Z: "(if mpi_n X * ?L < ?i then mbedtls_mpi_grow M X (BITS_TO_LIMBS TYPE('l) ?i) else Inr X) = Inr Z"
    using assms by (auto simp: mbedtls_mpi_shift_l_def Let_def outcome_simps)
  have z: "mpi_abs Z = mpi_abs X" "mpi_s Z = mpi_s X"
    and n: "mpi_n Z = max (mpi_n X) (BITS_TO_LIMBS TYPE('l) ?i)"
    using Z grow_fact [of M X "BITS_TO_LIMBS TYPE('l) ?i" Z] BITS_TO_LIMBS_le [where 'l = 'l, of ?i "mpi_n X"]
    by (auto split: if_splits)
  have bits: "?i \<le> mpi_n Z * ?L"
    using BITS_TO_LIMBS_le [where 'l = 'l, of ?i "mpi_n Z"] n by simp
  have "mpi_abs X * 2 ^ c < 2 ^ mbedtls_mpi_bitlen X * 2 ^ c"
    using bitlen_bounds(1) [of X] by simp
  also have "\<dots> \<le> 2 ^ (?L * mpi_n Z)"
    using bits by (simp add: mult.commute flip: power_add)
  finally have fits: "limbs_val (mpi_p Z) * 2 ^ c < 2 ^ (?L * mpi_n Z)"
    using z(1) by (simp add: mpi_abs_def)
  have v: "c div ?L \<le> mpi_n Z"
    using div_le_mono [of c "mpi_n Z * ?L" ?L] bits by simp
  note l = shift_l_limbs [OF fits v]
  show "mpi_abs Y = mpi_abs X * 2 ^ c" "mpi_s Y = mpi_s X" "mpi_n Y = max (mpi_n X) (BITS_TO_LIMBS TYPE('l) ?i)"
    using assms Z z n l by (auto simp: mbedtls_mpi_shift_l_def Let_def mpi_abs_def)
qed

lemma shift_l_succeeds:
  fixes X :: "'l::len word mpi"
  assumes "mbedtls_mpi_bitlen X + c < 2 ^ SIZE_BITS M"
    and "plenty M (BITS_TO_LIMBS TYPE('l) (mbedtls_mpi_bitlen X + c))"
  shows "\<exists>Y. mbedtls_mpi_shift_l M X c = Inr Y"
  using assms(1) grow_eq [OF assms(2), of X] by (simp add: mbedtls_mpi_shift_l_def Let_def)

lemma shift_down_eq:
  assumes "i + k = length p" and "v \<le> length p"
  shows "shift_down v k i p = take i p @ drop (i + v) p @ replicate (min k v) 0"
  using assms
proof (induction k arbitrary: i p)
  case (Suc k)
  define x where "x = (if i < length p - v then p ! (i + v) else 0)"
  have i: "i < length p"
    using Suc.prems by simp
  have "shift_down v (Suc k) i p = shift_down v k (Suc i) (p[i := x])"
    by (simp add: x_def)
  also have "\<dots> = take (Suc i) (p[i := x]) @ drop (Suc i + v) (p[i := x]) @ replicate (min k v) 0"
    using Suc.prems by (intro Suc.IH) simp_all
  also have "\<dots> = take i p @ x # drop (Suc i + v) p @ replicate (min k v) 0"
    using i by (simp add: take_Suc_conv_app_nth)
  also have "x # drop (Suc i + v) p @ replicate (min k v) 0 = drop (i + v) p @ replicate (min (Suc k) v) 0"
  proof (cases "i < length p - v")
    case True
    then show ?thesis
      using Suc.prems by (auto simp: x_def min_def not_le simp flip: Cons_nth_drop_Suc)
  next
    case False
    then show ?thesis
      using Suc.prems by (auto simp: x_def min_def)
  qed
  finally show ?case .
qed simp

lemma shr_limb:
  fixes x r :: "'l::len word"
  assumes "0 < v" and "v < LENGTH('l)" and "unat r = y mod 2 ^ v * 2 ^ (LENGTH('l) - v)"
  shows "unat (drop_bit v x OR r) + 2 ^ LENGTH('l) * (y div 2 ^ v) = (unat x + 2 ^ LENGTH('l) * y) div 2 ^ v"
    "unat (push_bit (LENGTH('l) - v) x) = (unat x + 2 ^ LENGTH('l) * y) mod 2 ^ v * 2 ^ (LENGTH('l) - v)"
proof -
  let ?h = "LENGTH('l) - v" and ?B = "2 ^ LENGTH('l) :: nat"
  have B: "?B = 2 ^ v * 2 ^ ?h"
    using assms(2) by (simp flip: power_add)
  have "2 ^ ?h dvd unat r"
    unfolding assms(3) by simp
  then have "take_bit ?h (unat r) = 0"
    by (simp add: take_bit_eq_mod)
  then have "\<not> bit (take_bit ?h (unat r)) i" for i
    by simp
  then have low: "\<not> bit r i" if "i < ?h" for i
    using that bit_imp_le_length [of r i] by (auto simp: bit_take_bit_iff bit_unsigned_iff)
  have "unat (drop_bit v x OR r) = unat (drop_bit v x) + unat r"
  proof (rule or_disjoint_val)
    show "\<not> bit r i" if "bit (drop_bit v x) i" for i
    proof -
      have "v + i < LENGTH('l)"
        using that bit_imp_le_length by (auto simp: bit_drop_bit_eq)
      then show ?thesis
        by (intro low) simp
    qed
  qed
  also have "unat (drop_bit v x) = unat x div 2 ^ v"
    by (rule unat_drop_bit)
  finally have "unat (drop_bit v x OR r) = unat x div 2 ^ v + y mod 2 ^ v * 2 ^ ?h"
    by (simp add: assms(3))
  moreover have "(unat x + ?B * y) div 2 ^ v = unat x div 2 ^ v + 2 ^ ?h * y"
    unfolding B by (simp add: mult.assoc)
  moreover have "2 ^ ?h * y = y mod 2 ^ v * 2 ^ ?h + ?B * (y div 2 ^ v)"
    unfolding B by (subst (1) mod_mult_div_eq [of y "2 ^ v", symmetric]) (simp only: algebra_simps)
  ultimately show "unat (drop_bit v x OR r) + ?B * (y div 2 ^ v) = (unat x + ?B * y) div 2 ^ v"
    by linarith
  have "(unat x + ?B * y) mod 2 ^ v = unat x mod 2 ^ v"
    unfolding B by (simp add: mult.assoc)
  moreover have "unat (push_bit ?h x) = unat x * 2 ^ ?h mod ?B"
    by (rule unat_push_bit)
  ultimately show "unat (push_bit ?h x) = (unat x + ?B * y) mod 2 ^ v * 2 ^ ?h"
    unfolding B by (simp add: mod_mult_mult2)
qed

lemma shr_limbs_val:
  fixes xs :: "'l::len word list"
  assumes "0 < v" and "v < LENGTH('l)"
  shows "limbs_val (fst (shr_limbs v xs)) = limbs_val xs div 2 ^ v \<and>
    unat (snd (shr_limbs v xs)) = limbs_val xs mod 2 ^ v * 2 ^ (LENGTH('l) - v) \<and>
    length (fst (shr_limbs v xs)) = length xs"
proof (induction xs)
  case (Cons x xs)
  obtain ys r where ys: "shr_limbs v xs = (ys, r)"
    by fastforce
  then have "limbs_val ys = limbs_val xs div 2 ^ v" "unat r = limbs_val xs mod 2 ^ v * 2 ^ (LENGTH('l) - v)"
    "length ys = length xs"
    using Cons.IH by simp_all
  then show ?case
    using shr_limb [OF assms, of r "limbs_val xs" x] ys by (simp add: Let_def)
qed simp

lemma shift_r_fact:
  fixes X Y :: "'l::len word mpi"
  assumes "mbedtls_mpi_shift_r M X c = Inr Y"
  shows "mpi_abs Y = mpi_abs X div 2 ^ c" "mpi_abs Y \<noteq> 0 \<Longrightarrow> mpi_s Y = mpi_s X"
    "has_sign X \<Longrightarrow> has_sign Y" "mpi_n Y = max (mpi_n X) 1 \<or> mpi_n Y = mpi_n X"
proof -
  let ?L = "LENGTH('l)" and ?v = "c div LENGTH('l)" and ?t = "c mod LENGTH('l)"
  have c: "(2 :: nat) ^ c = 2 ^ (?L * ?v) * 2 ^ ?t"
    by (simp flip: power_add)
  have "mpi_abs Y = mpi_abs X div 2 ^ c \<and> (mpi_abs Y \<noteq> 0 \<longrightarrow> mpi_s Y = mpi_s X) \<and>
    (has_sign X \<longrightarrow> has_sign Y) \<and> (mpi_n Y = max (mpi_n X) 1 \<or> mpi_n Y = mpi_n X)"
  proof (cases "mpi_n X < ?v \<or> ?v = mpi_n X \<and> 0 < ?t")
    case True
    then have "mbedtls_mpi_lset M X 0 = Inr Y"
      using assms by (simp add: mbedtls_mpi_shift_r_def Let_def)
    note y = lset_fact [OF this]
    have "mpi_abs X < 2 ^ (?L * mpi_n X)"
      by (simp add: mpi_abs_def limbs_val_less)
    also have "\<dots> \<le> 2 ^ c"
    proof (rule power_increasing)
      have "?L * mpi_n X \<le> ?L * ?v"
        using True by auto
      then show "?L * mpi_n X \<le> c"
        by (meson div_times_less_eq_dividend le_trans mult.commute times_div_less_eq_dividend)
    qed simp
    finally show ?thesis
      using y by (auto simp: has_sign_def sint_sign_def sint_abs_def)
  next
    case False
    define q where "q = drop ?v (mpi_p X) @ replicate ?v 0"
    have q: "(if 0 < ?v then shift_down ?v (mpi_n X) 0 (mpi_p X) else mpi_p X) = q" "length q = mpi_n X"
      using False by (auto simp: q_def shift_down_eq)
    have Y: "Y = X\<lparr>mpi_p := if 0 < ?t then fst (shr_limbs ?t q) else q\<rparr>"
      using assms False q(1) by (simp add: mbedtls_mpi_shift_r_def Let_def)
    have "limbs_val q = mpi_abs X div 2 ^ (?L * ?v)"
      by (simp add: q_def limbs_val_drop mpi_abs_def)
    then show ?thesis
      using shr_limbs_val [of ?t q] q(2) by (auto simp: Y mpi_abs_def has_sign_def c div_mult2_eq)
  qed
  then show "mpi_abs Y = mpi_abs X div 2 ^ c" "mpi_abs Y \<noteq> 0 \<Longrightarrow> mpi_s Y = mpi_s X"
    "has_sign X \<Longrightarrow> has_sign Y" "mpi_n Y = max (mpi_n X) 1 \<or> mpi_n Y = mpi_n X"
    by blast+
qed

lemma shift_r_succeeds: "plenty M 1 \<Longrightarrow> \<exists>Y. mbedtls_mpi_shift_r M X c = Inr Y"
  using lset_succeeds [of M X 0] by (simp add: mbedtls_mpi_shift_r_def Let_def)

section \<open>Properties\<close>

text \<open>Enough memory for one limb more than the longest of the three numbers.\<close>

definition room_for_sum :: "platform \<Rightarrow> 'l::len word mpi \<Rightarrow> 'l word operand \<Rightarrow> 'l word operand \<Rightarrow> bool" where
  "room_for_sum M X A B \<longleftrightarrow> plenty M (max (mpi_n X) (max (mpi_n (deref X A)) (mpi_n (deref X B))) + 1)"

lemma within_room: "room_for_sum M X A B \<Longrightarrow> has_sign Y \<Longrightarrow>
  mpi_n Y \<le> max (mpi_n X) (max (mpi_n (deref X A)) (mpi_n (deref X B))) + 1 \<Longrightarrow> mpi_ok M Y"
  by (auto simp: room_for_sum_def plenty_def mpi_ok_def has_sign_def)

text \<open>
  The contract of a binary operation: with enough room it succeeds on well-formed operands, the result
  is well-formed and its value is that of the operation \<open>f\<close> of the integers, whichever operands are the
  result object itself.
\<close>

locale mpi_binary =
  fixes binop :: "platform \<Rightarrow> 'l::len word mpi \<Rightarrow> 'l word operand \<Rightarrow> 'l word operand \<Rightarrow> mpi_error + 'l word mpi"
    and f :: "int \<Rightarrow> int \<Rightarrow> int"
    and room :: "platform \<Rightarrow> 'l word mpi \<Rightarrow> 'l word operand \<Rightarrow> 'l word operand \<Rightarrow> bool"
  assumes exact: "room M X A B \<Longrightarrow> mpi_ok M (deref X A) \<Longrightarrow> mpi_ok M (deref X B) \<Longrightarrow>
      \<exists>Y. binop M X A B = Inr Y \<and> mpi_val Y = f (mpi_val (deref X A)) (mpi_val (deref X B)) \<and> mpi_ok M Y"
begin

lemma value_of:
  assumes "binop M X A B = Inr Y" and "room M X A B" and "mpi_ok M (deref X A)" and "mpi_ok M (deref X B)"
  shows "mpi_val Y = f (mpi_val (deref X A)) (mpi_val (deref X B))" "mpi_ok M Y"
  using exact [OF assms(2-4)] assms(1) by auto

lemma never_fails: "room M X A B \<Longrightarrow> mpi_ok M (deref X A) \<Longrightarrow> mpi_ok M (deref X B) \<Longrightarrow> binop M X A B \<noteq> Inl e"
  using exact [of M X A B] by auto

lemma with_int:
  assumes "room M X A (Other (mpi_of_sint b))" and "mpi_ok M (deref X A)" and "1 \<le> MAX_LIMBS M"
  shows "\<exists>Y. binop M X A (Other (mpi_of_sint b)) = Inr Y \<and> mpi_val Y = f (mpi_val (deref X A)) (sint b) \<and> mpi_ok M Y"
proof -
  have "mpi_ok M (mpi_of_sint b)"
    using assms(3) sint_sign_cases [of b] by (simp add: mpi_ok_def mpi_of_sint_def)
  then show ?thesis
    using exact [OF assms(1,2)] by simp
qed

end

interpretation sum: mpi_binary mbedtls_mpi_add_mpi "(+)" room_for_sum
proof
  fix M and X :: "'a::len word mpi" and A B
  assume room: "room_for_sum M X A B" and ok: "mpi_ok M (deref X A)" "mpi_ok M (deref X B)"
  then have sign: "has_sign (deref X A)" "has_sign (deref X B)"
    by (simp_all add: mpi_ok_def has_sign_def)
  obtain Y where "mbedtls_mpi_add_mpi M X A B = Inr Y"
    using add_mpi_succeeds room unfolding room_for_sum_def by blast
  then show "\<exists>Y. mbedtls_mpi_add_mpi M X A B = Inr Y \<and>
      mpi_val Y = mpi_val (deref X A) + mpi_val (deref X B) \<and> mpi_ok M Y"
    using add_mpi_fact [OF _ sign] within_room [OF room] by blast
qed

interpretation difference: mpi_binary mbedtls_mpi_sub_mpi "(-)" room_for_sum
proof
  fix M and X :: "'a::len word mpi" and A B
  assume room: "room_for_sum M X A B" and ok: "mpi_ok M (deref X A)" "mpi_ok M (deref X B)"
  then have sign: "has_sign (deref X A)" "has_sign (deref X B)"
    by (simp_all add: mpi_ok_def has_sign_def)
  obtain Y where "mbedtls_mpi_sub_mpi M X A B = Inr Y"
    using sub_mpi_succeeds room unfolding room_for_sum_def by blast
  then show "\<exists>Y. mbedtls_mpi_sub_mpi M X A B = Inr Y \<and>
      mpi_val Y = mpi_val (deref X A) - mpi_val (deref X B) \<and> mpi_ok M Y"
    using sub_mpi_fact [OF _ sign] within_room [OF room] by blast
qed

lemma add_int_exact:
  assumes "room_for_sum M X A (Other (mpi_of_sint b))" and "mpi_ok M (deref X A)" and "1 \<le> MAX_LIMBS M"
  shows "\<exists>Y. mbedtls_mpi_add_int M X A b = Inr Y \<and> mpi_val Y = mpi_val (deref X A) + sint b \<and> mpi_ok M Y"
  unfolding mbedtls_mpi_add_int_def using assms by (rule sum.with_int)

lemma sub_int_exact:
  assumes "room_for_sum M X A (Other (mpi_of_sint b))" and "mpi_ok M (deref X A)" and "1 \<le> MAX_LIMBS M"
  shows "\<exists>Y. mbedtls_mpi_sub_int M X A b = Inr Y \<and> mpi_val Y = mpi_val (deref X A) - sint b \<and> mpi_ok M Y"
  unfolding mbedtls_mpi_sub_int_def using assms by (rule difference.with_int)

text \<open>
  C4: Signed addition and subtraction refine those of the integers.  Whatever the signs, the leading
  zero limbs and the aliasing of the result with one or both operands, \<open>mbedtls_mpi_add_mpi\<close> and
  \<open>mbedtls_mpi_sub_mpi\<close> succeed when there is memory, and the value of the well-formed result is the
  sum, or the difference, of the values.
\<close>

theorem add_sub_mpi_exact:
  assumes "mpi_ok M (deref X A)" and "mpi_ok M (deref X B)" and "room_for_sum M X A B"
  shows "\<exists>S D. mbedtls_mpi_add_mpi M X A B = Inr S \<and> mbedtls_mpi_sub_mpi M X A B = Inr D \<and>
    mpi_val S = mpi_val (deref X A) + mpi_val (deref X B) \<and>
    mpi_val D = mpi_val (deref X A) - mpi_val (deref X B) \<and> mpi_ok M S \<and> mpi_ok M D"
  using sum.exact [OF assms(3,1,2)] difference.exact [OF assms(3,1,2)] by blast

theorem add_sub_mpi_exact_witness:
  "\<exists>S D. mbedtls_mpi_add_mpi demo_platform \<lparr>mpi_s = 1, mpi_p = [0xffffffffffffffff :: 64 word]\<rparr> Self Self = Inr S \<and>
     mbedtls_mpi_sub_mpi demo_platform \<lparr>mpi_s = 1, mpi_p = [0xffffffffffffffff :: 64 word]\<rparr> Self Self = Inr D \<and>
     mpi_val S = 2 * (2 ^ 64 - 1) \<and> mpi_val D = 0"
proof -
  let ?X = "\<lparr>mpi_s = 1, mpi_p = [0xffffffffffffffff :: 64 word]\<rparr>"
  have "mpi_ok demo_platform ?X" "mpi_val ?X = 2 ^ 64 - 1"
    by (simp_all add: mpi_ok_def demo_platform_def mpi_val_def mpi_abs_def)
  moreover have "room_for_sum demo_platform ?X Self Self"
    by (simp add: room_for_sum_def demo_plenty)
  ultimately show ?thesis
    using add_sub_mpi_exact [of demo_platform ?X Self Self] by fastforce
qed

text \<open>
  Subtraction of magnitudes is total: with memory for the minuend it returns
  \<open>MBEDTLS_ERR_MPI_NEGATIVE_VALUE\<close> exactly when the subtrahend is larger, and otherwise the
  difference; a borrow that runs off the last limb is the only other place where the code reports it.
\<close>

theorem sub_abs_total:
  assumes "plenty M (mpi_n (deref X A))"
  shows "if mpi_abs (deref X A) < mpi_abs (deref X B)
    then mbedtls_mpi_sub_abs M X A B = Inl MBEDTLS_ERR_MPI_NEGATIVE_VALUE
    else \<exists>Y. mbedtls_mpi_sub_abs M X A B = Inr Y \<and> mpi_abs Y = mpi_abs (deref X A) - mpi_abs (deref X B) \<and> mpi_s Y = 1"
  using sub_abs_fact [of M X A B] sub_abs_error [OF _ assms, of B]
  by (cases "mbedtls_mpi_sub_abs M X A B") fastforce+

theorem sub_abs_total_witness:
  "mbedtls_mpi_sub_abs demo_platform mbedtls_mpi_init (Other \<lparr>mpi_s = 1, mpi_p = [3 :: 64 word, 0]\<rparr>)
     (Other \<lparr>mpi_s = 1, mpi_p = [5, 0]\<rparr>) = Inl MBEDTLS_ERR_MPI_NEGATIVE_VALUE"
  using sub_abs_total [of demo_platform mbedtls_mpi_init "Other \<lparr>mpi_s = 1, mpi_p = [3 :: 64 word, 0]\<rparr>"
    "Other \<lparr>mpi_s = 1, mpi_p = [5, 0]\<rparr>"]
  by (simp add: demo_plenty mpi_abs_def)

text \<open>
  \<open>mbedtls_mpi_cmp_mpi\<close> decides the order of the values: it is the sign of their difference for
  all well-formed numbers, with any number of leading zero limbs on either side; a zero with sign -1 is
  equal to zero.
\<close>

theorem cmp_mpi_is_order:
  assumes "mpi_ok M X" and "mpi_ok M Y"
  shows "mbedtls_mpi_cmp_mpi X Y = sgn (mpi_val X - mpi_val Y)"
  using assms by (intro cmp_mpi_val) (simp_all add: mpi_ok_def has_sign_def)

theorem cmp_mpi_is_order_witness:
  "mbedtls_mpi_cmp_mpi \<lparr>mpi_s = - 1, mpi_p = [0 :: 64 word, 0, 0]\<rparr> \<lparr>mpi_s = 1, mpi_p = [0]\<rparr> = 0 \<and>
   mbedtls_mpi_cmp_mpi \<lparr>mpi_s = - 1, mpi_p = [7 :: 64 word, 1]\<rparr> \<lparr>mpi_s = - 1, mpi_p = [8, 0, 0]\<rparr> = - 1"
  using cmp_mpi_is_order [of demo_platform "\<lparr>mpi_s = - 1, mpi_p = [0 :: 64 word, 0, 0]\<rparr>" "\<lparr>mpi_s = 1, mpi_p = [0]\<rparr>"]
    cmp_mpi_is_order [of demo_platform "\<lparr>mpi_s = - 1, mpi_p = [7 :: 64 word, 1]\<rparr>" "\<lparr>mpi_s = - 1, mpi_p = [8, 0, 0]\<rparr>"]
  by (simp add: mpi_ok_def demo_platform_def mpi_val_def mpi_abs_def)

text \<open>
  The shifts multiply and divide the magnitude by a power of two, growing as needed, as long as
  the length in bits of the shifted number fits \<open>size_t\<close>; the right shift undoes the left one.
\<close>

theorem shift_round_trip:
  assumes "mbedtls_mpi_bitlen X + c < 2 ^ SIZE_BITS M"
    and "plenty M (BITS_TO_LIMBS TYPE('l) (mbedtls_mpi_bitlen X + c) + 1)"
  shows "\<exists>Y Z. mbedtls_mpi_shift_l M (X :: 'l::len word mpi) c = Inr Y \<and> mpi_val Y = mpi_val X * 2 ^ c \<and>
    mbedtls_mpi_shift_r M Y c = Inr Z \<and> mpi_abs Z = mpi_abs X"
proof -
  obtain Y where Y: "mbedtls_mpi_shift_l M X c = Inr Y"
    using shift_l_succeeds [OF assms(1) plenty_mono [OF assms(2)]] by auto
  moreover obtain Z where Z: "mbedtls_mpi_shift_r M Y c = Inr Z"
    using shift_r_succeeds [OF plenty_mono [OF assms(2)]] by auto
  ultimately show ?thesis
    using shift_l_fact [OF Y assms(1)] shift_r_fact(1) [OF Z] by (auto simp: mpi_val_def)
qed

theorem shift_round_trip_witness:
  "\<exists>Y Z. mbedtls_mpi_shift_l demo_platform \<lparr>mpi_s = 1, mpi_p = [5 :: 64 word]\<rparr> 130 = Inr Y \<and>
     mpi_val Y = 5 * 2 ^ 130 \<and> mbedtls_mpi_shift_r demo_platform Y 130 = Inr Z \<and> mpi_abs Z = 5"
proof -
  let ?X = "\<lparr>mpi_s = 1, mpi_p = [5 :: 64 word]\<rparr>"
  have "mbedtls_mpi_bitlen ?X \<le> 64"
    using bitlen_bounds(3) [of ?X] by simp
  moreover have "BITS_TO_LIMBS TYPE(64) (mbedtls_mpi_bitlen ?X + 130) \<le> 4"
    using calculation by (simp add: BITS_TO_LIMBS_le)
  ultimately show ?thesis
    using shift_round_trip [of ?X 130 demo_platform]
    by (simp add: demo_platform_def plenty_def mpi_val_def mpi_abs_def)
qed

text \<open>
  The guard of the last property is needed: when the length of the result does not fit \<open>size_t\<close>, the
  number does not grow, all its limbs are cleared and the function reports success.
\<close>

lemma shift_l_wraps:
  "mbedtls_mpi_shift_l demo_platform \<lparr>mpi_s = 1, mpi_p = [1 :: 64 word]\<rparr> (2 ^ 64 - 1) =
     Inr \<lparr>mpi_s = 1, mpi_p = [0]\<rparr>"
proof -
  have "mbedtls_clz (1 :: 64 word) = 63"
    by code_simp
  then have "mbedtls_mpi_bitlen \<lparr>mpi_s = 1, mpi_p = [1 :: 64 word]\<rparr> = 1"
    by (simp add: mbedtls_mpi_bitlen_def)
  then show ?thesis
    by (simp add: mbedtls_mpi_shift_l_def demo_platform_def)
qed

text \<open>A difference that is 0 keeps the sign of the first operand, so zero has two representations.\<close>

lemma negative_zero:
  "mbedtls_mpi_add_mpi demo_platform mbedtls_mpi_init (Other \<lparr>mpi_s = - 1, mpi_p = [5 :: 64 word]\<rparr>)
     (Other \<lparr>mpi_s = 1, mpi_p = [5]\<rparr>) = Inr \<lparr>mpi_s = - 1, mpi_p = [0]\<rparr>"
  by (simp add: mbedtls_mpi_add_mpi_def cmp_abs_val mpi_abs_def mbedtls_mpi_sub_abs_def
      mbedtls_mpi_grow_def demo_platform_def mbedtls_mpi_init_def Let_def)

end
