(* ===== verification/Bignum_Gcd.thy ===== *)
theory Bignum_Gcd
  imports Bignum_Arith
begin

text \<open>
  The binary greatest common divisor of \<open>library/bignum.c\<close>: termination of its loop, and that it
  computes the greatest common divisor of the integers.
\<close>

section \<open>The code\<close>

text \<open>The body of the loop.\<close>

definition gcd_step ::
  "platform \<Rightarrow> 'l::len word mpi \<Rightarrow> 'l word mpi \<Rightarrow> mpi_error + ('l word mpi \<times> 'l word mpi)" where
  "gcd_step M TA TB =
     and_then (mbedtls_mpi_shift_r M TA (mbedtls_mpi_lsb TA)) (\<lambda>TA.
     and_then (mbedtls_mpi_shift_r M TB (mbedtls_mpi_lsb TB)) (\<lambda>TB.
     if 0 \<le> mbedtls_mpi_cmp_mpi TA TB then
       and_then (mbedtls_mpi_sub_abs M TA Self (Other TB)) (\<lambda>TA.
       and_then (mbedtls_mpi_shift_r M TA 1) (\<lambda>TA. Inr (TA, TB)))
     else
       and_then (mbedtls_mpi_sub_abs M TB Self (Other TA)) (\<lambda>TB.
       and_then (mbedtls_mpi_shift_r M TB 1) (\<lambda>TB. Inr (TA, TB)))))"

section \<open>One iteration\<close>

lemma shift_r_sign: "mbedtls_mpi_shift_r M X c = Inr Y \<Longrightarrow> mpi_s X = 1 \<Longrightarrow> mpi_s Y = 1"
  by (auto simp: mbedtls_mpi_shift_r_def Let_def sint_sign_def dest: lset_fact(5) split: if_splits)

lemma cmp_zero: "mbedtls_mpi_cmp_int X 0 \<noteq> 0 \<Longrightarrow> mpi_abs X \<noteq> 0"
  by (auto simp: mbedtls_mpi_cmp_int_def mbedtls_mpi_cmp_mpi_def Let_def mpi_of_sint_def sint_abs_def mpi_abs_def
      used_limbs_eq_0 [symmetric] split: if_splits)

lemma shifted_by_lsb:
  assumes "mbedtls_mpi_shift_r M X (mbedtls_mpi_lsb X) = Inr Y"
  shows "mpi_abs X = 2 ^ mbedtls_mpi_lsb X * mpi_abs Y" "mpi_abs X \<noteq> 0 \<Longrightarrow> odd (mpi_abs Y)"
    "mpi_abs Y \<le> mpi_abs X"
proof -
  have Y: "mpi_abs Y = mpi_abs X div 2 ^ mbedtls_mpi_lsb X"
    by (rule shift_r_fact(1) [OF assms])
  have "mpi_abs X = 2 ^ mbedtls_mpi_lsb X * mpi_abs Y \<and> (mpi_abs X \<noteq> 0 \<longrightarrow> odd (mpi_abs Y))"
    using lsb_val [of X] by (cases "mpi_abs X = 0") (simp_all add: Y)
  then show "mpi_abs X = 2 ^ mbedtls_mpi_lsb X * mpi_abs Y" "mpi_abs X \<noteq> 0 \<Longrightarrow> odd (mpi_abs Y)"
    by blast+
  show "mpi_abs Y \<le> mpi_abs X"
    by (simp add: Y)
qed

lemma gcd_step_cases:
  assumes "gcd_step M TA TB = Inr (TA', TB')"
  obtains A B where "mbedtls_mpi_shift_r M TA (mbedtls_mpi_lsb TA) = Inr A"
      "mbedtls_mpi_shift_r M TB (mbedtls_mpi_lsb TB) = Inr B" "0 \<le> mbedtls_mpi_cmp_mpi A B"
      "mpi_abs B \<le> mpi_abs A" "mpi_abs TA' = (mpi_abs A - mpi_abs B) div 2" "TB' = B" "mpi_s TA' = 1"
  | A B where "mbedtls_mpi_shift_r M TA (mbedtls_mpi_lsb TA) = Inr A"
      "mbedtls_mpi_shift_r M TB (mbedtls_mpi_lsb TB) = Inr B" "\<not> 0 \<le> mbedtls_mpi_cmp_mpi A B"
      "mpi_abs A \<le> mpi_abs B" "mpi_abs TB' = (mpi_abs B - mpi_abs A) div 2" "TA' = A" "mpi_s TB' = 1"
proof -
  obtain A B where AB: "mbedtls_mpi_shift_r M TA (mbedtls_mpi_lsb TA) = Inr A"
      "mbedtls_mpi_shift_r M TB (mbedtls_mpi_lsb TB) = Inr B"
    using assms by (auto simp: gcd_step_def outcome_simps)
  show thesis
  proof (cases "0 \<le> mbedtls_mpi_cmp_mpi A B")
    case True
    then obtain D where "mbedtls_mpi_sub_abs M A Self (Other B) = Inr D" "mbedtls_mpi_shift_r M D 1 = Inr TA'" "TB' = B"
      using assms AB by (auto simp: gcd_step_def outcome_simps)
    then show thesis
      using that(1) [OF AB True] sub_abs_fact [of M A Self "Other B" D] shift_r_fact(1) [of M D 1 TA']
        shift_r_sign [of M D 1 TA'] by simp
  next
    case False
    then obtain D where "mbedtls_mpi_sub_abs M B Self (Other A) = Inr D" "mbedtls_mpi_shift_r M D 1 = Inr TB'" "TA' = A"
      using assms AB by (auto simp: gcd_step_def outcome_simps)
    then show thesis
      using that(2) [OF AB False] sub_abs_fact [of M B Self "Other A" D] shift_r_fact(1) [of M D 1 TB']
        shift_r_sign [of M D 1 TB'] by simp
  qed
qed

lemma gcd_step_decreases:
  assumes "gcd_step M TA TB = Inr (TA', TB')" and "mpi_abs TA \<noteq> 0"
  shows "mpi_abs TA' + mpi_abs TB' < mpi_abs TA + mpi_abs TB"
  using assms(1)
proof (cases rule: gcd_step_cases)
  case (1 A B)
  have "(mpi_abs A - mpi_abs B) div 2 \<le> mpi_abs TA div 2"
    using shifted_by_lsb(3) [OF 1(1)] by (intro div_le_mono) simp
  moreover have "mpi_abs TA div 2 < mpi_abs TA"
    using assms(2) by simp
  ultimately show ?thesis
    unfolding 1(5,6) using shifted_by_lsb(3) [OF 1(2)] by linarith
next
  case (2 A B)
  have "mpi_abs A \<noteq> 0"
    using shifted_by_lsb(2) [OF 2(1) assms(2)] by (metis even_zero)
  then have "mpi_abs TB \<noteq> 0"
    using 2(4) shifted_by_lsb(3) [OF 2(2)] by linarith
  then have "mpi_abs TB div 2 < mpi_abs TB"
    by simp
  moreover have "(mpi_abs B - mpi_abs A) div 2 \<le> mpi_abs TB div 2"
    using shifted_by_lsb(3) [OF 2(2)] by (intro div_le_mono) simp
  ultimately show ?thesis
    unfolding 2(5,6) using shifted_by_lsb(3) [OF 2(1)] by linarith
qed

section \<open>The loop and the function\<close>

function gcd_loop :: "platform \<Rightarrow> 'l::len word mpi \<Rightarrow> 'l word mpi \<Rightarrow> mpi_error + 'l word mpi" where
  "gcd_loop M TA TB =
     (if mbedtls_mpi_cmp_int TA 0 \<noteq> 0
      then and_then (gcd_step M TA TB) (\<lambda>(TA, TB). gcd_loop M TA TB)
      else Inr TB)"
  by pat_completeness auto
termination
  by (relation "measure (\<lambda>(M, TA, TB). mpi_abs TA + mpi_abs TB)") (auto intro!: gcd_step_decreases dest: cmp_zero)

declare gcd_loop.simps [simp del]

definition mbedtls_mpi_gcd ::
  "platform \<Rightarrow> 'l::len word mpi \<Rightarrow> 'l word operand \<Rightarrow> 'l word operand \<Rightarrow> mpi_error + 'l word mpi" where
  "mbedtls_mpi_gcd M G A B =
     and_then (mbedtls_mpi_copy M mbedtls_mpi_init (Other (deref G A))) (\<lambda>TA.
     and_then (mbedtls_mpi_copy M mbedtls_mpi_init (Other (deref G B))) (\<lambda>TB.
     let lz = mbedtls_mpi_lsb TA; lzt = mbedtls_mpi_lsb TB in
     if lzt = 0 \<and> mbedtls_mpi_get_bit TB 0 = 0 then mbedtls_mpi_copy M G A
     else
       let lz = (if lzt < lz then lzt else lz);
           TA = TA\<lparr>mpi_s := 1\<rparr>; TB = TB\<lparr>mpi_s := 1\<rparr> in
       and_then (gcd_loop M TA TB) (\<lambda>TB.
       and_then (mbedtls_mpi_shift_l M TB lz) (\<lambda>TB.
       mbedtls_mpi_copy M G (Other TB)))))"

section \<open>Odd parts\<close>

lemma odd_part_unique:
  fixes x y :: nat
  assumes "2 ^ k * x = 2 ^ l * y" and "odd x" and "odd y"
  shows "x = y" "k = l"
proof -
  have "k = l"
    using assms
  proof (induction k arbitrary: l)
    case 0
    then show ?case
      by (cases l) auto
  next
    case (Suc k)
    then show ?case
      by (cases l) auto
  qed
  then show "x = y" "k = l"
    using assms(1) by simp_all
qed

lemma odd_part_exists: "n \<noteq> 0 \<Longrightarrow> \<exists>k x. n = 2 ^ k * x \<and> odd (x :: nat)"
proof (induction n rule: less_induct)
  case (less n)
  show ?case
  proof (cases "odd n")
    case True
    moreover have "n = 2 ^ 0 * n"
      by simp
    ultimately show ?thesis
      by blast
  next
    case False
    then obtain m where m: "n = 2 * m"
      by blast
    then obtain k x where "m = 2 ^ k * x" "odd x"
      using less.IH [of m] less.prems by auto
    with m show ?thesis
      by (intro exI [of _ "Suc k"] exI [of _ x]) simp
  qed
qed

lemma gcd_odd_part: "odd y \<Longrightarrow> gcd (2 ^ k * x) y = gcd x (y :: nat)"
  by (metis coprime_commute coprime_power_left_iff coprime_left_2_iff_odd gcd_mult_left_left_cancel)

text \<open>Half the difference of two odd numbers has the same odd common divisors.\<close>

lemma gcd_half_difference:
  fixes x y :: nat
  assumes "odd x" and "odd y" and "y \<le> x" and "(x - y) div 2 = 2 ^ k * z"
  shows "gcd z y = gcd x y"
proof -
  have "x - y = 2 ^ Suc k * z"
  proof -
    have "even (x - y)"
      using assms(1-3) by simp
    then have "x - y = 2 * ((x - y) div 2)"
      by simp
    then show ?thesis
      by (simp add: assms(4))
  qed
  then have "gcd z y = gcd (x - y) y"
    using gcd_odd_part [OF assms(2)] by metis
  then show ?thesis
    using assms(3) by (simp add: gcd_diff1_nat)
qed

section \<open>The loop computes the greatest common divisor of the odd parts\<close>

lemma gcd_step_succeeds:
  assumes "plenty M (max 1 (max (mpi_n TA) (mpi_n TB)))" and "mpi_s TA = 1" and "mpi_s TB = 1"
  shows "\<exists>TA' TB'. gcd_step M TA TB = Inr (TA', TB') \<and> mpi_s TA' = 1 \<and> mpi_s TB' = 1 \<and>
    max 1 (max (mpi_n TA') (mpi_n TB')) = max 1 (max (mpi_n TA) (mpi_n TB))"
proof -
  have one: "plenty M 1"
    using assms(1) by (rule plenty_mono) simp
  obtain A where A: "mbedtls_mpi_shift_r M TA (mbedtls_mpi_lsb TA) = Inr A"
    using shift_r_succeeds [OF one] by blast
  obtain B where B: "mbedtls_mpi_shift_r M TB (mbedtls_mpi_lsb TB) = Inr B"
    using shift_r_succeeds [OF one] by blast
  have s: "mpi_s A = 1" "mpi_s B = 1" and n: "max 1 (mpi_n A) = max 1 (mpi_n TA)" "max 1 (mpi_n B) = max 1 (mpi_n TB)"
    using shift_r_sign [OF A assms(2)] shift_r_sign [OF B assms(3)] shift_r_fact(4) [OF A] shift_r_fact(4) [OF B] by auto
  have room: "plenty M (mpi_n A)" "plenty M (mpi_n B)"
    using assms(1) n by (auto elim!: plenty_mono)
  have cmp: "mbedtls_mpi_cmp_mpi A B = sgn (int (mpi_abs A) - int (mpi_abs B))"
    using cmp_mpi_val [of A B] s by (simp add: has_sign_def mpi_val_def)
  show ?thesis
  proof (cases "0 \<le> mbedtls_mpi_cmp_mpi A B")
    case True
    then have "mpi_abs B \<le> mpi_abs A"
      by (simp add: cmp sgn_if split: if_splits)
    then obtain D where D: "mbedtls_mpi_sub_abs M A Self (Other B) = Inr D"
      using sub_abs_succeeds [of M A Self "Other B"] room(1) by auto
    obtain E where E: "mbedtls_mpi_shift_r M D 1 = Inr E"
      using shift_r_succeeds [OF one] by blast
    have "gcd_step M TA TB = Inr (E, B)"
      using A B True D E by (simp add: gcd_step_def)
    moreover have "mpi_s E = 1" "max 1 (mpi_n E) = max 1 (mpi_n A)"
      using shift_r_sign [OF E] sub_abs_fact(2,3) [OF D] shift_r_fact(4) [OF E] by auto
    moreover have "max 1 (max (mpi_n E) (mpi_n B)) = max 1 (max (mpi_n TA) (mpi_n TB))"
      using n calculation(3) by (auto simp: max_def split: if_splits)
    ultimately show ?thesis
      using s by blast
  next
    case False
    then have "mpi_abs A \<le> mpi_abs B"
      by (simp add: cmp sgn_if split: if_splits)
    then obtain D where D: "mbedtls_mpi_sub_abs M B Self (Other A) = Inr D"
      using sub_abs_succeeds [of M B Self "Other A"] room(2) by auto
    obtain E where E: "mbedtls_mpi_shift_r M D 1 = Inr E"
      using shift_r_succeeds [OF one] by blast
    have "gcd_step M TA TB = Inr (A, E)"
      using A B False D E by (simp add: gcd_step_def)
    moreover have "mpi_s E = 1" "max 1 (mpi_n E) = max 1 (mpi_n B)"
      using shift_r_sign [OF E] sub_abs_fact(2,3) [OF D] shift_r_fact(4) [OF E] by auto
    moreover have "max 1 (max (mpi_n A) (mpi_n E)) = max 1 (max (mpi_n TA) (mpi_n TB))"
      using n calculation(3) by (auto simp: max_def split: if_splits)
    ultimately show ?thesis
      using s by blast
  qed
qed

lemma cmp_int_zero: "mpi_s X = 1 \<Longrightarrow> mbedtls_mpi_cmp_int X 0 = 0 \<longleftrightarrow> mpi_abs X = 0"
  by (simp add: cmp_int_val has_sign_def mpi_val_def sgn_0_0)

text \<open>The two numbers after an iteration, by their odd parts \<open>x\<close> and \<open>y\<close> before it.\<close>

lemma gcd_step_vals:
  assumes "gcd_step M TA TB = Inr (TA', TB')" and "mpi_s TA = 1" and "mpi_s TB = 1"
    and "mpi_abs TA = 2 ^ k * x" and "odd x" and "mpi_abs TB = 2 ^ l * y" and "odd y"
  shows "if y \<le> x then mpi_abs TA' = (x - y) div 2 \<and> mpi_abs TB' = y
    else mpi_abs TA' = x \<and> mpi_abs TB' = (y - x) div 2"
proof -
  have nz: "mpi_abs TA \<noteq> 0" "mpi_abs TB \<noteq> 0"
    using assms(4-7) by (auto elim: oddE)
  have vals: "mpi_abs A = x" "mpi_abs B = y" "mbedtls_mpi_cmp_mpi A B = sgn (int x - int y)"
    if A: "mbedtls_mpi_shift_r M TA (mbedtls_mpi_lsb TA) = Inr A"
      and B: "mbedtls_mpi_shift_r M TB (mbedtls_mpi_lsb TB) = Inr B" for A B
  proof -
    show x: "mpi_abs A = x" and y: "mpi_abs B = y"
      using odd_part_unique(1) [of _ "mpi_abs A" k x] odd_part_unique(1) [of _ "mpi_abs B" l y]
        shifted_by_lsb [OF A] shifted_by_lsb [OF B] nz assms(4-7) by metis+
    show "mbedtls_mpi_cmp_mpi A B = sgn (int x - int y)"
      using cmp_mpi_val [of A B] shift_r_sign [OF A assms(2)] shift_r_sign [OF B assms(3)] x y
      by (simp add: has_sign_def mpi_val_def)
  qed
  show ?thesis
    using assms(1)
  proof (cases rule: gcd_step_cases)
    case (1 A B)
    then show ?thesis
      using vals [OF 1(1,2)] by simp
  next
    case (2 A B)
    then show ?thesis
      using vals [OF 2(1,2)] by (auto simp: sgn_if split: if_splits)
  qed
qed

lemma gcd_loop_val:
  assumes "plenty M (max 1 (max (mpi_n TA) (mpi_n TB)))" and "mpi_s TA = 1" and "mpi_s TB = 1"
    and "mpi_abs TA = 2 ^ k * x" and "odd x" and "mpi_abs TB = 2 ^ l * y" and "odd y"
  shows "\<exists>R. gcd_loop M TA TB = Inr R \<and> mpi_abs R = gcd x y \<and> mpi_s R = 1 \<and>
    mpi_n R \<le> max 1 (max (mpi_n TA) (mpi_n TB))"
  using assms
proof (induction M TA TB arbitrary: k l x y rule: gcd_loop.induct)
  case (1 M TA TB)
  obtain TA' TB' where step: "gcd_step M TA TB = Inr (TA', TB')" "mpi_s TA' = 1" "mpi_s TB' = 1"
      and n: "max 1 (max (mpi_n TA') (mpi_n TB')) = max 1 (max (mpi_n TA) (mpi_n TB))"
    using gcd_step_succeeds [OF "1.prems"(1-3)] by blast
  note vals = gcd_step_vals [OF step(1) "1.prems"(2-7)]
  have "mpi_abs TA \<noteq> 0"
    using "1.prems"(4,5) by (auto elim: oddE)
  then have running: "mbedtls_mpi_cmp_int TA 0 \<noteq> 0"
    by (simp add: cmp_int_zero "1.prems"(2))
  then have unfold: "gcd_loop M TA TB = gcd_loop M TA' TB'"
    using step(1) by (subst gcd_loop.simps) simp
  note IH = "1.IH" [OF running step(1) refl, unfolded n, OF "1.prems"(1) step(2,3)]
  show ?case
  proof (cases "y \<le> x")
    case True
    then have v: "mpi_abs TA' = (x - y) div 2" "mpi_abs TB' = 2 ^ 0 * y"
      using vals by simp_all
    show ?thesis
    proof (cases "(x - y) div 2 = 0")
      case zero: True
      then have "x = y"
        using True "1.prems"(5,7) by presburger
      moreover have "gcd_loop M TA' TB' = Inr TB'"
        using zero v(1) step(2) by (subst gcd_loop.simps) (simp add: cmp_int_zero)
      ultimately show ?thesis
        unfolding unfold using v(2) step(3) n by auto
    next
      case False
      then obtain j z where z: "(x - y) div 2 = 2 ^ j * z" "odd z"
        using odd_part_exists by blast
      show ?thesis
        unfolding unfold using IH [OF trans [OF v(1) z(1)] z(2) v(2) "1.prems"(7)]
          gcd_half_difference [OF "1.prems"(5,7) True z(1)] by simp
    qed
  next
    case False
    then have v: "mpi_abs TA' = 2 ^ 0 * x" "mpi_abs TB' = (y - x) div 2"
      using vals by simp_all
    have "(y - x) div 2 \<noteq> 0"
      using False "1.prems"(5,7) by presburger
    then obtain j z where z: "(y - x) div 2 = 2 ^ j * z" "odd z"
      using odd_part_exists by blast
    show ?thesis
      unfolding unfold using IH [OF v(1) "1.prems"(5) trans [OF v(2) z(1)] z(2)] False
        gcd_half_difference [OF "1.prems"(7,5) _ z(1)] by (simp add: gcd.commute)
  qed
qed

section \<open>The function\<close>

lemma zero_test: "mbedtls_mpi_lsb X = 0 \<and> mbedtls_mpi_get_bit X 0 = 0 \<longleftrightarrow> mpi_abs X = 0"
proof (cases "mpi_abs X = 0")
  case False
  then show ?thesis
    using lsb_val(2) [of X] by (auto simp: get_bit_val bit_0)
qed (simp add: get_bit_val lsb_zero)

lemma gcd_powers:
  fixes x y :: nat
  assumes "odd x" and "odd y"
  shows "gcd (2 ^ k * x) (2 ^ l * y) = gcd x y * 2 ^ min k l"
proof (cases "k \<le> l")
  case True
  then have "gcd (2 ^ k * x) (2 ^ l * y) = 2 ^ k * gcd x (2 ^ (l - k) * y)"
    by (simp add: power_split mult.assoc gcd_mult_distrib_nat)
  then show ?thesis
    using True gcd_odd_part [OF assms(1), of "l - k" y] by (simp add: gcd.commute)
next
  case False
  then have "gcd (2 ^ k * x) (2 ^ l * y) = 2 ^ l * gcd (2 ^ (k - l) * x) y"
    by (simp add: power_split [of l k] mult.assoc gcd_mult_distrib_nat)
  then show ?thesis
    using False gcd_odd_part [OF assms(2), of "k - l" x] by simp
qed

text \<open>Room for the copies, and numbers whose length in bits fits \<open>size_t\<close>.\<close>

definition room_for_gcd :: "platform \<Rightarrow> 'l::len word mpi \<Rightarrow> 'l word operand \<Rightarrow> 'l word operand \<Rightarrow> bool" where
  "room_for_gcd M G A B \<longleftrightarrow>
     (let n = max 1 (max (mpi_n G) (max (mpi_n (deref G A)) (mpi_n (deref G B)))) in
      plenty M n \<and> n * LENGTH('l) < 2 ^ SIZE_BITS M)"

text \<open>The last two calls: the power of two is put back and the result copied.\<close>

lemma gcd_finish:
  fixes R G :: "'l::len word mpi"
  assumes "mpi_abs R * 2 ^ lz < 2 ^ (LENGTH('l) * n)" and "mpi_abs R \<noteq> 0" and "mpi_s R = 1"
    and "plenty M n" and "mpi_n R \<le> n" and "n * LENGTH('l) < 2 ^ SIZE_BITS M"
  shows "\<exists>S H. mbedtls_mpi_shift_l M R lz = Inr S \<and> mbedtls_mpi_copy M G (Other S) = Inr H \<and>
    mpi_val H = int (mpi_abs R * 2 ^ lz) \<and> mpi_s H = 1"
proof -
  have b: "0 < mbedtls_mpi_bitlen R" "2 ^ (mbedtls_mpi_bitlen R - 1) \<le> mpi_abs R"
    using bitlen_bounds(2) [OF assms(2)] by simp_all
  have "(2 :: nat) ^ (mbedtls_mpi_bitlen R - 1 + lz) \<le> mpi_abs R * 2 ^ lz"
    using b(2) by (simp add: power_add)
  then have "(2 :: nat) ^ (mbedtls_mpi_bitlen R - 1 + lz) < 2 ^ (LENGTH('l) * n)"
    using assms(1) by linarith
  then have len: "mbedtls_mpi_bitlen R + lz \<le> n * LENGTH('l)"
    using b(1) by (simp add: mult.commute)
  then have limbs: "BITS_TO_LIMBS TYPE('l) (mbedtls_mpi_bitlen R + lz) \<le> n"
    by (simp add: BITS_TO_LIMBS_le)
  have size: "mbedtls_mpi_bitlen R + lz < 2 ^ SIZE_BITS M"
    using len assms(6) by linarith
  obtain S where S: "mbedtls_mpi_shift_l M R lz = Inr S"
    using shift_l_succeeds [OF size plenty_mono [OF assms(4) limbs]] by blast
  note s = shift_l_fact [OF S size]
  have "mpi_n S \<le> n"
    using s(3) limbs assms(5) by simp
  then obtain H where H: "mbedtls_mpi_copy M G (Other S) = Inr H"
    using copy_succeeds [OF plenty_mono [OF assms(4)]] by blast
  have "mpi_n S \<noteq> 0"
    using s(1) assms(2) by (intro notI) (simp add: mpi_abs_def)
  then show ?thesis
    using S H copy_fact(2,6) [OF H] s assms(3) by (auto simp: mpi_val_def)
qed

lemma gcd_fact:
  fixes G :: "'l::len word mpi"
  assumes "room_for_gcd M G A B"
  shows "\<exists>H. mbedtls_mpi_gcd M G A B = Inr H \<and>
    mpi_val H = (if mpi_abs (deref G B) = 0 then mpi_val (deref G A)
      else int (gcd (mpi_abs (deref G A)) (mpi_abs (deref G B)))) \<and> (mpi_abs (deref G B) \<noteq> 0 \<longrightarrow> mpi_s H = 1)"
proof -
  define n where "n = max 1 (max (mpi_n G) (max (mpi_n (deref G A)) (mpi_n (deref G B))))"
  have room: "plenty M n" "n * LENGTH('l) < 2 ^ SIZE_BITS M"
    using assms by (simp_all add: room_for_gcd_def n_def Let_def)
  have le: "mpi_n (deref G A) \<le> n" "mpi_n (deref G B) \<le> n" "1 \<le> n"
    by (auto simp: n_def)
  obtain TA where A: "mbedtls_mpi_copy M mbedtls_mpi_init (Other (deref G A)) = Inr TA"
    using copy_succeeds [OF plenty_mono [OF room(1) le(1)]] by blast
  obtain TB where B: "mbedtls_mpi_copy M mbedtls_mpi_init (Other (deref G B)) = Inr TB"
    using copy_succeeds [OF plenty_mono [OF room(1) le(2)]] by blast
  have abs: "mpi_abs TA = mpi_abs (deref G A)" "mpi_abs TB = mpi_abs (deref G B)"
    using copy_fact(1) [OF A] copy_fact(1) [OF B] .
  have nT: "mpi_n TA \<le> n" "mpi_n TB \<le> n"
    using copy_fact(4) [OF A] copy_fact(4) [OF B] le by auto
  show ?thesis
  proof (cases "mpi_abs (deref G B) = 0")
    case True
    obtain H where H: "mbedtls_mpi_copy M G A = Inr H"
      using copy_deref_succeeds [OF plenty_mono [OF room(1) le(1)]] by blast
    have "mbedtls_mpi_gcd M G A B = Inr H"
      using A B H True abs zero_test [of TB] by (simp add: mbedtls_mpi_gcd_def Let_def)
    then show ?thesis
      using True copy_deref(2) [OF H] by (simp add: mpi_val_def)
  next
    case False
    define lz where "lz = (if mbedtls_mpi_lsb TB < mbedtls_mpi_lsb TA then mbedtls_mpi_lsb TB else mbedtls_mpi_lsb TA)"
    let ?TA = "TA\<lparr>mpi_s := 1\<rparr>" and ?TB = "TB\<lparr>mpi_s := 1\<rparr>"
    have R: "\<exists>R. gcd_loop M ?TA ?TB = Inr R \<and> mpi_s R = 1 \<and> mpi_n R \<le> n \<and>
        mpi_abs R * 2 ^ lz = gcd (mpi_abs TA) (mpi_abs TB)"
    proof (cases "mpi_abs TA = 0")
      case True
      then have "gcd_loop M ?TA ?TB = Inr ?TB"
        by (subst gcd_loop.simps) (simp add: cmp_int_zero)
      moreover have "lz = 0"
        using True by (simp add: lz_def lsb_zero)
      ultimately show ?thesis
        using True nT by simp
    next
      case nz: False
      define x where "x = mpi_abs TA div 2 ^ mbedtls_mpi_lsb TA"
      define y where "y = mpi_abs TB div 2 ^ mbedtls_mpi_lsb TB"
      have x: "mpi_abs TA = 2 ^ mbedtls_mpi_lsb TA * x" "odd x"
        using lsb_val [OF nz] by (simp_all add: x_def)
      have y: "mpi_abs TB = 2 ^ mbedtls_mpi_lsb TB * y" "odd y"
        using lsb_val [of TB] False abs by (simp_all add: y_def)
      have "max 1 (max (mpi_n ?TA) (mpi_n ?TB)) \<le> n"
        using nT le(3) by simp
      from plenty_mono [OF room(1) this] obtain R where "gcd_loop M ?TA ?TB = Inr R" "mpi_abs R = gcd x y" "mpi_s R = 1"
          "mpi_n R \<le> max 1 (max (mpi_n ?TA) (mpi_n ?TB))"
        using gcd_loop_val [of M ?TA ?TB "mbedtls_mpi_lsb TA" x "mbedtls_mpi_lsb TB" y] x y by auto
      moreover have "lz = min (mbedtls_mpi_lsb TA) (mbedtls_mpi_lsb TB)"
        by (simp add: lz_def min_def)
      ultimately show ?thesis
        using gcd_powers [OF x(2) y(2)] nT le(3) by (subst x(1), subst y(1)) auto
    qed
    then obtain R where R: "gcd_loop M ?TA ?TB = Inr R" "mpi_s R = 1" "mpi_n R \<le> n"
      "mpi_abs R * 2 ^ lz = gcd (mpi_abs TA) (mpi_abs TB)" by blast
    have "mpi_abs R * 2 ^ lz \<le> mpi_abs TB"
      unfolding R(4) using False abs by (intro gcd_le2_nat) simp
    also have "mpi_abs TB < 2 ^ (LENGTH('l) * n)"
      using limbs_val_less_mono [OF nT(2)] by (simp add: mpi_abs_def)
    finally have fits: "mpi_abs R * 2 ^ lz < 2 ^ (LENGTH('l) * n)" .
    have "mpi_abs R \<noteq> 0"
    proof
      assume "mpi_abs R = 0"
      then have "gcd (mpi_abs TA) (mpi_abs TB) = 0"
        using R(4) by simp
      then show False
        using False abs by simp
    qed
    then obtain S H where "mbedtls_mpi_shift_l M R lz = Inr S" "mbedtls_mpi_copy M G (Other S) = Inr H"
        "mpi_val H = int (mpi_abs R * 2 ^ lz)" "mpi_s H = 1"
      using gcd_finish [OF fits _ R(2) room(1) R(3) room(2)] by blast
    moreover have "\<not> (mbedtls_mpi_lsb TB = 0 \<and> mbedtls_mpi_get_bit TB 0 = 0)"
      using zero_test [of TB] False abs by simp
    ultimately have "mbedtls_mpi_gcd M G A B = Inr H"
      using A B R(1) unfolding mbedtls_mpi_gcd_def by (simp only: Let_def and_then_Inr if_False lz_def)
    then show ?thesis
      using False R(4) abs \<open>mpi_val H = int (mpi_abs R * 2 ^ lz)\<close> \<open>mpi_s H = 1\<close> by simp
  qed
qed

section \<open>Properties\<close>

text \<open>
  C27: The binary algorithm terminates and computes the greatest common divisor: for all operands, also
  zero and negative ones and also when the result is one of them, \<open>mbedtls_mpi_gcd\<close> returns the greatest
  common divisor of the values as integers; only when \<open>B\<close> is 0 it returns \<open>A\<close> with its sign.
\<close>

theorem gcd_correct:
  assumes "room_for_gcd M G A B" and "mpi_ok M (deref G A)" and "mpi_ok M (deref G B)"
  shows "\<exists>H. mbedtls_mpi_gcd M G A B = Inr H \<and> \<bar>mpi_val H\<bar> = gcd (mpi_val (deref G A)) (mpi_val (deref G B)) \<and>
    (mpi_val (deref G B) \<noteq> 0 \<longrightarrow> 0 \<le> mpi_val H)"
proof -
  have abs: "gcd (mpi_val (deref G A)) (mpi_val (deref G B)) = int (gcd (mpi_abs (deref G A)) (mpi_abs (deref G B)))"
    using assms(2,3) by (auto simp: mpi_ok_def mpi_val_def)
  have zero: "mpi_val (deref G B) = 0 \<longleftrightarrow> mpi_abs (deref G B) = 0"
    using assms(3) by (auto simp: mpi_ok_def mpi_val_def)
  obtain H where "mbedtls_mpi_gcd M G A B = Inr H"
    "mpi_val H = (if mpi_abs (deref G B) = 0 then mpi_val (deref G A)
      else int (gcd (mpi_abs (deref G A)) (mpi_abs (deref G B))))"
    using gcd_fact [OF assms(1)] by blast
  then show ?thesis
    using zero abs by auto
qed

theorem gcd_correct_witness:
  "\<exists>H. mbedtls_mpi_gcd demo_platform \<lparr>mpi_s = - 1, mpi_p = [48 :: 64 word]\<rparr> Self (Other \<lparr>mpi_s = 1, mpi_p = [36, 0]\<rparr>) = Inr H \<and>
     mpi_val H = 12"
proof -
  let ?G = "\<lparr>mpi_s = - 1, mpi_p = [48 :: 64 word]\<rparr>" and ?B = "\<lparr>mpi_s = 1, mpi_p = [36 :: 64 word, 0]\<rparr>"
  have "mpi_ok demo_platform ?G" "mpi_ok demo_platform ?B" "mpi_val ?G = - 48" "mpi_val ?B = 36"
    by (simp_all add: mpi_ok_def demo_platform_def mpi_val_def mpi_abs_def)
  moreover have "room_for_gcd demo_platform ?G Self (Other ?B)"
    by (simp add: room_for_gcd_def demo_platform_def plenty_def)
  moreover have "gcd (- 48) (36 :: int) = 12"
    by code_simp
  ultimately show ?thesis
    using gcd_correct [of demo_platform ?G Self "Other ?B"] by fastforce
qed

end
