(* ===== verification/Bignum_Mul.thy ===== *)
theory Bignum_Mul
  imports Bignum_Arith
begin

text \<open>
  Multiplication of \<open>library/bignum.c\<close>.  The inner step, the macro \<open>MULADDC_CORE\<close> of a header that is not
  part of the repository, is a parameter: it is given the multiplier \<open>b\<close>, a limb of \<open>s\<close>, a limb of \<open>d\<close>
  and the carry, and returns the new limb of \<open>d\<close> and the new carry.
\<close>

section \<open>The code\<close>

type_synonym 'l muladdc = "'l word \<Rightarrow> 'l word \<Rightarrow> 'l word \<Rightarrow> 'l word \<Rightarrow> 'l word \<times> 'l word"

text \<open>A sequence of \<open>MULADDC_CORE\<close>.\<close>

fun core_run :: "'l::len muladdc \<Rightarrow> 'l word \<Rightarrow> 'l word list \<Rightarrow> 'l word list \<Rightarrow> 'l word \<Rightarrow> 'l word list \<times> 'l word" where
  "core_run K b (s # ss) (d # ds) c =
     (let (d, c) = K b s d c; (ds, c) = core_run K b ss ds c in (d # ds, c))"
| "core_run K b ss ds c = ([], c)"

text \<open>
  One of the loops of \<open>mpi_mul_hlp\<close>, unrolled \<open>k\<close> times: the limbs it finished, the number of limbs left,
  the rests of \<open>s\<close> and \<open>d\<close>, and the carry.
\<close>

function mul_blocks ::
  "'l::len muladdc \<Rightarrow> nat \<Rightarrow> 'l word \<Rightarrow> nat \<Rightarrow> 'l word list \<Rightarrow> 'l word list \<Rightarrow> 'l word \<Rightarrow>
   'l word list \<times> nat \<times> 'l word list \<times> 'l word list \<times> 'l word" where
  "mul_blocks K k b i s d c =
     (if 0 < k \<and> k \<le> i then
        let (low, c) = core_run K b (take k s) (take k d) c;
            (more, rest) = mul_blocks K k b (i - k) (drop k s) (drop k d) c in
        (low @ more, rest)
      else ([], i, s, d, c))"
  by pat_completeness auto
termination
  by (relation "measure (\<lambda>(K, k, b, i, s, d, c). i)") auto

declare mul_blocks.simps [simp del]

fun carry_into :: "'l::len word \<Rightarrow> 'l word list \<Rightarrow> 'l word list option" where
  "carry_into c [] = (if c \<noteq> 0 then None else Some [])"
| "carry_into c (d # ds) =
     (if c \<noteq> 0 then
        let d = d + c; c = of_bool (d < c) in map_option (\<lambda>ds. d # ds) (carry_into c ds)
      else Some (d # ds))"

definition mpi_mul_hlp ::
  "'l::len muladdc \<Rightarrow> nat \<Rightarrow> 'l word list \<Rightarrow> 'l word list \<Rightarrow> 'l word \<Rightarrow> mpi_error + 'l word list" where
  "mpi_mul_hlp K i s d b =
     (if length s < i \<or> length d < i then Inl Array_Overrun
      else
        let (l16, i, s, d, c) = mul_blocks K 16 b i s d 0;
            (l8, i, s, d, c) = mul_blocks K 8 b i s d c;
            (l1, i, s, d, c) = mul_blocks K 1 b i s d c in
        case carry_into c d of
          None \<Rightarrow> Inl Array_Overrun
        | Some d \<Rightarrow> Inr (l16 @ l8 @ l1 @ d))"

text \<open>The loop of \<open>mbedtls_mpi_mul_mpi\<close> over the limbs of \<open>B\<close>, from the highest down.\<close>

fun mul_loop ::
  "'l::len muladdc \<Rightarrow> nat \<Rightarrow> 'l word list \<Rightarrow> 'l word list \<Rightarrow> 'l word list \<Rightarrow> nat \<Rightarrow> mpi_error + 'l word list" where
  "mul_loop K i a b p 0 = Inr p"
| "mul_loop K i a b p (Suc j) =
     and_then (mpi_mul_hlp K i a (drop j p) (b ! j)) (\<lambda>d. mul_loop K i a b (take j p @ d) j)"

definition mbedtls_mpi_mul_mpi ::
  "platform \<Rightarrow> 'l::len muladdc \<Rightarrow> 'l word mpi \<Rightarrow> 'l word operand \<Rightarrow> 'l word operand \<Rightarrow> mpi_error + 'l word mpi" where
  "mbedtls_mpi_mul_mpi M K X A B =
     and_then (case A of Self \<Rightarrow> mbedtls_mpi_copy M mbedtls_mpi_init (Other X) | Other Y \<Rightarrow> Inr Y) (\<lambda>A.
     and_then (case B of Self \<Rightarrow> mbedtls_mpi_copy M mbedtls_mpi_init (Other X) | Other Y \<Rightarrow> Inr Y) (\<lambda>B.
     let i = used_limbs (mpi_p A) (mpi_n A);
         j = used_limbs (mpi_p B) (mpi_n B);
         result_is_zero = (i = 0 \<or> j = 0) in
     and_then (mbedtls_mpi_grow M X (i + j)) (\<lambda>X.
     and_then (mbedtls_mpi_lset M X 0) (\<lambda>X.
     and_then (mul_loop K i (mpi_p A) (mpi_p B) (mpi_p X) j) (\<lambda>p.
     Inr \<lparr>mpi_s = (if result_is_zero then 1 else mpi_s A * mpi_s B), mpi_p = p\<rparr>)))))"

definition mbedtls_mpi_mul_int ::
  "platform \<Rightarrow> 'l::len muladdc \<Rightarrow> 'l word mpi \<Rightarrow> 'l word operand \<Rightarrow> 'l word \<Rightarrow> mpi_error + 'l word mpi" where
  "mbedtls_mpi_mul_int M K X A b =
     (let n = used_limbs (mpi_p (deref X A)) (mpi_n (deref X A)) in
      if b = 0 \<or> n = 0 then mbedtls_mpi_lset M X 0
      else
        and_then (mbedtls_mpi_grow M X (n + 1)) (\<lambda>X.
        and_then (mbedtls_mpi_copy M X A) (\<lambda>X.
        and_then (mpi_mul_hlp K n (mpi_p (deref X A)) (mpi_p X) (b - 1)) (\<lambda>p.
        Inr (X\<lparr>mpi_p := p\<rparr>)))))"

section \<open>The unrolled loops\<close>

lemma core_run_append:
  "length s = length d \<Longrightarrow>
   core_run K b (s @ s') (d @ d') c =
     (let (l, c) = core_run K b s d c; (h, c) = core_run K b s' d' c in (l @ h, c))"
  by (induction s d arbitrary: c rule: list_induct2) (simp_all add: Let_def case_prod_beta)

lemma core_run_length: "length s = length d \<Longrightarrow> length (fst (core_run K b s d c)) = length d"
  by (induction s d arbitrary: c rule: list_induct2) (simp_all add: Let_def case_prod_beta)

text \<open>A loop does \<open>q * k\<close> limbs, as many as it can in blocks of \<open>k\<close>.\<close>

lemma mul_blocks_eq:
  assumes "0 < k" and "i \<le> length s" and "i \<le> length d"
  shows "mul_blocks K k b i s d c =
    (let m = i div k * k; (l, c') = core_run K b (take m s) (take m d) c in
     (l, i mod k, drop m s, drop m d, c'))"
  using assms
proof (induction i arbitrary: s d c rule: less_induct)
  case (less i)
  show ?case
  proof (cases "k \<le> i")
    case True
    let ?m = "(i - k) div k * k"
    have m: "i div k * k = k + ?m" "i mod k = (i - k) mod k"
      using True less.prems(1) by (simp_all add: le_div_geq le_mod_geq)
    have lens: "length (take k s) = length (take k d)"
      using True less.prems by simp
    have "mul_blocks K k b (i - k) (drop k s) (drop k d) c' =
      (let (l, c'') = core_run K b (take ?m (drop k s)) (take ?m (drop k d)) c' in
       (l, (i - k) mod k, drop ?m (drop k s), drop ?m (drop k d), c''))" for c'
      using True less.prems by (subst less.IH) (simp_all add: Let_def)
    then show ?thesis
      unfolding m take_add Let_def core_run_append [OF lens]
      using True less.prems by (subst mul_blocks.simps) (simp add: Let_def case_prod_beta add.commute)
  next
    case False
    then show ?thesis
      using less.prems by (subst mul_blocks.simps) simp
  qed
qed

text \<open>The three loops together are one loop over all limbs.\<close>

lemma blocks_compose:
  assumes "0 < k" and "i \<le> length s" and "i \<le> length d"
  shows "(let (l, i', s', d', c') = mul_blocks K k b i s d c; (h, c'') = core_run K b (take i' s') (take i' d') c' in
     (l @ h, c'', drop i' d')) =
    (let (l, c') = core_run K b (take i s) (take i d) c in (l, c', drop i d))"
proof -
  let ?m = "i div k * k"
  have m: "i = ?m + i mod k"
    by simp
  have "?m \<le> i"
    by simp
  then have "?m \<le> length s" "?m \<le> length d"
    using assms by linarith+
  then have "length (take ?m s) = length (take ?m d)"
    by simp
  note app = core_run_append [OF this, of K b "take (i mod k) (drop ?m s)" "take (i mod k) (drop ?m d)" c]
  have t: "take i xs = take ?m xs @ take (i mod k) (drop ?m xs)" "drop i xs = drop (i mod k) (drop ?m xs)" for xs :: "'a word list"
    using m by (metis take_add, metis add.commute drop_drop)
  show ?thesis
    unfolding t app mul_blocks_eq [OF assms] by (simp add: Let_def case_prod_beta)
qed

lemma blocks_left:
  assumes "mul_blocks K k b i s d c = (l, i', s', d', c')" and "0 < k" and "i \<le> length s" and "i \<le> length d"
  shows "i' = i mod k" "i' \<le> length s'" "i' \<le> length d'"
proof -
  have i: "i' = i mod k" and rest: "s' = drop (i div k * k) s" "d' = drop (i div k * k) d"
    using assms(1) mul_blocks_eq [OF assms(2-4), of K b c] by (simp_all add: Let_def case_prod_beta)
  then show "i' = i mod k" "i' \<le> length s'" "i' \<le> length d'"
    using assms(3,4) div_mult_mod_eq [of i k] unfolding rest length_drop by linarith+
qed

lemma mul_hlp_plain:
  assumes "i \<le> length s" and "i \<le> length d"
  shows "mpi_mul_hlp K i s d b =
    (let (l, c) = core_run K b (take i s) (take i d) 0 in
     case carry_into c (drop i d) of None \<Rightarrow> Inl Array_Overrun | Some h \<Rightarrow> Inr (l @ h))"
proof -
  obtain l16 i1 s1 d1 c1 where b16: "mul_blocks K 16 b i s d 0 = (l16, i1, s1, d1, c1)"
    by (metis prod_cases5)
  note left16 = blocks_left [OF b16 _ assms]
  obtain l8 i2 s2 d2 c2 where b8: "mul_blocks K 8 b i1 s1 d1 c1 = (l8, i2, s2, d2, c2)"
    by (metis prod_cases5)
  note left8 = blocks_left [OF b8 _ left16(2,3)]
  obtain l1 i3 s3 d3 c3 where b1: "mul_blocks K 1 b i2 s2 d2 c2 = (l1, i3, s3, d3, c3)"
    by (metis prod_cases5)
  note left1 = blocks_left [OF b1 _ left8(2,3)]
  have "core_run K b (take i2 s2) (take i2 d2) c2 = (l1, c3)" "drop i2 d2 = d3"
    using blocks_compose [of 1 i2 s2 d2 K b c2] left8 left1(1) b1 by (auto simp: Let_def case_prod_beta)
  moreover have "core_run K b (take i1 s1) (take i1 d1) c1 =
      (l8 @ fst (core_run K b (take i2 s2) (take i2 d2) c2), snd (core_run K b (take i2 s2) (take i2 d2) c2))"
    "drop i1 d1 = drop i2 d2"
    using blocks_compose [of 8 i1 s1 d1 K b c1] left16 b8 by (auto simp: Let_def case_prod_beta prod_eq_iff)
  moreover have "core_run K b (take i s) (take i d) 0 =
      (l16 @ fst (core_run K b (take i1 s1) (take i1 d1) c1), snd (core_run K b (take i1 s1) (take i1 d1) c1))"
    "drop i d = drop i1 d1"
    using blocks_compose [of 16 i s d K b 0] assms b16 by (auto simp: Let_def case_prod_beta prod_eq_iff)
  ultimately show ?thesis
    using assms b16 b8 b1 by (simp add: mpi_mul_hlp_def not_less Let_def cong: option.case_cong)
qed

section \<open>Multiplying by a limb\<close>

text \<open>What the multiply-and-accumulate step has to compute.\<close>

definition muladdc_exact :: "'l::len muladdc \<Rightarrow> bool" where
  "muladdc_exact K \<longleftrightarrow> (\<forall>b s d c. let (d', c') = K b s d c in
     unat d' + 2 ^ LENGTH('l) * unat c' = unat d + unat s * unat b + unat c)"

lemma core_run_val:
  fixes s d :: "'l::len word list"
  assumes "muladdc_exact K" and "length s = length d" and "core_run K b s d c = (l, c')"
  shows "limbs_val l + 2 ^ (LENGTH('l) * length d) * unat c' = limbs_val d + limbs_val s * unat b + unat c \<and>
    length l = length d"
  using assms(2,3)
proof (induction s d arbitrary: c l rule: list_induct2)
  case (Cons x s y d)
  obtain y' k where K: "K b x y c = (y', k)"
    by fastforce
  obtain l' where l: "core_run K b s d k = (l', c')" "l = y' # l'"
    using Cons.prems K by (auto simp: Let_def split: prod.splits)
  have "unat y' + 2 ^ LENGTH('l) * unat k = unat y + unat x * unat b + unat c"
    using assms(1) K unfolding muladdc_exact_def by (metis (mono_tags, lifting) case_prod_conv)
  moreover have "limbs_val l' + 2 ^ (LENGTH('l) * length d) * unat c' = limbs_val d + limbs_val s * unat b + unat k"
    "length l' = length d"
    using Cons.IH [OF l(1)] by simp_all
  ultimately show ?case
    using carry_chain [of "unat y'" "2 ^ LENGTH('l)" "unat k" "unat y" "unat x * unat b" "unat c" "limbs_val l'"
        "2 ^ (LENGTH('l) * length d)" "unat c'" "limbs_val d" "limbs_val s * unat b"] l(2)
    by (simp add: power_add algebra_simps)
qed simp

lemma low_digit_less:
  fixes u a b B :: nat
  assumes "u < B"
  shows "u + B * a < B * b \<longleftrightarrow> a < b"
proof
  assume "u + B * a < B * b"
  then have "B * a < B * b"
    by linarith
  then show "a < b"
    by simp
qed (use leading_digit_less [OF assms, of a b 0] in simp)

lemma carry_into_val:
  fixes ds :: "'l::len word list"
  shows "carry_into c ds = Some es \<Longrightarrow> limbs_val es = limbs_val ds + unat c \<and> length es = length ds"
    and "carry_into c ds = None \<longleftrightarrow> 2 ^ (LENGTH('l) * length ds) \<le> limbs_val ds + unat c"
proof -
  let ?B = "2 ^ LENGTH('l) :: nat"
  have "(\<forall>es. carry_into c ds = Some es \<longrightarrow> limbs_val es = limbs_val ds + unat c \<and> length es = length ds) \<and>
      (carry_into c ds = None \<longleftrightarrow> 2 ^ (LENGTH('l) * length ds) \<le> limbs_val ds + unat c)"
  proof (induction ds arbitrary: c)
    case Nil
    then show ?case
      by (auto simp: unat_eq_0 Suc_le_eq unat_gt_0)
  next
    case (Cons d ds)
    show ?case
    proof (cases "c = 0")
      case True
      then show ?thesis
        using limbs_val_less [of "d # ds"] by auto
    next
      case False
      let ?k = "of_bool (d + c < c) :: nat"
      have d: "unat (d + c) + ?B * ?k = unat d + unat c"
        by (rule add_carry_out)
      have "?B * 2 ^ (LENGTH('l) * length ds) \<le> unat d + ?B * limbs_val ds + unat c \<longleftrightarrow>
          ?B * 2 ^ (LENGTH('l) * length ds) \<le> unat (d + c) + ?B * (limbs_val ds + ?k)"
      proof -
        have "unat d + ?B * limbs_val ds + unat c = unat (d + c) + ?B * (limbs_val ds + ?k)"
          using d unfolding distrib_left by linarith
        then show ?thesis
          by (simp only:)
      qed
      also have "\<dots> \<longleftrightarrow> 2 ^ (LENGTH('l) * length ds) \<le> limbs_val ds + ?k"
        using low_digit_less [OF limb_less [of "d + c"], of "limbs_val ds + ?k" "2 ^ (LENGTH('l) * length ds)"]
        by linarith
      finally have over: "?B * 2 ^ (LENGTH('l) * length ds) \<le> unat d + ?B * limbs_val ds + unat c \<longleftrightarrow>
          2 ^ (LENGTH('l) * length ds) \<le> limbs_val ds + ?k" .
      have IH: "limbs_val es = limbs_val ds + ?k" "length es = length ds"
        if "carry_into (of_bool (d + c < c)) ds = Some es" for es
        using Cons.IH [of "of_bool (d + c < c)"] that by (simp_all add: unat_of_bool)
      have none: "carry_into (of_bool (d + c < c)) ds = None \<longleftrightarrow> 2 ^ (LENGTH('l) * length ds) \<le> limbs_val ds + ?k"
        using Cons.IH [of "of_bool (d + c < c)"] by (simp only: unat_of_bool)
      show ?thesis
      proof (intro conjI allI impI)
        fix es
        assume "carry_into c (d # ds) = Some es"
        then obtain es' where "carry_into (of_bool (d + c < c)) ds = Some es'" "es = (d + c) # es'"
          using False by (auto simp: Let_def)
        then show "limbs_val es = limbs_val (d # ds) + unat c" "length es = length (d # ds)"
          using IH [of es'] d by (simp_all add: algebra_simps)
      next
        show "carry_into c (d # ds) = None \<longleftrightarrow> 2 ^ (LENGTH('l) * length (d # ds)) \<le> limbs_val (d # ds) + unat c"
          using False none over by (simp add: Let_def power_add)
      qed
    qed
  qed
  then show "carry_into c ds = Some es \<Longrightarrow> limbs_val es = limbs_val ds + unat c \<and> length es = length ds"
    and "carry_into c ds = None \<longleftrightarrow> 2 ^ (LENGTH('l) * length ds) \<le> limbs_val ds + unat c"
    by blast+
qed

lemma mul_hlp_val:
  fixes s d :: "'l::len word list"
  assumes "muladdc_exact K" and "i \<le> length s" and "i \<le> length d"
  shows "if limbs_val d + limbs_val (take i s) * unat b < 2 ^ (LENGTH('l) * length d)
    then \<exists>e. mpi_mul_hlp K i s d b = Inr e \<and> limbs_val e = limbs_val d + limbs_val (take i s) * unat b \<and> length e = length d
    else mpi_mul_hlp K i s d b = Inl Array_Overrun"
proof -
  let ?P = "2 ^ (LENGTH('l) * i) :: nat"
  obtain l c where run: "core_run K b (take i s) (take i d) 0 = (l, c)"
    by fastforce
  have lens: "length (take i s) = length (take i d)" "length (take i d) = i"
    using assms(2,3) by simp_all
  have l: "limbs_val l + ?P * unat c = limbs_val (take i d) + limbs_val (take i s) * unat b" "length l = i"
    using core_run_val [OF assms(1) lens(1) run] unfolding lens(2) by simp_all
  have d: "limbs_val d = limbs_val (take i d) + ?P * limbs_val (drop i d)"
    using limbs_val_take_drop [OF assms(3)] .
  have n: "(2 :: nat) ^ (LENGTH('l) * length d) = ?P * 2 ^ (LENGTH('l) * length (drop i d))"
    using assms(3) by (simp add: algebra_simps flip: power_add)
  have total: "limbs_val d + limbs_val (take i s) * unat b = limbs_val l + ?P * (limbs_val (drop i d) + unat c)"
    using l(1) d by (simp add: algebra_simps)
  have "limbs_val l < ?P"
    using limbs_val_less [of l] l(2) by simp
  then have small: "limbs_val d + limbs_val (take i s) * unat b < 2 ^ (LENGTH('l) * length d) \<longleftrightarrow>
      limbs_val (drop i d) + unat c < 2 ^ (LENGTH('l) * length (drop i d))"
    unfolding total n by (rule low_digit_less)
  show ?thesis
  proof (cases "carry_into c (drop i d)")
    case None
    then show ?thesis
      using small carry_into_val(2) [of c "drop i d"] run mul_hlp_plain [OF assms(2,3)] by (simp add: not_less)
  next
    case (Some h)
    then have "\<not> 2 ^ (LENGTH('l) * length (drop i d)) \<le> limbs_val (drop i d) + unat c"
      using carry_into_val(2) [of c "drop i d"] by simp
    moreover have "limbs_val h = limbs_val (drop i d) + unat c" "length h = length (drop i d)"
      using carry_into_val(1) [OF Some] by simp_all
    ultimately show ?thesis
      using small run Some mul_hlp_plain [OF assms(2,3)] l(2) total assms(3)
      by (simp add: limbs_val_append not_le)
  qed
qed

section \<open>The product\<close>

lemma mul_loop_val:
  fixes p :: "'l::len word list"
  assumes "muladdc_exact K" and "i \<le> length a" and "j \<le> length b" and "i + j \<le> length p"
    and "limbs_val p + limbs_val (take i a) * limbs_val (take j b) < 2 ^ (LENGTH('l) * length p)"
  shows "\<exists>q. mul_loop K i a b p j = Inr q \<and> limbs_val q = limbs_val p + limbs_val (take i a) * limbs_val (take j b) \<and>
    length q = length p"
  using assms(3-5)
proof (induction j arbitrary: p)
  case (Suc j)
  let ?P = "2 ^ (LENGTH('l) * j) :: nat" and ?a = "limbs_val (take i a)"
  have j: "j \<le> length p" "i \<le> length (drop j p)"
    using Suc.prems by simp_all
  have b: "limbs_val (take (Suc j) b) = limbs_val (take j b) + ?P * unat (b ! j)"
    using Suc.prems by (simp add: limbs_val_take_Suc)
  have p: "limbs_val p = limbs_val (take j p) + ?P * limbs_val (drop j p)"
    by (rule limbs_val_take_drop [OF j(1)])
  have n: "(2 :: nat) ^ (LENGTH('l) * length p) = ?P * 2 ^ (LENGTH('l) * length (drop j p))"
    using j(1) by (simp add: algebra_simps flip: power_add)
  have sum: "limbs_val p + ?a * limbs_val (take (Suc j) b) =
      limbs_val (take j p) + ?a * limbs_val (take j b) + ?P * (limbs_val (drop j p) + ?a * unat (b ! j))"
    unfolding p b by (simp add: algebra_simps)
  have "?P * (limbs_val (drop j p) + ?a * unat (b ! j)) < ?P * 2 ^ (LENGTH('l) * length (drop j p))"
    using Suc.prems(3) unfolding sum n by linarith
  then have "limbs_val (drop j p) + ?a * unat (b ! j) < 2 ^ (LENGTH('l) * length (drop j p))"
    by simp
  then obtain e where e: "mpi_mul_hlp K i a (drop j p) (b ! j) = Inr e"
      "limbs_val e = limbs_val (drop j p) + ?a * unat (b ! j)" "length e = length (drop j p)"
    using mul_hlp_val [OF assms(1,2) j(2), of "b ! j"] by auto
  have p': "limbs_val (take j p @ e) + ?a * limbs_val (take j b) = limbs_val p + ?a * limbs_val (take (Suc j) b)"
    "length (take j p @ e) = length p"
    using j(1) e(2,3) sum by (simp_all add: limbs_val_append)
  obtain q where "mul_loop K i a b (take j p @ e) j = Inr q"
      "limbs_val q = limbs_val (take j p @ e) + ?a * limbs_val (take j b)" "length q = length (take j p @ e)"
    using Suc.IH [of "take j p @ e"] Suc.prems p' by auto
  then show ?case
    using e(1) p' by simp
qed simp

text \<open>The operand, or the copy that is made of it when it is the result.\<close>

lemma copied_operand:
  fixes X :: "'l::len word mpi"
  assumes "plenty M (mpi_n (deref X A))"
  obtains Y where "(case A of Self \<Rightarrow> mbedtls_mpi_copy M mbedtls_mpi_init (Other X) | Other Y \<Rightarrow> Inr Y) = Inr Y"
    "mpi_val Y = mpi_val (deref X A)" "mpi_abs Y = mpi_abs (deref X A)" "mpi_n Y \<le> mpi_n (deref X A)"
    "has_sign (deref X A) \<Longrightarrow> has_sign Y"
proof (cases A)
  case Self
  obtain Y where Y: "mbedtls_mpi_copy M mbedtls_mpi_init (Other X) = Inr Y"
    using copy_succeeds [of M X mbedtls_mpi_init] assms Self by auto
  have "has_sign Y" if "has_sign X"
    using that copy_fact(6) [OF Y] Y
    by (cases "mpi_n X = 0") (auto simp: has_sign_def mbedtls_mpi_copy_def)
  then show ?thesis
    using that [of Y] Self Y copy_fact [OF Y] by simp
next
  case (Other Y)
  then show ?thesis
    using that [of Y] by simp
qed

text \<open>Enough memory for the product and for the copies of the operands.\<close>

definition room_for_product :: "platform \<Rightarrow> 'l::len word mpi \<Rightarrow> 'l word operand \<Rightarrow> 'l word operand \<Rightarrow> bool" where
  "room_for_product M X A B \<longleftrightarrow> plenty M (max (mpi_n X) (mpi_n (deref X A) + mpi_n (deref X B) + 1))"

lemma mul_mpi_fact:
  fixes X :: "'l::len word mpi"
  assumes K: "muladdc_exact K" and room: "room_for_product M X A B"
    and sign: "has_sign (deref X A)" "has_sign (deref X B)"
  shows "\<exists>Y. mbedtls_mpi_mul_mpi M K X A B = Inr Y \<and> mpi_val Y = mpi_val (deref X A) * mpi_val (deref X B) \<and>
    has_sign Y \<and> mpi_n Y \<le> max (mpi_n X) (mpi_n (deref X A) + mpi_n (deref X B) + 1) \<and>
    (mpi_val Y = 0 \<longrightarrow> mpi_s Y = 1)"
proof -
  have plenty: "plenty M k" if "k \<le> mpi_n (deref X A) + mpi_n (deref X B) + 1" for k
    using room that by (auto simp: room_for_product_def elim: plenty_mono)
  obtain A' where A: "(case A of Self \<Rightarrow> mbedtls_mpi_copy M mbedtls_mpi_init (Other X) | Other Y \<Rightarrow> Inr Y) = Inr A'"
      "mpi_val A' = mpi_val (deref X A)" "mpi_abs A' = mpi_abs (deref X A)" "mpi_n A' \<le> mpi_n (deref X A)" "has_sign A'"
    using copied_operand [of M X A] plenty [of "mpi_n (deref X A)"] sign by auto
  obtain B' where B: "(case B of Self \<Rightarrow> mbedtls_mpi_copy M mbedtls_mpi_init (Other X) | Other Y \<Rightarrow> Inr Y) = Inr B'"
      "mpi_val B' = mpi_val (deref X B)" "mpi_abs B' = mpi_abs (deref X B)" "mpi_n B' \<le> mpi_n (deref X B)" "has_sign B'"
    using copied_operand [of M X B] plenty [of "mpi_n (deref X B)"] sign by auto
  let ?i = "used_limbs (mpi_p A') (mpi_n A')" and ?j = "used_limbs (mpi_p B') (mpi_n B')"
  have ij: "?i \<le> mpi_n A'" "?j \<le> mpi_n B'"
    by (rule used_limbs_le)+
  have vals: "limbs_val (take ?i (mpi_p A')) = mpi_abs A'" "limbs_val (take ?j (mpi_p B')) = mpi_abs B'"
    by (simp_all add: take_used_limbs mpi_abs_def)
  obtain Z where Z: "mbedtls_mpi_grow M X (?i + ?j) = Inr Z" "mpi_n Z = max (mpi_n X) (?i + ?j)"
    using grow_succeeds [OF plenty, of "?i + ?j" X] ij A(4) B(4) grow_fact(3) by fastforce
  obtain W where W: "mbedtls_mpi_lset M Z 0 = Inr W"
    using lset_succeeds [OF plenty, of Z 0] by auto
  have w: "limbs_val (mpi_p W) = 0" "mpi_n W = max 1 (max (mpi_n X) (?i + ?j))"
    using lset_fact [OF W] Z(2) by (simp_all add: mpi_abs_def sint_abs_def)
  have "mpi_abs A' * mpi_abs B' < 2 ^ (LENGTH('l) * ?i) * 2 ^ (LENGTH('l) * ?j)"
    using used_limbs_upper [of "mpi_p A'"] used_limbs_upper [of "mpi_p B'"]
    unfolding mpi_abs_def by (intro mult_strict_mono') simp_all
  also have "\<dots> \<le> 2 ^ (LENGTH('l) * mpi_n W)"
    unfolding power_add [symmetric] w(2) by (rule power_increasing) (simp_all add: distrib_left [symmetric])
  finally have small: "mpi_abs A' * mpi_abs B' < 2 ^ (LENGTH('l) * mpi_n W)" .
  have "?i + ?j \<le> mpi_n W"
    unfolding w(2) by simp
  then obtain q where q: "mul_loop K ?i (mpi_p A') (mpi_p B') (mpi_p W) ?j = Inr q"
      "limbs_val q = mpi_abs A' * mpi_abs B'" "length q = mpi_n W"
    using mul_loop_val [OF K ij, of "mpi_p W"] w(1) vals small by auto
  let ?Y = "\<lparr>mpi_s = (if ?i = 0 \<or> ?j = 0 then 1 else mpi_s A' * mpi_s B'), mpi_p = q\<rparr>"
  have "mbedtls_mpi_mul_mpi M K X A B = Inr ?Y"
    using A(1) B(1) Z(1) W q(1) by (simp add: mbedtls_mpi_mul_mpi_def Let_def)
  moreover have zero: "?i = 0 \<longleftrightarrow> mpi_abs A' = 0" "?j = 0 \<longleftrightarrow> mpi_abs B' = 0"
    by (simp_all only: used_limbs_eq_0 mpi_abs_def)
  then have "mpi_val ?Y = mpi_val (deref X A) * mpi_val (deref X B)"
    unfolding A(2) [symmetric] B(2) [symmetric] using q(2) by (auto simp: mpi_val_def mpi_abs_def)
  moreover have "has_sign ?Y"
    using A(5) B(5) by (auto simp: has_sign_def)
  moreover have "mpi_n ?Y \<le> max (mpi_n X) (mpi_n (deref X A) + mpi_n (deref X B) + 1)"
  proof -
    have "?i + ?j \<le> mpi_n (deref X A) + mpi_n (deref X B)"
      using ij A(4) B(4) by linarith
    then show ?thesis
      using q(3) w(2) by auto
  qed
  moreover have "mpi_val ?Y = 0 \<longrightarrow> mpi_s ?Y = 1"
    using zero q(2) A(5) B(5) by (auto simp: mpi_val_def mpi_abs_def has_sign_def)
  ultimately show ?thesis
    by blast
qed

lemma mul_int_fact:
  fixes X :: "'l::len word mpi"
  assumes K: "muladdc_exact K" and room: "plenty M (max (mpi_n X) (mpi_n (deref X A) + 1))"
    and sign: "has_sign (deref X A)"
  shows "\<exists>Y. mbedtls_mpi_mul_int M K X A b = Inr Y \<and> mpi_val Y = mpi_val (deref X A) * int (unat b) \<and>
    has_sign Y \<and> mpi_n Y \<le> max (mpi_n X) (mpi_n (deref X A) + 1)"
proof -
  let ?n = "used_limbs (mpi_p (deref X A)) (mpi_n (deref X A))"
  have n: "?n \<le> mpi_n (deref X A)"
    by (rule used_limbs_le)
  have plenty: "plenty M k" if "k \<le> mpi_n (deref X A) + 1" for k
    using room that by (auto elim: plenty_mono)
  show ?thesis
  proof (cases "b = 0 \<or> ?n = 0")
    case True
    obtain Y where Y: "mbedtls_mpi_lset M X 0 = Inr Y"
      using lset_succeeds [OF plenty, of X 0] by auto
    have "mpi_val (deref X A) * int (unat b) = 0"
      using True used_limbs_eq_0 [of "mpi_p (deref X A)"] by (auto simp: mpi_val_def mpi_abs_def)
    moreover have "has_sign Y"
      using lset_fact(5) [OF Y] sint_sign_cases [of "0 :: 'l word"] by (simp add: has_sign_def)
    ultimately show ?thesis
      using True Y lset_fact(1,3) [OF Y] by (simp add: mbedtls_mpi_mul_int_def)
  next
    case False
    obtain Z where Z: "mbedtls_mpi_grow M X (?n + 1) = Inr Z"
      using grow_succeeds [OF plenty, of "?n + 1" X] n by auto
    have z: "mpi_n Z = max (mpi_n X) (?n + 1)" "mpi_abs Z = mpi_abs X" "mpi_s Z = mpi_s X"
      "take ?n (mpi_p Z) = take ?n (mpi_p X)" if "A = Self"
      using grow_fact [OF Z] n that by simp_all
    have nZ: "mpi_n Z = max (mpi_n X) (?n + 1)"
      using grow_fact(3) [OF Z] .
    have Aval: "mpi_abs (deref Z A) = mpi_abs (deref X A)" "mpi_s (deref Z A) = mpi_s (deref X A)"
      "mpi_n (deref X A) \<le> mpi_n (deref Z A)" "mpi_n (deref Z A) \<le> max (mpi_n X) (mpi_n (deref X A) + 1)"
      "take ?n (mpi_p (deref Z A)) = take ?n (mpi_p (deref X A))"
      using z nZ n by (cases A; simp)+
    obtain W where W: "mbedtls_mpi_copy M Z A = Inr W"
      using copy_deref_succeeds [of M Z A] plenty_mono [OF room Aval(4)] by auto
    have "mpi_abs W = mpi_abs (deref X A)" "mpi_val W = mpi_val (deref Z A)" "mpi_n Z \<le> mpi_n W"
      "mpi_n W \<le> max (mpi_n Z) (mpi_n (deref Z A))"
      using copy_deref [OF W] Aval(1) by simp_all
    moreover have "mpi_abs (deref X A) \<noteq> 0"
      using False used_limbs_eq_0 [of "mpi_p (deref X A)"] by (simp add: mpi_abs_def)
    ultimately have w: "mpi_abs W = mpi_abs (deref X A)" "mpi_s W = mpi_s (deref X A)" "?n + 1 \<le> mpi_n W"
      "mpi_n W \<le> max (mpi_n X) (mpi_n (deref X A) + 1)"
      using Aval nZ n by (auto simp: mpi_val_def)
    have a: "limbs_val (take ?n (mpi_p (deref W A))) = mpi_abs (deref X A)" "?n \<le> mpi_n (deref W A)"
      using W Aval(3,5) n take_used_limbs [of "mpi_p (deref X A)" ?n] by (cases A; simp add: mpi_abs_def)+
    have "unat b = unat (b - 1) + 1"
      using False unat_minus_one [of b] unat_gt_0 [of b] by simp
    then have sum: "limbs_val (mpi_p W) + limbs_val (take ?n (mpi_p (deref W A))) * unat (b - 1) =
        mpi_abs (deref X A) * unat b"
      using w(1) a(1) by (simp add: mpi_abs_def)
    have "mpi_abs (deref X A) * unat b < 2 ^ (LENGTH('l) * ?n) * 2 ^ LENGTH('l)"
      using used_limbs_upper [of "mpi_p (deref X A)"] unfolding mpi_abs_def by (intro mult_strict_mono') simp_all
    also have "\<dots> = 2 ^ (LENGTH('l) * (?n + 1))"
      by (simp add: power_add)
    also have "\<dots> \<le> 2 ^ (LENGTH('l) * mpi_n W)"
      using w(3) by (intro power_increasing mult_le_mono2) simp_all
    finally obtain p where "mpi_mul_hlp K ?n (mpi_p (deref W A)) (mpi_p W) (b - 1) = Inr p"
      "limbs_val p = mpi_abs (deref X A) * unat b" "length p = mpi_n W"
      using mul_hlp_val [OF K a(2), of "mpi_p W" "b - 1"] w(3) sum by auto
    then show ?thesis
      using False Z W w sign by (auto simp: mbedtls_mpi_mul_int_def Let_def mpi_val_def mpi_abs_def has_sign_def)
  qed
qed

section \<open>The contract of the multiplication\<close>

lemma within_product_room:
  assumes "room_for_product M X A B" and "has_sign Y"
    and "mpi_n Y \<le> max (mpi_n X) (mpi_n (deref X A) + mpi_n (deref X B) + 1)"
  shows "mpi_ok M Y"
  using assms by (auto simp: room_for_product_def plenty_def mpi_ok_def has_sign_def)

text \<open>A build with a correct step: its multiplication keeps the contract of a binary operation.\<close>

locale exact_core =
  fixes K :: "'l::len muladdc"
  assumes core: "muladdc_exact K"
begin

lemma mul_mpi_exact:
  assumes "room_for_product M X A B" and "mpi_ok M (deref X A)" and "mpi_ok M (deref X B)"
  shows "\<exists>Y. mbedtls_mpi_mul_mpi M K X A B = Inr Y \<and> mpi_val Y = mpi_val (deref X A) * mpi_val (deref X B) \<and>
    mpi_ok M Y \<and> (mpi_val Y = 0 \<longrightarrow> mpi_s Y = 1)"
proof -
  have "has_sign (deref X A)" "has_sign (deref X B)"
    using assms(2,3) by (simp_all add: mpi_ok_def has_sign_def)
  then show ?thesis
    using mul_mpi_fact [OF core assms(1)] within_product_room [OF assms(1)] by blast
qed

end

sublocale exact_core \<subseteq> product: mpi_binary "\<lambda>M. mbedtls_mpi_mul_mpi M K" "(*)" room_for_product
  by unfold_locales (use mul_mpi_exact in blast)

text \<open>The step computed in numbers twice as wide as a limb.\<close>

definition wide_muladdc :: "'l::len muladdc" where
  "wide_muladdc b s d c =
     (let r = unat d + unat s * unat b + unat c in
      (of_nat (r mod 2 ^ LENGTH('l)), of_nat (r div 2 ^ LENGTH('l))))"

lemma wide_sum_bound:
  fixes b s d c :: "'l::len word"
  shows "unat d + unat s * unat b + unat c < 2 ^ LENGTH('l) * 2 ^ LENGTH('l)"
proof -
  define B :: nat where "B = 2 ^ LENGTH('l)"
  have "unat s \<le> B - 1" "unat b \<le> B - 1" "unat d \<le> B - 1" "unat c \<le> B - 1" "1 \<le> B"
    using limb_less [of s] limb_less [of b] limb_less [of d] limb_less [of c] unfolding B_def by linarith+
  moreover then have "unat s * unat b \<le> (B - 1) * (B - 1)"
    by (intro mult_le_mono)
  moreover have "(B - 1) * (B - 1) + 2 * (B - 1) + 1 = B * B"
    using \<open>1 \<le> B\<close> by (cases B) (simp_all add: algebra_simps)
  ultimately have "unat d + unat s * unat b + unat c < B * B"
    by linarith
  then show ?thesis
    by (simp add: B_def)
qed

lemma wide_muladdc_exact: "muladdc_exact (wide_muladdc :: 'l::len muladdc)"
proof -
  let ?B = "2 ^ LENGTH('l) :: nat"
  have "unat (of_nat (r mod ?B) :: 'l word) + ?B * unat (of_nat (r div ?B) :: 'l word) = r" if "r < ?B * ?B" for r
  proof -
    have "r div ?B < ?B"
      using that by (simp add: div_less_iff_less_mult)
    then show ?thesis
      by (simp add: unsigned_of_nat take_bit_nat_eq_self)
  qed
  from this [OF wide_sum_bound] show ?thesis
    by (simp add: muladdc_exact_def wide_muladdc_def Let_def)
qed

interpretation wide: exact_core "wide_muladdc :: 'l::len muladdc"
  by unfold_locales (rule wide_muladdc_exact)

section \<open>Properties\<close>

text \<open>
  The unrolled multiply-and-accumulate loops (blocks of sixteen, of eight, then single limbs) compute
  what one loop over all limbs computes, for every number of limbs and whatever the step does, and the
  last carry goes into the limbs behind them; when these run out, the code writes outside the array.
\<close>

theorem mul_hlp_unrolled:
  assumes "i \<le> length s" and "i \<le> length d"
  shows "mpi_mul_hlp K i s d b =
    (let (l, c) = core_run K b (take i s) (take i d) 0 in
     case carry_into c (drop i d) of None \<Rightarrow> Inl Array_Overrun | Some h \<Rightarrow> Inr (l @ h))"
  using assms by (rule mul_hlp_plain)

theorem mul_hlp_unrolled_witness:
  "mpi_mul_hlp wide_muladdc 27 (replicate 27 (1 :: 64 word)) (replicate 28 0) 7 =
     (let (l, c) = core_run wide_muladdc 7 (take 27 (replicate 27 (1 :: 64 word))) (take 27 (replicate 28 0)) 0 in
      case carry_into c (drop 27 (replicate 28 0)) of None \<Rightarrow> Inl Array_Overrun | Some h \<Rightarrow> Inr (l @ h))"
  by (rule mul_hlp_unrolled) simp_all

text \<open>
  C26: Multiplication refines that of the integers: with memory and a correct step
  \<open>mbedtls_mpi_mul_mpi\<close> succeeds, no carry runs out of the array, and the value of the result is the
  product of the values, also when an operand is the result; a product that is 0 has sign 1.
\<close>

theorem mul_mpi_product:
  assumes "muladdc_exact K" and "room_for_product M X A B" and "mpi_ok M (deref X A)" and "mpi_ok M (deref X B)"
  shows "\<exists>Y. mbedtls_mpi_mul_mpi M K X A B = Inr Y \<and> mpi_val Y = mpi_val (deref X A) * mpi_val (deref X B) \<and>
    mpi_ok M Y \<and> (mpi_val Y = 0 \<longrightarrow> mpi_s Y = 1)"
  using exact_core.mul_mpi_exact [OF exact_core.intro [OF assms(1)] assms(2-4)] .

theorem mul_mpi_product_witness:
  "\<exists>Y. mbedtls_mpi_mul_mpi demo_platform wide_muladdc \<lparr>mpi_s = - 1, mpi_p = [0xffffffffffffffff :: 64 word, 1]\<rparr> Self Self = Inr Y \<and>
     mpi_val Y = (2 ^ 65 - 1) * (2 ^ 65 - 1)"
proof -
  let ?X = "\<lparr>mpi_s = - 1, mpi_p = [0xffffffffffffffff :: 64 word, 1]\<rparr>"
  have "mpi_ok demo_platform ?X" "mpi_val ?X = - (2 ^ 65 - 1)"
    by (simp_all add: mpi_ok_def demo_platform_def mpi_val_def mpi_abs_def)
  moreover have "room_for_product demo_platform ?X Self Self"
    by (simp add: room_for_product_def demo_plenty)
  ultimately show ?thesis
    using mul_mpi_product [OF wide_muladdc_exact, of demo_platform ?X Self Self] by fastforce
qed

text \<open>
  Multiplication by a limb, computed as \<open>A + A * (b - 1)\<close>, is exact, also in place and for the
  factors 0 and 1.
\<close>

theorem mul_int_product:
  assumes "muladdc_exact K" and "plenty M (max (mpi_n X) (mpi_n (deref X A) + 1))" and "mpi_ok M (deref X A)"
  shows "\<exists>Y. mbedtls_mpi_mul_int M K X A b = Inr Y \<and> mpi_val Y = mpi_val (deref X A) * int (unat b) \<and> mpi_ok M Y"
proof -
  obtain Y where "mbedtls_mpi_mul_int M K X A b = Inr Y" "mpi_val Y = mpi_val (deref X A) * int (unat b)"
    "has_sign Y" "mpi_n Y \<le> max (mpi_n X) (mpi_n (deref X A) + 1)"
    using mul_int_fact [OF assms(1,2)] assms(3) by (auto simp: mpi_ok_def has_sign_def)
  then show ?thesis
    using assms(2) by (auto simp: mpi_ok_def has_sign_def plenty_def)
qed

theorem mul_int_product_witness:
  "\<exists>Y. mbedtls_mpi_mul_int demo_platform wide_muladdc \<lparr>mpi_s = - 1, mpi_p = [0xffffffffffffffff :: 64 word, 0]\<rparr> Self 10 = Inr Y \<and>
     mpi_val Y = - 10 * (2 ^ 64 - 1)"
proof -
  let ?X = "\<lparr>mpi_s = - 1, mpi_p = [0xffffffffffffffff :: 64 word, 0]\<rparr>"
  have "mpi_ok demo_platform ?X" "mpi_val ?X = - (2 ^ 64 - 1)"
    by (simp_all add: mpi_ok_def demo_platform_def mpi_val_def mpi_abs_def)
  then show ?thesis
    using mul_int_product [OF wide_muladdc_exact, of demo_platform ?X Self 10] by (fastforce simp: demo_plenty)
qed

end
