(* ===== verification/Bignum_Binary.thy ===== *)
theory Bignum_Binary
  imports Bignum_Arith
begin

text \<open>
  Import and export of numbers as byte strings, \<open>library/bignum.c\<close>.  The host is little endian, as both
  processors of the system are; a limb has a whole number \<open>ciL\<close> of bytes.
\<close>

section \<open>The code\<close>

definition GET_BYTE :: "'l::len word mpi \<Rightarrow> nat \<Rightarrow> 'l word" where
  "GET_BYTE X i = drop_bit (i mod ciL TYPE('l) * 8) (mpi_p X ! (i div ciL TYPE('l))) AND 0xff"

text \<open>The bytes of a limb in memory, and the limbs that lie at a place in memory.\<close>

definition limb_bytes :: "'l::len word \<Rightarrow> bytes" where
  "limb_bytes x = map (\<lambda>i. ucast (drop_bit (8 * i) x)) [0..<ciL TYPE('l)]"

fun limbs_in_memory :: "nat \<Rightarrow> bytes \<Rightarrow> 'l::len word list" where
  "limbs_in_memory 0 bs = []"
| "limbs_in_memory (Suc m) bs =
     of_nat (limbs_val (take (ciL TYPE('l)) bs)) # limbs_in_memory m (drop (ciL TYPE('l)) bs)"

definition mpi_uint_bigendian_to_host_c :: "'l::len word \<Rightarrow> 'l word" where
  "mpi_uint_bigendian_to_host_c x = fold (\<lambda>b tmp. push_bit 8 tmp OR ucast b) (limb_bytes x) 0"

text \<open>The traversal from both ends; \<open>l\<close> and \<open>r\<close> are the indices of the two pointers.\<close>

function bigendian_loop :: "nat \<Rightarrow> nat \<Rightarrow> 'l::len word list \<Rightarrow> 'l word list" where
  "bigendian_loop l r p =
     (if l \<le> r then
        let tmp = mpi_uint_bigendian_to_host_c (p ! l);
            p = p[l := mpi_uint_bigendian_to_host_c (p ! r)];
            p = p[r := tmp] in
        bigendian_loop (l + 1) (r - 1) p
      else p)"
  by pat_completeness auto
termination
  by (relation "measure (\<lambda>(l, r, p). Suc r - l)") auto

declare bigendian_loop.simps [simp del]

definition mpi_bigendian_to_host :: "'l::len word list \<Rightarrow> nat \<Rightarrow> 'l word list" where
  "mpi_bigendian_to_host p limbs = (if limbs = 0 then p else bigendian_loop 0 (limbs - 1) p)"

text \<open>One digit of \<open>w\<close> bits at position \<open>j\<close> is added to the limbs; a limb holds \<open>k\<close> of them.\<close>

definition or_digit :: "nat \<Rightarrow> nat \<Rightarrow> 'l::len word list \<Rightarrow> nat \<Rightarrow> 'l word \<Rightarrow> 'l word list" where
  "or_digit w k p j d = p[j div k := p ! (j div k) OR push_bit (w * (j mod k)) d]"

fun read_le_loop :: "'l::len word list \<Rightarrow> nat \<Rightarrow> bytes \<Rightarrow> 'l word list" where
  "read_le_loop p i [] = p"
| "read_le_loop p i (b # bs) = read_le_loop (or_digit 8 (ciL TYPE('l)) p i (ucast b)) (Suc i) bs"

definition mbedtls_mpi_read_binary_le ::
  "platform \<Rightarrow> 'l::len word mpi \<Rightarrow> bytes \<Rightarrow> mpi_error + 'l word mpi" where
  "mbedtls_mpi_read_binary_le M X buf =
     (let limbs = CHARS_TO_LIMBS TYPE('l) (length buf) in
      and_then (mbedtls_mpi_resize_clear M X limbs) (\<lambda>X.
      Inr (X\<lparr>mpi_p := read_le_loop (mpi_p X) 0 buf\<rparr>)))"

definition mbedtls_mpi_read_binary ::
  "platform \<Rightarrow> 'l::len word mpi \<Rightarrow> bytes \<Rightarrow> mpi_error + 'l word mpi" where
  "mbedtls_mpi_read_binary M X buf =
     (let limbs = CHARS_TO_LIMBS TYPE('l) (length buf);
          overhead = limbs * ciL TYPE('l) - length buf in
      and_then (mbedtls_mpi_resize_clear M X limbs) (\<lambda>X.
      if length buf \<noteq> 0 then
        let Xp = concat (map limb_bytes (mpi_p X));
            Xp = take overhead Xp @ buf @ drop (overhead + length buf) Xp in
        Inr (X\<lparr>mpi_p := mpi_bigendian_to_host (limbs_in_memory limbs Xp) limbs\<rparr>)
      else Inr X))"

text \<open>
  The result of an export is the contents of the buffer of \<open>buflen\<close> bytes, all of which are written.
\<close>

definition mbedtls_mpi_write_binary_le :: "'l::len word mpi \<Rightarrow> nat \<Rightarrow> mpi_error + bytes" where
  "mbedtls_mpi_write_binary_le X buflen =
     (let stored_bytes = mpi_n X * ciL TYPE('l);
          bytes_to_copy = (if stored_bytes < buflen then stored_bytes else buflen) in
      if \<not> stored_bytes < buflen \<and> list_ex (\<lambda>i. GET_BYTE X i \<noteq> 0) [bytes_to_copy..<stored_bytes]
      then Inl MBEDTLS_ERR_MPI_BUFFER_TOO_SMALL
      else
        Inr (map (\<lambda>i. ucast (GET_BYTE X i)) [0..<bytes_to_copy] @
          (if stored_bytes < buflen then replicate (buflen - stored_bytes) 0 else [])))"

definition mbedtls_mpi_write_binary :: "'l::len word mpi \<Rightarrow> nat \<Rightarrow> mpi_error + bytes" where
  "mbedtls_mpi_write_binary X buflen =
     (let stored_bytes = mpi_n X * ciL TYPE('l);
          bytes_to_copy = (if stored_bytes < buflen then stored_bytes else buflen) in
      if \<not> stored_bytes < buflen \<and> list_ex (\<lambda>i. GET_BYTE X i \<noteq> 0) [bytes_to_copy..<stored_bytes]
      then Inl MBEDTLS_ERR_MPI_BUFFER_TOO_SMALL
      else
        Inr ((if stored_bytes < buflen then replicate (buflen - stored_bytes) 0 else []) @
          map (\<lambda>j. ucast (GET_BYTE X (bytes_to_copy - j - 1))) [0..<bytes_to_copy]))"

section \<open>Bytes of a number\<close>

text \<open>The limb widths for which the code is meant.\<close>

definition whole_bytes :: "'l::len itself \<Rightarrow> bool" where
  "whole_bytes T \<longleftrightarrow> LENGTH('l) = 8 * ciL T"

lemma ciL_pos: "whole_bytes TYPE('l::len) \<Longrightarrow> 0 < ciL TYPE('l)"
  by (metis whole_bytes_def len_gt_0 mult_0_right neq0_conv)

lemma digit_position: "w * j = w * k * (j div k) + w * (j mod k)" for w j k :: nat
proof -
  have "w * j = w * (k * (j div k) + j mod k)"
    by simp
  then show ?thesis
    by (simp only: distrib_left mult.assoc)
qed

lemma in_digit:
  fixes i q s w L :: nat
  assumes "s + w \<le> L"
  shows "L * q + s \<le> i \<and> i < L * q + s + w \<longleftrightarrow> i div L = q \<and> s \<le> i mod L \<and> i mod L < s + w"
proof
  assume "L * q + s \<le> i \<and> i < L * q + s + w"
  then obtain r where "i = L * q + (s + r)" "r < w"
    by (metis add.assoc le_Suc_ex nat_add_left_cancel_less)
  moreover have "s + r < L"
    using calculation(2) assms by linarith
  ultimately show "i div L = q \<and> s \<le> i mod L \<and> i mod L < s + w"
    by simp
next
  assume r: "i div L = q \<and> s \<le> i mod L \<and> i mod L < s + w"
  have "L * (i div L) + i mod L = i"
    by simp
  then show "L * q + s \<le> i \<and> i < L * q + s + w"
    using r by (metis add.assoc add_le_cancel_left nat_add_left_cancel_less)
qed

lemma GET_BYTE_bit:
  fixes X :: "'l::len word mpi"
  assumes "whole_bytes TYPE('l)" and "i < mpi_n X * ciL TYPE('l)"
  shows "bit (GET_BYTE X i) j \<longleftrightarrow> j < 8 \<and> bit (mpi_abs X) (8 * i + j)"
proof -
  let ?c = "ciL TYPE('l)" and ?L = "LENGTH('l)"
  have L: "?L = 8 * ?c"
    using assms(1) by (simp add: whole_bytes_def)
  have c: "0 < ?c"
    by (rule ciL_pos [OF assms(1)])
  have k: "i div ?c < mpi_n X"
    using assms(2) by (simp add: less_mult_imp_div_less)
  have ff: "(0xff :: 'l word) = mask 8"
    by (simp add: mask_eq_exp_minus_1)
  have "bit (GET_BYTE X i) j \<longleftrightarrow> j < 8 \<and> bit (mpi_p X ! (i div ?c)) (i mod ?c * 8 + j)"
    unfolding GET_BYTE_def ff by (auto simp: bit_simps dest: bit_imp_le_length)
  also have "\<dots> \<longleftrightarrow> j < 8 \<and> bit (mpi_abs X) (8 * i + j)"
  proof (cases "j < 8")
    case True
    have "i mod ?c < ?c"
      using c by simp
    then have lt: "8 * (i mod ?c) + j < ?L"
      using True L by linarith
    have eq: "8 * i + j = (8 * (i mod ?c) + j) + ?L * (i div ?c)"
      unfolding L by (subst digit_position [of 8 i ?c]) simp
    have "(8 * i + j) div ?L = i div ?c" "(8 * i + j) mod ?L = 8 * (i mod ?c) + j"
      unfolding eq using lt by simp_all
    then show ?thesis
      using True k by (simp add: mpi_abs_def bit_limbs_val mult.commute)
  qed simp
  finally show ?thesis .
qed

lemma bit_bytes_val: "bit (limbs_val (bs :: bytes)) j \<longleftrightarrow> j div 8 < length bs \<and> bit (bs ! (j div 8)) (j mod 8)"
  by (simp add: bit_limbs_val)

lemma GET_BYTE_list:
  fixes X :: "'l::len word mpi"
  assumes "whole_bytes TYPE('l)" and "k \<le> mpi_n X * ciL TYPE('l)"
  shows "limbs_val (map (\<lambda>i. ucast (GET_BYTE X i) :: u8) [0..<k]) = mpi_abs X mod 2 ^ (8 * k)"
proof (rule bit_eqI)
  fix j
  have "j div 8 < k \<longleftrightarrow> j < 8 * k"
    by (simp add: less_mult_imp_div_less div_less_iff_less_mult mult.commute)
  moreover have "bit (ucast (GET_BYTE X (j div 8)) :: u8) (j mod 8) \<longleftrightarrow> bit (mpi_abs X) j" if "j div 8 < k"
    using that assms GET_BYTE_bit [OF assms(1), of "j div 8" X "j mod 8"] by (auto simp: bit_simps)
  ultimately show "bit (limbs_val (map (\<lambda>i. ucast (GET_BYTE X i) :: u8) [0..<k])) j \<longleftrightarrow> bit (mpi_abs X mod 2 ^ (8 * k)) j"
    by (auto simp: bit_bytes_val bit_take_bit_iff simp flip: take_bit_eq_mod)
qed

text \<open>All bytes from position \<open>k\<close> on are 0 exactly when the number has at most \<open>k\<close> bytes.\<close>

lemma high_bytes_zero:
  fixes X :: "'l::len word mpi"
  assumes "whole_bytes TYPE('l)"
  shows "list_ex (\<lambda>i. GET_BYTE X i \<noteq> 0) [k..<mpi_n X * ciL TYPE('l)] \<longleftrightarrow> 2 ^ (8 * k) \<le> mpi_abs X"
proof -
  let ?n = "mpi_n X * ciL TYPE('l)"
  have size: "mpi_abs X < 2 ^ (8 * ?n)"
    using limbs_val_less [of "mpi_p X"] assms by (simp add: mpi_abs_def whole_bytes_def ac_simps)
  have "(\<forall>i\<in>{k..<?n}. GET_BYTE X i = 0) \<longleftrightarrow> mpi_abs X < 2 ^ (8 * k)"
  proof
    assume zero: "\<forall>i\<in>{k..<?n}. GET_BYTE X i = 0"
    have "\<not> bit (mpi_abs X) j" if "8 * k \<le> j" for j
    proof (cases "j < 8 * ?n")
      case True
      then have i: "k \<le> j div 8" "j div 8 < ?n"
        using that by (simp_all add: less_eq_div_iff_mult_less_eq div_less_iff_less_mult mult.commute)
      then have "\<not> bit (GET_BYTE X (j div 8)) (j mod 8)"
        using zero by simp
      then show ?thesis
        using GET_BYTE_bit [OF assms i(2), of "j mod 8"] by simp
    next
      case False
      then have "mpi_abs X < 2 ^ j"
        using size by (meson less_le_trans linorder_not_less one_le_numeral power_increasing)
      then show ?thesis
        by (simp add: bit_iff_odd)
    qed
    then have "take_bit (8 * k) (mpi_abs X) = mpi_abs X"
      by (intro bit_eqI) (metis bit_take_bit_iff linorder_not_less)
    then show "mpi_abs X < 2 ^ (8 * k)"
      by (metis take_bit_nat_less_exp)
  next
    assume small: "mpi_abs X < 2 ^ (8 * k)"
    show "\<forall>i\<in>{k..<?n}. GET_BYTE X i = 0"
    proof
      fix i
      assume i: "i \<in> {k..<?n}"
      have "\<not> bit (mpi_abs X) (8 * i + j)" for j
      proof -
        have "(2 :: nat) ^ (8 * k) \<le> 2 ^ (8 * i + j)"
          using i by (intro power_increasing) simp_all
        then have "mpi_abs X < 2 ^ (8 * i + j)"
          using small by linarith
        then show ?thesis
          by (simp add: bit_iff_odd)
      qed
      then show "GET_BYTE X i = 0"
        using GET_BYTE_bit [OF assms, of i X] i by (intro bit_eqI) simp
    qed
  qed
  then show ?thesis
    by (auto simp: list_ex_iff not_less [symmetric])
qed

section \<open>Export\<close>

lemma write_le_fact:
  fixes X :: "'l::len word mpi"
  assumes "whole_bytes TYPE('l)"
  shows "if mpi_abs X < 2 ^ (8 * buflen)
    then \<exists>bs. mbedtls_mpi_write_binary_le X buflen = Inr bs \<and> length bs = buflen \<and> limbs_val bs = mpi_abs X
    else mbedtls_mpi_write_binary_le X buflen = Inl MBEDTLS_ERR_MPI_BUFFER_TOO_SMALL"
proof -
  let ?n = "mpi_n X * ciL TYPE('l)"
  have size: "mpi_abs X < 2 ^ (8 * ?n)"
    using limbs_val_less [of "mpi_p X"] assms by (simp add: mpi_abs_def whole_bytes_def ac_simps)
  show ?thesis
  proof (cases "?n < buflen")
    case True
    have "(2 :: nat) ^ (8 * ?n) \<le> 2 ^ (8 * buflen)"
      using True by (intro power_increasing) simp_all
    then have "mpi_abs X < 2 ^ (8 * buflen)"
      using size by linarith
    then show ?thesis
      using True size GET_BYTE_list [OF assms order.refl, of X] by (simp add: mbedtls_mpi_write_binary_le_def Let_def)
  next
    case False
    then show ?thesis
      using high_bytes_zero [OF assms, of X buflen] GET_BYTE_list [OF assms, of buflen X]
      by (auto simp: mbedtls_mpi_write_binary_le_def Let_def not_less)
  qed
qed

lemma write_be_rev: "mbedtls_mpi_write_binary X n = map_sum id rev (mbedtls_mpi_write_binary_le X n)"
proof -
  have "map (\<lambda>j. f (k - j - 1)) [0..<k] = rev (map f [0..<k])" for f :: "nat \<Rightarrow> u8" and k
    by (intro nth_equalityI) (simp_all add: rev_nth)
  from this [of "\<lambda>i. ucast (GET_BYTE X i)"] show ?thesis
    by (simp add: mbedtls_mpi_write_binary_def mbedtls_mpi_write_binary_le_def Let_def)
qed

lemma write_be_Inr: "mbedtls_mpi_write_binary X n = Inr bs \<longleftrightarrow> mbedtls_mpi_write_binary_le X n = Inr (rev bs)"
  by (cases "mbedtls_mpi_write_binary_le X n") (auto simp: write_be_rev)

section \<open>Import\<close>

text \<open>Adding a digit to limbs that are still 0 at its place.\<close>

lemma or_digit_bit:
  fixes p :: "'l::len word list"
  assumes "LENGTH('l) = w * k" and "j < length p * k" and "unat d < 2 ^ w"
  shows "bit (limbs_val (or_digit w k p j d)) i \<longleftrightarrow>
    bit (limbs_val p) i \<or> w * j \<le> i \<and> i < w * j + w \<and> bit d (i - w * j)"
proof -
  let ?L = "LENGTH('l)"
  have wk: "0 < w" "0 < k"
    using assms(1) len_gt_0 [where 'a = 'l] by (metis mult_0 mult_0_right neq0_conv)+
  have jk: "j div k < length p" "j mod k < k"
    using assms(2) wk by (simp_all add: less_mult_imp_div_less)
  have j: "w * j = ?L * (j div k) + w * (j mod k)"
    unfolding assms(1) by (rule digit_position)
  have "w * (j mod k) + w \<le> ?L"
    unfolding assms(1) using jk(2) by (metis Suc_leI mult_Suc_right mult_le_mono2 add.commute)
  then have pos: "w * j \<le> i \<and> i < w * j + w \<longleftrightarrow>
      i div ?L = j div k \<and> w * (j mod k) \<le> i mod ?L \<and> i mod ?L < w * (j mod k) + w" for i
    unfolding j by (rule in_digit)
  have d: "\<not> bit d m" if "w \<le> m" for m
    using high_bits_clear [OF assms(3) that] .
  show ?thesis
  proof (cases "i div ?L = j div k")
    case True
    then have "bit (limbs_val (or_digit w k p j d)) i \<longleftrightarrow>
        bit (p ! (j div k) OR push_bit (w * (j mod k)) d) (i mod ?L)"
      using jk(1) by (simp add: bit_limbs_val or_digit_def)
    also have "\<dots> \<longleftrightarrow> bit (limbs_val p) i \<or> w * (j mod k) \<le> i mod ?L \<and> bit d (i mod ?L - w * (j mod k))"
      using True jk(1) by (auto simp: bit_limbs_val bit_simps)
    also have E: "i mod ?L - w * (j mod k) = i - w * j"
      unfolding j True [symmetric] by (metis diff_diff_left minus_mult_div_eq_mod)
    also have "w * (j mod k) \<le> i mod ?L \<and> bit d (i - w * j) \<longleftrightarrow> w * j \<le> i \<and> i < w * j + w \<and> bit d (i - w * j)"
    proof (cases "bit d (i - w * j)")
      case set: True
      then have "i - w * j < w"
        using d not_less by blast
      then have "i mod ?L < w * (j mod k) + w" if "w * (j mod k) \<le> i mod ?L"
        using that E by linarith
      then show ?thesis
        using pos [of i] True set by blast
    qed simp
    finally show ?thesis .
  next
    case False
    then show ?thesis
      using pos [of i] by (auto simp: bit_limbs_val or_digit_def)
  qed
qed

lemma or_digit_length [simp]: "length (or_digit w k p j d) = length p"
  by (simp add: or_digit_def)

lemma read_le_loop_length [simp]: "length (read_le_loop p i bs) = length p"
  by (induction p i bs rule: read_le_loop.induct) simp_all

lemma read_le_loop_bit:
  fixes p :: "'l::len word list"
  assumes "whole_bytes TYPE('l)" and "i + length bs \<le> length p * ciL TYPE('l)"
  shows "bit (limbs_val (read_le_loop p i bs)) j \<longleftrightarrow>
      bit (limbs_val p) j \<or> 8 * i \<le> j \<and> bit (limbs_val bs) (j - 8 * i)"
  using assms(2)
proof (induction p i bs rule: read_le_loop.induct)
  case (2 p i b bs)
  let ?q = "or_digit 8 (ciL TYPE('l)) p i (ucast b)"
  have L: "LENGTH('l) = 8 * ciL TYPE('l)"
    using assms(1) by (simp add: whole_bytes_def)
  have b: "unat (ucast b :: 'l word) < 2 ^ 8"
  proof -
    have "unat (ucast b :: 'l word) \<le> unat b"
      by (simp add: unsigned_ucast_eq)
    then show ?thesis
      using limb_less [of b] by simp
  qed
  have C: "bit (limbs_val (b # bs)) (j - 8 * i) \<longleftrightarrow>
      (if j - 8 * i < 8 then bit b (j - 8 * i) else bit (limbs_val bs) (j - 8 * i - 8))"
    using bit_limbs_val_Cons [of b bs "j - 8 * i"] by (simp del: limbs_val.simps)
  have Q: "bit (limbs_val ?q) j \<longleftrightarrow> bit (limbs_val p) j \<or> 8 * i \<le> j \<and> j < 8 * i + 8 \<and> bit (ucast b :: 'l word) (j - 8 * i)"
    by (rule or_digit_bit [OF L _ b]) (use "2.prems" in simp)
  have IH: "bit (limbs_val (read_le_loop p i (b # bs))) j \<longleftrightarrow>
      bit (limbs_val ?q) j \<or> 8 * i + 8 \<le> j \<and> bit (limbs_val bs) (j - 8 * i - 8)"
    using "2.IH" "2.prems" by (simp add: add.commute)
  have bb: "bit (ucast b :: 'l word) (j - 8 * i) \<longleftrightarrow> bit b (j - 8 * i)" if "j < 8 * i + 8" "8 * i \<le> j"
  proof -
    have "j - 8 * i < LENGTH('l)"
      using that L ciL_pos [OF assms(1)] by linarith
    then show ?thesis
      by (simp add: bit_simps)
  qed
  show ?case
    unfolding IH Q C using bb by (cases "j < 8 * i"; cases "j < 8 * i + 8") auto
qed simp_all

lemma read_le_loop_val:
  fixes bs :: bytes
  assumes "whole_bytes TYPE('l::len)" and "length bs \<le> n * ciL TYPE('l)"
  shows "limbs_val (read_le_loop (replicate n (0 :: 'l word)) 0 bs) = limbs_val bs"
  using read_le_loop_bit [OF assms(1), of 0 bs "replicate n 0"] assms(2) by (intro bit_eqI) simp

lemma CHARS_TO_LIMBS_enough:
  assumes "whole_bytes TYPE('l::len)"
  shows "n \<le> CHARS_TO_LIMBS TYPE('l) n * ciL TYPE('l)"
proof -
  let ?c = "ciL TYPE('l)"
  have n: "n div ?c * ?c + n mod ?c = n" "n mod ?c < ?c"
    using ciL_pos [OF assms] by simp_all
  show ?thesis
  proof (cases "n mod ?c = 0")
    case True
    then show ?thesis
      using n(1) by (simp add: CHARS_TO_LIMBS_def)
  next
    case False
    then have "CHARS_TO_LIMBS TYPE('l) n * ?c = n div ?c * ?c + ?c"
      by (simp add: CHARS_TO_LIMBS_def)
    then show ?thesis
      using n by linarith
  qed
qed

subsection \<open>Big endian\<close>

lemma fold_be:
  "fold (\<lambda>b tmp. push_bit 8 tmp OR ucast b) (bs :: bytes) (0 :: 'l::len word) = of_nat (limbs_val (rev bs))"
proof (induction bs rule: rev_induct)
  case (snoc b bs)
  have "push_bit 8 x OR ucast b = x * 256 + of_nat (unat b)" for x :: "'l word"
  proof -
    have "push_bit 8 x OR ucast b = push_bit 8 x + (ucast b :: 'l word)"
      by (rule disjunctive_add [symmetric]) (auto simp: bit_simps dest: bit_imp_le_length)
    then show ?thesis
      by (simp add: push_bit_eq_mult of_nat_unat)
  qed
  then show ?case
    using snoc by simp
qed simp

lemma limb_bytes_length [simp]: "length (limb_bytes (x :: 'l::len word)) = ciL TYPE('l)"
  by (simp add: limb_bytes_def)

lemma limb_bytes_of_bytes:
  fixes bs :: bytes
  assumes "whole_bytes TYPE('l::len)" and "length bs = ciL TYPE('l)"
  shows "limb_bytes (of_nat (limbs_val bs) :: 'l word) = bs"
proof (intro nth_equalityI bit_word_eqI)
  fix i j
  assume i: "i < length (limb_bytes (of_nat (limbs_val bs) :: 'l word))" and j: "j < LENGTH(8)"
  have "8 * i + j < LENGTH('l)"
    using i j assms(1) by (simp add: whole_bytes_def)
  moreover have "(8 * i + j) div 8 = i" "(8 * i + j) mod 8 = j"
    using j by simp_all
  ultimately show "bit (limb_bytes (of_nat (limbs_val bs) :: 'l word) ! i) j \<longleftrightarrow> bit (bs ! i) j"
    using i j assms(2) by (simp add: limb_bytes_def bit_simps bit_bytes_val)
qed (simp add: assms(2))

lemma to_host_reverses:
  fixes bs :: bytes
  assumes "whole_bytes TYPE('l::len)" and "length bs = ciL TYPE('l)"
  shows "mpi_uint_bigendian_to_host_c (of_nat (limbs_val bs) :: 'l word) = of_nat (limbs_val (rev bs))"
  by (simp add: mpi_uint_bigendian_to_host_c_def limb_bytes_of_bytes [OF assms] fold_be)

lemma limbs_in_memory_length [simp]: "length (limbs_in_memory m bs) = m"
  by (induction m arbitrary: bs) simp_all

lemma limbs_in_memory_val:
  fixes bs :: bytes
  assumes "whole_bytes TYPE('l::len)"
  shows "length bs = m * ciL TYPE('l) \<Longrightarrow> limbs_val (limbs_in_memory m bs :: 'l word list) = limbs_val bs"
proof (induction m arbitrary: bs)
  case (Suc m)
  let ?c = "ciL TYPE('l)"
  have c: "?c \<le> length bs"
    using Suc.prems by simp
  have L: "LENGTH('l) = 8 * ?c"
    using assms by (simp add: whole_bytes_def)
  have "limbs_val (take ?c bs) < 2 ^ LENGTH('l)"
    using limbs_val_less_mono [of "take ?c bs" ?c] by (simp add: L)
  then have "unat (of_nat (limbs_val (take ?c bs)) :: 'l word) = limbs_val (take ?c bs)"
    by (simp add: unsigned_of_nat take_bit_nat_eq_self)
  then show ?case
    using Suc limbs_val_take_drop [OF c] by (simp add: L)
qed simp

lemma limbs_in_memory_append:
  fixes bs cs :: bytes
  assumes "length bs = m * ciL TYPE('l::len)"
  shows "(limbs_in_memory (m + k) (bs @ cs) :: 'l word list) = limbs_in_memory m bs @ limbs_in_memory k cs"
  using assms by (induction m arbitrary: bs) (simp_all add: le_diff_conv)

lemma limbs_in_memory_rev:
  fixes bs :: bytes
  assumes "whole_bytes TYPE('l::len)"
  shows "length bs = m * ciL TYPE('l) \<Longrightarrow>
    (limbs_in_memory m (rev bs) :: 'l word list) = rev (map mpi_uint_bigendian_to_host_c (limbs_in_memory m bs))"
proof (induction m arbitrary: bs)
  case (Suc m)
  let ?c = "ciL TYPE('l)"
  have len: "length (take ?c bs) = ?c" "length (rev (drop ?c bs)) = m * ?c"
    using Suc.prems by simp_all
  have "rev bs = rev (drop ?c bs) @ rev (take ?c bs)"
    by (metis append_take_drop_id rev_append)
  then have "(limbs_in_memory (Suc m) (rev bs) :: 'l word list) =
      limbs_in_memory m (rev (drop ?c bs)) @ limbs_in_memory 1 (rev (take ?c bs))"
    using limbs_in_memory_append [OF len(2), of 1 "rev (take ?c bs)"] by simp
  also have "(limbs_in_memory 1 (rev (take ?c bs)) :: 'l word list) =
      [mpi_uint_bigendian_to_host_c (of_nat (limbs_val (take ?c bs)))]"
    using len(1) by (simp add: to_host_reverses [OF assms])
  finally show ?case
    using Suc by simp
qed simp

text \<open>The two pointers reverse the part of the array between them.\<close>

lemma bigendian_loop_eq:
  "length q = Suc k \<Longrightarrow>
   bigendian_loop (length xs) (length xs + k) (xs @ q @ ys) = xs @ rev (map mpi_uint_bigendian_to_host_c q) @ ys"
proof (induction k arbitrary: q xs ys rule: less_induct)
  case (less k)
  let ?f = mpi_uint_bigendian_to_host_c
  show ?case
  proof (cases k)
    case 0
    then obtain a where q: "q = [a]"
      using less.prems by (auto simp: length_Suc_conv)
    have "\<not> Suc (length xs) \<le> length xs - 1"
      by linarith
    then have "bigendian_loop (Suc (length xs)) (length xs - 1) r = r" for r :: "'a word list"
      by (subst bigendian_loop.simps) simp
    then show ?thesis
      using 0 by (subst bigendian_loop.simps) (simp add: q Let_def list_update_append)
  next
    case (Suc m)
    then obtain a mid b where q: "q = a # mid @ [b]"
      using less.prems by (metis Suc_length_conv append_butlast_last_id length_greater_0_conv zero_less_Suc)
    have k: "k = Suc (length mid)"
      using less.prems q by simp
    let ?p = "(xs @ [?f b]) @ mid @ (?f a # ys)"
    have "bigendian_loop (length xs) (length xs + k) (xs @ q @ ys) =
        bigendian_loop (length (xs @ [?f b])) (length xs + length mid) ?p"
      by (subst bigendian_loop.simps) (simp add: q k Let_def nth_append list_update_append)
    also have "\<dots> = (xs @ [?f b]) @ rev (map ?f mid) @ (?f a # ys)"
    proof (cases "length mid")
      case 0
      then show ?thesis
        by (subst bigendian_loop.simps) simp
    next
      case (Suc j)
      then show ?thesis
        using less.IH [of j mid "xs @ [?f b]" "?f a # ys"] k by simp
    qed
    finally show ?thesis
      by (simp add: q)
  qed
qed

lemma to_host_eq: "length p = limbs \<Longrightarrow> mpi_bigendian_to_host p limbs = rev (map mpi_uint_bigendian_to_host_c p)"
  using bigendian_loop_eq [of p "limbs - 1" "[]" "[]"] by (cases limbs) (simp_all add: mpi_bigendian_to_host_def)

lemma limb_bytes_zero: "concat (replicate n (limb_bytes (0 :: 'l::len word))) = replicate (n * ciL TYPE('l)) 0"
  by (induction n) (simp_all add: limb_bytes_def map_replicate_const replicate_add)

lemma read_be_limbs:
  fixes buf :: bytes and n :: nat
  assumes "whole_bytes TYPE('l::len)" and "length buf \<le> n * ciL TYPE('l)"
  defines "z \<equiv> n * ciL TYPE('l) - length buf"
  shows "limbs_val (mpi_bigendian_to_host (limbs_in_memory n (replicate z 0 @ buf) :: 'l word list) n) = limbs_val (rev buf)"
proof -
  have len: "length (replicate z 0 @ buf) = n * ciL TYPE('l)"
    using assms(2) by (simp add: z_def)
  have "limbs_val (mpi_bigendian_to_host (limbs_in_memory n (replicate z 0 @ buf) :: 'l word list) n) =
      limbs_val (limbs_in_memory n (rev (replicate z 0 @ buf)) :: 'l word list)"
    by (simp add: to_host_eq limbs_in_memory_rev [OF assms(1) len] del: rev_append)
  also have "\<dots> = limbs_val (rev (replicate z 0 @ buf))"
    using len by (intro limbs_in_memory_val [OF assms(1)]) simp
  finally show ?thesis
    by simp
qed

lemma read_binary_fact:
  fixes X :: "'l::len word mpi"
  assumes "whole_bytes TYPE('l)" and "plenty M (CHARS_TO_LIMBS TYPE('l) (length buf))"
  shows "\<exists>Y. mbedtls_mpi_read_binary M X buf = Inr Y \<and> mpi_s Y = 1 \<and> mpi_abs Y = limbs_val (rev buf) \<and>
    mpi_n Y = CHARS_TO_LIMBS TYPE('l) (length buf)"
proof -
  let ?n = "CHARS_TO_LIMBS TYPE('l) (length buf)"
  let ?z = "?n * ciL TYPE('l) - length buf"
  have fits: "length buf \<le> ?n * ciL TYPE('l)"
    by (rule CHARS_TO_LIMBS_enough [OF assms(1)])
  then show ?thesis
    using resize_clear_eq [OF assms(2), of X] read_be_limbs [OF assms(1) fits]
    by (auto simp: mbedtls_mpi_read_binary_def Let_def limb_bytes_zero mpi_abs_def to_host_eq min_def)
qed

lemma read_binary_le_fact:
  fixes X :: "'l::len word mpi"
  assumes "whole_bytes TYPE('l)" and "plenty M (CHARS_TO_LIMBS TYPE('l) (length buf))"
  shows "\<exists>Y. mbedtls_mpi_read_binary_le M X buf = Inr Y \<and> mpi_s Y = 1 \<and> mpi_abs Y = limbs_val buf \<and>
    mpi_n Y = CHARS_TO_LIMBS TYPE('l) (length buf)"
  using resize_clear_eq [OF assms(2), of X] read_le_loop_val [OF assms(1) CHARS_TO_LIMBS_enough [OF assms(1)], of buf]
  by (simp add: mbedtls_mpi_read_binary_le_def Let_def mpi_abs_def)

section \<open>Properties\<close>

lemma bytes_eqI: "length bs = length cs \<Longrightarrow> limbs_val bs = limbs_val cs \<Longrightarrow> bs = (cs :: bytes)"
  using limbs_val_eq_iff by blast

text \<open>
  Export is total and exact: a number is written in big endian into a buffer of any length that its
  value fits, with leading zero bytes, however many limbs it has; otherwise, and only then, the buffer is
  reported as too small.
\<close>

theorem write_binary_exact:
  assumes "whole_bytes TYPE('l::len)"
  shows "if mpi_abs (X :: 'l word mpi) < 256 ^ n
    then \<exists>bs. mbedtls_mpi_write_binary X n = Inr bs \<and> length bs = n \<and> limbs_val (rev bs) = mpi_abs X
    else mbedtls_mpi_write_binary X n = Inl MBEDTLS_ERR_MPI_BUFFER_TOO_SMALL"
proof -
  have "(256 :: nat) ^ n = 2 ^ (8 * n)"
    by (simp add: power_mult)
  then show ?thesis
    using write_le_fact [OF assms, of X n] by (auto simp: write_be_rev split: if_splits)
qed

theorem write_binary_exact_witness:
  "mbedtls_mpi_write_binary \<lparr>mpi_s = 1, mpi_p = [0x1234 :: 64 word, 0]\<rparr> 1 = Inl MBEDTLS_ERR_MPI_BUFFER_TOO_SMALL \<and>
   (\<exists>bs. mbedtls_mpi_write_binary \<lparr>mpi_s = 1, mpi_p = [0x1234 :: 64 word, 0]\<rparr> 3 = Inr bs \<and> limbs_val (rev bs) = 0x1234)"
proof -
  have w: "whole_bytes TYPE(64)" "mpi_abs \<lparr>mpi_s = 1, mpi_p = [0x1234 :: 64 word, 0]\<rparr> = 0x1234"
    by (simp_all add: whole_bytes_def ciL_def mpi_abs_def)
  show ?thesis
    using write_binary_exact [OF w(1), of "\<lparr>mpi_s = 1, mpi_p = [0x1234, 0]\<rparr>" 1]
      write_binary_exact [OF w(1), of "\<lparr>mpi_s = 1, mpi_p = [0x1234, 0]\<rparr>" 3] by (simp add: w(2)) blast
qed

text \<open>
  C28: Import undoes export and export undoes import, in big and in little endian: a byte string that is
  read and written back with its length is the same string, and a number that is written and read back
  has the same magnitude.
\<close>

theorem binary_round_trip:
  fixes X :: "'l::len word mpi"
  assumes "whole_bytes TYPE('l)" and "plenty M (CHARS_TO_LIMBS TYPE('l) (length buf))"
  shows "\<exists>Y Z. mbedtls_mpi_read_binary M X buf = Inr Y \<and> mbedtls_mpi_write_binary Y (length buf) = Inr buf \<and>
    mbedtls_mpi_read_binary_le M X buf = Inr Z \<and> mbedtls_mpi_write_binary_le Z (length buf) = Inr buf \<and>
    (\<forall>W. mbedtls_mpi_write_binary (W :: 'l word mpi) (length buf) = Inr buf \<longrightarrow> mpi_abs Y = mpi_abs W) \<and>
    (\<forall>W. mbedtls_mpi_write_binary_le (W :: 'l word mpi) (length buf) = Inr buf \<longrightarrow> mpi_abs Z = mpi_abs W)"
proof -
  obtain Y where Y: "mbedtls_mpi_read_binary M X buf = Inr Y" "mpi_abs Y = limbs_val (rev buf)"
    using read_binary_fact [OF assms] by blast
  obtain Z where Z: "mbedtls_mpi_read_binary_le M X buf = Inr Z" "mpi_abs Z = limbs_val buf"
    using read_binary_le_fact [OF assms] by blast
  have val: "mpi_abs W = limbs_val bs"
    if "mbedtls_mpi_write_binary_le W (length buf) = Inr bs" for W :: "'l word mpi" and bs
    using write_le_fact [OF assms(1), of W "length buf"] that by (auto split: if_splits)
  have rewrite: "mbedtls_mpi_write_binary_le W (length buf) = Inr bs"
    if "mpi_abs W = limbs_val bs" "length bs = length buf" for W :: "'l word mpi" and bs
  proof -
    have "mpi_abs W < 2 ^ (8 * length buf)"
      using limbs_val_less [of bs] that by simp
    then obtain cs where cs: "mbedtls_mpi_write_binary_le W (length buf) = Inr cs" "length cs = length buf"
        "limbs_val cs = mpi_abs W"
      using write_le_fact [OF assms(1), of W "length buf"] by auto
    have "cs = bs"
      by (rule bytes_eqI) (use cs that in simp_all)
    then show ?thesis
      using cs(1) by simp
  qed
  have "mbedtls_mpi_write_binary Y (length buf) = Inr buf" "mbedtls_mpi_write_binary_le Z (length buf) = Inr buf"
    unfolding write_be_Inr using rewrite [of Y "rev buf"] rewrite [of Z buf] Y(2) Z(2) by simp_all
  moreover have "mpi_abs Y = mpi_abs W" if "mbedtls_mpi_write_binary W (length buf) = Inr buf" for W :: "'l word mpi"
    using val [OF that [unfolded write_be_Inr]] Y(2) by simp
  moreover have "mpi_abs Z = mpi_abs W" if "mbedtls_mpi_write_binary_le W (length buf) = Inr buf" for W :: "'l word mpi"
    using val [OF that] Z(2) by simp
  ultimately show ?thesis
    using Y(1) Z(1) by blast
qed

theorem binary_round_trip_witness:
  "\<exists>Y. mbedtls_mpi_read_binary demo_platform (mbedtls_mpi_init :: 64 word mpi) [0, 1, 2, 3, 4, 5, 6, 7, 8, 9] = Inr Y \<and>
     mbedtls_mpi_write_binary Y 10 = Inr [0, 1, 2, 3, 4, 5, 6, 7, 8, 9]"
proof -
  let ?buf = "[0, 1, 2, 3, 4, 5, 6, 7, 8, 9] :: bytes"
  have w: "whole_bytes TYPE(64)" and len: "length ?buf = 10"
    by (simp_all add: whole_bytes_def ciL_def)
  have "plenty demo_platform (CHARS_TO_LIMBS TYPE(64) (length ?buf))"
    unfolding len by (rule demo_plenty) (simp add: CHARS_TO_LIMBS_def ciL_def)
  from binary_round_trip [OF w this, of mbedtls_mpi_init] show ?thesis
    unfolding len by blast
qed

end
