(* ===== verification/Bignum_Radix.thy ===== *)
theory Bignum_Radix
  imports Bignum_Mul Bignum_Binary
begin

text \<open>
  Numbers as text, and the remainder of a number by a limb, \<open>library/bignum.c\<close>.  A C string is the list of
  its characters before the terminator; a radix is a number from 2 to 16.
\<close>

section \<open>Reading text\<close>

definition mpi_get_digit :: "nat \<Rightarrow> u8 \<Rightarrow> mpi_error + 'l::len word" where
  "mpi_get_digit radix c =
     (let d = 255;
          d = (if 0x30 \<le> c \<and> c \<le> 0x39 then ucast (c - 0x30) else d);
          d = (if 0x41 \<le> c \<and> c \<le> 0x46 then ucast (c - 0x37) else d);
          d = (if 0x61 \<le> c \<and> c \<le> 0x66 then ucast (c - 0x57) else d) in
      if of_nat radix \<le> d then Inl MBEDTLS_ERR_MPI_INVALID_CHARACTER else Inr d)"

text \<open>The loop for radix 16, from the last character on; \<open>j\<close> counts the digits.\<close>

fun hex_loop :: "'l::len word list \<Rightarrow> nat \<Rightarrow> bytes \<Rightarrow> mpi_error + 'l word list" where
  "hex_loop p j [] = Inr p"
| "hex_loop p j (c # cs) =
     and_then (mpi_get_digit 16 c) (\<lambda>d. hex_loop (or_digit 4 (2 * ciL TYPE('l)) p j d) (Suc j) cs)"

text \<open>The loop for the other radices, with the temporary \<open>T\<close>.\<close>

fun digit_loop ::
  "platform \<Rightarrow> 'l::len muladdc \<Rightarrow> nat \<Rightarrow> 'l word mpi \<Rightarrow> 'l word mpi \<Rightarrow> bytes \<Rightarrow> mpi_error + 'l word mpi" where
  "digit_loop M K radix X T [] = Inr X"
| "digit_loop M K radix X T (c # cs) =
     and_then (mpi_get_digit radix c) (\<lambda>d.
     and_then (mbedtls_mpi_mul_int M K T (Other X) (of_nat radix)) (\<lambda>T.
     and_then (mbedtls_mpi_add_int M X (Other T) d) (\<lambda>X. digit_loop M K radix X T cs)))"

definition mbedtls_mpi_read_string ::
  "platform \<Rightarrow> 'l::len muladdc \<Rightarrow> 'l word mpi \<Rightarrow> nat \<Rightarrow> bytes \<Rightarrow> mpi_error + 'l word mpi" where
  "mbedtls_mpi_read_string M K X radix s =
     (if radix < 2 \<or> 16 < radix then Inl MBEDTLS_ERR_MPI_BAD_INPUT_DATA
      else if s = [] then Inr (mbedtls_mpi_free X)
      else
        let (sign, s) = (if s ! 0 = 0x2D then (- 1, tl s) else (1 :: int, s));
            slen = length s in
        and_then
          (if radix = 16 then
             if (2 ^ SIZE_BITS M - 1) div 4 < slen then Inl MBEDTLS_ERR_MPI_BAD_INPUT_DATA
             else
               let n = BITS_TO_LIMBS TYPE('l) (push_bit 2 slen) in
               and_then (mbedtls_mpi_grow M X n) (\<lambda>X.
               and_then (mbedtls_mpi_lset M X 0) (\<lambda>X.
               and_then (hex_loop (mpi_p X) 0 (rev s)) (\<lambda>p. Inr (X\<lparr>mpi_p := p\<rparr>))))
           else
             and_then (mbedtls_mpi_lset M X 0) (\<lambda>X. digit_loop M K radix X mbedtls_mpi_init s))
          (\<lambda>X. Inr (if sign < 0 \<and> mbedtls_mpi_bitlen X \<noteq> 0 then X\<lparr>mpi_s := - 1\<rparr> else X)))"

section \<open>Remainder by a limb\<close>

text \<open>The two halves of an iteration; \<open>biH\<close> is half the length of a limb.\<close>

definition biH :: "'l::len itself \<Rightarrow> nat" where
  [simp]: "biH _ = LENGTH('l) div 2"

definition mod_limb :: "'l::len word \<Rightarrow> 'l word \<Rightarrow> 'l word \<Rightarrow> 'l word" where
  "mod_limb b x y =
     (let y = push_bit (biH TYPE('l)) y OR drop_bit (biH TYPE('l)) x;
          z = y div b;
          y = y - z * b;
          x = push_bit (biH TYPE('l)) x;
          y = push_bit (biH TYPE('l)) y OR drop_bit (biH TYPE('l)) x;
          z = y div b in
      y - z * b)"

definition mbedtls_mpi_mod_int :: "'l::len word mpi \<Rightarrow> 'l word \<Rightarrow> mpi_error + 'l word" where
  "mbedtls_mpi_mod_int A b =
     (if b = 0 then Inl MBEDTLS_ERR_MPI_DIVISION_BY_ZERO
      else if sint b < 0 then Inl MBEDTLS_ERR_MPI_NEGATIVE_VALUE
      else if b = 1 \<or> mpi_n A = 0 then Inr 0
      else if b = 2 then Inr (mpi_p A ! 0 AND 1)
      else
        let y = fold (mod_limb b) (rev (mpi_p A)) 0 in
        Inr (if mpi_s A < 0 \<and> y \<noteq> 0 then b - y else y))"

section \<open>Digits\<close>

definition char_digit :: "u8 \<Rightarrow> nat" where
  "char_digit c =
     (if 0x61 \<le> c \<and> c \<le> 0x66 then unat c - 0x57
      else if 0x41 \<le> c \<and> c \<le> 0x46 then unat c - 0x37
      else if 0x30 \<le> c \<and> c \<le> 0x39 then unat c - 0x30
      else 255)"

text \<open>The value of a numeral, most significant digit first.\<close>

definition numeral_val :: "nat \<Rightarrow> bytes \<Rightarrow> nat" where
  "numeral_val radix s = foldl (\<lambda>v c. v * radix + char_digit c) 0 s"

lemma small_limb:
  assumes "whole_bytes TYPE('l::len)" and "n < 256"
  shows "unat (of_nat n :: 'l word) = n"
proof -
  have "(256 :: nat) \<le> 2 ^ LENGTH('l)"
    using power_increasing [of 8 "LENGTH('l)" "2 :: nat"] ciL_pos [OF assms(1)] assms(1) by (simp add: whole_bytes_def)
  then show ?thesis
    using assms(2) by (simp add: unsigned_of_nat take_bit_nat_eq_self)
qed

lemma ucast_of_nat: "ucast (c :: u8) = (of_nat (unat c) :: 'l::len word)"
  by (simp add: of_nat_unat)

lemma get_digit_eq:
  assumes "whole_bytes TYPE('l::len)" and "radix \<le> 16"
  shows "(mpi_get_digit radix c :: mpi_error + 'l word) =
    (if char_digit c < radix then Inr (of_nat (char_digit c)) else Inl MBEDTLS_ERR_MPI_INVALID_CHARACTER)"
proof -
  have sub: "ucast (c - k) = (of_nat (unat c - unat k) :: 'l word)" if "k \<le> l" "l \<le> c" for k l
    using order_trans [OF that] by (simp only: ucast_of_nat unat_sub)
  define D :: "'l word" where "D = (if 0x61 \<le> c \<and> c \<le> 0x66 then ucast (c - 0x57)
      else if 0x41 \<le> c \<and> c \<le> 0x46 then ucast (c - 0x37)
      else if 0x30 \<le> c \<and> c \<le> 0x39 then ucast (c - 0x30) else 255)"
  have D: "D = of_nat (char_digit c)"
    using sub [of "0x57" "0x61"] sub [of "0x37" "0x41"] sub [of "0x30" "0x30"]
    by (simp add: D_def char_digit_def)
  have "(mpi_get_digit radix c :: mpi_error + 'l word) =
      (if of_nat radix \<le> D then Inl MBEDTLS_ERR_MPI_INVALID_CHARACTER else Inr D)"
    by (simp only: mpi_get_digit_def Let_def D_def)
  moreover have "char_digit c < 256"
    using limb_less [of c] by (auto simp: char_digit_def)
  ultimately show ?thesis
    using assms(2) small_limb [OF assms(1), of radix] small_limb [OF assms(1), of "char_digit c"]
    by (simp add: D word_le_nat_alt not_le [symmetric])
qed

section \<open>The loops of the import\<close>

lemma or_digit_val:
  fixes p :: "'l::len word list"
  assumes "LENGTH('l) = w * k" and "j < length p * k" and "unat d < 2 ^ w" and "limbs_val p < 2 ^ (w * j)"
  shows "limbs_val (or_digit w k p j d) = limbs_val p + 2 ^ (w * j) * unat d"
proof -
  have "limbs_val (or_digit w k p j d) = limbs_val p OR push_bit (w * j) (unat d)"
  proof (rule bit_eqI)
    fix i
    have "bit (unat d) (i - w * j) \<longleftrightarrow> bit d (i - w * j)"
      using bit_imp_le_length [of d "i - w * j"] by (auto simp: bit_unsigned_iff)
    moreover have "i < w * j + w" if "bit d (i - w * j)"
      using high_bits_clear [OF assms(3)] that assms(1) by (metis less_diff_conv2 linorder_not_less nat_le_linear add.commute trans_less_add1)
    ultimately show "bit (limbs_val (or_digit w k p j d)) i \<longleftrightarrow> bit (limbs_val p OR push_bit (w * j) (unat d)) i"
      unfolding or_digit_bit [OF assms(1-3)] by (auto simp: bit_simps)
  qed
  also have "\<dots> = limbs_val p + push_bit (w * j) (unat d)"
  proof (rule disjunctive_add [symmetric])
    fix i
    have "take_bit (w * j) (limbs_val p) = limbs_val p"
      using assms(4) by (simp add: take_bit_nat_eq_self)
    then have "i < w * j" if "bit (limbs_val p) i"
      using that by (metis bit_take_bit_iff)
    then show "\<not> bit (limbs_val p) i \<or> \<not> bit (push_bit (w * j) (unat d)) i"
      by (auto simp: bit_push_bit_iff)
  qed
  finally show ?thesis
    by (simp add: push_bit_eq_mult mult.commute)
qed

lemma numeral_val_snoc: "numeral_val radix (s @ [c]) = numeral_val radix s * radix + char_digit c"
  by (simp add: numeral_val_def)

lemma numeral_val_less: "list_all (\<lambda>c. char_digit c < radix) s \<Longrightarrow> numeral_val radix s < radix ^ length s"
proof (induction s rule: rev_induct)
  case (snoc c s)
  have "numeral_val radix s * radix + char_digit c < (numeral_val radix s + 1) * radix"
    using snoc.prems by simp
  also have "\<dots> \<le> radix ^ length s * radix"
    using snoc by (intro mult_le_mono1) simp
  finally show ?case
    by (simp add: numeral_val_snoc mult.commute)
qed (simp add: numeral_val_def)

lemma hex_loop_val:
  fixes p :: "'l::len word list"
  assumes "whole_bytes TYPE('l)"
  shows "list_all (\<lambda>c. char_digit c < 16) cs \<Longrightarrow> j + length cs \<le> length p * (2 * ciL TYPE('l)) \<Longrightarrow>
    limbs_val p < 2 ^ (4 * j) \<Longrightarrow>
    \<exists>q. hex_loop p j cs = Inr q \<and> limbs_val q = limbs_val p + 2 ^ (4 * j) * numeral_val 16 (rev cs) \<and> length q = length p"
proof (induction cs arbitrary: p j)
  case Nil
  then show ?case
    by (simp add: numeral_val_def)
next
  case (Cons c cs)
  let ?k = "2 * ciL TYPE('l)" and ?d = "of_nat (char_digit c) :: 'l word"
  let ?q = "or_digit 4 ?k p j ?d"
  have L: "LENGTH('l) = 4 * ?k"
    using assms by (simp add: whole_bytes_def)
  have d: "unat ?d = char_digit c" "char_digit c < 16"
    using Cons.prems(1) small_limb [OF assms, of "char_digit c"] by simp_all
  have q: "limbs_val ?q = limbs_val p + 2 ^ (4 * j) * char_digit c"
    using or_digit_val [OF L _ _ Cons.prems(3), of ?d] Cons.prems(2) d by simp
  have "limbs_val p + 2 ^ (4 * j) * char_digit c < 2 ^ (4 * j) * 16"
    by (rule iffD2 [OF low_digit_less [OF Cons.prems(3)] d(2)])
  then have "limbs_val ?q < 2 ^ (4 * Suc j)"
    unfolding q by (simp add: power_add)
  then obtain r where "hex_loop ?q (Suc j) cs = Inr r" "length r = length p"
    "limbs_val r = limbs_val ?q + 2 ^ (4 * Suc j) * numeral_val 16 (rev cs)"
    using Cons.IH [of "Suc j" ?q] Cons.prems by auto
  moreover have "limbs_val ?q + 2 ^ (4 * Suc j) * numeral_val 16 (rev cs) =
      limbs_val p + 2 ^ (4 * j) * numeral_val 16 (rev (c # cs))"
    unfolding q by (simp add: numeral_val_snoc power_add algebra_simps)
  ultimately show ?case
    using Cons.prems(1) get_digit_eq [OF assms, of 16 c] by simp
qed

lemma hex_loop_invalid:
  assumes "whole_bytes TYPE('l::len)" and "\<not> list_all (\<lambda>c. char_digit c < 16) cs"
  shows "hex_loop (p :: 'l word list) j cs = Inl MBEDTLS_ERR_MPI_INVALID_CHARACTER"
  using assms(2) by (induction p j cs rule: hex_loop.induct) (auto simp: get_digit_eq [OF assms(1)])

lemma small_sint:
  assumes "whole_bytes TYPE('l::len)" and "n < 128"
  shows "sint (of_nat n :: 'l word) = int n"
proof -
  have "7 \<le> LENGTH('l) - 1"
    using ciL_pos [OF assms(1)] assms(1) by (simp add: whole_bytes_def)
  then have "(128 :: int) \<le> 2 ^ (LENGTH('l) - 1)"
    using power_increasing [of 7 "LENGTH('l) - 1" "2 :: int"] by simp
  then have "int n < 2 ^ (LENGTH('l) - 1)" "- (2 ^ (LENGTH('l) - 1)) \<le> int n"
    using assms(2) by linarith+
  then show ?thesis
    by (simp add: signed_of_nat signed_take_bit_int_eq_self)
qed

lemma digit_loop_fact:
  fixes X T :: "'l::len word mpi"
  assumes "muladdc_exact K" and "whole_bytes TYPE('l)" and "2 \<le> radix" and "radix \<le> 16"
  shows "has_sign X \<Longrightarrow> mpi_val X = int v \<Longrightarrow> plenty M (max (mpi_n X) (mpi_n T) + 2 * length cs + 2) \<Longrightarrow>
    if list_all (\<lambda>c. char_digit c < radix) cs
    then \<exists>Y. digit_loop M K radix X T cs = Inr Y \<and> has_sign Y \<and>
      mpi_val Y = int (foldl (\<lambda>v c. v * radix + char_digit c) v cs)
    else digit_loop M K radix X T cs = Inl MBEDTLS_ERR_MPI_INVALID_CHARACTER"
proof (induction cs arbitrary: X T v)
  case (Cons c cs)
  let ?d = "of_nat (char_digit c) :: 'l word"
  show ?case
  proof (cases "char_digit c < radix")
    case c: True
    have digit: "(mpi_get_digit radix c :: mpi_error + 'l word) = Inr ?d" "sint ?d = int (char_digit c)"
      using get_digit_eq [OF assms(2,4), of c] small_sint [OF assms(2), of "char_digit c"] c assms(4) by simp_all
    have room: "plenty M k" if "k \<le> max (mpi_n X) (mpi_n T) + 4" for k
      using that Cons.prems(3) by (auto elim: plenty_mono)
    have "max (mpi_n T) (mpi_n X + 1) \<le> max (mpi_n X) (mpi_n T) + 4"
      by auto
    from room [OF this] obtain U where U: "mbedtls_mpi_mul_int M K T (Other X) (of_nat radix) = Inr U"
        "mpi_val U = mpi_val X * int radix" "has_sign U" "mpi_n U \<le> max (mpi_n T) (mpi_n X + 1)"
      using mul_int_fact [OF assms(1), of M T "Other X" "of_nat radix"] Cons.prems(1)
        small_limb [OF assms(2), of radix] assms(4) by auto
    have "max (mpi_n X) (max (mpi_n U) (mpi_n (mpi_of_sint ?d))) + 1 \<le> max (mpi_n X) (mpi_n T) + 4"
      using U(4) by auto
    then obtain Y where "mbedtls_mpi_add_mpi M X (Other U) (Other (mpi_of_sint ?d)) = Inr Y"
      using add_mpi_succeeds [of M X "Other U" "Other (mpi_of_sint ?d)"] room by auto
    then have Y: "mbedtls_mpi_add_int M X (Other U) ?d = Inr Y" "mpi_val Y = int (v * radix + char_digit c)" "has_sign Y"
      and "mpi_n Y \<le> max (mpi_n X) (max (mpi_n U) 1) + 1"
      using add_mpi_fact [of M X "Other U" "Other (mpi_of_sint ?d)" Y] U digit(2) Cons.prems(2)
      by (simp_all add: mbedtls_mpi_add_int_def)
    then have "max (mpi_n Y) (mpi_n U) \<le> max (mpi_n X) (mpi_n T) + 2"
      using U(4) by auto
    then have "plenty M (max (mpi_n Y) (mpi_n U) + 2 * length cs + 2)"
      using Cons.prems(3) by (auto elim: plenty_mono)
    from Cons.IH [OF Y(3,2) this] show ?thesis
      using c digit(1) U(1) Y(1) by simp
  next
    case False
    then show ?thesis
      using get_digit_eq [OF assms(2,4), of c] by simp
  qed
qed simp

section \<open>Reading a string\<close>

definition room_for_numeral :: "platform \<Rightarrow> 'l::len word mpi \<Rightarrow> bytes \<Rightarrow> bool" where
  "room_for_numeral M X s \<longleftrightarrow>
     plenty M (max (mpi_n X) (BITS_TO_LIMBS TYPE('l) (4 * length s)) + 2 * length s + 3) \<and>
     4 * length s < 2 ^ SIZE_BITS M"

lemma lset_zero:
  fixes X :: "'l::len word mpi"
  assumes "mbedtls_mpi_lset M X 0 = Inr Z"
  shows "has_sign Z" "mpi_val Z = 0" "mpi_abs Z = 0" "mpi_n Z = max 1 (mpi_n X)" "mpi_s Z = 1"
  using lset_fact [OF assms] by (simp_all add: has_sign_def sint_sign_def sint_abs_def)

lemma read_digits:
  fixes X :: "'l::len word mpi"
  assumes K: "muladdc_exact K" and w: "whole_bytes TYPE('l)" and r: "2 \<le> radix" "radix \<le> 16"
    and room: "room_for_numeral M X t"
  defines "body \<equiv>
    (if radix = 16 then
       if (2 ^ SIZE_BITS M - 1) div 4 < length t then Inl MBEDTLS_ERR_MPI_BAD_INPUT_DATA
       else
         and_then (mbedtls_mpi_grow M X (BITS_TO_LIMBS TYPE('l) (push_bit 2 (length t)))) (\<lambda>X.
         and_then (mbedtls_mpi_lset M X 0) (\<lambda>X.
         and_then (hex_loop (mpi_p X) 0 (rev t)) (\<lambda>p. Inr (X\<lparr>mpi_p := p\<rparr>))))
     else
       and_then (mbedtls_mpi_lset M X 0) (\<lambda>X. digit_loop M K radix X mbedtls_mpi_init t))"
  shows "if list_all (\<lambda>c. char_digit c < radix) t
    then \<exists>Y. body = Inr Y \<and> has_sign Y \<and> mpi_val Y = int (numeral_val radix t)
    else body = Inl MBEDTLS_ERR_MPI_INVALID_CHARACTER"
proof -
  let ?n = "BITS_TO_LIMBS TYPE('l) (4 * length t)"
  have plenty: "plenty M k" if "k \<le> max (mpi_n X) ?n + 2 * length t + 3" for k
    using room that by (auto simp: room_for_numeral_def elim: plenty_mono)
  have one: "plenty M 1"
    by (rule plenty) simp
  show ?thesis
  proof (cases "radix = 16")
    case True
    have n: "push_bit 2 (length t) = 4 * length t"
      by (simp add: push_bit_eq_mult)
    have "plenty M ?n"
      by (rule plenty) linarith
    then obtain Z where Z: "mbedtls_mpi_grow M X ?n = Inr Z"
      using grow_succeeds by blast
    obtain W where W: "mbedtls_mpi_lset M Z 0 = Inr W"
      using lset_succeeds [OF one] by blast
    have "?n \<le> mpi_n W"
      using grow_fact(3) [OF Z] lset_zero(4) [OF W] by simp
    then have len: "length (rev t) \<le> length (mpi_p W) * (2 * ciL TYPE('l))"
      using BITS_TO_LIMBS_le [where 'l = 'l, of "4 * length t" "mpi_n W"] w
      by (simp add: whole_bytes_def mult.commute mult.left_commute)
    have "length t * 4 \<le> 2 ^ SIZE_BITS M - 1"
      using room unfolding room_for_numeral_def by linarith
    then have "\<not> (2 ^ SIZE_BITS M - 1) div 4 < length t"
      by (simp add: not_less less_eq_div_iff_mult_less_eq)
    then have body: "body = and_then (hex_loop (mpi_p W) 0 (rev t)) (\<lambda>p. Inr (W\<lparr>mpi_p := p\<rparr>))"
      using True Z W by (simp add: body_def n)
    show ?thesis
    proof (cases "list_all (\<lambda>c. char_digit c < 16) t")
      case digits: True
      then obtain q where "hex_loop (mpi_p W) 0 (rev t) = Inr q" "limbs_val q = numeral_val 16 t"
        using hex_loop_val [OF w, of "rev t" 0 "mpi_p W"] len lset_zero(3) [OF W] by (auto simp: mpi_abs_def list_all_iff)
      then show ?thesis
        using body True digits lset_zero(5) [OF W] by (simp add: has_sign_def mpi_val_def mpi_abs_def)
    next
      case False
      then show ?thesis
        using hex_loop_invalid [OF w, of "rev t" "mpi_p W" 0] body True by (simp add: list_all_iff)
    qed
  next
    case False
    obtain W where W: "mbedtls_mpi_lset M X 0 = Inr W"
      using lset_succeeds [OF one] by blast
    have "plenty M (max (mpi_n W) (mpi_n (mbedtls_mpi_init :: 'l word mpi)) + 2 * length t + 2)"
      using lset_zero(4) [OF W] by (intro plenty) auto
    moreover have "body = digit_loop M K radix W mbedtls_mpi_init t"
      using False W by (simp add: body_def)
    moreover have "mpi_val W = int 0"
      using lset_zero(2) [OF W] by simp
    ultimately show ?thesis
      using digit_loop_fact [OF K w r lset_zero(1) [OF W]] by (simp add: numeral_val_def)
  qed
qed

section \<open>Correctness of the remainder\<close>

lemma mod_limb_val:
  fixes b x y :: "'l::len word"
  assumes "even LENGTH('l)" and "unat b \<le> 2 ^ (LENGTH('l) div 2)" and "y < b"
  shows "unat (mod_limb b x y) = (unat y * 2 ^ LENGTH('l) + unat x) mod unat b"
proof -
  let ?h = "LENGTH('l) div 2" and ?H = "2 ^ (LENGTH('l) div 2) :: nat"
  have HH: "(2 :: nat) ^ LENGTH('l) = ?H * ?H"
    using assms(1) by (simp flip: power_add) (metis dvd_mult_div_cancel mult_2)
  have b: "0 < unat b"
    using assms(3) by (auto simp: word_less_nat_alt)
  have step: "unat ((push_bit ?h z OR w) - (push_bit ?h z OR w) div b * b) = (unat z * ?H + unat w) mod unat b"
    if "unat z < ?H" "unat w < ?H" for z w :: "'l word"
  proof -
    have "unat (push_bit ?h z OR w) = unat (push_bit ?h z) + unat w"
      by (rule or_disjoint_val) (use high_bits_clear [OF that(2)] in \<open>auto simp: bit_simps\<close>)
    moreover have "unat z * ?H < ?H * ?H"
      using that(1) by simp
    then have "unat (push_bit ?h z) = unat z * ?H"
      by (simp only: unat_push_bit HH mod_less)
    ultimately have "unat (push_bit ?h z OR w) = unat z * ?H + unat w"
      by simp
    moreover have "unat (u - u div b * b) = unat u mod unat b" for u
      by (simp add: minus_div_mult_eq_mod unat_mod_distrib)
    ultimately show ?thesis
      by simp
  qed
  have x: "unat (drop_bit ?h x) = unat x div ?H" "unat (drop_bit ?h (push_bit ?h x)) = unat x mod ?H"
    by (simp_all only: unat_drop_bit unat_push_bit HH mod_mult_mult2) simp
  have small: "unat x div ?H < ?H" "unat x mod ?H < ?H"
    using limb_less [of x] by (simp_all add: HH div_less_iff_less_mult)
  let ?y = "(unat y * ?H + unat x div ?H) mod unat b"
  have "?y < ?H"
    using b assms(2) by (meson less_le_trans mod_less_divisor)
  moreover have "unat y < ?H"
    using assms(2,3) by (simp add: word_less_nat_alt)
  ultimately have "unat (mod_limb b x y) = (?y * ?H + unat x mod ?H) mod unat b"
    unfolding mod_limb_def Let_def biH_def using step small x by simp
  also have "\<dots> = ((unat y * ?H + unat x div ?H) * ?H + unat x mod ?H) mod unat b"
    by (metis mod_add_left_eq mod_mult_left_eq)
  also have "(unat y * ?H + unat x div ?H) * ?H + unat x mod ?H = unat y * 2 ^ LENGTH('l) + unat x"
    unfolding HH using div_mult_mod_eq [of "unat x" ?H] by (simp add: algebra_simps)
  finally show ?thesis .
qed

lemma mod_limbs_val:
  fixes b :: "'l::len word"
  assumes "even LENGTH('l)" and "unat b \<le> 2 ^ (LENGTH('l) div 2)" and "0 < b"
  shows "unat (fold (mod_limb b) (rev p) 0) = limbs_val p mod unat b"
proof (induction p)
  case (Cons x p)
  let ?y = "fold (mod_limb b) (rev p) 0"
  have "unat ?y < unat b"
    using Cons assms(3) by (simp add: word_less_nat_alt)
  then have "unat (mod_limb b x ?y) = (unat ?y * 2 ^ LENGTH('l) + unat x) mod unat b"
    using mod_limb_val [OF assms(1,2)] by (simp add: word_less_nat_alt)
  also have "\<dots> = (limbs_val p * 2 ^ LENGTH('l) + unat x) mod unat b"
    unfolding Cons by (metis mod_add_left_eq mod_mult_left_eq)
  finally show ?case
    by (simp add: algebra_simps)
qed simp

lemma mod_flip:
  fixes a b :: nat
  assumes "0 < b"
  shows "(- int a) mod int b = (if a mod b = 0 then 0 else int (b - a mod b))"
proof -
  have "a mod b < b"
    using assms by simp
  then show ?thesis
    by (auto simp: zmod_zminus1_eq_if simp flip: of_nat_mod)
qed

lemma mod_int_fact:
  fixes A :: "'l::len word mpi"
  assumes "even LENGTH('l)" and "unat b \<le> 2 ^ (LENGTH('l) div 2)" and "0 < sint b" and "has_sign A"
  shows "\<exists>r. mbedtls_mpi_mod_int A b = Inr r \<and> int (unat r) = mpi_val A mod sint b"
proof -
  have sb: "sint b = int (unat b)"
    using sint_abs_val [of b] assms(3) by (simp add: sint_abs_def sint_sign_def)
  then have b: "0 < unat b"
    using assms(3) by (simp only: of_nat_0_less_iff)
  then have "0 < b" "b \<noteq> 0"
    by (auto simp: word_less_nat_alt)
  note b = b this(1) assms(3) [THEN less_not_sym] this(2)
  let ?y = "fold (mod_limb b) (rev (mpi_p A)) 0"
  have y: "unat ?y = mpi_abs A mod unat b"
    using mod_limbs_val [OF assms(1,2) b(2)] by (simp add: mpi_abs_def)
  consider "b = 1 \<or> mpi_n A = 0" | "b = 2" "mpi_n A \<noteq> 0" | "b \<noteq> 1" "mpi_n A \<noteq> 0" "b \<noteq> 2"
    by blast
  then show ?thesis
  proof cases
    case 1
    then show ?thesis
      using b sb by (auto simp: mbedtls_mpi_mod_int_def mpi_val_def mpi_abs_def)
  next
    case 2
    then obtain x xs where x: "mpi_p A = x # xs"
      by (cases "mpi_p A") auto
    have "2 \<le> LENGTH('l)"
      using assms(1) len_gt_0 [where 'a = 'l] by presburger
    then have "unat b = 2"
      using 2(1) power_increasing [of 2 "LENGTH('l)" "2 :: nat"] by (simp add: unsigned_numeral take_bit_nat_eq_self)
    then have "sint b = 2"
      using sb by simp
    moreover have "mbedtls_mpi_mod_int A b = Inr (x AND 1)"
      using 2 b(3,4) x unfolding mbedtls_mpi_mod_int_def by simp
    moreover have "int (unat (x AND 1)) = mpi_val A mod 2"
    proof -
      have "unat (x AND 1) = unat x AND 1"
        by (simp only: unsigned_and_eq unsigned_1)
      also have "\<dots> = mpi_abs A mod 2"
        by (simp add: mpi_abs_def x and_one_eq mod_add_right_eq [symmetric])
      finally have "int (unat (x AND 1)) = int (mpi_abs A) mod 2"
        by (simp only: of_nat_mod of_nat_numeral)
      also have "\<dots> = mpi_val A mod 2"
        using assms(4) by (auto simp: mpi_val_def has_sign_def mod_2_eq_odd)
      finally show ?thesis .
    qed
    ultimately show ?thesis
      by metis
  next
    case 3
    have "unat ?y < unat b"
      using y b(1) by simp
    then have "unat (b - ?y) = unat b - unat ?y"
      by (simp add: unat_sub word_le_nat_alt)
    then show ?thesis
      using 3 b sb y mod_flip [OF b(1), of "mpi_abs A"] assms(4)
      by (auto simp: mbedtls_mpi_mod_int_def Let_def mpi_val_def has_sign_def of_nat_mod unat_eq_0 simp del: of_nat_unat)
  qed
qed

lemma read_string_fact:
  fixes X :: "'l::len word mpi"
  assumes "muladdc_exact K" and "whole_bytes TYPE('l)" and "2 \<le> radix" and "radix \<le> 16"
    and "room_for_numeral M X s" and "s \<noteq> []"
  defines "t \<equiv> (if s ! 0 = 0x2D then tl s else s)"
  shows "if list_all (\<lambda>c. char_digit c < radix) t
    then \<exists>Y. mbedtls_mpi_read_string M K X radix s = Inr Y \<and>
      mpi_val Y = (if s ! 0 = 0x2D then - int (numeral_val radix t) else int (numeral_val radix t))
    else mbedtls_mpi_read_string M K X radix s = Inl MBEDTLS_ERR_MPI_INVALID_CHARACTER"
proof -
  have "length t \<le> length s"
    by (simp add: t_def)
  then have "BITS_TO_LIMBS TYPE('l) (4 * length t) \<le> BITS_TO_LIMBS TYPE('l) (4 * length s)"
    using BITS_TO_LIMBS_le [where 'l = 'l, of "4 * length s" "BITS_TO_LIMBS TYPE('l) (4 * length s)"]
    by (simp add: BITS_TO_LIMBS_le)
  then have "room_for_numeral M X t"
    using assms(5) \<open>length t \<le> length s\<close> unfolding room_for_numeral_def by (auto elim: plenty_mono)
  note digits = read_digits [OF assms(1-4) this]
  let ?neg = "s ! 0 = 0x2D"
  have split: "(if s ! 0 = 0x2D then (- 1, tl s) else (1 :: int, s)) = ((if ?neg then - 1 else 1), t)"
    by (simp add: t_def)
  have sign: "mpi_val (if (if ?neg then - 1 else (1 :: int)) < 0 \<and> mbedtls_mpi_bitlen Y \<noteq> 0 then Y\<lparr>mpi_s := - 1\<rparr> else Y) =
      (if ?neg then - int v else int v)" if "has_sign Y" "mpi_val Y = int v" for Y :: "'l word mpi" and v
  proof -
    have "mpi_abs Y = v"
      using that by (auto simp: has_sign_def mpi_val_def)
    moreover have "mpi_abs Y = 0" if "mbedtls_mpi_bitlen Y = 0"
      using bitlen_bounds(1) [of Y] that by simp
    ultimately show ?thesis
      using that by (auto simp: mpi_val_def)
  qed
  define body where "body =
    (if radix = 16 then
       if (2 ^ SIZE_BITS M - 1) div 4 < length t then Inl MBEDTLS_ERR_MPI_BAD_INPUT_DATA
       else
         and_then (mbedtls_mpi_grow M X (BITS_TO_LIMBS TYPE('l) (push_bit 2 (length t)))) (\<lambda>X.
         and_then (mbedtls_mpi_lset M X 0) (\<lambda>X.
         and_then (hex_loop (mpi_p X) 0 (rev t)) (\<lambda>p. Inr (X\<lparr>mpi_p := p\<rparr>))))
     else
       and_then (mbedtls_mpi_lset M X 0) (\<lambda>X. digit_loop M K radix X mbedtls_mpi_init t))"
  have "mbedtls_mpi_read_string M K X radix s = and_then body (\<lambda>Y.
      Inr (if (if ?neg then - 1 else (1 :: int)) < 0 \<and> mbedtls_mpi_bitlen Y \<noteq> 0 then Y\<lparr>mpi_s := - 1\<rparr> else Y))"
    using assms(3,4,6) unfolding mbedtls_mpi_read_string_def split Let_def body_def by simp
  then show ?thesis
    using digits [folded body_def] sign by (cases "list_all (\<lambda>c. char_digit c < radix) t") auto
qed

section \<open>Properties\<close>

text \<open>
  C29: Reading a numeral gives its value: for every radix from 2 to 16 a string of digits, with or
  without a minus sign, is read to the number it denotes; when a character is no digit of the radix,
  and only then, the string is rejected.
\<close>

theorem read_string_value:
  fixes X :: "'l::len word mpi"
  assumes "muladdc_exact K" and "whole_bytes TYPE('l)" and "2 \<le> radix" and "radix \<le> 16"
    and "room_for_numeral M X s" and "s \<noteq> []"
  defines "t \<equiv> (if s ! 0 = 0x2D then tl s else s)"
  shows "if list_all (\<lambda>c. char_digit c < radix) t
    then \<exists>Y. mbedtls_mpi_read_string M K X radix s = Inr Y \<and>
      mpi_val Y = (if s ! 0 = 0x2D then - int (numeral_val radix t) else int (numeral_val radix t))
    else mbedtls_mpi_read_string M K X radix s = Inl MBEDTLS_ERR_MPI_INVALID_CHARACTER"
  using read_string_fact [OF assms(1-6)] unfolding t_def .

lemma demo_room: "length s \<le> 100 \<Longrightarrow> mpi_n X \<le> 100 \<Longrightarrow> room_for_numeral demo_platform (X :: 64 word mpi) s"
proof -
  assume len: "length s \<le> 100" and n: "mpi_n X \<le> 100"
  have "BITS_TO_LIMBS TYPE(64) (4 * length s) \<le> 100"
    using len by (simp add: BITS_TO_LIMBS_le)
  then show ?thesis
    using len n by (simp add: room_for_numeral_def demo_platform_def plenty_def)
qed

theorem read_string_value_witness:
  "(\<exists>Y. mbedtls_mpi_read_string demo_platform wide_muladdc (mbedtls_mpi_init :: 64 word mpi) 10 [0x2D, 0x31, 0x32, 0x37] = Inr Y \<and>
     mpi_val Y = - 127) \<and>
   mbedtls_mpi_read_string demo_platform wide_muladdc (mbedtls_mpi_init :: 64 word mpi) 16 [0x46, 0x47] =
     Inl MBEDTLS_ERR_MPI_INVALID_CHARACTER"
proof -
  have w: "whole_bytes TYPE(64)"
    by (simp add: whole_bytes_def ciL_def)
  have room: "room_for_numeral demo_platform (mbedtls_mpi_init :: 64 word mpi) [0x2D, 0x31, 0x32, 0x37]"
    "room_for_numeral demo_platform (mbedtls_mpi_init :: 64 word mpi) [0x46, 0x47]"
    by (rule demo_room; simp)+
  show ?thesis
    using read_string_value [OF wide_muladdc_exact w _ _ room(1), of 10]
      read_string_value [OF wide_muladdc_exact w _ _ room(2), of 16]
    by (simp add: char_digit_def numeral_val_def)
qed

text \<open>
  The remainder by a limb is the remainder of the integers, also for a negative number: for a
  positive divisor of at most half the length of a limb \<open>mbedtls_mpi_mod_int\<close> returns the value modulo
  the divisor, between 0 and the divisor.
\<close>

theorem mod_int_correct:
  fixes A :: "'l::len word mpi"
  assumes "even LENGTH('l)" and "unat b \<le> 2 ^ (LENGTH('l) div 2)" and "0 < sint b" and "mpi_ok M A"
  shows "\<exists>r. mbedtls_mpi_mod_int A b = Inr r \<and> int (unat r) = mpi_val A mod sint b"
  using assms by (intro mod_int_fact) (simp_all add: mpi_ok_def has_sign_def)

theorem mod_int_correct_witness:
  "\<exists>r. mbedtls_mpi_mod_int \<lparr>mpi_s = - 1, mpi_p = [5 :: 64 word, 1]\<rparr> 10 = Inr r \<and> uint r = 9"
proof -
  let ?A = "\<lparr>mpi_s = - 1, mpi_p = [5 :: 64 word, 1]\<rparr>"
  have "mpi_ok demo_platform ?A" "mpi_val ?A = - 18446744073709551621" "sint (10 :: 64 word) = 10"
    by (simp_all add: mpi_ok_def demo_platform_def mpi_val_def mpi_abs_def)
  then show ?thesis
    using mod_int_correct [of "10 :: 64 word" demo_platform ?A] by auto
qed

text \<open>
  The bound on the divisor is needed: the partial remainder is shifted by half a limb before the
  division, and bits of it are lost when it is longer than that.  The remainder of \<open>2 ^ 64\<close> by
  \<open>2 ^ 33 + 1\<close> is computed as 0.
\<close>

lemma mod_int_wrong:
  "mbedtls_mpi_mod_int \<lparr>mpi_s = 1, mpi_p = [0 :: 64 word, 1]\<rparr> 0x200000001 = Inr 0 \<and>
   mpi_val \<lparr>mpi_s = 1, mpi_p = [0 :: 64 word, 1]\<rparr> mod 0x200000001 = 0x180000001"
proof -
  have "mod_limb 0x200000001 1 (0 :: 64 word) = 1" "mod_limb 0x200000001 0 (1 :: 64 word) = 0"
    by code_simp+
  then show ?thesis
    by (simp add: mbedtls_mpi_mod_int_def mpi_val_def mpi_abs_def)
qed

end
