(* ===== verification/Bignum_Digit.thy ===== *)
theory Bignum_Digit
  imports Bignum_Radix
begin

text \<open>
  The division of two limbs by one, \<open>mbedtls_int_div_int\<close> of \<open>library/bignum.c\<close>, in both builds: with an
  integer type of twice the length of a limb (\<open>MBEDTLS_HAVE_UDBL\<close>) and with the schoolbook algorithm on
  halves of a limb.  Both are exact; the second one needs that the length of a limb is even.
\<close>

section \<open>The code\<close>

lemma unat_minus_1_less: "x \<noteq> 0 \<Longrightarrow> unat (x - 1) < unat x" for x :: "'l::len word"
  using unat_minus_one [of x] unat_gt_0 [of x] by simp

lemma half_len [simp]: "\<not> LENGTH('l::len) \<le> LENGTH('l) div 2"
  by (simp add: not_le)

lemma radix_nonzero: "push_bit (LENGTH('l) div 2) 1 \<noteq> (0 :: 'l::len word)"
proof -
  have "bit (push_bit (LENGTH('l) div 2) 1 :: 'l word) (LENGTH('l) div 2)"
    by (simp add: bit_simps)
  then show ?thesis
    by auto
qed

text \<open>The two loops that correct the estimate of a quotient digit of half a limb.\<close>

function half_digit :: "'l::len word \<Rightarrow> 'l word \<Rightarrow> 'l word \<Rightarrow> 'l word \<Rightarrow> 'l word \<Rightarrow> 'l word \<times> 'l word" where
  "half_digit d1 d0 u q r =
     (let radix = push_bit (biH TYPE('l)) 1 in
      if radix \<le> q \<or> radix * r + u < q * d0 then
        let q = q - 1; r = r + d1 in
        if radix \<le> r then (q, r) else half_digit d1 d0 u q r
      else (q, r))"
  by pat_completeness auto
termination
  by (relation "measure (\<lambda>(d1, d0, u, q, r). unat q)")
    (auto simp: Let_def radix_nonzero intro!: unat_minus_1_less)

declare half_digit.simps [simp del]

text \<open>
  In the build on half limbs a divisor whose highest bit is set has no leading zeros, and \<open>u0\<close> is shifted by the full
  length of a limb, which C leaves undefined.
\<close>

definition mbedtls_int_div_int :: "bool \<Rightarrow> 'l::len word \<Rightarrow> 'l word \<Rightarrow> 'l word \<Rightarrow> mpi_error + 'l word \<times> 'l word" where
  "mbedtls_int_div_int have_udbl u1 u0 d =
     (if d = 0 \<or> d \<le> u1 then Inr (- 1, - 1)
      else if have_udbl then
        let dividend = unat u1 * 2 ^ biL TYPE('l) + unat u0;
            quotient = dividend div unat d;
            quotient = (if 2 ^ biL TYPE('l) - 1 < quotient then 2 ^ biL TYPE('l) - 1 else quotient) in
        Inr (of_nat quotient, of_nat (dividend - quotient * unat d))
      else if biL TYPE('l) \<le> biL TYPE('l) - mbedtls_clz d then Inl Undefined_Shift
      else
        let radix = push_bit (biH TYPE('l)) 1;
            uint_halfword_mask = push_bit (biH TYPE('l)) 1 - 1;
            s = mbedtls_clz d;
            d = push_bit s d;
            u1 = push_bit s u1;
            u1 = u1 OR (drop_bit (biL TYPE('l) - s) u0 AND (if s = 0 then 0 else - 1));
            u0 = push_bit s u0;
            d1 = drop_bit (biH TYPE('l)) d;
            d0 = d AND uint_halfword_mask;
            u0_msw = drop_bit (biH TYPE('l)) u0;
            u0_lsw = u0 AND uint_halfword_mask;
            q1 = u1 div d1;
            r0 = u1 - d1 * q1;
            (q1, r0) = half_digit d1 d0 u0_msw q1 r0;
            rAX = u1 * radix + (u0_msw - q1 * d);
            q0 = rAX div d1;
            r0 = rAX - q0 * d1;
            (q0, r0) = half_digit d1 d0 u0_lsw q0 r0 in
        Inr (q1 * radix + q0, drop_bit s (rAX * radix + u0_lsw - q0 * d)))"

lemma even_len_radix:
  assumes "even LENGTH('l::len)"
  defines "b \<equiv> 2 ^ (LENGTH('l) div 2) :: nat"
  shows "2 ^ LENGTH('l) = b * b" "2 \<le> b" "unat (push_bit (LENGTH('l) div 2) 1 :: 'l word) = b"
proof -
  show B: "2 ^ LENGTH('l) = b * b"
    using assms(1) by (simp add: b_def flip: power_add) (metis dvd_mult_div_cancel mult_2)
  have "0 < LENGTH('l) div 2"
    using assms(1) len_gt_0 [where 'a = 'l] by presburger
  then show b: "2 \<le> b"
    using power_increasing [of 1 "LENGTH('l) div 2" "2 :: nat"] by (simp add: b_def)
  have "b < b * b"
    using b by simp
  then show "unat (push_bit (LENGTH('l) div 2) 1 :: 'l word) = b"
    by (simp only: unat_push_bit B) (simp add: b_def)
qed

lemma unat_mult_less: "unat x * unat y < 2 ^ LENGTH('l) \<Longrightarrow> unat (x * y) = unat x * unat y" for x y :: "'l::len word"
  by (simp add: unat_word_ariths)

lemma unat_add_less: "unat x + unat y < 2 ^ LENGTH('l) \<Longrightarrow> unat (x + y) = unat x + unat y" for x y :: "'l::len word"
  by (simp add: unat_word_ariths)

text \<open>
  The loop in numbers: \<open>q\<close> is at least the digit and \<open>w = q * d1 + r\<close>; it stops at the digit.
\<close>

lemma half_digit_val:
  fixes d1 d0 u q r :: "'l::len word"
  defines "b \<equiv> 2 ^ (LENGTH('l) div 2) :: nat"
  assumes even: "even LENGTH('l)" and d: "unat d1 < b" "unat d0 < b" and u: "unat u < b"
    and w: "w = unat q * unat d1 + unat r" "w < unat d1 * b + unat d0"
    and r: "unat r < b" and q: "(w * b + unat u) div (unat d1 * b + unat d0) \<le> unat q" "unat q \<le> b + 1"
  shows "unat (fst (half_digit d1 d0 u q r)) = (w * b + unat u) div (unat d1 * b + unat d0)"
  using d u w r q
proof (induction d1 d0 u q r rule: half_digit.induct)
  case (1 d1 d0 u q r)
  let ?D = "unat d1 * b + unat d0" and ?V = "w * b + unat u" and ?radix = "push_bit (LENGTH('l) div 2) 1 :: 'l word"
  note B = even_len_radix [OF even, folded b_def]
  have D: "0 < ?D" and digit: "?V div ?D < b"
  proof -
    have "?V < (w + 1) * b"
      using "1.prems"(3) by simp
    also have "\<dots> \<le> ?D * b"
      using "1.prems"(5) by (intro mult_le_mono1) simp
    finally have V: "?V < b * ?D"
      by (simp only: mult.commute)
    then show "?V div ?D < b"
      by (rule less_mult_imp_div_less)
    show "0 < ?D"
      using V by (intro gr0I) simp
  qed
  have fits: "x * b + y < b * b" if "x < b" "y < b" for x y :: nat
    using low_digit_less [OF that(2), of x b] that(1) by (simp add: algebra_simps)
  have "unat (?radix * r) = b * unat r"
    using fits [OF "1.prems"(6), of 0] B by (subst unat_mult_less) (simp_all add: mult.commute)
  then have lhs: "unat (?radix * r + u) = unat r * b + unat u"
    using fits [OF "1.prems"(6,3)] B by (subst unat_add_less) (simp_all add: mult.commute)
  have "unat q * unat d0 \<le> (b + 1) * (b - 1)"
    using "1.prems"(2,8) by (intro mult_le_mono) simp_all
  also have "\<dots> < b * b"
    using B(2) by (cases b) simp_all
  finally have rhs: "unat (q * d0) = unat q * unat d0"
    using B(1) by (simp add: unat_mult_less)
  have above: "n * ?D \<le> ?V \<longleftrightarrow> n * unat d0 \<le> m * b + unat u" if "w = n * unat d1 + m" for n m :: nat
    unfolding that by (simp add: algebra_simps)
  have exact: "n = ?V div ?D" if "w = n * unat d1 + m" "n * unat d0 \<le> m * b + unat u" "?V div ?D \<le> n" for n m
    using above [OF that(1)] that(2,3) D by (simp add: less_eq_div_iff_mult_less_eq le_antisym)
  show ?case
  proof (cases "?radix \<le> q \<or> ?radix * r + u < q * d0")
    case True
    then have gt: "?V div ?D < unat q"
    proof
      assume "?radix \<le> q"
      then show ?thesis
        using digit B(3) by (simp add: word_le_nat_alt)
    next
      assume "?radix * r + u < q * d0"
      then have "?V < unat q * ?D"
        using above [OF "1.prems"(4)] lhs rhs by (simp add: word_less_nat_alt)
      then show ?thesis
        using D by (simp add: div_less_iff_less_mult)
    qed
    then have "0 < unat q"
      by simp
    then have q': "unat (q - 1) = unat q - 1" "0 < unat q"
      using unat_minus_one [of q] unat_gt_0 [of q] by simp_all
    have "unat r + unat d1 < 2 * b"
      using "1.prems"(1,6) by simp
    also have "2 * b \<le> b * b"
      using B(2) by simp
    finally have r': "unat (r + d1) = unat r + unat d1"
      using B(1) by (simp add: unat_add_less)
    have w': "w = unat (q - 1) * unat d1 + unat (r + d1)"
      using "1.prems"(4) q' unfolding r' by (cases "unat q") simp_all
    have le: "?V div ?D \<le> unat (q - 1)" "unat (q - 1) \<le> b"
      using gt q' "1.prems"(8) by simp_all
    show ?thesis
    proof (cases "?radix \<le> r + d1")
      case stop: True
      have "unat (q - 1) * unat d0 \<le> b * b"
        using le(2) "1.prems"(2) by (intro mult_le_mono) simp_all
      also have "\<dots> \<le> unat (r + d1) * b"
        using stop B(3) by (simp add: word_le_nat_alt)
      finally have "unat (q - 1) = ?V div ?D"
        using exact [OF w' _ le(1)] by simp
      then show ?thesis
        using True stop by (subst half_digit.simps) simp
    next
      case False
      have "unat (fst (half_digit d1 d0 u (q - 1) (r + d1))) = ?V div ?D"
        using "1.prems"(1-3,5) w' le False B(3)
        by (intro "1.IH" [OF refl _ refl refl]) (use True in \<open>simp_all add: word_le_nat_alt\<close>)
      then show ?thesis
        using True False by (subst half_digit.simps) simp
    qed
  next
    case False
    then have "unat q * unat d0 \<le> unat r * b + unat u"
      using lhs rhs by (simp add: word_less_nat_alt)
    then show ?thesis
      using exact [OF "1.prems"(4) _ "1.prems"(7)] False by (subst half_digit.simps) simp
  qed
qed


lemma unat_and_mask: "unat (x AND (push_bit n 1 - 1)) = unat x mod 2 ^ n" for x :: "'l::len word"
proof -
  have "x AND (push_bit n 1 - 1) = take_bit n x"
    by (simp add: take_bit_eq_mask mask_eq_exp_minus_1 push_bit_eq_mult)
  then show ?thesis
    unfolding unsigned_take_bit_eq by (simp only: unsigned_take_bit_eq) (rule take_bit_eq_mod)
qed

text \<open>A quotient digit of half a limb, and what is left.\<close>

lemma digit_step:
  fixes U u d :: "'l::len word"
  defines "h \<equiv> LENGTH('l) div 2"
  defines "d1 \<equiv> drop_bit h d" and "d0 \<equiv> d AND (push_bit h 1 - 1)"
  defines "q \<equiv> fst (half_digit d1 d0 u (U div d1) (U - d1 * (U div d1)))"
  assumes even: "even LENGTH('l)" and d: "2 ^ LENGTH('l) \<le> 2 * unat d" and U: "U < d" and u: "unat u < 2 ^ h"
  shows "unat q = (unat U * 2 ^ h + unat u) div unat d" "unat q < 2 ^ h"
    "unat (U * push_bit h 1 + u - q * d) = (unat U * 2 ^ h + unat u) mod unat d"
proof -
  define b :: nat where "b = 2 ^ h"
  note B = even_len_radix [OF even, folded h_def, folded b_def]
  have d1: "unat d1 = unat d div b" and d0: "unat d0 = unat d mod b"
    by (simp_all only: d1_def d0_def unat_drop_bit unat_and_mask b_def)
  have D: "unat d1 * b + unat d0 = unat d"
    unfolding d1 d0 by simp
  have small: "unat d1 < b" "unat d0 < b" "b \<le> 2 * unat d1"
  proof -
    show "unat d1 < b" "unat d0 < b"
      unfolding d1 d0 using limb_less [of d] B by (simp_all add: div_less_iff_less_mult)
    then have "unat d < (unat d1 + 1) * b"
      using D by (simp add: algebra_simps)
    then have "b * b < (2 * (unat d1 + 1)) * b"
      using d B(1) by linarith
    then have "b < 2 * (unat d1 + 1)"
      by (simp only: mult_less_cancel2)
    moreover have "even b"
      using B(2) by (cases h) (simp_all add: b_def)
    ultimately show "b \<le> 2 * unat d1"
      by presburger
  qed
  then have pos: "0 < unat d1"
    using B(2) by linarith
  have q0: "unat (U div d1) = unat U div unat d1"
    by (rule unat_div_distrib)
  have r0: "unat (U - d1 * (U div d1)) = unat U mod unat d1"
    by (simp add: minus_mult_div_eq_mod unat_mod_distrib)
  have V: "(unat U * b + unat u) div b = unat U"
    using u B(2) by (simp add: b_def)
  have "(unat U * b + unat u) div (unat d1 * b + unat d0) \<le> (unat U * b + unat u) div (b * unat d1)"
    using pos B(2) by (intro div_le_mono2) (simp_all add: mult.commute)
  also have "\<dots> = unat U div unat d1"
    unfolding div_mult2_eq V ..
  finally have ge: "(unat U * b + unat u) div (unat d1 * b + unat d0) \<le> unat (U div d1)"
    unfolding q0 .
  have "unat U < unat d1 * b + unat d0"
    unfolding D using U by (simp add: word_less_nat_alt)
  then have "unat U < (b + 2) * unat d1"
    using small(2,3) by (simp add: algebra_simps)
  then have "unat U div unat d1 < b + 2"
    by (rule less_mult_imp_div_less)
  then have le: "unat (U div d1) \<le> b + 1"
    unfolding q0 by simp
  have "unat U mod unat d1 < unat d1"
    using pos by simp
  then have r: "unat (U - d1 * (U div d1)) < b"
    unfolding r0 using small(1) by linarith
  have w: "unat U = unat (U div d1) * unat d1 + unat (U - d1 * (U div d1))"
    unfolding q0 r0 by simp
  show q: "unat q = (unat U * 2 ^ h + unat u) div unat d"
    using half_digit_val [OF even, folded h_def, folded b_def, OF small(1,2) _ w _ r ge le] u
      \<open>unat U < unat d1 * b + unat d0\<close> unfolding q_def D by (simp add: b_def)
  have "unat U * b + unat u < (unat U + 1) * b"
    using u by (simp add: b_def)
  also have "\<dots> \<le> unat d * b"
    using U by (intro mult_le_mono1) (simp add: word_less_nat_alt)
  also have "\<dots> = b * unat d"
    by (rule mult.commute)
  finally show "unat q < 2 ^ h"
    unfolding q using less_mult_imp_div_less by (simp only: b_def)
  let ?V = "unat U * b + unat u"
  have "of_nat (?V div unat d * unat d + ?V mod unat d) = (of_nat ?V :: 'l word)"
    by simp
  then have "q * d + of_nat (?V mod unat d) = U * push_bit h 1 + u"
    unfolding q [folded b_def, symmetric] of_nat_add of_nat_mult
    by (simp add: b_def push_bit_eq_mult)
  then have "U * push_bit h 1 + u - q * d = of_nat (?V mod unat d)"
    by (metis add_diff_cancel_left')
  moreover have "?V mod unat d < 2 ^ LENGTH('l)"
    using U limb_less [of d] by (metis less_trans mod_less_divisor gr_implies_not0 gr0I word_less_nat_alt)
  ultimately show "unat (U * push_bit h 1 + u - q * d) = (unat U * 2 ^ h + unat u) mod unat d"
    by (simp add: unsigned_of_nat take_bit_nat_eq_self b_def)
qed

text \<open>The dividend and the divisor after the normalisation.\<close>

lemma normalised:
  fixes u1 u0 d :: "'l::len word"
  defines "s \<equiv> mbedtls_clz d"
  defines "U \<equiv> push_bit s u1 OR (drop_bit (LENGTH('l) - s) u0 AND (if s = 0 then 0 else - 1))"
  assumes "u1 < d"
  shows "unat (push_bit s d) = unat d * 2 ^ s" "2 ^ LENGTH('l) \<le> 2 * unat (push_bit s d)"
    "unat U * 2 ^ LENGTH('l) + unat (push_bit s u0) = (unat u1 * 2 ^ LENGTH('l) + unat u0) * 2 ^ s"
    "U < push_bit s d"
proof -
  let ?B = "2 ^ LENGTH('l) :: nat"
  have nz: "d \<noteq> 0"
    using assms(3) by auto
  note clz = clz_val [of d, folded s_def]
  have s: "s < LENGTH('l)"
    using clz(3) [OF nz] .
  have B: "?B = 2 ^ (LENGTH('l) - s) * 2 ^ s" "?B = 2 * 2 ^ (LENGTH('l) - s - 1) * 2 ^ s"
    using s by (simp_all flip: power_add power_Suc)
  have less: "unat d * 2 ^ s < ?B" "?B \<le> 2 * (unat d * 2 ^ s)"
  proof -
    show "unat d * 2 ^ s < ?B"
      unfolding B(1) using clz(2) by simp
    have "2 ^ (LENGTH('l) - s - 1) * 2 ^ s \<le> unat d * 2 ^ s"
      using clz(4) [OF nz] by (intro mult_le_mono1)
    then show "?B \<le> 2 * (unat d * 2 ^ s)"
      unfolding B(2) by linarith
  qed
  show d: "unat (push_bit s d) = unat d * 2 ^ s"
    unfolding unat_push_bit using less(1) by simp
  then show "?B \<le> 2 * unat (push_bit s d)"
    using less(2) by simp
  have "unat u1 * 2 ^ s < unat d * 2 ^ s"
    using assms(3) by (simp add: word_less_nat_alt)
  then have u1: "unat (push_bit s u1) = unat u1 * 2 ^ s"
    unfolding unat_push_bit by (rule mod_less [OF less_trans]) (rule less(1))
  have hi: "unat (drop_bit (LENGTH('l) - s) u0) = unat u0 div 2 ^ (LENGTH('l) - s)"
    by (rule unat_drop_bit)
  have "unat u0 div 2 ^ (LENGTH('l) - s) < 2 ^ s"
    using limb_less [of u0] unfolding B(1) by (simp add: div_less_iff_less_mult mult.commute)
  then have small: "unat (drop_bit (LENGTH('l) - s) u0) < 2 ^ s"
    unfolding hi .
  have "U = push_bit s u1 OR drop_bit (LENGTH('l) - s) u0"
  proof (cases "s = 0")
    case True
    then have "drop_bit (LENGTH('l) - s) u0 = 0"
      using small by (simp add: unat_eq_0)
    then show ?thesis
      by (simp add: U_def)
  qed (simp add: U_def)
  then have "unat U = unat (push_bit s u1) + unat (drop_bit (LENGTH('l) - s) u0)"
    using high_bits_clear [OF small] by (simp only:) (rule or_disjoint_val, auto simp: bit_simps)
  then have U: "unat U = unat u1 * 2 ^ s + unat u0 div 2 ^ (LENGTH('l) - s)"
    using u1 hi by simp
  have "unat u0 * 2 ^ s = unat u0 div 2 ^ (LENGTH('l) - s) * ?B + unat (push_bit s u0)"
    unfolding unat_push_bit B(1) mod_mult_mult2
    using div_mult_mod_eq [of "unat u0" "2 ^ (LENGTH('l) - s)"] by (metis distrib_right mult.assoc)
  then show N: "unat U * ?B + unat (push_bit s u0) = (unat u1 * ?B + unat u0) * 2 ^ s"
    unfolding U by (simp add: algebra_simps)
  have "unat U * ?B \<le> (unat u1 * ?B + unat u0) * 2 ^ s"
    using N by linarith
  also have "\<dots> < (unat u1 + 1) * ?B * 2 ^ s"
    using limb_less [of u0] by simp
  also have "\<dots> \<le> unat d * ?B * 2 ^ s"
    using assms(3) by (intro mult_le_mono1) (simp add: word_less_nat_alt)
  finally have "unat U < unat d * 2 ^ s"
    by (simp add: ac_simps)
  then show "U < push_bit s d"
    unfolding word_less_nat_alt d .
qed


text \<open>Both builds divide the two limbs by one exactly, when the quotient is a limb.\<close>

lemma int_div_int_val:
  fixes u1 u0 d :: "'l::len word"
  assumes "u1 < d" and "have_udbl \<or> even LENGTH('l) \<and> unat d < 2 ^ (LENGTH('l) - 1)"
  defines "N \<equiv> unat u1 * 2 ^ LENGTH('l) + unat u0"
  shows "\<exists>q r. mbedtls_int_div_int have_udbl u1 u0 d = Inr (q, r) \<and> unat q = N div unat d \<and> unat r = N mod unat d"
proof -
  let ?B = "2 ^ LENGTH('l) :: nat"
  have d: "d \<noteq> 0" "\<not> d \<le> u1" "0 < unat d" "unat u1 + 1 \<le> unat d"
    using assms(1) by (auto simp: word_less_nat_alt not_le)
  have "N < (unat u1 + 1) * ?B"
    using limb_less [of u0] by (simp add: N_def)
  also have "\<dots> \<le> unat d * ?B"
    using d(4) by (rule mult_le_mono1)
  also have "\<dots> = ?B * unat d"
    by (rule mult.commute)
  finally have quot: "N div unat d < ?B"
    by (rule less_mult_imp_div_less)
  have rem: "N mod unat d < ?B"
    using d(3) limb_less [of d] by (meson less_trans mod_less_divisor)
  show ?thesis
  proof (cases have_udbl)
    case True
    have "\<not> ?B - 1 < N div unat d"
      using quot by linarith
    then have "mbedtls_int_div_int have_udbl u1 u0 d = Inr (of_nat (N div unat d), of_nat (N - N div unat d * unat d))"
      using True d(1,2) by (simp add: mbedtls_int_div_int_def Let_def N_def)
    moreover have "N - N div unat d * unat d = N mod unat d"
      by (simp add: minus_div_mult_eq_mod)
    ultimately show ?thesis
      using quot rem by (simp add: unsigned_of_nat take_bit_nat_eq_self)
  next
    case False
    then have even: "even LENGTH('l)"
      using assms(2) by blast
    have "mbedtls_clz d \<noteq> 0"
      using clz_val(4) [OF d(1)] False assms(2) by (intro notI) simp
    then have defined: "\<not> LENGTH('l) \<le> LENGTH('l) - mbedtls_clz d"
      using len_gt_0 [where 'a = 'l] by linarith
    define s where "s = mbedtls_clz d"
    define h where "h = LENGTH('l) div 2"
    define D where "D = push_bit s d"
    define U where "U = push_bit s u1 OR (drop_bit (LENGTH('l) - s) u0 AND (if s = 0 then 0 else - 1))"
    define V where "V = push_bit s u0"
    note norm = normalised(1,2) [OF assms(1), folded s_def, folded D_def]
      normalised(3,4) [OF assms(1), of u0, folded s_def, folded D_def U_def V_def]
    let ?d1 = "drop_bit h D" and ?d0 = "D AND (push_bit h 1 - 1)"
    let ?m = "drop_bit h V" and ?l = "V AND (push_bit h 1 - 1)"
    define q1 where "q1 = fst (half_digit ?d1 ?d0 ?m (U div ?d1) (U - ?d1 * (U div ?d1)))"
    define R where "R = U * push_bit h 1 + ?m - q1 * D"
    define q0 where "q0 = fst (half_digit ?d1 ?d0 ?l (R div ?d1) (R - ?d1 * (R div ?d1)))"
    have res: "mbedtls_int_div_int have_udbl u1 u0 d =
        Inr (q1 * push_bit h 1 + q0, drop_bit s (R * push_bit h 1 + ?l - q0 * D))"
      using False d(1,2) defined unfolding mbedtls_int_div_int_def biL_def biH_def
      unfolding s_def [symmetric] h_def [symmetric] Let_def
      unfolding D_def [symmetric] V_def [symmetric] U_def [symmetric]
      unfolding case_prod_beta q1_def [symmetric]
      unfolding add_diff_eq R_def [symmetric]
      unfolding mult.commute [of _ ?d1] q0_def [symmetric] by simp
    note B = even_len_radix [OF even, folded h_def]
    have m: "unat ?m = unat V div 2 ^ h" "unat ?l = unat V mod 2 ^ h"
      by (simp_all only: unat_drop_bit unat_and_mask)
    have small: "unat ?m < 2 ^ h" "unat ?l < 2 ^ h"
      unfolding m using limb_less [of V] B(1) by (simp_all add: div_less_iff_less_mult)
    note one = digit_step [OF even norm(2), folded h_def, OF norm(4) small(1), folded q1_def, folded R_def]
    have "0 < unat D"
      using norm(4) by (auto simp: word_less_nat_alt)
    then have "R < D"
      unfolding word_less_nat_alt one(3) by simp
    note two = digit_step [OF even norm(2), folded h_def, OF this small(2), folded q0_def]
    let ?W = "unat U * 2 ^ h + unat ?m"
    have "N * 2 ^ s = unat U * (2 ^ h * 2 ^ h) + unat V"
      using norm(3) unfolding N_def B(1) by (rule sym)
    also have "unat V = unat ?m * 2 ^ h + unat ?l"
      unfolding m by (rule div_mult_mod_eq [symmetric])
    finally have "N * 2 ^ s = ?W * 2 ^ h + unat ?l"
      by (simp add: algebra_simps)
    also have "?W = unat q1 * unat D + unat R"
      unfolding one(1,3) by simp
    finally have N: "N * 2 ^ s = unat q1 * 2 ^ h * unat D + (unat R * 2 ^ h + unat ?l)"
      by (simp add: algebra_simps)
    have "N * 2 ^ s div unat D = unat q1 * 2 ^ h + unat q0"
      unfolding N two(1) using \<open>0 < unat D\<close> by simp
    then have q: "N div unat d = unat q1 * 2 ^ h + unat q0"
      unfolding norm(1) by (simp add: div_mult_mult2)
    have "unat (q1 * push_bit h 1) = unat q1 * 2 ^ h"
      using quot q B(3) by (subst unat_mult_less) simp_all
    then have "unat (q1 * push_bit h 1 + q0) = N div unat d"
      using quot q by (subst unat_add_less) simp_all
    moreover have "N * 2 ^ s mod unat D = unat (R * push_bit h 1 + ?l - q0 * D)"
      unfolding N two(3) by simp
    then have "N mod unat d * 2 ^ s = unat (R * push_bit h 1 + ?l - q0 * D)"
      unfolding norm(1) by (simp add: mod_mult_mult2)
    then have "unat (drop_bit s (R * push_bit h 1 + ?l - q0 * D)) = N mod unat d"
      unfolding unat_drop_bit by (metis nonzero_mult_div_cancel_right power_not_zero zero_neq_numeral)
    ultimately show ?thesis
      unfolding res by blast
  qed
qed

section \<open>Properties\<close>

text \<open>
  C40: Dividing two limbs by one is exact in both builds: when the quotient fits a limb, the algorithm on
  half limbs returns the same quotient and remainder as the division of the double-length integer, namely
  those of the integers; when it does not fit, or the divisor is 0, both results are all ones.  The one exception is the
  algorithm on half limbs with a divisor whose highest bit is set, which makes an undefined shift.
\<close>

theorem int_div_int_exact:
  fixes u1 u0 d :: "'l::len word"
  assumes "have_udbl \<or> even LENGTH('l)"
  defines "N \<equiv> unat u1 * 2 ^ LENGTH('l) + unat u0"
  shows "case mbedtls_int_div_int have_udbl u1 u0 d of
      Inl e \<Rightarrow> e = Undefined_Shift \<and> \<not> have_udbl \<and> u1 < d \<and> 2 ^ (LENGTH('l) - 1) \<le> unat d
    | Inr (q, r) \<Rightarrow>
        if u1 < d then unat q = N div unat d \<and> unat r = N mod unat d \<and> (have_udbl \<or> unat d < 2 ^ (LENGTH('l) - 1))
        else q = - 1 \<and> r = - 1"
proof (cases "u1 < d")
  case less: True
  show ?thesis
  proof (cases "have_udbl \<or> unat d < 2 ^ (LENGTH('l) - 1)")
    case True
    then show ?thesis
      using int_div_int_val [OF less, of have_udbl u0] assms less by auto
  next
    case False
    have "d \<noteq> 0"
      using less by auto
    have "mbedtls_clz d = 0"
    proof (rule ccontr)
      assume "mbedtls_clz d \<noteq> 0"
      then have "(2 :: nat) ^ (LENGTH('l) - mbedtls_clz d) \<le> 2 ^ (LENGTH('l) - 1)"
        by (intro power_increasing) simp_all
      then show False
        using clz_val(2) [of d] False by linarith
    qed
    then show ?thesis
      using less False \<open>d \<noteq> 0\<close> by (simp add: mbedtls_int_div_int_def linorder_not_le [THEN iffD2])
  qed
next
  case False
  then have "d = 0 \<or> d \<le> u1"
    by (simp add: not_less)
  then have "mbedtls_int_div_int have_udbl u1 u0 d = Inr (- 1, - 1)"
    unfolding mbedtls_int_div_int_def by (simp only: if_True if_False)
  then show ?thesis
    using False by simp
qed

theorem int_div_int_exact_witness:
  "\<exists>q r. mbedtls_int_div_int False 5 7 (9 :: 64 word) = Inr (q, r) \<and> unat q = (5 * 2 ^ 64 + 7) div 9 \<and> unat r = (5 * 2 ^ 64 + 7) mod 9"
  using int_div_int_exact [of False "5 :: 64 word" 9 7] by (auto split: sum.splits)

end
