(* ===== verification/Bignum_Limbs.thy ===== *)
theory Bignum_Limbs
  imports Bignum_Radix
begin

text \<open>
  How many limbs the results of the operations have, in terms of the values: the bounds that keep the
  temporaries of the long division and of the modular operations inside the memory they were given.
\<close>

section \<open>How many limbs the operations need\<close>

lemma used_limbs_le_iff: "used_limbs p (length p) \<le> m \<longleftrightarrow> limbs_val p < 2 ^ (LENGTH('l) * m)" for p :: "'l::len word list"
proof
  assume "used_limbs p (length p) \<le> m"
  then have "(2 :: nat) ^ (LENGTH('l) * used_limbs p (length p)) \<le> 2 ^ (LENGTH('l) * m)"
    by (intro power_increasing) simp_all
  then show "limbs_val p < 2 ^ (LENGTH('l) * m)"
    using used_limbs_upper [of p] by linarith
next
  assume less: "limbs_val p < 2 ^ (LENGTH('l) * m)"
  show "used_limbs p (length p) \<le> m"
  proof (cases "used_limbs p (length p)")
    case (Suc k)
    then have "(2 :: nat) ^ (LENGTH('l) * k) < 2 ^ (LENGTH('l) * m)"
      using used_limbs_lower [OF Suc] less by linarith
    then show ?thesis
      using Suc by simp
  qed simp
qed

lemma bitlen_le_iff: "mbedtls_mpi_bitlen X \<le> m \<longleftrightarrow> mpi_abs X < 2 ^ m"
proof
  assume "mbedtls_mpi_bitlen X \<le> m"
  then have "(2 :: nat) ^ mbedtls_mpi_bitlen X \<le> 2 ^ m"
    by (intro power_increasing) simp_all
  then show "mpi_abs X < 2 ^ m"
    using bitlen_bounds(1) [of X] by linarith
qed (use bitlen_is_least [of X] in \<open>simp add: Least_le\<close>)

lemma copy_limbs:
  fixes X :: "'l::len word mpi"
  assumes "mbedtls_mpi_copy M X (Other Y) = Inr Z" and "mpi_abs Y < 2 ^ (LENGTH('l) * m)" and "0 < m"
  shows "mpi_n Z \<le> max (mpi_n X) m"
proof (cases "mpi_n Y = 0")
  case False
  then have "kept_limbs (mpi_p Y) \<le> m"
    using assms(2,3) kept_limbs_max [of "mpi_p Y"] by (simp add: used_limbs_le_iff mpi_abs_def)
  moreover have "mpi_n Z = max (mpi_n X) (kept_limbs (mpi_p Y))"
    using assms(1) False kept_limbs_bounds [of "mpi_p Y"]
    by (auto simp: mbedtls_mpi_copy_def Let_def kept_limbs_def [symmetric] outcome_simps grow_fact
        simp del: One_nat_def dest: grow_fact split: if_splits)
  ultimately show ?thesis
    by linarith
qed (use copy_fact(5) [OF assms(1)] in simp)

lemma mul_int_limbs:
  fixes X Y :: "'l::len word mpi"
  assumes "muladdc_exact K" and "mbedtls_mpi_mul_int M K X A b = Inr Y"
    and "mpi_abs (deref X A) < 2 ^ (LENGTH('l) * m)" and "0 < m"
  shows "mpi_n Y \<le> max (mpi_n X) (m + 1)" "mpi_n X \<le> mpi_n Y"
proof -
  let ?n = "used_limbs (mpi_p (deref X A)) (mpi_n (deref X A))"
  have n: "?n \<le> m" "?n \<le> mpi_n (deref X A)"
    using assms(3) by (simp_all add: used_limbs_le_iff mpi_abs_def used_limbs_le)
  have "mpi_n Y \<le> max (mpi_n X) (m + 1) \<and> mpi_n X \<le> mpi_n Y"
  proof (cases "b = 0 \<or> ?n = 0")
    case True
    then have "mbedtls_mpi_lset M X 0 = Inr Y"
      using assms(2) by (simp add: mbedtls_mpi_mul_int_def)
    then show ?thesis
      using lset_zero(4) by fastforce
  next
    case False
    then obtain Z W p where Z: "mbedtls_mpi_grow M X (?n + 1) = Inr Z" and W: "mbedtls_mpi_copy M Z A = Inr W"
      and p: "mpi_mul_hlp K ?n (mpi_p (deref W A)) (mpi_p W) (b - 1) = Inr p" and Y: "Y = W\<lparr>mpi_p := p\<rparr>"
      using assms(2) by (auto simp: mbedtls_mpi_mul_int_def Let_def outcome_simps)
    have nZ: "mpi_n Z = max (mpi_n X) (?n + 1)"
      using grow_fact(3) [OF Z] .
    have nW: "mpi_n W \<le> max (mpi_n Z) m \<and> mpi_n Z \<le> mpi_n W"
    proof (cases A)
      case (Other B)
      then show ?thesis
        using copy_limbs [of M Z B W m] copy_fact(3) [of M Z B W] W assms(3,4) by simp
    qed (use W in simp)
    have "?n \<le> mpi_n (deref W A)"
      using n(2) nZ nW by (cases A) auto
    then have "length p = mpi_n W"
      using mul_hlp_val [OF assms(1), of ?n "mpi_p (deref W A)" "mpi_p W" "b - 1"] nZ nW p
      by (auto split: if_splits)
    then show ?thesis
      using Y nW nZ n(1) by auto
  qed
  then show "mpi_n Y \<le> max (mpi_n X) (m + 1)" "mpi_n X \<le> mpi_n Y"
    by simp_all
qed

text \<open>An addition adds a limb only for a carry out of the others.\<close>

lemma add_carry_limbs:
  fixes X :: "'l::len word mpi"
  assumes "add_carry M X i c = Inr Y" and "i \<le> mpi_n X" and "unat c \<le> 1"
  shows "mpi_n Y = mpi_n X \<or> mpi_n Y = Suc (mpi_n X) \<and> 2 ^ (LENGTH('l) * mpi_n X) \<le> mpi_abs Y"
  using assms
proof (induction M X i c rule: add_carry.induct)
  case (1 M X i c)
  show ?case
  proof (cases "c = 0")
    case True
    then show ?thesis
      using "1.prems"(1) by (simp add: add_carry.simps)
  next
    case False
    show ?thesis
    proof (cases "mpi_n X \<le> i")
      case True
      then have i: "i = mpi_n X"
        using "1.prems"(2) by simp
      have "mpi_abs Y = mpi_abs X + 2 ^ (LENGTH('l) * i) * unat c"
        using add_carry_val(1) [OF "1.prems"] .
      moreover have "1 \<le> unat c"
        using False by (simp add: unat_gt_0 Suc_le_eq)
      ultimately have "2 ^ (LENGTH('l) * mpi_n X) \<le> mpi_abs Y"
        unfolding i by (metis le_add2 mult.right_neutral mult_le_mono2 order_trans)
      then show ?thesis
        using add_carry_val(3,4) [OF "1.prems"] by linarith
    next
      case in_range: False
      let ?p = "mpi_p X ! i + c"
      have "add_carry M (X\<lparr>mpi_p := (mpi_p X)[i := ?p]\<rparr>) (i + 1) (of_bool (?p < c)) = Inr Y"
        using "1.prems"(1) False in_range by (subst (asm) add_carry.simps) (simp add: Let_def)
      then show ?thesis
        using "1.IH" [OF False _ refl, of X] in_range by (simp add: unat_of_bool)
    qed
  qed
qed

lemma add_abs_limbs:
  fixes X Y :: "'l::len word mpi"
  assumes "mbedtls_mpi_add_abs M X A B = Inr Y" and "mpi_n X \<le> m" and "mpi_n (deref X A) \<le> m" and "mpi_n (deref X B) \<le> m"
    and "mpi_abs Y < 2 ^ (LENGTH('l) * m)"
  shows "mpi_n Y \<le> m"
proof -
  obtain A' B' where swap: "(if B = Self then (Self, A) else (A, B)) = (A', B')"
    by fastforce
  have ops: "mpi_n (deref X A') \<le> m" "B' = Self \<Longrightarrow> A' = Self" "mpi_n (deref X B') \<le> m"
    using swap assms(3,4) by (auto split: if_splits)
  obtain C where C: "mbedtls_mpi_copy M X A' = Inr C"
    using assms(1) unfolding mbedtls_mpi_add_abs_def swap by (auto simp: outcome_simps)
  let ?C = "C\<lparr>mpi_s := 1\<rparr>" and ?b = "mpi_p (deref (C\<lparr>mpi_s := 1\<rparr>) B')"
  let ?j = "used_limbs ?b (length ?b)"
  obtain Z where Z: "mbedtls_mpi_grow M ?C ?j = Inr Z"
    and rest: "(let (low, c) = add_limbs 0 (take ?j (mpi_p Z)) (take ?j ?b) in
      add_carry M (Z\<lparr>mpi_p := low @ drop ?j (mpi_p Z)\<rparr>) ?j c) = Inr Y"
    using assms(1) C unfolding mbedtls_mpi_add_abs_def swap Let_def by (auto simp: outcome_simps)
  obtain low c where low: "add_limbs 0 (take ?j (mpi_p Z)) (take ?j ?b) = (low, c)"
    by fastforce
  have Y: "add_carry M (Z\<lparr>mpi_p := low @ drop ?j (mpi_p Z)\<rparr>) ?j c = Inr Y"
    using rest low by simp
  have j: "?j \<le> length ?b" "mpi_n Z = max (mpi_n C) ?j"
    using grow_fact(3) [OF Z] by (simp_all add: used_limbs_le)
  have "mpi_n C \<le> m"
    using copy_deref(4) [OF C] ops(1) assms(2) by linarith
  moreover from this have "length ?b \<le> m"
    using ops(3) by (cases B') simp_all
  ultimately have nZ: "mpi_n Z \<le> m"
    using j by simp
  have "length low = ?j" "unat c \<le> 1"
    using add_limbs_val [OF _ _ low] j by simp_all
  then have "mpi_n Y = mpi_n Z \<or> mpi_n Y = Suc (mpi_n Z) \<and> 2 ^ (LENGTH('l) * mpi_n Z) \<le> mpi_abs Y"
    using add_carry_limbs [OF Y] j by simp
  then show ?thesis
  proof (elim disjE conjE)
    assume "mpi_n Y = Suc (mpi_n Z)" and "2 ^ (LENGTH('l) * mpi_n Z) \<le> mpi_abs Y"
    then have "(2 :: nat) ^ (LENGTH('l) * mpi_n Z) < 2 ^ (LENGTH('l) * m)"
      using assms(5) by linarith
    then show ?thesis
      using \<open>mpi_n Y = Suc (mpi_n Z)\<close> by simp
  qed (use nZ in simp)
qed

lemma signed_sum_limbs:
  fixes X Y :: "'l::len word mpi"
  assumes "signed_sum M opposite X A B = Inr Y" and "mpi_n X \<le> m" and "mpi_n (deref X A) \<le> m" and "mpi_n (deref X B) \<le> m"
    and "mpi_abs Y < 2 ^ (LENGTH('l) * m)"
  shows "mpi_n Y \<le> m"
proof -
  consider Z where "mbedtls_mpi_sub_abs M X A B = Inr Z" "mpi_n Y = mpi_n Z"
    | Z where "mbedtls_mpi_sub_abs M X B A = Inr Z" "mpi_n Y = mpi_n Z"
    | Z where "mbedtls_mpi_add_abs M X A B = Inr Z" "mpi_n Y = mpi_n Z" "mpi_abs Y = mpi_abs Z"
    using assms(1) by (auto simp: signed_sum_def Let_def outcome_simps split: if_splits)
  then show ?thesis
  proof cases
    case (3 Z)
    then show ?thesis
      using add_abs_limbs [OF 3(1) assms(2-4)] assms(5) by simp
  qed (use sub_abs_fact(3) assms(2-4) in fastforce)+
qed

lemmas sub_mpi_limbs = signed_sum_limbs [of M "0 < mpi_s (deref X A) * mpi_s (deref X B)" X A B for M X A B, folded sub_mpi_sum]
lemmas add_mpi_limbs = signed_sum_limbs [of M "mpi_s (deref X A) * mpi_s (deref X B) < 0" X A B for M X A B, folded add_mpi_sum]

end
