(* ===== verification/Bignum_Div.thy ===== *)
theory Bignum_Div
  imports Bignum_Digit Bignum_Limbs "HOL-Library.Signed_Division"
begin

text \<open>
  Division and remainder of \<open>library/bignum.c\<close>.  A quotient and a remainder are both results and each may
  be the same object as an operand, so the objects of the caller are a store by address.  The loops that
  subtract until the number is small enough end for a positive divisor only: a function with such a loop
  returns an option, and \<open>None\<close> means that it does not return.
\<close>

section \<open>The code\<close>

text \<open>
  A computation that may not return: \<open>None\<close> is a loop that never ends.
\<close>

definition run_then :: "('e + 'a) option \<Rightarrow> ('a \<Rightarrow> ('e + 'b) option) \<Rightarrow> ('e + 'b) option" where
  "run_then m f = (case m of None \<Rightarrow> None | Some (Inl e) \<Rightarrow> Some (Inl e) | Some (Inr x) \<Rightarrow> f x)"

lemma run_then_simps [simp, outcome_simps]:
  "run_then None f = None" "run_then (Some (Inl e)) f = Some (Inl e)" "run_then (Some (Inr x)) f = f x"
  by (simp_all add: run_then_def)

text \<open>The objects of the caller by address; an operand is one of them or an object of the callee's own.\<close>

type_synonym 'l store = "nat \<Rightarrow> 'l word mpi"

datatype 'limb source = At nat | Val "'limb mpi"

fun fetch :: "'l::len store \<Rightarrow> 'l word source \<Rightarrow> 'l word mpi" where
  "fetch st (At a) = st a"
| "fetch st (Val X) = X"

text \<open>The loop for the highest digit of the quotient.\<close>

partial_function (option) top_digit ::
  "platform \<Rightarrow> 'l::len word mpi \<Rightarrow> nat \<Rightarrow> 'l word list \<Rightarrow> 'l word mpi \<Rightarrow> (mpi_error + 'l word list \<times> 'l word mpi) option" where
  [code]: "top_digit M Y k z X =
     (if 0 \<le> mbedtls_mpi_cmp_mpi X Y then
        let z = z[k := z ! k + 1] in
        case mbedtls_mpi_sub_mpi M X Self (Other Y) of
          Inl e \<Rightarrow> Some (Inl e)
        | Inr X \<Rightarrow> top_digit M Y k z X
      else Some (Inr (z, X)))"

definition quotient_estimate :: "bool \<Rightarrow> 'l::len word list \<Rightarrow> 'l word \<Rightarrow> nat \<Rightarrow> mpi_error + 'l word" where
  "quotient_estimate have_udbl x yt i =
     (if yt \<le> x ! i then Inr (- 1)
      else and_then (mbedtls_int_div_int have_udbl (x ! i) (x ! (i - 1)) yt) (\<lambda>(q, r). Inr q))"

lemma mul_int_by_zero_small:
  assumes "mbedtls_mpi_mul_int M K X A 0 = Inr Y"
  shows "\<not> 0 < mbedtls_mpi_cmp_mpi Y \<lparr>mpi_s = 1, mpi_p = p\<rparr>"
proof -
  have "mbedtls_mpi_lset M X 0 = Inr Y"
    using assms by (simp add: mbedtls_mpi_mul_int_def)
  then have "mbedtls_mpi_cmp_mpi Y \<lparr>mpi_s = 1, mpi_p = p\<rparr> = sgn (- mpi_val \<lparr>mpi_s = 1, mpi_p = p\<rparr>)"
    using lset_zero [of M X Y] by (simp add: cmp_mpi_val has_sign_def)
  then show ?thesis
    by (simp add: mpi_val_def sgn_if)
qed

text \<open>
  The inner loop: the estimate is lowered until its product with the two highest limbs \<open>y1\<close>, \<open>y0\<close> of the
  divisor is not greater than \<open>T2\<close>.
\<close>

function lower_estimate ::
  "platform \<Rightarrow> 'l::len muladdc \<Rightarrow> 'l word \<Rightarrow> 'l word \<Rightarrow> 'l word list \<Rightarrow> 'l word mpi \<Rightarrow> 'l word \<Rightarrow> mpi_error + 'l word mpi \<times> 'l word" where
  "lower_estimate M K y0 y1 TP2 T1 q =
     (let q = q - 1 in
      and_then (mbedtls_mpi_lset M T1 0) (\<lambda>T1.
      let T1 = T1\<lparr>mpi_p := (mpi_p T1)[0 := y0, 1 := y1]\<rparr> in
      and_then (mbedtls_mpi_mul_int M K T1 Self q) (\<lambda>T1.
      if 0 < mbedtls_mpi_cmp_mpi T1 \<lparr>mpi_s = 1, mpi_p = TP2\<rparr>
      then lower_estimate M K y0 y1 TP2 T1 q
      else Inr (T1, q))))"
  by pat_completeness auto
termination
proof (relation "measure (\<lambda>(M, K, y0, y1, TP2, T1, q). unat (q - 1))", simp, clarify)
  fix M and K :: "'a::len muladdc" and y0 y1 q and TP2 and X Y :: "'a word mpi"
  assume "mbedtls_mpi_mul_int M K (X\<lparr>mpi_p := (mpi_p X)[0 := y0, 1 := y1]\<rparr>) Self (q - 1) = Inr Y"
    and "0 < mbedtls_mpi_cmp_mpi Y \<lparr>mpi_s = 1, mpi_p = TP2\<rparr>"
  then have "q - 1 \<noteq> 0"
    using mul_int_by_zero_small by metis
  then have "unat (q - 1 - 1) < unat (q - 1)"
    by (rule unat_minus_1_less)
  then show "((M, K, y0, y1, TP2, Y, q - 1), M, K, y0, y1, TP2, T1, q) \<in> measure (\<lambda>(M, K, y0, y1, TP2, T1, q). unat (q - 1))" for T1
    by simp
qed

declare lower_estimate.simps [simp del]

text \<open>One pass of the main loop, for the digit \<open>j\<close> of the quotient: \<open>i = t + 1 + j\<close>.\<close>

definition div_step ::
  "platform \<Rightarrow> 'l::len muladdc \<Rightarrow> bool \<Rightarrow> nat \<Rightarrow> 'l word mpi \<Rightarrow> nat \<Rightarrow> 'l word list \<Rightarrow> 'l word mpi \<Rightarrow> 'l word mpi \<Rightarrow>
   mpi_error + 'l word list \<times> 'l word mpi \<times> 'l word mpi" where
  "div_step M K have_udbl t Y j z X T1 =
     (let i = t + 1 + j; x = mpi_p X; y = mpi_p Y in
      and_then (quotient_estimate have_udbl x (y ! t) i) (\<lambda>e.
      let z = z[j := e];
          TP2 = [if i < 2 then 0 else x ! (i - 2), if i < 1 then 0 else x ! (i - 1), x ! i];
          z = z[j := z ! j + 1] in
      and_then (lower_estimate M K (if t < 1 then 0 else y ! (t - 1)) (y ! t) TP2 T1 (z ! j)) (\<lambda>(T1, q).
      let z = z[j := q] in
      and_then (mbedtls_mpi_mul_int M K T1 (Other Y) (z ! j)) (\<lambda>T1.
      and_then (mbedtls_mpi_shift_l M T1 (biL TYPE('l) * j)) (\<lambda>T1.
      and_then (mbedtls_mpi_sub_mpi M X Self (Other T1)) (\<lambda>X.
      if mbedtls_mpi_cmp_int X 0 < 0 then
        and_then (mbedtls_mpi_copy M T1 (Other Y)) (\<lambda>T1.
        and_then (mbedtls_mpi_shift_l M T1 (biL TYPE('l) * j)) (\<lambda>T1.
        and_then (mbedtls_mpi_add_mpi M X Self (Other T1)) (\<lambda>X.
        Inr (z[j := z ! j - 1], X, T1))))
      else Inr (z, X, T1)))))))"

fun div_loop ::
  "platform \<Rightarrow> 'l::len muladdc \<Rightarrow> bool \<Rightarrow> nat \<Rightarrow> 'l word mpi \<Rightarrow> nat \<Rightarrow> 'l word list \<Rightarrow> 'l word mpi \<Rightarrow> 'l word mpi \<Rightarrow>
   mpi_error + 'l word list \<times> 'l word mpi" where
  "div_loop M K have_udbl t Y 0 z X T1 = Inr (z, X)"
| "div_loop M K have_udbl t Y (Suc j) z X T1 =
     and_then (div_step M K have_udbl t Y j z X T1) (\<lambda>(z, X, T1). div_loop M K have_udbl t Y j z X T1)"

text \<open>The copies \<open>X\<close> and \<open>Y\<close>, shifted so that the highest limb of \<open>Y\<close> has one leading zero bit, and the shift.\<close>

definition div_normalise ::
  "platform \<Rightarrow> 'l::len word mpi \<Rightarrow> 'l word mpi \<Rightarrow> mpi_error + 'l word mpi \<times> 'l word mpi \<times> 'l word list \<times> 'l word mpi \<times> nat" where
  "div_normalise M A B =
     and_then (mbedtls_mpi_copy M mbedtls_mpi_init (Other A)) (\<lambda>X.
     and_then (mbedtls_mpi_copy M mbedtls_mpi_init (Other B)) (\<lambda>Y.
     let X = X\<lparr>mpi_s := 1\<rparr>; Y = Y\<lparr>mpi_s := 1\<rparr> in
     and_then (mbedtls_mpi_grow M mbedtls_mpi_init (mpi_n A + 2)) (\<lambda>Z.
     and_then (mbedtls_mpi_lset M Z 0) (\<lambda>Z.
     and_then (mbedtls_mpi_grow M mbedtls_mpi_init (mpi_n A + 2)) (\<lambda>T1.
     let k = mbedtls_mpi_bitlen Y mod biL TYPE('l) in
     if k < biL TYPE('l) - 1 then
       let k = biL TYPE('l) - 1 - k in
       and_then (mbedtls_mpi_shift_l M X k) (\<lambda>X.
       and_then (mbedtls_mpi_shift_l M Y k) (\<lambda>Y.
       Inr (X, Y, mpi_p Z, T1, k)))
     else Inr (X, Y, mpi_p Z, T1, 0))))))"

text \<open>The results are stored; an operand may be one of the objects that are written.\<close>

definition store_quotient ::
  "platform \<Rightarrow> 'l::len store \<Rightarrow> nat option \<Rightarrow> 'l word source \<Rightarrow> 'l word source \<Rightarrow> 'l word list \<Rightarrow> mpi_error + 'l store" where
  "store_quotient M st Q A B z =
     (case Q of
        None \<Rightarrow> Inr st
      | Some q \<Rightarrow>
          and_then (mbedtls_mpi_copy M (st q) (Other \<lparr>mpi_s = 1, mpi_p = z\<rparr>)) (\<lambda>X.
          let st = st(q := X) in
          Inr (st(q := (st q)\<lparr>mpi_s := mpi_s (fetch st A) * mpi_s (fetch st B)\<rparr>))))"

definition store_remainder ::
  "platform \<Rightarrow> 'l::len store \<Rightarrow> nat option \<Rightarrow> 'l word source \<Rightarrow> 'l word mpi \<Rightarrow> nat \<Rightarrow> mpi_error + 'l store" where
  "store_remainder M st R A X k =
     (case R of
        None \<Rightarrow> Inr st
      | Some r \<Rightarrow>
          and_then (mbedtls_mpi_shift_r M X k) (\<lambda>X.
          let X = X\<lparr>mpi_s := mpi_s (fetch st A)\<rparr> in
          and_then (mbedtls_mpi_copy M (st r) (Other X)) (\<lambda>X.
          Inr (st(r := (if mbedtls_mpi_cmp_int X 0 = 0 then X\<lparr>mpi_s := 1\<rparr> else X))))))"

text \<open>The early return when the dividend is smaller.\<close>

definition store_small ::
  "platform \<Rightarrow> 'l::len store \<Rightarrow> nat option \<Rightarrow> nat option \<Rightarrow> 'l word source \<Rightarrow> mpi_error + 'l store" where
  "store_small M st Q R A =
     and_then (case Q of None \<Rightarrow> Inr st | Some q \<Rightarrow> and_then (mbedtls_mpi_lset M (st q) 0) (\<lambda>X. Inr (st(q := X)))) (\<lambda>st.
     case R of
       None \<Rightarrow> Inr st
     | Some r \<Rightarrow>
         and_then (mbedtls_mpi_copy M (st r) (if A = At r then Self else Other (fetch st A))) (\<lambda>X. Inr (st(r := X))))"

definition mbedtls_mpi_div_mpi ::
  "platform \<Rightarrow> 'l::len muladdc \<Rightarrow> bool \<Rightarrow> 'l store \<Rightarrow> nat option \<Rightarrow> nat option \<Rightarrow> 'l word source \<Rightarrow> 'l word source \<Rightarrow>
   (mpi_error + 'l store) option" where
  "mbedtls_mpi_div_mpi M K have_udbl st Q R A B =
     (if mbedtls_mpi_cmp_int (fetch st B) 0 = 0 then Some (Inl MBEDTLS_ERR_MPI_DIVISION_BY_ZERO)
      else if mbedtls_mpi_cmp_abs (fetch st A) (fetch st B) < 0 then Some (store_small M st Q R A)
      else
        run_then (Some (div_normalise M (fetch st A) (fetch st B))) (\<lambda>(X, Y, z, T1, k).
        let n = mpi_n X - 1; t = mpi_n Y - 1 in
        run_then (Some (mbedtls_mpi_shift_l M Y (biL TYPE('l) * (n - t)))) (\<lambda>Y.
        run_then (top_digit M Y (n - t) z X) (\<lambda>(z, X).
        run_then (Some (mbedtls_mpi_shift_r M Y (biL TYPE('l) * (n - t)))) (\<lambda>Y.
        Some (
          and_then (div_loop M K have_udbl t Y (n - t) z X T1) (\<lambda>(z, X).
          and_then (store_quotient M st Q A B z) (\<lambda>st.
          store_remainder M st R A X k))))))))"

definition mbedtls_mpi_div_int ::
  "platform \<Rightarrow> 'l::len muladdc \<Rightarrow> bool \<Rightarrow> 'l store \<Rightarrow> nat option \<Rightarrow> nat option \<Rightarrow> 'l word source \<Rightarrow> 'l word \<Rightarrow>
   (mpi_error + 'l store) option" where
  "mbedtls_mpi_div_int M K have_udbl st Q R A b =
     mbedtls_mpi_div_mpi M K have_udbl st Q R A (Val (mpi_of_sint b))"

text \<open>Remainder; the result may be the dividend or the modulus.\<close>

definition source_of :: "'limb operand \<Rightarrow> 'limb source" where
  "source_of op = (case op of Self \<Rightarrow> At 0 | Other X \<Rightarrow> Val X)"

partial_function (option) add_up ::
  "platform \<Rightarrow> 'l::len word operand \<Rightarrow> 'l word mpi \<Rightarrow> (mpi_error + 'l word mpi) option" where
  [code]: "add_up M B R =
     (if mbedtls_mpi_cmp_int R 0 < 0 then
        case mbedtls_mpi_add_mpi M R Self B of Inl e \<Rightarrow> Some (Inl e) | Inr R \<Rightarrow> add_up M B R
      else Some (Inr R))"

partial_function (option) take_down ::
  "platform \<Rightarrow> 'l::len word operand \<Rightarrow> 'l word mpi \<Rightarrow> (mpi_error + 'l word mpi) option" where
  [code]: "take_down M B R =
     (if 0 \<le> mbedtls_mpi_cmp_mpi R (deref R B) then
        case mbedtls_mpi_sub_mpi M R Self B of Inl e \<Rightarrow> Some (Inl e) | Inr R \<Rightarrow> take_down M B R
      else Some (Inr R))"

definition mbedtls_mpi_mod_mpi ::
  "platform \<Rightarrow> 'l::len muladdc \<Rightarrow> bool \<Rightarrow> 'l word mpi \<Rightarrow> 'l word operand \<Rightarrow> 'l word operand \<Rightarrow> (mpi_error + 'l word mpi) option" where
  "mbedtls_mpi_mod_mpi M K have_udbl R A B =
     (if mbedtls_mpi_cmp_int (deref R B) 0 < 0 then Some (Inl MBEDTLS_ERR_MPI_NEGATIVE_VALUE)
      else
        run_then (mbedtls_mpi_div_mpi M K have_udbl (\<lambda>_. R) None (Some 0) (source_of A) (source_of B)) (\<lambda>st.
        run_then (add_up M B (st 0)) (\<lambda>R. take_down M B R)))"

section \<open>The estimate of a digit\<close>

text \<open>
  In numbers: \<open>yy\<close> and \<open>T\<close> are the leading limbs of the divisor \<open>y\<close> and of the dividend \<open>V\<close>; the digit is
  \<open>V div (y * P)\<close>.
\<close>

lemma digit_below:
  fixes yy W y V T P :: nat
  assumes "yy * W \<le> y" and "V < (T + 1) * (W * P)"
  shows "V div (y * P) * yy \<le> T"
proof -
  let ?q = "V div (y * P)"
  have "?q * yy * (W * P) \<le> ?q * (y * P)"
    using mult_le_mono [OF order_refl [of ?q] mult_le_mono1 [OF assms(1), of P]] by (simp add: ac_simps)
  also have "\<dots> \<le> V"
    by simp
  also note assms(2)
  finally have "?q * yy < T + 1"
    by (simp only: mult_less_cancel2)
  then show ?thesis
    by simp
qed

lemma digit_close:
  fixes c yy W y V T P :: nat
  assumes "yy * W \<le> y" and "y < (yy + 1) * W" and "T * (W * P) \<le> V" and "c * yy \<le> T" and "c \<le> yy" and "0 < P"
  shows "c \<le> V div (y * P) + 1"
proof -
  have "0 < W"
    using assms(2) by (intro gr0I) simp
  have "c * y \<le> c * ((yy + 1) * W)"
    using assms(2) by (intro mult_le_mono2) simp
  also have "\<dots> = c * yy * W + c * W"
    by (simp add: algebra_simps)
  also have "\<dots> \<le> T * W + yy * W"
    using assms(4,5) by (intro add_mono mult_le_mono1)
  also have "\<dots> \<le> T * W + y"
    using assms(1) by simp
  finally have "c * y * P \<le> (T * W + y) * P"
    by (rule mult_le_mono1)
  then have le: "c * (y * P) \<le> V + y * P"
    using assms(3) by (simp add: algebra_simps)
  show ?thesis
  proof (cases "y = 0")
    case True
    then show ?thesis
      using assms(1,5) \<open>0 < W\<close> by simp
  next
    case False
    then have "0 < y * P"
      using assms(6) by simp
    then have "c \<le> (V + y * P) div (y * P)"
      using le by (simp add: less_eq_div_iff_mult_less_eq)
    then show ?thesis
      using \<open>0 < y * P\<close> div_add_self2 [of "y * P" V] by simp
  qed
qed

text \<open>The limbs of a number from the \<open>k\<close>-th on, when there are \<open>m\<close> of them.\<close>

lemma leading_limbs:
  fixes x :: "'l::len word list"
  assumes "limbs_val x < 2 ^ (LENGTH('l) * (k + m))"
  shows "limbs_val (take m (drop k x)) = limbs_val x div 2 ^ (LENGTH('l) * k)"
proof -
  have "limbs_val x < 2 ^ (LENGTH('l) * m) * 2 ^ (LENGTH('l) * k)"
    using assms by (simp add: power_add algebra_simps)
  then have "limbs_val x div 2 ^ (LENGTH('l) * k) < 2 ^ (LENGTH('l) * m)"
    by (simp add: div_less_iff_less_mult)
  then show ?thesis
    by (simp add: limbs_val_take limbs_val_drop)
qed

lemma two_limbs: "i + 1 < length x \<Longrightarrow> take 2 (drop i x) = [x ! i, x ! (i + 1)]"
  by (simp add: numeral_2_eq_2 take_Suc_conv_app_nth)

lemma three_limbs: "i + 2 < length x \<Longrightarrow> take 3 (drop i x) = [x ! i, x ! (i + 1), x ! (i + 2)]"
  by (simp add: numeral_3_eq_3 take_Suc_conv_app_nth)

lemma div_mult_bounds:
  fixes V D :: nat
  assumes "0 < D"
  shows "V div D * D \<le> V" "V < (V div D + 1) * D"
proof -
  show "V < (V div D + 1) * D"
    using div_mult_mod_eq [of V D] mod_less_divisor [OF assms, of V] unfolding distrib_right by linarith
qed simp

lemma lower_estimate_fact:
  fixes T1 :: "'l::len word mpi"
  assumes K: "muladdc_exact K" and room: "plenty M (N + 1)" and N: "3 \<le> N"
    and yy: "yy = unat y0 + 2 ^ LENGTH('l) * unat y1"
  shows "2 \<le> mpi_n T1 \<Longrightarrow> mpi_n T1 \<le> N \<Longrightarrow> \<exists>T1' c. lower_estimate M K y0 y1 TP2 T1 q = Inr (T1', c) \<and>
    unat c * yy \<le> limbs_val TP2 \<and> unat c \<le> unat (q - 1) \<and>
    (\<forall>d. d \<le> unat (q - 1) \<and> d * yy \<le> limbs_val TP2 \<longrightarrow> d \<le> unat c) \<and> 2 \<le> mpi_n T1' \<and> mpi_n T1' \<le> N"
proof (induction "unat (q - 1)" arbitrary: T1 q rule: less_induct)
  case less
  let ?q = "q - 1"
  obtain Z where Z: "mbedtls_mpi_lset M T1 0 = Inr Z"
    using lset_succeeds [OF plenty_mono [OF room]] by auto
  let ?Z = "Z\<lparr>mpi_p := (mpi_p Z)[0 := y0, 1 := y1]\<rparr>"
  have nZ: "mpi_n Z = mpi_n T1"
    using lset_zero(4) [OF Z] less.prems(1) by simp
  have p: "mpi_p Z = 0 # 0 # replicate (mpi_n T1 - 2) 0"
    using lset_fact(6) [OF Z] less.prems(1) by (cases "mpi_n T1 - 1") (auto simp: sint_abs_def)
  have yyZ: "mpi_abs ?Z = yy" "mpi_s ?Z = 1"
    using lset_zero(5) [OF Z] by (simp_all add: mpi_abs_def p yy)
  then have val: "mpi_val ?Z = int yy" "has_sign ?Z"
    by (simp_all add: mpi_val_def has_sign_def)
  have "max (mpi_n ?Z) (mpi_n ?Z + 1) \<le> N + 1"
    using nZ less.prems(2) by simp
  from plenty_mono [OF room this] obtain T where T: "mbedtls_mpi_mul_int M K ?Z Self ?q = Inr T" "mpi_val T = int (yy * unat ?q)"
      "has_sign T"
    using mul_int_fact [OF K, of M ?Z Self ?q] val by (auto simp del: of_nat_unat)
  have yy2: "yy < 2 ^ (LENGTH('l) * 2)"
    using limbs_val_less [of "[y0, y1]"] by (simp add: yy mult_2_right)
  have nT: "2 \<le> mpi_n T" "mpi_n T \<le> N"
    using mul_int_limbs [OF K T(1), of 2] yyZ(1) yy2 nZ less.prems N by simp_all
  let ?T2 = "\<lparr>mpi_s = 1, mpi_p = TP2\<rparr>"
  have "mbedtls_mpi_cmp_mpi T ?T2 = sgn (int (yy * unat ?q) - int (limbs_val TP2))"
    using T(2,3) by (simp add: cmp_mpi_val has_sign_def mpi_val_def mpi_abs_def)
  then have cmp: "0 < mbedtls_mpi_cmp_mpi T ?T2 \<longleftrightarrow> limbs_val TP2 < unat ?q * yy"
    by (simp add: mult.commute del: of_nat_unat flip: of_nat_mult)
  have unfold: "lower_estimate M K y0 y1 TP2 T1 q =
      (if limbs_val TP2 < unat ?q * yy then lower_estimate M K y0 y1 TP2 T ?q else Inr (T, ?q))"
    using Z T(1) by (subst lower_estimate.simps) (simp add: Let_def flip: cmp)
  show ?case
  proof (cases "limbs_val TP2 < unat ?q * yy")
    case True
    then have nz: "?q \<noteq> 0"
      by auto
    then have dec: "unat (?q - 1) < unat ?q" "unat (?q - 1) = unat ?q - 1"
      using unat_minus_1_less unat_minus_one by blast+
    obtain T1' c where c: "lower_estimate M K y0 y1 TP2 T ?q = Inr (T1', c)" "unat c * yy \<le> limbs_val TP2"
        "unat c \<le> unat (?q - 1)" "\<forall>d. d \<le> unat (?q - 1) \<and> d * yy \<le> limbs_val TP2 \<longrightarrow> d \<le> unat c"
        "2 \<le> mpi_n T1'" "mpi_n T1' \<le> N"
      using less.hyps [OF dec(1) nT] by blast
    have "d \<le> unat c" if "d \<le> unat ?q" "d * yy \<le> limbs_val TP2" for d
    proof -
      have "d \<noteq> unat ?q"
        using True that(2) by auto
      then show ?thesis
        using c(4) that dec(2) by simp
    qed
    then show ?thesis
      using True c dec(1) unfold by auto
  next
    case False
    then show ?thesis
      using unfold nT by auto
  qed
qed

lemma dividend_small:
  fixes V y L :: nat
  assumes "V < y * 2 ^ (L * Suc j)" and "y < 2 ^ (L * (t + 1))"
  shows "V < 2 ^ (L * (t + 1 + j + 1))"
proof -
  have "y * 2 ^ (L * Suc j) < 2 ^ (L * (t + 1)) * 2 ^ (L * Suc j)"
    using assms(2) by (rule mult_strict_right_mono) simp
  also have "\<dots> = 2 ^ (L * (t + 1 + j + 1))"
    unfolding power_add [symmetric] distrib_left [symmetric] by simp
  finally show ?thesis
    using assms(1) by (rule less_trans [rotated])
qed

text \<open>The limbs the estimate is made of, as leading parts of the divisor and of the dividend.\<close>

lemma leading_parts:
  fixes x y :: "'l::len word list" and t j :: nat
  defines "B \<equiv> 2 ^ LENGTH('l) :: nat"
  defines "i \<equiv> t + 1 + j"
  defines "yy \<equiv> unat (if t < 1 then 0 else y ! (t - 1)) + B * unat (y ! t)"
  defines "T \<equiv> limbs_val [if i < 2 then 0 else x ! (i - 2), if i < 1 then 0 else x ! (i - 1), x ! i]"
  assumes t: "t < length y" and i: "i < length x" and y: "limbs_val y < 2 ^ (LENGTH('l) * (t + 1))"
    and x: "limbs_val x < 2 ^ (LENGTH('l) * (i + 1))"
  obtains W m where "0 < m" "yy * W \<le> limbs_val y * m" "limbs_val y * m < (yy + 1) * W"
    "T * (W * 2 ^ (LENGTH('l) * j)) \<le> limbs_val x * m" "limbs_val x * m < (T + 1) * (W * 2 ^ (LENGTH('l) * j))"
proof -
  let ?L = "LENGTH('l)"
  have three: "T = limbs_val x div 2 ^ (?L * (i - 2))" if "2 \<le> i"
  proof -
    have "[if i < 2 then 0 else x ! (i - 2), if i < 1 then 0 else x ! (i - 1), x ! i] = take 3 (drop (i - 2) x)"
      using that i three_limbs [of "i - 2" x] by (simp add: numeral_2_eq_2 Suc_diff_Suc)
    then show ?thesis
      using leading_limbs [of x "i - 2" 3] x that by (simp only: T_def) simp
  qed
  show ?thesis
  proof (cases "t < 1")
    case True
    then have t0: "t = 0" "i = Suc j"
      by (simp_all add: i_def)
    have "limbs_val (take 1 (drop 0 y)) = limbs_val y"
      using leading_limbs [of y 0 1] y t0 by simp
    then have yy: "yy = limbs_val y * B"
      using t t0 by (cases y) (simp_all add: yy_def)
    have "T * (1 * 2 ^ (?L * j)) \<le> limbs_val x * B \<and> limbs_val x * B < (T + 1) * (1 * 2 ^ (?L * j))"
    proof (cases j)
      case 0
      have "limbs_val (take 2 (drop 0 x)) = limbs_val x"
        using leading_limbs [of x 0 2] x t0 0 by simp
      moreover have "take 2 (drop 0 x) = [x ! 0, x ! 1]"
        using two_limbs [of 0 x] i t0 0 by simp
      ultimately have "T = limbs_val x * B"
        using t0 0 by (simp add: T_def B_def algebra_simps)
      then show ?thesis
        using 0 by simp
    next
      case (Suc k)
      then have T: "T = limbs_val x div 2 ^ (?L * k)"
        using three t0 by simp
      have P: "(2 :: nat) ^ (?L * j) = 2 ^ (?L * k) * B"
        by (simp add: Suc B_def power_add algebra_simps)
      have "T * 2 ^ (?L * k) \<le> limbs_val x" "limbs_val x < (T + 1) * 2 ^ (?L * k)"
        unfolding T by (rule div_mult_bounds; simp)+
      then have "T * 2 ^ (?L * k) * B \<le> limbs_val x * B" "limbs_val x * B < (T + 1) * 2 ^ (?L * k) * B"
        by (simp_all add: B_def)
      then show ?thesis
        unfolding P by (simp only: mult.assoc mult_1)
    qed
    moreover have "0 < B"
      by (simp add: B_def)
    ultimately show ?thesis
      using that [of B 1] yy by simp
  next
    case False
    let ?W = "2 ^ (?L * (t - 1)) :: nat"
    have "limbs_val (take 2 (drop (t - 1) y)) = limbs_val y div ?W"
      using leading_limbs [of y "t - 1" 2] y False by simp
    moreover have "take 2 (drop (t - 1) y) = [y ! (t - 1), y ! t]"
      using two_limbs [of "t - 1" y] t False by simp
    ultimately have yy: "yy = limbs_val y div ?W"
      using False by (simp add: yy_def B_def)
    have "i - 2 = (t - 1) + j"
      using False by (simp add: i_def)
    then have W: "(2 :: nat) ^ (?L * (i - 2)) = ?W * 2 ^ (?L * j)"
      by (simp add: power_add distrib_left)
    have "2 \<le> i"
      using False by (simp add: i_def)
    then have T: "T = limbs_val x div (?W * 2 ^ (?L * j))"
      using three W by simp
    show ?thesis
    proof (rule that [of 1 ?W])
      show "T * (?W * 2 ^ (?L * j)) \<le> limbs_val x * 1" "limbs_val x * 1 < (T + 1) * (?W * 2 ^ (?L * j))"
        unfolding T mult_1_right by (rule div_mult_bounds; simp)+
      show "yy * ?W \<le> limbs_val y * 1" "limbs_val y * 1 < (yy + 1) * ?W"
        unfolding yy mult_1_right by (rule div_mult_bounds; simp)+
    qed simp
  qed
qed

text \<open>The estimate from the first two limbs is not too small.\<close>

lemma estimate_above:
  fixes x y :: "'l::len word list" and t j :: nat
  defines "i \<equiv> t + 1 + j"
  assumes u: "have_udbl \<or> even LENGTH('l)"
    and t: "t < length y" and i: "i < length x" and y: "limbs_val y < 2 ^ (LENGTH('l) * (t + 1))"
    and half: "2 \<le> LENGTH('l) \<longrightarrow> 2 * limbs_val y < 2 ^ (LENGTH('l) * (t + 1))"
    and pos: "0 < limbs_val y" and less: "limbs_val x < limbs_val y * 2 ^ (LENGTH('l) * Suc j)"
  shows "\<exists>e. quotient_estimate have_udbl x (y ! t) i = Inr e \<and> limbs_val x div (limbs_val y * 2 ^ (LENGTH('l) * j)) \<le> unat e"
proof -
  let ?L = "LENGTH('l)"
  let ?q = "limbs_val x div (limbs_val y * 2 ^ (?L * j))"
  have P: "(2 :: nat) ^ (?L * Suc j) = 2 ^ (?L * j) * 2 ^ ?L"
    by (simp add: power_add algebra_simps)
  have "limbs_val x < 2 ^ ?L * (limbs_val y * 2 ^ (?L * j))"
    using less unfolding P by (simp add: ac_simps)
  then have q: "?q < 2 ^ ?L"
    by (rule less_mult_imp_div_less)
  show ?thesis
  proof (cases "y ! t \<le> x ! i")
    case True
    then have "quotient_estimate have_udbl x (y ! t) i = Inr (- 1)"
      by (simp add: quotient_estimate_def)
    moreover have "unat (- 1 :: 'l word) = 2 ^ ?L - 1"
      by (simp add: unsigned_minus_1_eq_mask mask_eq_exp_minus_1)
    ultimately show ?thesis
      using q by auto
  next
    case False
    let ?E = "unat (x ! i) * 2 ^ ?L + unat (x ! (i - 1))"
    have "limbs_val x < 2 ^ (?L * (i - 1 + 2))"
      using dividend_small [OF less y] by (simp add: i_def)
    then have "limbs_val (take 2 (drop (i - 1) x)) = limbs_val x div 2 ^ (?L * (i - 1))"
      by (rule leading_limbs)
    moreover have "take 2 (drop (i - 1) x) = [x ! (i - 1), x ! i]"
      using two_limbs [of "i - 1" x] i by (simp add: i_def)
    moreover have "(2 :: nat) ^ (?L * (i - 1)) = 2 ^ (?L * t) * 2 ^ (?L * j)"
      by (simp add: i_def power_add distrib_left)
    ultimately have Ev: "?E = limbs_val x div (2 ^ (?L * t) * 2 ^ (?L * j))"
      by (simp add: mult.commute)
    have "limbs_val (take 1 (drop t y)) = limbs_val y div 2 ^ (?L * t)"
      using y by (intro leading_limbs)
    then have yt: "unat (y ! t) = limbs_val y div 2 ^ (?L * t)"
      using t by (simp add: take_Suc_conv_app_nth)
    have "unat (y ! t) < 2 ^ (?L - 1)" if "even ?L"
    proof -
      have "?L \<noteq> 1"
        using that by (metis odd_one)
      then have L: "2 \<le> ?L" "?L * (t + 1) = Suc (?L * t + (?L - 1))"
        using len_gt_0 [where 'a = 'l] by (simp_all del: len_gt_0)
      have "2 * limbs_val y < 2 * (2 ^ (?L - 1) * 2 ^ (?L * t))"
        using half L(1) unfolding L(2) power_Suc power_add by (simp add: mult.commute)
      then show ?thesis
        unfolding yt by (intro less_mult_imp_div_less) simp
    qed
    moreover have "x ! i < y ! t"
      using False by (simp only: not_le)
    ultimately obtain e r where e: "mbedtls_int_div_int have_udbl (x ! i) (x ! (i - 1)) (y ! t) = Inr (e, r)" "unat e = ?E div unat (y ! t)"
      using u int_div_int_val [of "x ! i" "y ! t" have_udbl "x ! (i - 1)"] by blast
    then have est: "quotient_estimate have_udbl x (y ! t) i = Inr e"
      using False by (simp add: quotient_estimate_def)
    have "?q * unat (y ! t) \<le> ?E"
    proof (rule digit_below)
      show "unat (y ! t) * 2 ^ (?L * t) \<le> limbs_val y"
        unfolding yt by simp
      show "limbs_val x < (?E + 1) * (2 ^ (?L * t) * 2 ^ (?L * j))"
        unfolding Ev by (rule div_mult_bounds) simp
    qed
    moreover have "0 < unat (y ! t)"
      using False by (auto simp: word_less_nat_alt not_le)
    ultimately show ?thesis
      using est e(2) by (simp add: less_eq_div_iff_mult_less_eq)
  qed
qed

section \<open>A pass of the main loop\<close>

text \<open>
  What holds before a pass: \<open>N\<close> limbs are enough for all numbers, limb \<open>t\<close> of the divisor is its highest and has a leading zero bit,
  and the dividend has the value \<open>v\<close> and more than \<open>k\<close> limbs.
\<close>

definition divisor_ready :: "nat \<Rightarrow> nat \<Rightarrow> 'l::len word mpi \<Rightarrow> bool" where
  "divisor_ready N t Y \<longleftrightarrow> mpi_s Y = 1 \<and> mpi_n Y \<le> N \<and> t < mpi_n Y \<and>
     2 ^ (LENGTH('l) * t) \<le> mpi_abs Y \<and> mpi_abs Y < 2 ^ (LENGTH('l) * (t + 1)) \<and>
     (2 \<le> LENGTH('l) \<longrightarrow> 2 * mpi_abs Y < 2 ^ (LENGTH('l) * (t + 1)))"

definition dividend_ready :: "nat \<Rightarrow> nat \<Rightarrow> nat \<Rightarrow> 'l::len word mpi \<Rightarrow> 'l word mpi \<Rightarrow> bool" where
  "dividend_ready N k v X T1 \<longleftrightarrow> has_sign X \<and> mpi_val X = int v \<and> k < mpi_n X \<and> mpi_n X \<le> N \<and>
     2 \<le> mpi_n T1 \<and> mpi_n T1 \<le> N"

definition room_to_divide :: "platform \<Rightarrow> 'l::len itself \<Rightarrow> nat \<Rightarrow> bool" where
  "room_to_divide M _ N \<longleftrightarrow> plenty M (N + 1) \<and> N * LENGTH('l) < 2 ^ SIZE_BITS M \<and> 3 \<le> N"

lemma val_nonneg: "has_sign X \<Longrightarrow> mpi_val X = int v \<Longrightarrow> mpi_abs X = v"
  by (auto simp: has_sign_def mpi_val_def)

text \<open>A multiple of the divisor, moved to its place.\<close>

lemma shifted_multiple:
  fixes T :: "'l::len word mpi"
  assumes "room_to_divide M TYPE('l) N" and "mpi_abs T * 2 ^ (LENGTH('l) * j) < 2 ^ (LENGTH('l) * N)"
    and "mpi_n T \<le> N" and "j \<le> N"
  shows "\<exists>S. mbedtls_mpi_shift_l M T (LENGTH('l) * j) = Inr S \<and> mpi_abs S = mpi_abs T * 2 ^ (LENGTH('l) * j) \<and>
    mpi_s S = mpi_s T \<and> mpi_n T \<le> mpi_n S \<and> mpi_n S \<le> N"
proof -
  let ?L = "LENGTH('l)"
  have N: "(2 :: nat) ^ (?L * N) = 2 ^ (?L * (N - j)) * 2 ^ (?L * j)"
    using assms(4) by (simp flip: power_add distrib_left)
  then have "mpi_abs T < 2 ^ (?L * (N - j))"
    using assms(2) by simp
  then have "mbedtls_mpi_bitlen T \<le> ?L * (N - j)"
    by (simp add: bitlen_le_iff)
  then have len: "mbedtls_mpi_bitlen T + ?L * j \<le> N * ?L"
    using assms(4) by (metis add_le_mono1 distrib_left le_add_diff_inverse2 mult.commute)
  then have size: "mbedtls_mpi_bitlen T + ?L * j < 2 ^ SIZE_BITS M" and limbs: "BITS_TO_LIMBS TYPE('l) (mbedtls_mpi_bitlen T + ?L * j) \<le> N"
    using assms(1) by (simp_all add: room_to_divide_def BITS_TO_LIMBS_le)
  have "plenty M (BITS_TO_LIMBS TYPE('l) (mbedtls_mpi_bitlen T + ?L * j))"
    using assms(1) limbs by (auto simp: room_to_divide_def elim: plenty_mono)
  from shift_l_succeeds [OF size this] obtain S where S: "mbedtls_mpi_shift_l M T (?L * j) = Inr S"
    by blast
  show ?thesis
    using S shift_l_fact [OF S size] limbs assms(3) by auto
qed

text \<open>The digit after the inner loop: at most one too large.\<close>

lemma lowered_digit:
  fixes X Y T1 :: "'l::len word mpi" and j :: nat
  defines "x \<equiv> mpi_p X" and "y \<equiv> mpi_p Y" and "P \<equiv> 2 ^ (LENGTH('l) * j) :: nat"
  assumes K: "muladdc_exact K" and u: "have_udbl \<or> even LENGTH('l)" and room: "room_to_divide M TYPE('l) N"
    and Y: "divisor_ready N t Y" and X: "dividend_ready N (t + 1 + j) v X T1" and v: "v < mpi_abs Y * 2 ^ (LENGTH('l) * Suc j)"
  shows "\<exists>e T c. quotient_estimate have_udbl x (y ! t) (t + 1 + j) = Inr e \<and> lower_estimate M K (if t < 1 then 0 else y ! (t - 1)) (y ! t)
      [if t + 1 + j < 2 then 0 else x ! (t + 1 + j - 2), if t + 1 + j < 1 then 0 else x ! (t + 1 + j - 1), x ! (t + 1 + j)]
      T1 (e + 1) = Inr (T, c) \<and>
    v div (mpi_abs Y * P) \<le> unat c \<and> unat c \<le> v div (mpi_abs Y * P) + 1 \<and> 2 \<le> mpi_n T \<and> mpi_n T \<le> N"
proof -
  let ?L = "LENGTH('l)" and ?i = "t + 1 + j" and ?q = "v div (mpi_abs Y * P)"
  let ?yy = "unat (if t < 1 then 0 else y ! (t - 1)) + 2 ^ ?L * unat (y ! t)"
  let ?T = "[if ?i < 2 then 0 else x ! (?i - 2), if ?i < 1 then 0 else x ! (?i - 1), x ! ?i]"
  have vals: "limbs_val x = v" "limbs_val y = mpi_abs Y"
    using X val_nonneg [of X v] by (simp_all add: x_def y_def mpi_abs_def dividend_ready_def)
  have y: "t < length y" "2 ^ (?L * t) \<le> limbs_val y" "limbs_val y < 2 ^ (?L * (t + 1))" "2 \<le> ?L \<longrightarrow> 2 * limbs_val y < 2 ^ (?L * (t + 1))"
    using Y by (simp_all add: divisor_ready_def y_def mpi_abs_def)
  have i: "?i < length x"
    using X by (simp add: dividend_ready_def x_def)
  have less: "limbs_val x < limbs_val y * 2 ^ (?L * Suc j)"
    using v vals by simp
  have pos: "0 < limbs_val y"
    using y(2) by (metis less_le_trans zero_less_numeral zero_less_power)
  have "limbs_val (take 1 (drop t y)) = limbs_val y div 2 ^ (?L * t)"
    using y(3) by (intro leading_limbs)
  then have "unat (y ! t) = limbs_val y div 2 ^ (?L * t)"
    using y(1) by (simp add: take_Suc_conv_app_nth)
  then have "1 \<le> unat (y ! t)"
    using y(2) by (simp add: Suc_le_eq div_greater_zero_iff)
  then have yy: "2 ^ ?L \<le> ?yy"
    by (simp add: trans_le_add2)
  obtain e where e: "quotient_estimate have_udbl x (y ! t) ?i = Inr e" "?q \<le> unat e"
    using estimate_above [OF u y(1) i y(3,4) pos less] vals by (auto simp: P_def)
  obtain T c where c: "lower_estimate M K (if t < 1 then 0 else y ! (t - 1)) (y ! t) ?T T1 (e + 1) = Inr (T, c)"
      "unat c * ?yy \<le> limbs_val ?T" "\<forall>d. d \<le> unat e \<and> d * ?yy \<le> limbs_val ?T \<longrightarrow> d \<le> unat c" "2 \<le> mpi_n T" "mpi_n T \<le> N"
    using lower_estimate_fact [OF K _ _ refl, of M N T1 "if t < 1 then 0 else y ! (t - 1)" "y ! t" ?T "e + 1"] room X
    by (auto simp: room_to_divide_def dividend_ready_def simp del: limbs_val.simps)
  obtain W m where W: "0 < m" "?yy * W \<le> limbs_val y * m" "limbs_val y * m < (?yy + 1) * W"
      "limbs_val ?T * (W * P) \<le> limbs_val x * m" "limbs_val x * m < (limbs_val ?T + 1) * (W * P)"
    by (rule leading_parts [OF y(1) i y(3) dividend_small [OF less y(3)], folded P_def]) (rule that)
  have "limbs_val y * m * P = mpi_abs Y * P * m"
    unfolding vals by (simp only: ac_simps)
  then have scaled: "limbs_val x * m div (limbs_val y * m * P) = ?q"
    using W(1) vals by simp
  have "?q * ?yy \<le> limbs_val ?T"
    using digit_below [OF W(2,5)] unfolding scaled .
  then have "?q \<le> unat c"
    using c(3) e(2) by blast
  moreover have "unat c \<le> ?yy"
    using limb_less [of c] yy by linarith
  then have "unat c \<le> ?q + 1"
    using digit_close [OF W(2,3,4) c(2)] unfolding scaled by (simp add: P_def)
  ultimately show ?thesis
    using e(1) c(1,4,5) by blast
qed

lemma abs_less_val: "has_sign X \<Longrightarrow> \<bar>mpi_val X\<bar> < int m \<longleftrightarrow> mpi_abs X < m"
  by (auto simp: has_sign_def mpi_val_def)

text \<open>Subtraction and addition inside \<open>N\<close> limbs.\<close>

lemma sub_inside:
  fixes X S :: "'l::len word mpi"
  assumes "room_to_divide M TYPE('l) N" and "has_sign X" and "has_sign S" and "mpi_n X \<le> N" and "mpi_n S \<le> N"
    and "\<bar>mpi_val X - mpi_val S\<bar> < 2 ^ (LENGTH('l) * N)"
  shows "\<exists>Z. mbedtls_mpi_sub_mpi M X Self (Other S) = Inr Z \<and> mpi_val Z = mpi_val X - mpi_val S \<and> has_sign Z \<and>
    mpi_n X \<le> mpi_n Z \<and> mpi_n Z \<le> N"
proof -
  have "max (mpi_n X) (max (mpi_n (deref X Self)) (mpi_n (deref X (Other S)))) + 1 \<le> N + 1"
    using assms(4,5) by simp
  then obtain Z where Z: "mbedtls_mpi_sub_mpi M X Self (Other S) = Inr Z"
    using sub_mpi_succeeds [OF plenty_mono, of M "N + 1"] assms(1) unfolding room_to_divide_def by blast
  note z = sub_mpi_fact [OF Z, simplified, OF assms(2,3)]
  have "mpi_abs Z < 2 ^ (LENGTH('l) * N)"
    using assms(6) abs_less_val [OF z(2), of "2 ^ (LENGTH('l) * N)"] z(1) by simp
  then have "mpi_n Z \<le> N"
    using sub_mpi_limbs [OF Z, of N] assms(4,5) by simp
  then show ?thesis
    using Z z by blast
qed

lemma add_inside:
  fixes X S :: "'l::len word mpi"
  assumes "room_to_divide M TYPE('l) N" and "has_sign X" and "has_sign S" and "mpi_n X \<le> N" and "mpi_n S \<le> N"
    and "\<bar>mpi_val X + mpi_val S\<bar> < 2 ^ (LENGTH('l) * N)"
  shows "\<exists>Z. mbedtls_mpi_add_mpi M X Self (Other S) = Inr Z \<and> mpi_val Z = mpi_val X + mpi_val S \<and> has_sign Z \<and>
    mpi_n X \<le> mpi_n Z \<and> mpi_n Z \<le> N"
proof -
  have "max (mpi_n X) (max (mpi_n (deref X Self)) (mpi_n (deref X (Other S)))) + 1 \<le> N + 1"
    using assms(4,5) by simp
  then obtain Z where Z: "mbedtls_mpi_add_mpi M X Self (Other S) = Inr Z"
    using add_mpi_succeeds [OF plenty_mono, of M "N + 1"] assms(1) unfolding room_to_divide_def by blast
  note z = add_mpi_fact [OF Z, simplified, OF assms(2,3)]
  have "mpi_abs Z < 2 ^ (LENGTH('l) * N)"
    using assms(6) abs_less_val [OF z(2), of "2 ^ (LENGTH('l) * N)"] z(1) by simp
  then have "mpi_n Z \<le> N"
    using add_mpi_limbs [OF Z, of N] assms(4,5) by simp
  then show ?thesis
    using Z z by blast
qed

lemma div_step_fact:
  fixes X Y T1 :: "'l::len word mpi" and j :: nat
  defines "P \<equiv> 2 ^ (LENGTH('l) * j) :: nat"
  assumes K: "muladdc_exact K" and u: "have_udbl \<or> even LENGTH('l)" and room: "room_to_divide M TYPE('l) N"
    and Y: "divisor_ready N t Y" and X: "dividend_ready N (t + 1 + j) v X T1" and v: "v < mpi_abs Y * 2 ^ (LENGTH('l) * Suc j)"
    and z: "j < length z"
  shows "\<exists>X' T1'. div_step M K have_udbl t Y j z X T1 = Inr (z[j := of_nat (v div (mpi_abs Y * P))], X', T1') \<and>
    dividend_ready N (t + j) (v mod (mpi_abs Y * P)) X' T1'"
proof -
  let ?L = "LENGTH('l)" and ?i = "t + 1 + j" and ?D = "mpi_abs Y * P" and ?x = "mpi_p X" and ?y = "mpi_p Y"
  let ?q = "v div (mpi_abs Y * P)"
  note inv = X [unfolded dividend_ready_def] Y [unfolded divisor_ready_def] room [unfolded room_to_divide_def]
  obtain e T c where e: "quotient_estimate have_udbl ?x (?y ! t) ?i = Inr e" and c: "lower_estimate M K (if t < 1 then 0 else ?y ! (t - 1)) (?y ! t)
      [if ?i < 2 then 0 else ?x ! (?i - 2), if ?i < 1 then 0 else ?x ! (?i - 1), ?x ! ?i] T1 (e + 1) = Inr (T, c)"
    "?q \<le> unat c" "unat c \<le> ?q + 1" "2 \<le> mpi_n T" "mpi_n T \<le> N"
    using lowered_digit [OF K u room Y X v] unfolding P_def by blast
  have iN: "?i < N"
    using inv by linarith
  have "plenty M (max (mpi_n T) (mpi_n Y + 1))"
    using inv c(5) by (auto elim: plenty_mono)
  then obtain S where S: "mbedtls_mpi_mul_int M K T (Other Y) c = Inr S" "mpi_val S = int (mpi_abs Y * unat c)" "has_sign S"
    using mul_int_fact [OF K, of M T "Other Y" c] inv by (auto simp: has_sign_def mpi_val_def simp del: of_nat_unat)
  have Sabs: "mpi_abs S = mpi_abs Y * unat c"
    by (rule val_nonneg [OF S(3,2)])
  have Sn: "2 \<le> mpi_n S" "mpi_n S \<le> N"
    using mul_int_limbs [OF K S(1), of "t + 1"] inv c(4,5) iN by auto
  have cP: "mpi_abs Y * unat c * P < 2 ^ (?L * N)"
  proof -
    have "mpi_abs Y * unat c < 2 ^ (?L * (t + 1)) * 2 ^ ?L"
      using inv by (intro mult_strict_mono') simp_all
    then have "mpi_abs Y * unat c * P < 2 ^ (?L * (t + 1)) * 2 ^ ?L * P"
      by (simp add: P_def)
    also have "\<dots> = 2 ^ (?L * (t + 2 + j))"
      by (simp add: P_def algebra_simps flip: power_add)
    also have "\<dots> \<le> 2 ^ (?L * N)"
      using iN by (intro power_increasing mult_le_mono2) simp_all
    finally show ?thesis .
  qed
  obtain S' where S': "mbedtls_mpi_shift_l M S (?L * j) = Inr S'" "mpi_abs S' = mpi_abs Y * unat c * P" "mpi_s S' = mpi_s S"
      "2 \<le> mpi_n S'" "mpi_n S' \<le> N"
    using shifted_multiple [OF room, of S j] cP Sabs Sn iN unfolding P_def by auto
  have sign: "mpi_val S' = int (mpi_abs Y * unat c * P)" "has_sign S'"
    using S(2,3) S'(2,3) Sabs by (auto simp: mpi_val_def has_sign_def)
  have vN: "v < 2 ^ (?L * N)"
  proof -
    have "v < 2 ^ (?L * (t + 1 + j + 1))"
      using dividend_small [OF v] inv by simp
    also have "\<dots> \<le> 2 ^ (?L * N)"
      using iN by (intro power_increasing mult_le_mono2) simp_all
    finally show ?thesis .
  qed
  have "\<bar>mpi_val X - mpi_val S'\<bar> < 2 ^ (?L * N)"
  proof -
    have "int v < 2 ^ (?L * N)" "int (mpi_abs Y * unat c * P) < 2 ^ (?L * N)"
      using vN cP by (metis of_nat_less_iff of_nat_power of_nat_numeral)+
    moreover have "mpi_val X = int v"
      using inv by simp
    ultimately show ?thesis
      unfolding sign(1) by linarith
  qed
  then obtain Z where Z: "mbedtls_mpi_sub_mpi M X Self (Other S') = Inr Z" "mpi_val Z = int v - int (mpi_abs Y * unat c * P)"
      "has_sign Z" "mpi_n X \<le> mpi_n Z" "mpi_n Z \<le> N"
    using sub_inside [OF room _ sign(2) _ S'(5), of X] inv sign(1) by auto
  have neg: "mbedtls_mpi_cmp_int Z 0 < 0 \<longleftrightarrow> v < mpi_abs Y * unat c * P"
    using Z(2,3) by (simp add: cmp_int_val del: of_nat_unat of_nat_mult)
  have "0 < ?D"
    using inv by (auto simp: P_def intro: less_le_trans [of 0 "2 ^ (?L * t)"])
  have step: "div_step M K have_udbl t Y j z X T1 =
      (if v < mpi_abs Y * unat c * P then
         and_then (mbedtls_mpi_copy M S' (Other Y)) (\<lambda>T1.
         and_then (mbedtls_mpi_shift_l M T1 (?L * j)) (\<lambda>T1.
         and_then (mbedtls_mpi_add_mpi M Z Self (Other T1)) (\<lambda>X. Inr (z[j := c - 1], X, T1))))
       else Inr (z[j := c], Z, S'))"
    using e c(1) S(1) S'(1) Z(1) neg z unfolding div_step_def Let_def by (simp cong: if_cong)
  show ?thesis
  proof (cases "v < mpi_abs Y * unat c * P")
    case False
    then have "unat c * ?D \<le> v"
      by (simp add: ac_simps)
    then have "unat c = ?q"
      using c(2) \<open>0 < ?D\<close> by (simp add: le_antisym less_eq_div_iff_mult_less_eq)
    moreover then have "c = of_nat ?q"
      by (metis of_nat_unat ucast_id)
    moreover have "int v - int (mpi_abs Y * ?q * P) = int (v mod ?D)"
      by (metis add_diff_cancel_left' div_mult_mod_eq mult.assoc mult.commute of_nat_add)
    ultimately show ?thesis
      using step False Z S'(4,5) inv by (auto simp: dividend_ready_def)
  next
    case True
    then have "v < unat c * ?D"
      by (simp add: ac_simps)
    then have "?q < unat c"
      by (rule less_mult_imp_div_less)
    then have cq: "unat c = ?q + 1"
      using c(3) by simp
    then have digit: "c - 1 = of_nat ?q"
      by (metis add_diff_cancel_right' of_nat_1 of_nat_add of_nat_unat ucast_id)
    have "plenty M (mpi_n Y)"
      using inv by (auto elim: plenty_mono)
    then obtain C where C: "mbedtls_mpi_copy M S' (Other Y) = Inr C"
      using copy_succeeds by blast
    have Cn: "2 \<le> mpi_n C" "mpi_n C \<le> N" "mpi_abs C = mpi_abs Y" "mpi_s C = 1"
    proof -
      have "mpi_n Y \<noteq> 0"
        using inv by linarith
      then show "2 \<le> mpi_n C" "mpi_n C \<le> N" "mpi_abs C = mpi_abs Y" "mpi_s C = 1"
        using copy_fact [OF C] inv S'(4,5) by auto
    qed
    have yP: "mpi_abs C * P < 2 ^ (?L * N)"
    proof -
      have "1 * ?D \<le> unat c * ?D"
        unfolding cq by (intro mult_le_mono1) simp
      also have "\<dots> = mpi_abs Y * unat c * P"
        by (simp only: ac_simps)
      finally show ?thesis
        using cP unfolding Cn(3) by linarith
    qed
    obtain C' where C': "mbedtls_mpi_shift_l M C (?L * j) = Inr C'" "mpi_abs C' = ?D" "mpi_s C' = 1" "2 \<le> mpi_n C'" "mpi_n C' \<le> N"
      using shifted_multiple [OF room, of C j] yP Cn iN unfolding P_def by auto
    have C'val: "mpi_val C' = int ?D" "has_sign C'"
      using C'(2,3) by (simp_all add: mpi_val_def has_sign_def)
    have "mpi_abs Y * unat c * P = ?q * ?D + ?D"
      unfolding cq by (simp add: algebra_simps)
    then have "int (mpi_abs Y * unat c * P) = int (?q * ?D) + int ?D"
      by (metis of_nat_add)
    moreover have "int v = int (?q * ?D) + int (v mod ?D)"
      by (metis div_mult_mod_eq of_nat_add)
    ultimately have sum: "mpi_val Z + mpi_val C' = int (v mod ?D)"
      unfolding Z(2) C'val(1) by linarith
    have "v mod ?D < 2 ^ (?L * N)"
      using vN by (meson le_less_trans mod_less_eq_dividend)
    then have "\<bar>mpi_val Z + mpi_val C'\<bar> < 2 ^ (?L * N)"
      unfolding sum by (metis abs_of_nat of_nat_less_iff of_nat_numeral of_nat_power)
    then obtain R where "mbedtls_mpi_add_mpi M Z Self (Other C') = Inr R" "mpi_val R = int (v mod ?D)" "has_sign R"
        "mpi_n Z \<le> mpi_n R" "mpi_n R \<le> N"
      using add_inside [OF room Z(3) C'val(2) Z(5) C'(5)] sum by auto
    then show ?thesis
      using step True C C' digit Z(4) inv by (auto simp: dividend_ready_def)
  qed
qed

section \<open>The loops\<close>

lemma div_loop_fact:
  fixes Y :: "'l::len word mpi"
  assumes K: "muladdc_exact K" and u: "have_udbl \<or> even LENGTH('l)" and room: "room_to_divide M TYPE('l) N"
    and Y: "divisor_ready N t Y"
  shows "dividend_ready N (t + j) v X T1 \<Longrightarrow> v < mpi_abs Y * 2 ^ (LENGTH('l) * j) \<Longrightarrow> j \<le> length z \<Longrightarrow>
    \<exists>z' X'. div_loop M K have_udbl t Y j z X T1 = Inr (z', X') \<and> limbs_val (take j z') = v div mpi_abs Y \<and>
      drop j z' = drop j z \<and> length z' = length z \<and> has_sign X' \<and> mpi_val X' = int (v mod mpi_abs Y) \<and> mpi_n X' \<le> N \<and> 0 < mpi_n X'"
proof (induction j arbitrary: z X T1 v)
  case 0
  then show ?case
    by (auto simp: dividend_ready_def)
next
  case (Suc j)
  let ?P = "2 ^ (LENGTH('l) * j) :: nat" and ?y = "mpi_abs Y"
  let ?q = "v div (?y * ?P)" and ?v = "v mod (?y * ?P)"
  have pos: "0 < ?y"
    using Y by (auto simp: divisor_ready_def intro: less_le_trans [of 0 "2 ^ (LENGTH('l) * t)"])
  have "dividend_ready N (t + 1 + j) v X T1"
    using Suc.prems(1) by simp
  then obtain X1 T1' where step: "div_step M K have_udbl t Y j z X T1 = Inr (z[j := of_nat ?q], X1, T1')"
      "dividend_ready N (t + j) ?v X1 T1'"
    using div_step_fact [OF K u room Y _ Suc.prems(2), of X T1 z] Suc.prems(3) by auto
  have "?v < ?y * ?P"
    using pos by simp
  then obtain z' X' where rest: "div_loop M K have_udbl t Y j (z[j := of_nat ?q]) X1 T1' = Inr (z', X')"
      "limbs_val (take j z') = ?v div ?y" "drop j z' = drop j (z[j := of_nat ?q])" "length z' = length z"
      "has_sign X'" "mpi_val X' = int (?v mod ?y)" "mpi_n X' \<le> N" "0 < mpi_n X'"
    using Suc.IH [OF step(2), of "z[j := of_nat ?q]"] Suc.prems(3) by auto
  have j: "j < length z'"
    using rest(4) Suc.prems(3) by simp
  have digit: "z' ! j = of_nat ?q"
    using arg_cong [OF rest(3), of hd] j Suc.prems(3) by (simp add: hd_drop_conv_nth)
  have "v < 2 ^ LENGTH('l) * (?y * ?P)"
    using Suc.prems(2) by (simp add: power_add ac_simps)
  then have "unat (z' ! j) = ?q"
    unfolding digit using less_mult_imp_div_less by (simp add: unsigned_of_nat take_bit_nat_eq_self)
  then have "limbs_val (take (Suc j) z') = ?v div ?y + ?P * ?q"
    using limbs_val_take_Suc [OF j] rest(2) by simp
  also have "\<dots> = v div ?y"
  proof -
    have "v = ?v + ?P * ?q * ?y"
      using div_mult_mod_eq [of v "?y * ?P"] by (simp add: ac_simps)
    then show ?thesis
      using pos by (metis add.commute div_mult_self3 less_not_refl)
  qed
  finally have "limbs_val (take (Suc j) z') = v div ?y" .
  moreover have "drop (Suc j) z' = drop (Suc j) z"
    using arg_cong [OF rest(3), of "drop 1"] by (simp add: drop_update_cancel)
  moreover have "?v mod ?y = v mod ?y"
    by (simp add: mod_mult2_eq)
  ultimately show ?case
    using step(1) rest by simp
qed

lemma top_digit_fact:
  fixes X Y :: "'l::len word mpi"
  assumes room: "room_to_divide M TYPE('l) N" and Y: "mpi_s Y = 1" "mpi_n Y \<le> N" "0 < mpi_abs Y"
  shows "has_sign X \<Longrightarrow> mpi_val X = int v \<Longrightarrow> mpi_n X \<le> N \<Longrightarrow> v < 2 ^ (LENGTH('l) * N) \<Longrightarrow> k < length z \<Longrightarrow>
    unat (z ! k) + v div mpi_abs Y < 2 ^ LENGTH('l) \<Longrightarrow>
    \<exists>X'. top_digit M Y k z X = Some (Inr (z[k := of_nat (unat (z ! k) + v div mpi_abs Y)], X')) \<and> has_sign X' \<and>
      mpi_val X' = int (v mod mpi_abs Y) \<and> mpi_n X \<le> mpi_n X' \<and> mpi_n X' \<le> N"
proof (induction v arbitrary: X z rule: less_induct)
  case (less v)
  let ?y = "mpi_abs Y"
  have sign: "has_sign Y" "mpi_val Y = int ?y"
    using Y(1) by (simp_all add: has_sign_def mpi_val_def)
  have cmp: "0 \<le> mbedtls_mpi_cmp_mpi X Y \<longleftrightarrow> ?y \<le> v"
    using cmp_mpi_val [OF less.prems(1) sign(1)] less.prems(2) sign(2) by (simp add: sgn_if)
  show ?case
  proof (cases "?y \<le> v")
    case True
    have "int v < 2 ^ (LENGTH('l) * N)"
      using less.prems(4) by (metis of_nat_less_iff of_nat_numeral of_nat_power)
    then have "\<bar>mpi_val X - mpi_val Y\<bar> < 2 ^ (LENGTH('l) * N)"
      using True less.prems(2) sign(2) by linarith
    then obtain Z where Z: "mbedtls_mpi_sub_mpi M X Self (Other Y) = Inr Z" "mpi_val Z = int (v - ?y)" "has_sign Z"
        "mpi_n X \<le> mpi_n Z" "mpi_n Z \<le> N"
      using sub_inside [OF room less.prems(1) sign(1) less.prems(3) Y(2)] True less.prems(2) sign(2) by (auto simp: of_nat_diff)
    have q: "v div ?y = Suc ((v - ?y) div ?y)" "v mod ?y = (v - ?y) mod ?y"
      using True Y(3) by (simp_all add: le_div_geq le_mod_geq)
    have count: "unat (z ! k + 1) = unat (z ! k) + 1"
      using less.prems(6) q(1) by (intro trans [OF unat_add_less]) simp_all
    let ?z = "z[k := z ! k + 1]"
    obtain X' where "top_digit M Y k ?z Z = Some (Inr (?z[k := of_nat (unat (?z ! k) + (v - ?y) div ?y)], X'))" "has_sign X'"
        "mpi_val X' = int ((v - ?y) mod ?y)" "mpi_n Z \<le> mpi_n X'" "mpi_n X' \<le> N"
    proof -
      have "v - ?y < v" "v - ?y < 2 ^ (LENGTH('l) * N)" "k < length ?z" "unat (?z ! k) + (v - ?y) div ?y < 2 ^ LENGTH('l)"
        using True Y(3) less.prems(4-6) count q(1) by simp_all
      then show ?thesis
        using less.IH [OF _ Z(3,2,5)] that by blast
    qed
    moreover have "of_nat (unat (z ! k + 1) + (v - ?y) div ?y) = (of_nat (unat (z ! k) + v div ?y) :: 'l word)"
      unfolding count q(1) by simp
    ultimately show ?thesis
      using True cmp Z(1,4) q(2) less.prems(5) by (subst top_digit.simps) (simp add: Let_def del: of_nat_add of_nat_unat)
  next
    case False
    have "z[k := of_nat (unat (z ! k))] = z"
      by simp
    then show ?thesis
      using False cmp less.prems(1-3) by (subst top_digit.simps) simp
  qed
qed

section \<open>Normalisation\<close>

text \<open>No leading zero limb.\<close>

definition trimmed :: "'l::len word mpi \<Rightarrow> bool" where
  "trimmed X \<longleftrightarrow> 0 < mpi_n X \<and> 2 ^ (LENGTH('l) * (mpi_n X - 1)) \<le> mpi_abs X"

lemma copy_trimmed:
  fixes A X :: "'l::len word mpi"
  assumes "mbedtls_mpi_copy M mbedtls_mpi_init (Other A) = Inr X" and "mpi_abs A \<noteq> 0"
  shows "trimmed X"
proof -
  have abs: "mpi_abs X = mpi_abs A"
    using copy_fact(1) [OF assms(1)] .
  have n: "0 < mpi_n X"
    using abs assms(2) by (auto simp: mpi_abs_def)
  show ?thesis
  proof (rule ccontr)
    assume "\<not> trimmed X"
    then have less: "mpi_abs A < 2 ^ (LENGTH('l) * (mpi_n X - 1))"
      using n abs by (simp add: trimmed_def not_le)
    then have "0 < mpi_n X - 1"
      using assms(2) by (intro gr0I) simp
    then show False
      using copy_limbs [OF assms(1) less] n by simp
  qed
qed

lemma shift_trimmed:
  fixes X Y :: "'l::len word mpi"
  assumes "mbedtls_mpi_shift_l M X c = Inr Y" and "mbedtls_mpi_bitlen X + c < 2 ^ SIZE_BITS M" and "trimmed X"
  shows "trimmed Y"
proof -
  note y = shift_l_fact [OF assms(1,2)]
  have nz: "mpi_abs X \<noteq> 0"
    using assms(3) by (metis le_zero_eq power_not_zero trimmed_def zero_neq_numeral)
  have n: "0 < mpi_n Y" "0 < mpi_n X"
    using assms(3) y(3) by (simp_all add: trimmed_def less_max_iff_disj)
  show ?thesis
  proof (rule ccontr)
    let ?m = "mpi_n Y - 1"
    assume "\<not> trimmed Y"
    then have less: "mpi_abs X * 2 ^ c < 2 ^ (LENGTH('l) * ?m)"
      using n(1) y(1) by (simp add: trimmed_def not_le)
    have "(2 :: nat) ^ (mbedtls_mpi_bitlen X - 1 + c) \<le> mpi_abs X * 2 ^ c"
      unfolding power_add by (rule mult_le_mono1) (use bitlen_bounds(2) [OF nz] in simp)
    then have "(2 :: nat) ^ (mbedtls_mpi_bitlen X - 1 + c) < 2 ^ (LENGTH('l) * ?m)"
      using less by linarith
    then have "mbedtls_mpi_bitlen X - 1 + c < LENGTH('l) * ?m"
      by simp
    then have "mbedtls_mpi_bitlen X + c \<le> ?m * LENGTH('l)"
      using bitlen_bounds(2) [OF nz] by (simp add: mult.commute)
    then have limbs: "BITS_TO_LIMBS TYPE('l) (mbedtls_mpi_bitlen X + c) \<le> ?m"
      by (simp add: BITS_TO_LIMBS_le)
    have "mpi_abs X * 1 \<le> mpi_abs X * 2 ^ c"
      by (intro mult_le_mono2) simp
    then have "(2 :: nat) ^ (LENGTH('l) * (mpi_n X - 1)) \<le> mpi_abs X * 2 ^ c"
      using assms(3) unfolding trimmed_def by linarith
    then have "(2 :: nat) ^ (LENGTH('l) * (mpi_n X - 1)) < 2 ^ (LENGTH('l) * ?m)"
      using less by linarith
    then have "mpi_n X \<le> ?m"
      using n(2) by simp
    from max.boundedI [OF this limbs] have "mpi_n Y \<le> ?m"
      by (simp only: y(3) [symmetric])
    then show False
      using n(1) by linarith
  qed
qed

definition room_for_division :: "platform \<Rightarrow> 'l::len word mpi \<Rightarrow> 'l word mpi \<Rightarrow> bool" where
  "room_for_division M A B \<longleftrightarrow>
     plenty M (max (mpi_n A + 3) (mpi_n B)) \<and> (mpi_n A + 2) * LENGTH('l) < 2 ^ SIZE_BITS M"

text \<open>The shift by less than a limb.\<close>

lemma shift_small:
  fixes X :: "'l::len word mpi"
  assumes "plenty M (n + 1)" and "(n + 1) * LENGTH('l) < 2 ^ SIZE_BITS M" and "mpi_n X \<le> n" and "k < LENGTH('l)" and "trimmed X"
  shows "\<exists>Y. mbedtls_mpi_shift_l M X k = Inr Y \<and> mpi_abs Y = mpi_abs X * 2 ^ k \<and> mpi_s Y = mpi_s X \<and> trimmed Y \<and> mpi_n Y \<le> n + 1"
proof -
  have "mbedtls_mpi_bitlen X \<le> n * LENGTH('l)"
    using bitlen_bounds(3) [of X] assms(3) by (meson le_trans mult_le_mono1)
  then have len: "mbedtls_mpi_bitlen X + k \<le> (n + 1) * LENGTH('l)"
    using assms(4) by simp
  then have size: "mbedtls_mpi_bitlen X + k < 2 ^ SIZE_BITS M" and limbs: "BITS_TO_LIMBS TYPE('l) (mbedtls_mpi_bitlen X + k) \<le> n + 1"
    using assms(2) by (simp_all only: BITS_TO_LIMBS_le)
  obtain Y where Y: "mbedtls_mpi_shift_l M X k = Inr Y"
    using shift_l_succeeds [OF size plenty_mono [OF assms(1) limbs]] by blast
  show ?thesis
    using Y shift_l_fact [OF Y size] shift_trimmed [OF Y size assms(5)] limbs assms(3) by auto
qed

lemma trimmed_set_sign [simp]: "trimmed (X\<lparr>mpi_s := s\<rparr>) = trimmed X"
  by (simp add: trimmed_def)

lemma trimmed_le:
  fixes X Y :: "'l::len word mpi"
  assumes "trimmed Y" and "mpi_abs Y \<le> mpi_abs X"
  shows "mpi_n Y \<le> mpi_n X"
proof -
  have "(2 :: nat) ^ (LENGTH('l) * (mpi_n Y - 1)) \<le> mpi_abs X"
    using assms by (simp add: trimmed_def)
  also have "\<dots> < 2 ^ (LENGTH('l) * mpi_n X)"
    using limbs_val_less [of "mpi_p X"] by (simp add: mpi_abs_def)
  finally have "mpi_n Y - 1 < mpi_n X"
    by simp
  then show ?thesis
    by simp
qed

text \<open>After the shift the highest limb of the divisor has one leading zero bit.\<close>

lemma normal_top:
  fixes X Y :: "'l::len word mpi"
  assumes "2 \<le> LENGTH('l)" and "mpi_abs Y = mpi_abs X * 2 ^ c" and "mpi_abs X \<noteq> 0" and "(mbedtls_mpi_bitlen X + c) mod LENGTH('l) = LENGTH('l) - 1"
  shows "2 * mpi_abs Y < 2 ^ (LENGTH('l) * mpi_n Y)"
proof -
  let ?L = "LENGTH('l)" and ?b = "mbedtls_mpi_bitlen X"
  define q where "q = (?b + c) div ?L"
  have b: "Suc (?b + c) = ?L * (q + 1)"
    using assms(1,4) mult_div_mod_eq [of ?L "?b + c"] by (simp add: q_def)
  have "mpi_abs Y < 2 ^ (?b + c)"
    using bitlen_bounds(1) [of X] unfolding assms(2) power_add by simp
  then have less: "2 * mpi_abs Y < 2 ^ (?L * (q + 1))"
    unfolding b [symmetric] by simp
  have "?L * q \<le> ?b - 1 + c"
    using b assms(1) by (simp add: algebra_simps)
  then have "(2 :: nat) ^ (?L * q) \<le> 2 ^ (?b - 1) * 2 ^ c"
    unfolding power_add [symmetric] by (rule power_increasing) simp
  also have "\<dots> \<le> mpi_abs Y"
    unfolding assms(2) by (rule mult_le_mono1) (use bitlen_bounds(2) [OF assms(3)] in simp)
  also have "\<dots> < 2 ^ (?L * mpi_n Y)"
    using limbs_val_less [of "mpi_p Y"] by (simp add: mpi_abs_def)
  finally have "q + 1 \<le> mpi_n Y"
    by simp
  then have "(2 :: nat) ^ (?L * (q + 1)) \<le> 2 ^ (?L * mpi_n Y)"
    by (intro power_increasing mult_le_mono2) simp_all
  then show ?thesis
    using less by linarith
qed

lemma normalise_fact:
  fixes A B :: "'l::len word mpi"
  assumes room: "room_for_division M A B" and B: "mpi_abs B \<noteq> 0" and le: "mpi_abs B \<le> mpi_abs A"
  shows "\<exists>X Y T1 k. div_normalise M A B = Inr (X, Y, replicate (mpi_n A + 2) 0, T1, k) \<and>
    mpi_s X = 1 \<and> mpi_abs X = mpi_abs A * 2 ^ k \<and> trimmed X \<and> mpi_n X \<le> mpi_n A + 1 \<and>
    mpi_s Y = 1 \<and> mpi_abs Y = mpi_abs B * 2 ^ k \<and> trimmed Y \<and> mpi_n T1 = mpi_n A + 2 \<and>
    (2 \<le> LENGTH('l) \<longrightarrow> 2 * mpi_abs Y < 2 ^ (LENGTH('l) * mpi_n Y))"
proof -
  let ?n = "mpi_n A" and ?L = "LENGTH('l)"
  have plenty: "plenty M i" if "i \<le> ?n + 3 \<or> i \<le> mpi_n B" for i
    using room that by (auto simp: room_for_division_def elim: plenty_mono)
  have bits: "(?n + 1) * ?L < 2 ^ SIZE_BITS M"
    using room by (auto simp: room_for_division_def elim: order.strict_trans1 [rotated])
  obtain X where X: "mbedtls_mpi_copy M mbedtls_mpi_init (Other A) = Inr X"
    using copy_succeeds [OF plenty, of A mbedtls_mpi_init] by auto
  obtain Y where Y: "mbedtls_mpi_copy M mbedtls_mpi_init (Other B) = Inr Y"
    using copy_succeeds [OF plenty, of B mbedtls_mpi_init] by auto
  have A: "mpi_abs A \<noteq> 0"
    using B le by simp
  have x: "mpi_abs X = mpi_abs A" "mpi_n X \<le> ?n" "trimmed X"
    using copy_fact(1,4) [OF X] copy_trimmed [OF X A] by simp_all
  have y: "mpi_abs Y = mpi_abs B" "trimmed Y"
    using copy_fact(1) [OF Y] copy_trimmed [OF Y B] by simp_all
  have yn: "mpi_n Y \<le> ?n"
    using trimmed_le [OF y(2), of X] x y le by simp
  have g: "mbedtls_mpi_grow M mbedtls_mpi_init (?n + 2) = Inr \<lparr>mpi_s = 1, mpi_p = replicate (?n + 2) (0 :: 'l word)\<rparr>"
    using grow_eq [OF plenty, of "?n + 2" mbedtls_mpi_init] by (simp add: mbedtls_mpi_init_def)
  obtain Z where Z: "mbedtls_mpi_lset M \<lparr>mpi_s = 1, mpi_p = replicate (?n + 2) (0 :: 'l word)\<rparr> 0 = Inr Z"
    using lset_succeeds [OF plenty] by auto
  then have z: "mpi_p Z = replicate (?n + 2) 0"
    using lset_fact(6) [OF Z] by (simp add: sint_abs_def)
  let ?X = "X\<lparr>mpi_s := 1\<rparr>" and ?Y = "Y\<lparr>mpi_s := 1\<rparr>" and ?k = "mbedtls_mpi_bitlen (Y\<lparr>mpi_s := 1\<rparr>) mod ?L"
  have norm: "div_normalise M A B =
      (if ?k < ?L - 1 then
         and_then (mbedtls_mpi_shift_l M ?X (?L - 1 - ?k)) (\<lambda>X.
         and_then (mbedtls_mpi_shift_l M ?Y (?L - 1 - ?k)) (\<lambda>Y.
         Inr (X, Y, mpi_p Z, \<lparr>mpi_s = 1, mpi_p = replicate (?n + 2) 0\<rparr>, ?L - 1 - ?k)))
       else Inr (?X, ?Y, mpi_p Z, \<lparr>mpi_s = 1, mpi_p = replicate (?n + 2) 0\<rparr>, 0))"
    using X Y g Z by (simp add: div_normalise_def Let_def)
  show ?thesis
  proof (cases "?k < ?L - 1")
    case True
    let ?s = "?L - 1 - ?k"
    have s: "?s < ?L"
      using True by simp
    have room1: "plenty M (?n + 1)"
      by (rule plenty) simp
    obtain X' where X': "mbedtls_mpi_shift_l M ?X ?s = Inr X'" "mpi_abs X' = mpi_abs A * 2 ^ ?s" "mpi_s X' = 1" "trimmed X'"
        "mpi_n X' \<le> ?n + 1"
      using shift_small [OF room1 bits _ s, of ?X] x by auto
    obtain Y' where Y': "mbedtls_mpi_shift_l M ?Y ?s = Inr Y'" "mpi_abs Y' = mpi_abs B * 2 ^ ?s" "mpi_s Y' = 1" "trimmed Y'"
      using shift_small [OF room1 bits _ s, of ?Y] y yn by auto
    have "(mbedtls_mpi_bitlen ?Y + ?s) mod ?L = (?k + ?s) mod ?L"
      by (rule mod_add_left_eq [symmetric])
    also have "\<dots> = ?L - 1"
      using True by simp
    finally have "2 \<le> ?L \<longrightarrow> 2 * mpi_abs Y' < 2 ^ (?L * mpi_n Y')"
      using normal_top [of Y' ?Y ?s] Y'(2) y B by simp
    then show ?thesis
      using norm True X' Y' z by simp
  next
    case False
    then have "?k = ?L - 1"
      using mod_less_divisor [of ?L "mbedtls_mpi_bitlen ?Y"] len_gt_0 [where 'a = 'l] by linarith
    then have "2 \<le> ?L \<longrightarrow> 2 * mpi_abs ?Y < 2 ^ (?L * mpi_n ?Y)"
      using normal_top [of ?Y ?Y 0] y B by simp
    then show ?thesis
      using norm x y z False by simp
  qed
qed

section \<open>Division\<close>

text \<open>Everything up to the stores: the magnitudes of quotient and remainder.\<close>

lemma divide_core:
  fixes A B :: "'l::len word mpi"
  assumes K: "muladdc_exact K" and u: "have_udbl \<or> even LENGTH('l)" and room: "room_for_division M A B"
    and B: "mpi_abs B \<noteq> 0" and le: "mpi_abs B \<le> mpi_abs A"
  obtains X Y T1 k Y' z X' Y'' z' X'' where "div_normalise M A B = Inr (X, Y, replicate (mpi_n A + 2) 0, T1, k)"
    "mbedtls_mpi_shift_l M Y (LENGTH('l) * ((mpi_n X - 1) - (mpi_n Y - 1))) = Inr Y'"
    "top_digit M Y' ((mpi_n X - 1) - (mpi_n Y - 1)) (replicate (mpi_n A + 2) 0) X = Some (Inr (z, X'))"
    "mbedtls_mpi_shift_r M Y' (LENGTH('l) * ((mpi_n X - 1) - (mpi_n Y - 1))) = Inr Y''"
    "div_loop M K have_udbl (mpi_n Y - 1) Y'' ((mpi_n X - 1) - (mpi_n Y - 1)) z X' T1 = Inr (z', X'')"
    "limbs_val z' = mpi_abs A div mpi_abs B" "length z' = mpi_n A + 2"
    "has_sign X''" "mpi_val X'' = int (mpi_abs A mod mpi_abs B * 2 ^ k)" "mpi_n X'' \<le> mpi_n A + 2" "0 < mpi_n X''"
proof -
  let ?L = "LENGTH('l)"
  define N where "N = mpi_n A + 2"
  obtain X Y T1 k where norm: "div_normalise M A B = Inr (X, Y, replicate (mpi_n A + 2) 0, T1, k)"
    and X: "mpi_s X = 1" "mpi_abs X = mpi_abs A * 2 ^ k" "trimmed X" "mpi_n X \<le> mpi_n A + 1"
    and Y: "mpi_s Y = 1" "mpi_abs Y = mpi_abs B * 2 ^ k" "trimmed Y" "2 \<le> ?L \<longrightarrow> 2 * mpi_abs Y < 2 ^ (?L * mpi_n Y)" and T1: "mpi_n T1 = N"
    using normalise_fact [OF room B le] unfolding N_def by blast
  define n where "n = mpi_n X - 1"
  define t where "t = mpi_n Y - 1"
  define j where "j = n - t"
  define v where "v = mpi_abs X"
  define y where "y = mpi_abs Y"
  have nX: "mpi_n X = n + 1" and nY: "mpi_n Y = t + 1"
    using X(3) Y(3) by (simp_all add: n_def t_def trimmed_def)
  have "mpi_n Y \<le> mpi_n X"
    using trimmed_le [OF Y(3), of X] X(2) Y(2) le by simp
  then have t: "t \<le> n" "t + j = n"
    using nX nY by (simp_all add: j_def)
  have bounds: "2 ^ (?L * t) \<le> y" "y < 2 ^ (?L * (t + 1))" "v < 2 ^ (?L * (n + 1))"
    using Y(3) nY limbs_val_less [of "mpi_p Y"] limbs_val_less [of "mpi_p X"] nX
    by (simp_all only: trimmed_def y_def v_def mpi_abs_def) simp
  have pos: "0 < y"
    using bounds(1) by (metis less_le_trans zero_less_numeral zero_less_power)
  have nA: "n + 2 \<le> N" "3 \<le> N"
  proof -
    show "n + 2 \<le> N"
      using X(4) nX by (simp add: N_def)
    show "3 \<le> N"
      using B le by (cases "mpi_p A") (auto simp: mpi_abs_def N_def)
  qed
  have divide: "room_to_divide M TYPE('l) N"
    using room nA(2) by (auto simp: room_for_division_def room_to_divide_def N_def elim: plenty_mono)
  have yP: "y * 2 ^ (?L * j) < 2 ^ (?L * N)"
  proof -
    have "y * 2 ^ (?L * j) < 2 ^ (?L * (t + 1)) * 2 ^ (?L * j)"
      using bounds(2) by (rule mult_strict_right_mono) simp
    also have "\<dots> = 2 ^ (?L * (n + 1))"
      unfolding power_add [symmetric] distrib_left [symmetric] t(2) [symmetric] by (simp add: ac_simps)
    also have "\<dots> \<le> 2 ^ (?L * N)"
      using nA by (intro power_increasing mult_le_mono2) simp_all
    finally show ?thesis .
  qed
  obtain Y' where Y': "mbedtls_mpi_shift_l M Y (?L * j) = Inr Y'" "mpi_abs Y' = y * 2 ^ (?L * j)" "mpi_s Y' = 1" "t + 1 \<le> mpi_n Y'" "mpi_n Y' \<le> N"
    using shifted_multiple [OF divide, of Y j] yP Y(1) nY nA t unfolding y_def by auto
  let ?D = "y * 2 ^ (?L * j)"
  have D: "0 < ?D"
    using pos by simp
  have vN: "v < 2 ^ (?L * N)"
  proof -
    have "(2 :: nat) ^ (?L * (n + 1)) \<le> 2 ^ (?L * N)"
      using nA by (intro power_increasing mult_le_mono2) simp_all
    then show ?thesis
      using bounds(3) by linarith
  qed
  have "v < 2 ^ ?L * ?D"
  proof -
    have "(2 :: nat) ^ (?L * (n + 1)) = 2 ^ ?L * (2 ^ (?L * t) * 2 ^ (?L * j))"
      unfolding power_add [symmetric] distrib_left [symmetric] t(2) by (simp add: algebra_simps)
    also have "\<dots> \<le> 2 ^ ?L * ?D"
      using bounds(1) by (intro mult_le_mono2 mult_le_mono1)
    finally show ?thesis
      using bounds(3) by linarith
  qed
  then have top: "v div ?D < 2 ^ ?L"
    by (rule less_mult_imp_div_less)
  have Xv: "has_sign X" "mpi_val X = int v"
    using X(1) by (simp_all add: has_sign_def mpi_val_def v_def)
  define z where "z = (replicate N (0 :: 'l word))[j := of_nat (v div ?D)]"
  have j: "j < N"
    using nA by (simp add: j_def)
  obtain X' where X': "top_digit M Y' j (replicate N 0) X = Some (Inr (z, X'))" "has_sign X'" "mpi_val X' = int (v mod ?D)"
      "mpi_n X \<le> mpi_n X'" "mpi_n X' \<le> N"
    using top_digit_fact [OF divide Y'(3,5) _ Xv _ vN, of j "replicate N 0"] Y'(2) D nX nA top j by (auto simp: z_def)
  obtain Y'' where Y'': "mbedtls_mpi_shift_r M Y' (?L * j) = Inr Y''"
    using shift_r_succeeds [OF plenty_mono, of M "N + 1"] divide unfolding room_to_divide_def by auto
  have yy: "mpi_abs Y'' = y"
    using shift_r_fact(1) [OF Y''] Y'(2) by simp
  have "divisor_ready N t Y''"
    using yy shift_r_fact(2,4) [OF Y''] Y'(3,4,5) Y(4) nY bounds pos by (auto simp: divisor_ready_def y_def)
  moreover have "dividend_ready N (t + j) (v mod ?D) X' T1"
    using X' nX T1 t nA by (simp add: dividend_ready_def)
  moreover have "v mod ?D < mpi_abs Y'' * 2 ^ (?L * j)"
    using D yy by simp
  moreover have len: "length z = N"
    by (simp add: z_def)
  ultimately obtain z' X'' where loop: "div_loop M K have_udbl t Y'' j z X' T1 = Inr (z', X'')" "limbs_val (take j z') = v mod ?D div y"
      "drop j z' = drop j z" "length z' = N" "has_sign X''" "mpi_val X'' = int (v mod ?D mod y)" "mpi_n X'' \<le> N" "0 < mpi_n X''"
    using div_loop_fact [OF K u divide, of t Y'' j "v mod ?D" X' T1 z] yy j by auto
  have "drop j z = of_nat (v div ?D) # replicate (N - Suc j) 0"
    using j by (simp add: z_def drop_update_swap flip: Cons_nth_drop_Suc)
  then have "limbs_val (drop j z') = v div ?D"
    using top loop(3) by (simp add: unsigned_of_nat take_bit_nat_eq_self)
  then have "limbs_val z' = v mod ?D div y + 2 ^ (?L * j) * (v div ?D)"
    using limbs_val_take_drop [of j z'] loop(2,4) j by simp
  also have "\<dots> = (v mod ?D + 2 ^ (?L * j) * (v div ?D) * y) div y"
    using pos by simp
  also have "v mod ?D + 2 ^ (?L * j) * (v div ?D) * y = v"
    using div_mult_mod_eq [of v ?D] by (simp add: ac_simps)
  finally have quot: "limbs_val z' = mpi_abs A div mpi_abs B"
    by (simp add: v_def y_def X(2) Y(2))
  have "v mod ?D mod y = v mod y"
    by (simp add: mod_mult2_eq)
  also have "\<dots> = mpi_abs A mod mpi_abs B * 2 ^ k"
    by (simp add: v_def y_def X(2) Y(2) mod_mult_mult2)
  finally have "mpi_val X'' = int (mpi_abs A mod mpi_abs B * 2 ^ k)"
    using loop(6) by simp
  then show ?thesis
    using that [OF norm] Y'(1) X'(1) Y'' loop quot unfolding j_def n_def t_def N_def by blast
qed

text \<open>Division of the integers that truncates, by magnitudes.\<close>

lemma truncated_division:
  assumes "s = 1 \<or> s = - 1" and "r = 1 \<or> r = (- 1 :: int)"
  shows "(s * int a) sdiv (r * int b) = s * r * int (a div b)" "(s * int a) smod (r * int b) = s * int (a mod b)"
proof -
  have s: "sgn (s * int a) * sgn (r * int b) = s * r * (if a = 0 \<or> b = 0 then 0 else 1)" "\<bar>s * int a\<bar> = int a" "\<bar>r * int b\<bar> = int b"
    using assms by (auto simp: sgn_mult)
  show "(s * int a) sdiv (r * int b) = s * r * int (a div b)"
    unfolding signed_divide_int_def s by (cases "a = 0 \<or> b = 0") (auto simp: of_nat_div)
  show "(s * int a) smod (r * int b) = s * int (a mod b)"
    unfolding signed_modulo_int_def s using assms by (cases "a = 0") (auto simp: sgn_mult of_nat_mod)
qed

text \<open>
  The quotient may be one of the operands only when this one is positive, and the dividend only when the
  remainder is not asked for.
\<close>

definition safe_quotient :: "'l::len store \<Rightarrow> nat option \<Rightarrow> nat option \<Rightarrow> 'l word source \<Rightarrow> 'l word source \<Rightarrow> bool" where
  "safe_quotient st Q R A B \<longleftrightarrow> (\<forall>q. Q = Some q \<longrightarrow> R \<noteq> Some q \<and>
     (A = At q \<longrightarrow> mpi_s (st q) = 1 \<and> R = None) \<and> (B = At q \<longrightarrow> mpi_s (st q) = 1))"

lemma store_quotient_fact:
  fixes st :: "'l::len store"
  assumes "plenty M (length z)" and "z \<noteq> []" and "safe_quotient st Q R A B" and "limbs_val z < 2 ^ (LENGTH('l) * m)" and "0 < m"
  shows "\<exists>st'. store_quotient M st Q A B z = Inr st' \<and> (\<forall>a. Q \<noteq> Some a \<longrightarrow> st' a = st a) \<and>
    (\<forall>q. Q = Some q \<longrightarrow> mpi_val (st' q) = mpi_s (fetch st A) * mpi_s (fetch st B) * int (limbs_val z) \<and>
      mpi_s (st' q) = mpi_s (fetch st A) * mpi_s (fetch st B) \<and> mpi_n (st' q) \<le> max (mpi_n (st q)) m)"
proof (cases Q)
  case (Some q)
  obtain X where X: "mbedtls_mpi_copy M (st q) (Other \<lparr>mpi_s = 1, mpi_p = z\<rparr>) = Inr X"
    using copy_succeeds [of M "\<lparr>mpi_s = 1, mpi_p = z\<rparr>" "st q"] assms(1) by auto
  have x: "mpi_abs X = limbs_val z" "mpi_s X = 1" "mpi_n X \<le> max (mpi_n (st q)) m"
    using copy_fact(1,6) [OF X] copy_limbs [OF X _ assms(5)] assms(2,4) by (simp_all add: mpi_abs_def)
  have same: "mpi_s (fetch (st(q := X)) C) = mpi_s (fetch st C)" if "C = A \<or> C = B" for C
    using assms(3) Some x(2) that by (cases C) (auto simp: safe_quotient_def)
  show ?thesis
    using X x same Some by (simp add: store_quotient_def Let_def)
qed (simp add: store_quotient_def)

lemma store_remainder_fact:
  fixes st :: "'l::len store"
  assumes "plenty M (mpi_n X + 1)" and "has_sign X" and "mpi_val X = int (w * 2 ^ k)" and "has_sign (fetch st A)"
    and "0 < mpi_n X"
  shows "\<exists>X'. store_remainder M st (Some r) A X k = Inr (st(r := X')) \<and>
    mpi_val X' = mpi_s (fetch st A) * int w \<and> has_sign X' \<and> mpi_n (st r) \<le> mpi_n X' \<and>
    mpi_n X' \<le> max (mpi_n (st r)) (mpi_n X) \<and>
    (\<forall>m. w < 2 ^ (LENGTH('l) * m) \<longrightarrow> 0 < m \<longrightarrow> mpi_n X' \<le> max (mpi_n (st r)) m)"
proof -
  obtain Z where Z: "mbedtls_mpi_shift_r M X k = Inr Z"
    using shift_r_succeeds [of M X k] plenty_mono [OF assms(1), of 1] by auto
  let ?Z = "Z\<lparr>mpi_s := mpi_s (fetch st A)\<rparr>"
  have nZ: "mpi_n Z = mpi_n X"
    using shift_r_fact(4) [OF Z] assms(5) by auto
  obtain W where W: "mbedtls_mpi_copy M (st r) (Other ?Z) = Inr W"
    using copy_succeeds [of M ?Z "st r"] plenty_mono [OF assms(1)] nZ by auto
  have "mpi_abs X = w * 2 ^ k"
    by (rule val_nonneg [OF assms(2,3)])
  then have "mpi_abs Z = w"
    using shift_r_fact(1) [OF Z] by simp
  then have val: "mpi_val W = mpi_s (fetch st A) * int w" "mpi_n (st r) \<le> mpi_n W" "mpi_n W \<le> max (mpi_n (st r)) (mpi_n X)"
    using copy_fact(2,3,4) [OF W] nZ by simp_all
  have "mpi_abs ?Z = w"
    using \<open>mpi_abs Z = w\<close> by (simp add: mpi_abs_def)
  then have limbs: "\<forall>m. w < 2 ^ (LENGTH('l) * m) \<longrightarrow> 0 < m \<longrightarrow> mpi_n W \<le> max (mpi_n (st r)) m"
    using copy_limbs [OF W] by blast
  have sign: "has_sign W"
    using copy_fact(6) [OF W] nZ assms(4,5) by (simp add: has_sign_def)
  have zero: "mbedtls_mpi_cmp_int W 0 = 0 \<longleftrightarrow> mpi_val W = 0"
    using cmp_int_val [OF sign, of 0] by (simp add: sgn_0_0)
  show ?thesis
    using Z W val sign zero assms(4) limbs
    by (auto simp: store_remainder_def Let_def has_sign_def mpi_val_def)
qed

lemma store_small_fact:
  fixes st :: "'l::len store"
  assumes "plenty M (mpi_n (fetch st A) + 1)" and "safe_quotient st Q R A B"
    and "has_sign (fetch st A)" and "\<And>r. R = Some r \<Longrightarrow> has_sign (st r) \<or> mpi_n (st r) \<noteq> 0"
  shows "\<exists>st'. store_small M st Q R A = Inr st' \<and> (\<forall>a. Q \<noteq> Some a \<and> R \<noteq> Some a \<longrightarrow> st' a = st a) \<and>
    (\<forall>q. Q = Some q \<longrightarrow> mpi_val (st' q) = 0 \<and> mpi_s (st' q) = 1 \<and> mpi_n (st' q) = max 1 (mpi_n (st q))) \<and>
    (\<forall>r. R = Some r \<longrightarrow> mpi_val (st' r) = mpi_val (fetch st A) \<and> has_sign (st' r) \<and>
      mpi_n (st r) \<le> mpi_n (st' r) \<and> mpi_n (st' r) \<le> max (mpi_n (st r)) (mpi_n (fetch st A)) \<and>
      (\<forall>m. mpi_abs (fetch st A) < 2 ^ (LENGTH('l) * m) \<longrightarrow> 0 < m \<longrightarrow> mpi_n (st' r) \<le> max (mpi_n (st r)) m))"
proof -
  obtain s1 where s1: "(case Q of None \<Rightarrow> Inr st | Some q \<Rightarrow> and_then (mbedtls_mpi_lset M (st q) 0) (\<lambda>X. Inr (st(q := X)))) = Inr s1"
    and same: "R \<noteq> None \<Longrightarrow> fetch s1 A = fetch st A" "\<And>a. Q \<noteq> Some a \<Longrightarrow> s1 a = st a"
    and zero: "\<And>q. Q = Some q \<Longrightarrow> mpi_val (s1 q) = 0 \<and> mpi_s (s1 q) = 1 \<and> mpi_n (s1 q) = max 1 (mpi_n (st q))"
  proof (cases Q)
    case (Some q)
    obtain X where X: "mbedtls_mpi_lset M (st q) 0 = Inr X"
      using lset_succeeds [of M "st q" 0] plenty_mono [OF assms(1), of 1] by auto
    have "fetch (st(q := X)) A = fetch st A" if "R \<noteq> None"
      using assms(2) Some that by (cases A) (auto simp: safe_quotient_def)
    then show ?thesis
      using that [of "st(q := X)"] Some X lset_zero [OF X] by simp
  qed (use that in simp)
  show ?thesis
  proof (cases R)
    case (Some r)
    have r: "s1 r = st r"
      using same(2) assms(2) Some by (auto simp: safe_quotient_def)
    let ?op = "if A = At r then Self else Other (fetch st A)"
    have d: "deref (st r) ?op = fetch st A"
      by auto
    obtain X where X: "mbedtls_mpi_copy M (st r) ?op = Inr X"
      using copy_deref_succeeds [of M "st r" ?op] plenty_mono [OF assms(1), of "mpi_n (fetch st A)"] d by auto
    have "has_sign X"
    proof (cases "A = At r")
      case True
      then show ?thesis
        using X assms(3) by simp
    next
      case False
      then show ?thesis
        using X copy_fact(6) [of M "st r" "fetch st A" X] assms(3) assms(4) [OF Some]
        by (cases "mpi_n (fetch st A) = 0") (auto simp: mbedtls_mpi_copy_def has_sign_def split: if_splits)
    qed
    moreover have "mpi_n X \<le> max (mpi_n (st r)) m" if "mpi_abs (fetch st A) < 2 ^ (LENGTH('l) * m)" "0 < m" for m
      using X copy_limbs [of M "st r" "fetch st A" X m] that by (cases "A = At r") auto
    moreover have "store_small M st Q R A = Inr (s1(r := X))"
      using s1 X Some r same(1) by (cases "A = At r") (simp_all add: store_small_def fun_upd_idem)
    moreover have "mpi_val X = mpi_val (fetch st A)" "mpi_n (st r) \<le> mpi_n X" "mpi_n X \<le> max (mpi_n (st r)) (mpi_n (fetch st A))"
      using copy_deref(2-4) [OF X] d by simp_all
    ultimately show ?thesis
      using same(2) zero Some assms(2) by (auto simp: safe_quotient_def)
  next
    case None
    then show ?thesis
      using s1 same zero by (auto simp: store_small_def)
  qed
qed

lemma div_by_zero:
  assumes "has_sign (fetch st B)" and "mpi_abs (fetch st B) = 0"
  shows "mbedtls_mpi_div_mpi M K have_udbl st Q R A B = Some (Inl MBEDTLS_ERR_MPI_DIVISION_BY_ZERO)"
  using cmp_int_val [OF assms(1), of 0] assms(2) by (simp add: mbedtls_mpi_div_mpi_def mpi_val_def)

text \<open>A dividend that is not smaller: the digits and the remainder that are stored.\<close>

lemma divide_large:
  fixes st :: "'l::len store"
  assumes K: "muladdc_exact K" and u: "have_udbl \<or> even LENGTH('l)" and room: "room_for_division M (fetch st A) (fetch st B)"
    and B: "has_sign (fetch st B)" "mpi_abs (fetch st B) \<noteq> 0" and le: "mpi_abs (fetch st B) \<le> mpi_abs (fetch st A)"
  obtains z X k where "mbedtls_mpi_div_mpi M K have_udbl st Q R A B =
      Some (and_then (store_quotient M st Q A B z) (\<lambda>st. store_remainder M st R A X k))"
    "limbs_val z = mpi_abs (fetch st A) div mpi_abs (fetch st B)" "length z = mpi_n (fetch st A) + 2"
    "has_sign X" "mpi_val X = int (mpi_abs (fetch st A) mod mpi_abs (fetch st B) * 2 ^ k)"
    "mpi_n X \<le> mpi_n (fetch st A) + 2" "0 < mpi_n X"
proof -
  let ?A = "fetch st A" and ?B = "fetch st B"
  have nz: "mbedtls_mpi_cmp_int ?B 0 \<noteq> 0"
    using cmp_int_val [OF B(1), of 0] B by (auto simp: mpi_val_def has_sign_def)
  have large: "\<not> mbedtls_mpi_cmp_abs ?A ?B < 0"
    using le by (simp add: cmp_abs_val sgn_if)
  obtain X Y T1 k Y' z X' Y'' z' X'' where "div_normalise M ?A ?B = Inr (X, Y, replicate (mpi_n ?A + 2) 0, T1, k)"
      "mbedtls_mpi_shift_l M Y (LENGTH('l) * ((mpi_n X - 1) - (mpi_n Y - 1))) = Inr Y'"
      "top_digit M Y' ((mpi_n X - 1) - (mpi_n Y - 1)) (replicate (mpi_n ?A + 2) 0) X = Some (Inr (z, X'))"
      "mbedtls_mpi_shift_r M Y' (LENGTH('l) * ((mpi_n X - 1) - (mpi_n Y - 1))) = Inr Y''"
      "div_loop M K have_udbl (mpi_n Y - 1) Y'' ((mpi_n X - 1) - (mpi_n Y - 1)) z X' T1 = Inr (z', X'')"
    and z': "limbs_val z' = mpi_abs ?A div mpi_abs ?B" "length z' = mpi_n ?A + 2"
      "has_sign X''" "mpi_val X'' = int (mpi_abs ?A mod mpi_abs ?B * 2 ^ k)" "mpi_n X'' \<le> mpi_n ?A + 2" "0 < mpi_n X''"
    by (rule divide_core [OF K u room B(2) le])
  then have "mbedtls_mpi_div_mpi M K have_udbl st Q R A B =
      Some (and_then (store_quotient M st Q A B z') (\<lambda>st. store_remainder M st R A X'' k))"
    using nz large by (simp add: mbedtls_mpi_div_mpi_def Let_def)
  from this z' show ?thesis
    by (rule that)
qed

lemma div_mpi_fact:
  fixes st :: "'l::len store"
  assumes K: "muladdc_exact K" and u: "have_udbl \<or> even LENGTH('l)" and room: "room_for_division M (fetch st A) (fetch st B)"
    and sign: "has_sign (fetch st A)" "has_sign (fetch st B)" and B: "mpi_abs (fetch st B) \<noteq> 0"
    and Q: "safe_quotient st Q R A B" and R: "\<And>r. R = Some r \<Longrightarrow> has_sign (st r) \<or> mpi_n (st r) \<noteq> 0"
  shows "\<exists>st'. mbedtls_mpi_div_mpi M K have_udbl st Q R A B = Some (Inr st') \<and>
    (\<forall>a. Q \<noteq> Some a \<and> R \<noteq> Some a \<longrightarrow> st' a = st a) \<and>
    (\<forall>q. Q = Some q \<longrightarrow> mpi_val (st' q) = mpi_val (fetch st A) sdiv mpi_val (fetch st B) \<and> has_sign (st' q) \<and>
      mpi_n (st' q) \<le> max (mpi_n (st q)) (max 1 (mpi_n (fetch st A)))) \<and>
    (\<forall>r. R = Some r \<longrightarrow> mpi_val (st' r) = mpi_val (fetch st A) smod mpi_val (fetch st B) \<and> has_sign (st' r) \<and>
      mpi_n (st r) \<le> mpi_n (st' r) \<and> mpi_n (st' r) \<le> max (mpi_n (st r)) (mpi_n (fetch st A) + 2) \<and>
      mpi_n (st' r) \<le> max (mpi_n (st r)) (mpi_n (fetch st B)))"
proof -
  let ?A = "fetch st A" and ?B = "fetch st B"
  have plenty: "plenty M (mpi_n ?A + 3)"
    using room by (auto simp: room_for_division_def elim: plenty_mono)
  have div: "mpi_val ?A sdiv mpi_val ?B = mpi_s ?A * mpi_s ?B * int (mpi_abs ?A div mpi_abs ?B)"
    "mpi_val ?A smod mpi_val ?B = mpi_s ?A * int (mpi_abs ?A mod mpi_abs ?B)"
    using truncated_division [of "mpi_s ?A" "mpi_s ?B"] sign by (simp_all add: mpi_val_def has_sign_def)
  have nz: "mbedtls_mpi_cmp_int ?B 0 \<noteq> 0"
    using cmp_int_val [OF sign(2), of 0] B sign(2) by (auto simp: mpi_val_def has_sign_def)
  have small: "mbedtls_mpi_cmp_abs ?A ?B < 0 \<longleftrightarrow> mpi_abs ?A < mpi_abs ?B"
    by (simp add: cmp_abs_val sgn_if)
  have lenB: "mpi_abs ?B < 2 ^ (LENGTH('l) * mpi_n ?B)" "0 < mpi_n ?B"
    using limbs_val_less [of "mpi_p ?B"] B by (auto simp: mpi_abs_def)
  show ?thesis
  proof (cases "mpi_abs ?A < mpi_abs ?B")
    case True
    have lenA: "mpi_abs ?A < 2 ^ (LENGTH('l) * mpi_n ?B)"
      using True lenB(1) by (rule less_trans)
    obtain st' where st': "store_small M st Q R A = Inr st'" "\<forall>a. Q \<noteq> Some a \<and> R \<noteq> Some a \<longrightarrow> st' a = st a"
        "\<forall>q. Q = Some q \<longrightarrow> mpi_val (st' q) = 0 \<and> mpi_s (st' q) = 1 \<and> mpi_n (st' q) = max 1 (mpi_n (st q))"
        "\<forall>r. R = Some r \<longrightarrow> mpi_val (st' r) = mpi_val ?A \<and> has_sign (st' r) \<and> mpi_n (st r) \<le> mpi_n (st' r) \<and>
          mpi_n (st' r) \<le> max (mpi_n (st r)) (mpi_n ?A) \<and>
          (\<forall>m. mpi_abs ?A < 2 ^ (LENGTH('l) * m) \<longrightarrow> 0 < m \<longrightarrow> mpi_n (st' r) \<le> max (mpi_n (st r)) m)"
      using store_small_fact [OF plenty_mono [OF plenty] Q sign(1) R] by auto
    have limbs: "\<forall>r. R = Some r \<longrightarrow> mpi_n (st' r) \<le> max (mpi_n (st r)) (mpi_n ?B)"
      using st'(4) lenA lenB(2) by blast
    have "mbedtls_mpi_div_mpi M K have_udbl st Q R A B = Some (Inr st')"
      using nz small True st'(1) by (simp add: mbedtls_mpi_div_mpi_def)
    then show ?thesis
      using st'(2-4) limbs div True by (auto simp: mpi_val_def has_sign_def)
  next
    case False
    then have le: "mpi_abs ?B \<le> mpi_abs ?A"
      by simp
    obtain z' X'' k where run: "mbedtls_mpi_div_mpi M K have_udbl st Q R A B =
        Some (and_then (store_quotient M st Q A B z') (\<lambda>st. store_remainder M st R A X'' k))"
      and z': "limbs_val z' = mpi_abs ?A div mpi_abs ?B" "length z' = mpi_n ?A + 2"
      and X'': "has_sign X''" "mpi_val X'' = int (mpi_abs ?A mod mpi_abs ?B * 2 ^ k)" "mpi_n X'' \<le> mpi_n ?A + 2" "0 < mpi_n X''"
      by (rule divide_large [OF K u room sign(2) B le])
    have "mpi_abs ?A < 2 ^ (LENGTH('l) * max 1 (mpi_n ?A))"
      using limbs_val_less_mono [of "mpi_p ?A" "max 1 (mpi_n ?A)"] by (simp add: mpi_abs_def)
    with div_le_dividend have small_z: "limbs_val z' < 2 ^ (LENGTH('l) * max 1 (mpi_n ?A))"
      unfolding z'(1) by (rule le_less_trans)
    have zlen: "plenty M (length z')" "z' \<noteq> []" "0 < max 1 (mpi_n ?A)"
      using plenty_mono [OF plenty, of "length z'"] z'(2) by auto
    obtain s1 where s1: "store_quotient M st Q A B z' = Inr s1" "\<forall>a. Q \<noteq> Some a \<longrightarrow> s1 a = st a"
        "\<forall>q. Q = Some q \<longrightarrow> mpi_val (s1 q) = mpi_s ?A * mpi_s ?B * int (limbs_val z') \<and> mpi_s (s1 q) = mpi_s ?A * mpi_s ?B \<and>
          mpi_n (s1 q) \<le> max (mpi_n (st q)) (max 1 (mpi_n ?A))"
      using store_quotient_fact [OF zlen(1,2) Q small_z zlen(3)] by blast
    have quot: "\<forall>q. Q = Some q \<longrightarrow> mpi_val (s1 q) = mpi_val ?A sdiv mpi_val ?B \<and> has_sign (s1 q) \<and>
        mpi_n (s1 q) \<le> max (mpi_n (st q)) (max 1 (mpi_n ?A))"
      using s1(3) sign z' div(1) by (auto simp: has_sign_def)
    have run: "mbedtls_mpi_div_mpi M K have_udbl st Q R A B = Some (store_remainder M s1 R A X'' k)"
      using run s1(1) by simp
    show ?thesis
    proof (cases R)
      case None
      then show ?thesis
        using run s1(2) quot by (simp add: store_remainder_def)
    next
      case (Some r)
      have same: "fetch s1 A = ?A" "s1 r = st r" "Q \<noteq> Some r"
        using s1(2) Q Some by (cases A; auto simp: safe_quotient_def)+
      have "plenty M (mpi_n X'' + 1)"
        using plenty_mono [OF plenty] X''(3) by simp
      then obtain Z where "store_remainder M s1 (Some r) A X'' k = Inr (s1(r := Z))"
          "mpi_val Z = mpi_s ?A * int (mpi_abs ?A mod mpi_abs ?B)" "has_sign Z" "mpi_n (st r) \<le> mpi_n Z"
          "mpi_n Z \<le> max (mpi_n (st r)) (mpi_n X'')"
          "\<forall>m. mpi_abs ?A mod mpi_abs ?B < 2 ^ (LENGTH('l) * m) \<longrightarrow> 0 < m \<longrightarrow> mpi_n Z \<le> max (mpi_n (st r)) m"
        using store_remainder_fact [of M X'' _ k s1 A r] X'' same sign(1) by auto
      moreover have "mpi_abs ?A mod mpi_abs ?B < 2 ^ (LENGTH('l) * mpi_n ?B)"
        using mod_less_divisor [of "mpi_abs ?B" "mpi_abs ?A"] B lenB(1) by linarith
      ultimately show ?thesis
        using run Some s1(2) quot same(3) div(2) X''(3) lenB(2) by auto
    qed
  qed
qed

section \<open>Remainder\<close>

lemma source_of_fetch [simp]: "fetch (\<lambda>_. R) (source_of A) = deref R A"
  by (cases A) (simp_all add: source_of_def)

lemma smod_mod:
  fixes a b :: int
  assumes "0 < b"
  shows "a mod b = (if a smod b < 0 then a smod b + b else a smod b)" "\<bar>a smod b\<bar> < b"
proof -
  show less: "\<bar>a smod b\<bar> < b"
    using assms by (auto simp: signed_modulo_int_def abs_mult sgn_if)
  have "a mod b = (a sdiv b * b + a smod b) mod b"
    by (simp only: sdiv_mult_smod_eq)
  also have "\<dots> = a smod b mod b"
    by simp
  also have "\<dots> = (if a smod b < 0 then a smod b + b else a smod b)"
  proof (cases "a smod b < 0")
    case True
    have "(a smod b + b) mod b = a smod b + b"
      using True less by (intro mod_pos_pos_trivial) linarith+
    then show ?thesis
      using True by simp
  next
    case False
    then show ?thesis
      using less by simp
  qed
  finally show "a mod b = (if a smod b < 0 then a smod b + b else a smod b)" .
qed

definition room_for_remainder :: "platform \<Rightarrow> 'l::len word mpi \<Rightarrow> 'l word mpi \<Rightarrow> 'l word mpi \<Rightarrow> bool" where
  "room_for_remainder M R A B \<longleftrightarrow> room_for_division M A B \<and> plenty M (max (mpi_n R) (max (mpi_n A + 2) (mpi_n B)) + 1)"

lemma smod_nonneg: "0 \<le> a \<Longrightarrow> 0 < b \<Longrightarrow> 0 \<le> a smod b" for a b :: int
  by (cases "a = 0") (simp_all add: signed_modulo_int_def)

lemma mod_mpi_fact:
  fixes R :: "'l::len word mpi"
  assumes K: "muladdc_exact K" and u: "have_udbl \<or> even LENGTH('l)" and room: "room_for_remainder M R (deref R A) B"
    and sign: "has_sign (deref R A)" "has_sign B" "has_sign R \<or> mpi_n R \<noteq> 0" and B: "0 < mpi_val B"
  shows "\<exists>Y. mbedtls_mpi_mod_mpi M K have_udbl R A (Other B) = Some (Inr Y) \<and>
    mpi_val Y = mpi_val (deref R A) mod mpi_val B \<and> has_sign Y \<and> mpi_n R \<le> mpi_n Y \<and>
    mpi_n Y \<le> max (mpi_n R) (max (mpi_n (deref R A) + 2) (mpi_n B)) + 1 \<and>
    (0 \<le> mpi_val (deref R A) \<longrightarrow> mpi_n Y \<le> max (mpi_n R) (mpi_n B))"
proof -
  let ?A = "deref R A" and ?m = "max (mpi_n R) (max (mpi_n (deref R A) + 2) (mpi_n B))"
  have nz: "mpi_abs B \<noteq> 0"
    using B by (intro notI) (simp add: mpi_val_def)
  have "\<not> mbedtls_mpi_cmp_int B 0 < 0"
    using cmp_int_val [OF sign(2), of 0] B by simp
  moreover obtain st where st: "mbedtls_mpi_div_mpi M K have_udbl (\<lambda>_. R) None (Some 0) (source_of A) (Val B) = Some (Inr st)"
      "mpi_val (st 0) = mpi_val ?A smod mpi_val B" "has_sign (st 0)" "mpi_n (st 0) \<le> max (mpi_n R) (mpi_n ?A + 2)"
      "mpi_n R \<le> mpi_n (st 0)" "mpi_n (st 0) \<le> max (mpi_n R) (mpi_n B)"
    using div_mpi_fact [OF K u, of M "\<lambda>_. R" "source_of A" "Val B" None "Some 0"] room sign nz
    by (auto simp: room_for_remainder_def safe_quotient_def)
  ultimately have run: "mbedtls_mpi_mod_mpi M K have_udbl R A (Other B) =
      run_then (add_up M (Other B) (st 0)) (\<lambda>R. take_down M (Other B) R)"
    by (simp add: mbedtls_mpi_mod_mpi_def source_of_def [of "Other B"])
  note smod = smod_mod [OF B, of "mpi_val ?A"]
  have down: "take_down M (Other B) Y = Some (Inr Y)" if "has_sign Y" "mpi_val Y < mpi_val B" for Y
    using cmp_mpi_val [OF that(1) sign(2)] that(2) by (subst take_down.simps) simp
  have up: "add_up M (Other B) Y = Some (Inr Y)" if "has_sign Y" "0 \<le> mpi_val Y" for Y
    using cmp_int_val [OF that(1), of 0] that(2) by (subst add_up.simps) simp
  show ?thesis
  proof (cases "mpi_val (st 0) < 0")
    case False
    then have "add_up M (Other B) (st 0) = Some (Inr (st 0))" "take_down M (Other B) (st 0) = Some (Inr (st 0))"
      using up [OF st(3)] down [OF st(3)] smod(2) st(2) by simp_all
    then show ?thesis
      using run st False smod(1) by auto
  next
    case True
    have "plenty M (max (mpi_n (st 0)) (max (mpi_n (st 0)) (mpi_n B)) + 1)"
      using room st(4) unfolding room_for_remainder_def by (auto elim!: plenty_mono)
    then obtain Y where Y: "mbedtls_mpi_add_mpi M (st 0) Self (Other B) = Inr Y"
      using add_mpi_succeeds [of M "st 0" Self "Other B"] by auto
    have y: "mpi_val Y = mpi_val (st 0) + mpi_val B" "has_sign Y" "mpi_n R \<le> mpi_n Y" "mpi_n Y \<le> ?m + 1"
      using add_mpi_fact [OF Y] st(3-5) sign(2) by auto
    have "mbedtls_mpi_cmp_int (st 0) 0 < 0"
      using cmp_int_val [OF st(3), of 0] True by simp
    then have "add_up M (Other B) (st 0) = add_up M (Other B) Y"
      using Y by (subst add_up.simps) simp
    then have "add_up M (Other B) (st 0) = Some (Inr Y)" "take_down M (Other B) Y = Some (Inr Y)"
      using up [OF y(2)] down [OF y(2)] y(1) smod(2) st(2) True by auto
    moreover have "\<not> 0 \<le> mpi_val ?A"
      using True st(2) smod_nonneg [OF _ B, of "mpi_val ?A"] by linarith
    ultimately show ?thesis
      using run y st(2) True smod(1) by auto
  qed
qed

lemma sub_self_fact:
  fixes R :: "'l::len word mpi"
  assumes "has_sign R" and "plenty M (mpi_n R)"
  shows "\<exists>Z. mbedtls_mpi_sub_mpi M R Self Self = Inr Z \<and> has_sign Z \<and> mpi_n Z = mpi_n R"
proof -
  have "0 < mpi_s R * mpi_s R"
    using assms(1) by (auto simp: has_sign_def)
  moreover obtain D where D: "mbedtls_mpi_sub_abs M R Self Self = Inr D"
    using sub_abs_succeeds [of M R Self Self] assms(2) by auto
  ultimately show ?thesis
    using sub_abs_fact(3) [OF D] assms(1)
    by (simp add: mbedtls_mpi_sub_mpi_def cmp_abs_val has_sign_def)
qed

lemma take_down_self:
  assumes "has_sign R" and "plenty M (mpi_n R)"
  shows "take_down M Self R = None"
proof -
  have "B = Self \<and> has_sign R \<and> plenty M (mpi_n R) \<longrightarrow> False" if "take_down M B R = Some y" for M B and R :: "'a word mpi" and y
  proof (rule take_down.raw_induct [OF _ that])
    fix td M B and R :: "'a word mpi" and y
    assume IH: "\<And>M B R y. td M B R = Some y \<Longrightarrow> B = Self \<and> has_sign R \<and> plenty M (mpi_n R) \<longrightarrow> False"
      and body: "(if 0 \<le> mbedtls_mpi_cmp_mpi R (deref R B) then
          case mbedtls_mpi_sub_mpi M R Self B of Inl e \<Rightarrow> Some (Inl e) | Inr R \<Rightarrow> td M B R
        else Some (Inr R)) = Some y"
    show "B = Self \<and> has_sign R \<and> plenty M (mpi_n R) \<longrightarrow> False"
    proof clarify
      assume R: "B = Self" "has_sign R" "plenty M (mpi_n R)"
      obtain Z where Z: "mbedtls_mpi_sub_mpi M R Self Self = Inr Z" "has_sign Z" "mpi_n Z = mpi_n R"
        using sub_self_fact [OF R(2,3)] by blast
      have "0 \<le> mbedtls_mpi_cmp_mpi R R"
        using cmp_mpi_val [OF R(2,2)] by simp
      then have "td M Self Z = Some y"
        using body R(1) Z(1) by simp
      then show False
        using IH [of M Self Z y] Z(2,3) R(3) by simp
    qed
  qed
  then show ?thesis
    using assms by (cases "take_down M Self R") auto
qed

text \<open>When the result is the modulus, the last loop compares the result with itself and never ends.\<close>

lemma mod_mpi_hangs:
  fixes R :: "'l::len word mpi"
  assumes K: "muladdc_exact K" and u: "have_udbl \<or> even LENGTH('l)" and room: "room_for_remainder M R (deref R A) R"
    and sign: "has_sign (deref R A)" "has_sign R" and B: "0 < mpi_val R" and A: "0 \<le> mpi_val (deref R A)"
  shows "mbedtls_mpi_mod_mpi M K have_udbl R A Self = None"
proof -
  have nz: "mpi_abs R \<noteq> 0"
    using B by (intro notI) (simp add: mpi_val_def)
  have "\<not> mbedtls_mpi_cmp_int R 0 < 0"
    using cmp_int_val [OF sign(2), of 0] B by simp
  moreover obtain st where st: "mbedtls_mpi_div_mpi M K have_udbl (\<lambda>_. R) None (Some 0) (source_of A) (At 0) = Some (Inr st)"
      "mpi_val (st 0) = mpi_val (deref R A) smod mpi_val R" "has_sign (st 0)" "mpi_n (st 0) \<le> max (mpi_n R) (mpi_n (deref R A) + 2)"
    using div_mpi_fact [OF K u, of M "\<lambda>_. R" "source_of A" "At 0" None "Some 0"] room sign nz
    by (auto simp: room_for_remainder_def safe_quotient_def)
  ultimately have run: "mbedtls_mpi_mod_mpi M K have_udbl R A Self = run_then (add_up M Self (st 0)) (\<lambda>R. take_down M Self R)"
    by (simp add: mbedtls_mpi_mod_mpi_def source_of_def [of Self])
  have "0 \<le> mpi_val (st 0)"
    using smod_mod [OF B, of "mpi_val (deref R A)"] A st(2) by (auto simp: signed_modulo_int_def sgn_if)
  then have "add_up M Self (st 0) = Some (Inr (st 0))"
    using cmp_int_val [OF st(3), of 0] by (subst add_up.simps) simp
  moreover have "plenty M (mpi_n (st 0))"
    using room st(4) unfolding room_for_remainder_def by (auto elim!: plenty_mono)
  ultimately show ?thesis
    using run take_down_self [OF st(3)] by simp
qed

text \<open>
  When the quotient is the dividend, its sign is lost: the sign of \<open>A\<close> is read after \<open>Q\<close> has been written.
\<close>

lemma div_alias_sign:
  fixes st :: "'l::len store"
  assumes K: "muladdc_exact K" and u: "have_udbl \<or> even LENGTH('l)" and room: "room_for_division M (st q) B"
    and sign: "has_sign B" and B: "mpi_abs B \<noteq> 0" and le: "mpi_abs B \<le> mpi_abs (st q)"
  shows "\<exists>st'. mbedtls_mpi_div_mpi M K have_udbl st (Some q) None (At q) (Val B) = Some (Inr st') \<and>
    mpi_val (st' q) = mpi_s B * int (mpi_abs (st q) div mpi_abs B)"
proof -
  obtain z X k where run: "mbedtls_mpi_div_mpi M K have_udbl st (Some q) None (At q) (Val B) =
      Some (and_then (store_quotient M st (Some q) (At q) (Val B) z) (\<lambda>st. store_remainder M st None (At q) X k))"
    and z: "limbs_val z = mpi_abs (st q) div mpi_abs B" "length z = mpi_n (st q) + 2"
  proof (rule divide_large [OF K u, of M st "At q" "Val B" "Some q" None])
  qed (use room sign B le that in simp_all)
  have "plenty M (length z)"
    using room z(2) by (auto simp: room_for_division_def elim: plenty_mono)
  then obtain Y where Y: "mbedtls_mpi_copy M (st q) (Other \<lparr>mpi_s = 1, mpi_p = z\<rparr>) = Inr Y"
    using copy_succeeds [of M "\<lparr>mpi_s = 1, mpi_p = z\<rparr>" "st q"] by auto
  have "mpi_s Y = 1" "mpi_abs Y = limbs_val z"
    using copy_fact(1,6) [OF Y] z(2) by (auto simp: mpi_abs_def)
  then show ?thesis
    using run Y z(1) by (simp add: store_quotient_def store_remainder_def)
qed

section \<open>Properties\<close>

text \<open>
  C38: Long division is exact: for every divisor that is not 0 the function returns, the quotient is that
  of the integers truncated towards 0 and the remainder has the sign of the dividend, in both builds,
  whatever the leading zero limbs, also when the remainder is one of the operands; no other object
  changes.  A divisor that is 0 is reported.
\<close>

theorem div_mpi_correct:
  fixes st :: "'l::len store"
  assumes "muladdc_exact K" and "have_udbl \<or> even LENGTH('l)" and "room_for_division M (fetch st A) (fetch st B)"
    and "mpi_ok M (fetch st A)" and "mpi_ok M (fetch st B)" and "mpi_ok M (st r)" and "q \<noteq> r" and "A \<noteq> At q" and "B \<noteq> At q"
  shows "if mpi_val (fetch st B) = 0
    then mbedtls_mpi_div_mpi M K have_udbl st (Some q) (Some r) A B = Some (Inl MBEDTLS_ERR_MPI_DIVISION_BY_ZERO)
    else \<exists>st'. mbedtls_mpi_div_mpi M K have_udbl st (Some q) (Some r) A B = Some (Inr st') \<and>
      mpi_val (st' q) = mpi_val (fetch st A) sdiv mpi_val (fetch st B) \<and>
      mpi_val (st' r) = mpi_val (fetch st A) smod mpi_val (fetch st B) \<and> (\<forall>a. a \<noteq> q \<and> a \<noteq> r \<longrightarrow> st' a = st a)"
proof -
  have sign: "has_sign (fetch st A)" "has_sign (fetch st B)" "has_sign (st r)"
    using assms(4-6) by (simp_all add: mpi_ok_def has_sign_def)
  have zero: "mpi_val (fetch st B) = 0 \<longleftrightarrow> mpi_abs (fetch st B) = 0"
    using sign(2) by (auto simp: mpi_val_def has_sign_def)
  have "safe_quotient st (Some q) (Some r) A B"
    using assms(7-9) by (simp add: safe_quotient_def)
  note fact = div_mpi_fact [OF assms(1-3) sign(1,2) _ this]
  show ?thesis
    using fact sign(3) zero div_by_zero [OF sign(2)] by auto
qed

lemma demo_division: "mpi_n A \<le> 100 \<Longrightarrow> mpi_n B \<le> 100 \<Longrightarrow> room_for_division demo_platform (A :: 64 word mpi) B"
  by (simp add: room_for_division_def demo_platform_def plenty_def)

theorem div_mpi_correct_witness:
  "\<exists>st'. mbedtls_mpi_div_mpi demo_platform wide_muladdc False (\<lambda>_. mbedtls_mpi_init :: 64 word mpi) (Some 0) (Some 1)
      (Val \<lparr>mpi_s = - 1, mpi_p = [7, 0, 3]\<rparr>) (Val \<lparr>mpi_s = 1, mpi_p = [2, 0]\<rparr>) = Some (Inr st') \<and>
    mpi_val (st' 0) = - ((7 + 3 * 2 ^ 128) div 2) \<and> mpi_val (st' 1) = - 1"
proof -
  let ?A = "\<lparr>mpi_s = - 1, mpi_p = [7 :: 64 word, 0, 3]\<rparr>" and ?B = "\<lparr>mpi_s = 1, mpi_p = [2 :: 64 word, 0]\<rparr>"
  have "mpi_val ?A = - (7 + 3 * 2 ^ 128)" "mpi_val ?B = 2" "mpi_ok demo_platform ?A" "mpi_ok demo_platform ?B"
    by (simp_all add: mpi_val_def mpi_abs_def mpi_ok_def demo_platform_def)
  note ok = this
  have "\<exists>st'. mbedtls_mpi_div_mpi demo_platform wide_muladdc False (\<lambda>_. mbedtls_mpi_init) (Some 0) (Some 1) (Val ?A) (Val ?B) = Some (Inr st') \<and>
      mpi_val (st' 0) = mpi_val ?A sdiv mpi_val ?B \<and> mpi_val (st' 1) = mpi_val ?A smod mpi_val ?B"
    using div_mpi_correct [OF wide_muladdc_exact, of False demo_platform "\<lambda>_. mbedtls_mpi_init" "Val ?A" "Val ?B" 1 0]
      ok(2-4) demo_division [of ?A ?B] by (simp split: if_splits) blast
  then show ?thesis
    unfolding ok(1,2) by simp
qed

text \<open>
  C39: \<open>mbedtls_mpi_mod_mpi\<close> is the remainder of the integers: for a positive modulus it returns the
  representative between 0 and the modulus, also of a negative number and also when the result is the
  dividend; a modulus that is negative or 0 is reported with its error.
\<close>

theorem mod_mpi_correct:
  fixes R :: "'l::len word mpi"
  assumes "muladdc_exact K" and "have_udbl \<or> even LENGTH('l)" and "room_for_remainder M R (deref R A) B"
    and "mpi_ok M (deref R A)" and "mpi_ok M B" and "mpi_ok M R"
  shows "if mpi_val B < 0 then mbedtls_mpi_mod_mpi M K have_udbl R A (Other B) = Some (Inl MBEDTLS_ERR_MPI_NEGATIVE_VALUE)
    else if mpi_val B = 0 then mbedtls_mpi_mod_mpi M K have_udbl R A (Other B) = Some (Inl MBEDTLS_ERR_MPI_DIVISION_BY_ZERO)
    else \<exists>Y. mbedtls_mpi_mod_mpi M K have_udbl R A (Other B) = Some (Inr Y) \<and>
      mpi_val Y = mpi_val (deref R A) mod mpi_val B"
proof -
  have sign: "has_sign (deref R A)" "has_sign B" "has_sign R"
    using assms(4-6) by (simp_all add: mpi_ok_def has_sign_def)
  have zero: "mpi_val B = 0 \<longleftrightarrow> mpi_abs B = 0"
    using sign(2) by (auto simp: mpi_val_def has_sign_def)
  show ?thesis
    using mod_mpi_fact [OF assms(1-3) sign(1,2)] sign(3) zero cmp_int_val [OF sign(2), of 0]
      div_by_zero [of "\<lambda>_. R" "Val B" M K have_udbl None "Some 0" "source_of A"] sign(2)
    by (auto simp: mbedtls_mpi_mod_mpi_def source_of_def [of "Other B"])
qed

theorem mod_mpi_correct_witness:
  "\<exists>Y. mbedtls_mpi_mod_mpi demo_platform wide_muladdc True \<lparr>mpi_s = - 1, mpi_p = [7 :: 64 word, 0, 0]\<rparr> Self
      (Other \<lparr>mpi_s = 1, mpi_p = [5]\<rparr>) = Some (Inr Y) \<and> mpi_val Y = 3"
proof -
  let ?A = "\<lparr>mpi_s = - 1, mpi_p = [7 :: 64 word, 0, 0]\<rparr>" and ?B = "\<lparr>mpi_s = 1, mpi_p = [5 :: 64 word]\<rparr>"
  have "mpi_val ?A = - 7" "mpi_val ?B = 5" "mpi_ok demo_platform ?A" "mpi_ok demo_platform ?B"
    by (simp_all add: mpi_val_def mpi_abs_def mpi_ok_def demo_platform_def)
  moreover have "room_for_remainder demo_platform ?A ?A ?B"
    using demo_division by (simp add: room_for_remainder_def demo_plenty)
  ultimately show ?thesis
    using mod_mpi_correct [OF wide_muladdc_exact, of True demo_platform ?A Self ?B] by fastforce
qed

end
