(* ===== verification/Bignum_Montgomery.thy ===== *)
theory Bignum_Montgomery
  imports Bignum_Div
begin

text \<open>
  Montgomery multiplication of \<open>bignum.c\<close>: the negated inverse of the lowest limb of the modulus by a Newton
  iteration (\<open>mpi_montg_init\<close>), the multiplication with interleaved reduction (\<open>mpi_montmul\<close>) and the
  reduction (\<open>mpi_montred\<close>).  For an odd modulus with \<open>n\<close> limbs the product is divided by \<open>R = 2 ^ (L * n)\<close>
  modulo the modulus, and the conditional subtraction at the end makes it smaller than the modulus.  The functions of
  \<open>constant_time.c\<close> are parameters.
\<close>

section \<open>The code\<close>

text \<open>
  The functions of \<open>constant_time.c\<close>, which is not part of the repository.  A condition is 0 or 1.
\<close>

record 'limb ct_functions =
  uint_cond_assign :: "nat \<Rightarrow> 'limb list \<Rightarrow> 'limb list \<Rightarrow> u8 \<Rightarrow> 'limb list"
  safe_cond_assign :: "platform \<Rightarrow> 'limb mpi \<Rightarrow> 'limb mpi \<Rightarrow> u8 \<Rightarrow> mpi_error + 'limb mpi"
  size_bool_eq :: "nat \<Rightarrow> nat \<Rightarrow> u32"

text \<open>The Newton iteration for the inverse of an odd limb; \<open>i\<close> is halved.\<close>

function newton_loop :: "'l::len word \<Rightarrow> 'l word \<Rightarrow> nat \<Rightarrow> 'l word" where
  "newton_loop m0 x i = (if 8 \<le> i then newton_loop m0 (x * (2 - m0 * x)) (i div 2) else x)"
  by pat_completeness auto
termination
  by (relation "measure (\<lambda>(m0, x, i). i)") auto

declare newton_loop.simps [simp del]

definition mpi_montg_init :: "'l::len word mpi \<Rightarrow> 'l word" where
  "mpi_montg_init N =
     (let m0 = mpi_p N ! 0;
          x = m0;
          x = x + push_bit 1 ((m0 + 2) AND 4);
          x = newton_loop m0 x (biL TYPE('l)) in
      NOT x + 1)"

text \<open>
  The loop of \<open>mpi_montmul\<close> over the limbs \<open>u0\<close> of \<open>A\<close>; \<open>d\<close> is the part of \<open>T\<close> from the pointer on.
\<close>

fun mont_loop ::
  "'l::len muladdc \<Rightarrow> nat \<Rightarrow> 'l word list \<Rightarrow> nat \<Rightarrow> 'l word list \<Rightarrow> 'l word \<Rightarrow> 'l word list \<Rightarrow> 'l word list \<Rightarrow> mpi_error + 'l word list" where
  "mont_loop K m b n nn mm [] d = Inr d"
| "mont_loop K m b n nn mm (u0 # us) d =
     (let u1 = (d ! 0 + u0 * b ! 0) * mm in
      and_then (mpi_mul_hlp K m b d u0) (\<lambda>d.
      and_then (mpi_mul_hlp K n nn d u1) (\<lambda>d.
      let d = d[0 := u0];
          d = tl d;
          d = d[n + 1 := 0] in
      mont_loop K m b n nn mm us d)))"

definition mpi_montmul ::
  "'l::len muladdc \<Rightarrow> 'l word ct_functions \<Rightarrow> 'l word mpi \<Rightarrow> 'l word mpi \<Rightarrow> 'l word mpi \<Rightarrow> 'l word \<Rightarrow> 'l word mpi \<Rightarrow>
   mpi_error + 'l word mpi" where
  "mpi_montmul K C A B N mm T =
     (let d = replicate (mpi_n T) 0;
          n = mpi_n N;
          m = (if mpi_n B < n then mpi_n B else n) in
      if mpi_n A < n \<or> mpi_n B = 0 \<or> mpi_n T < 2 * (n + 1) then Inl Array_Overrun
      else
        and_then (mont_loop K m (mpi_p B) n (mpi_p N) mm (take n (mpi_p A)) d) (\<lambda>d.
        let a = take n d @ drop n (mpi_p A);
            dn = d ! n + 1;
            (low, c) = mpi_sub_hlp 0 (take n d) (mpi_p N);
            dn = dn - c;
            d = low @ dn # drop (n + 1) d in
        Inr (A\<lparr>mpi_p := uint_cond_assign C n a d (ucast dn)\<rparr>)))"

definition mpi_montred ::
  "'l::len muladdc \<Rightarrow> 'l word ct_functions \<Rightarrow> 'l word mpi \<Rightarrow> 'l word mpi \<Rightarrow> 'l word \<Rightarrow> 'l word mpi \<Rightarrow> mpi_error + 'l word mpi" where
  "mpi_montred K C A N mm T = mpi_montmul K C A \<lparr>mpi_s = 1, mpi_p = [1]\<rparr> N mm T"

section \<open>The inverse of a limb\<close>

lemma newton_step:
  fixes m x :: "'a::comm_ring_1"
  assumes "m * x = 1 + 2 ^ b * y"
  shows "m * (x * (2 - m * x)) = 1 + 2 ^ (2 * b) * (- (y * y))"
proof -
  have "m * (x * (2 - m * x)) = (m * x) * (2 - m * x)"
    by (simp add: mult.assoc)
  also have "\<dots> = 1 - (2 ^ b * y) * (2 ^ b * y)"
    unfolding assms by (simp add: algebra_simps)
  also have "\<dots> = 1 + 2 ^ (2 * b) * (- (y * y))"
    unfolding mult_2 power_add by (simp add: ac_simps)
  finally show ?thesis .
qed

text \<open>With \<open>b\<close> correct bits and \<open>i = 4 * L / b\<close>, the loop reaches all of them.\<close>

lemma newton_loop_val:
  fixes m0 x :: "'l::len word"
  assumes "m0 * x = 1 + 2 ^ b * y" and "LENGTH('l) = b * 2 ^ k" and "i = 4 * 2 ^ k"
  shows "m0 * newton_loop m0 x i = 1"
  using assms
proof (induction k arbitrary: b x y i)
  case 0
  have "(2 :: 'l word) ^ LENGTH('l) = 0"
    by simp
  then have "(2 :: 'l word) ^ b = 0"
    using 0(2) by simp
  then have "m0 * x = 1"
    by (metis 0(1) add.right_neutral mult_zero_left)
  then show ?case
    using 0(3) by (simp add: newton_loop.simps)
next
  case (Suc k)
  have "m0 * (x * (2 - m0 * x)) = 1 + 2 ^ (2 * b) * (- (y * y))"
    by (rule newton_step [OF Suc.prems(1)])
  then have "m0 * newton_loop m0 (x * (2 - m0 * x)) (i div 2) = 1"
    by (rule Suc.IH) (use Suc.prems(2,3) in simp_all)
  then show ?case
    using Suc.prems(3) by (subst newton_loop.simps) simp
qed

lemma and_4: "a AND 4 = 4 * (a div 4 mod 2)" for a :: nat
proof -
  have "a AND 4 = push_bit 2 (drop_bit 2 a AND 1)"
  proof (rule bit_eqI)
    fix i
    have "bit (4 :: nat) i \<longleftrightarrow> i = 2"
      using bit_exp_iff [of 2 i, where 'a = nat] by auto
    then show "bit (a AND 4) i \<longleftrightarrow> bit (push_bit 2 (drop_bit 2 a AND 1)) i"
      by (auto simp: bit_push_bit_iff bit_and_iff bit_drop_bit_eq bit_1_iff bit_iff_odd_drop_bit [of a 2])
  qed
  then show ?thesis
    by (simp add: push_bit_eq_mult drop_bit_eq_div and_one_eq)
qed

lemma four_bits:
  fixes n :: nat
  assumes "odd n"
  shows "n * (n + 2 * ((n + 2) AND 4)) mod 16 = 1"
proof -
  have c: "(n + 2) AND 4 = (n mod 16 + 2) AND 4"
  proof -
    have "n + 2 = (n mod 16 + 2) + 4 * (2 * (2 * (n div 16)))"
      by simp
    then have "(n + 2) div 4 = (n mod 16 + 2) div 4 + 2 * (2 * (n div 16))"
      by (simp only: div_mult_self2 numeral_neq_zero)
    then have "(n + 2) div 4 mod 2 = (n mod 16 + 2) div 4 mod 2"
      by (simp only: mod_mult_self2)
    then show ?thesis
      by (simp only: and_4)
  qed
  have "u \<in> {1, 3, 5, 7, 9, 11, 13, 15}" if "u < 16" "odd u" for u :: nat
    unfolding insert_iff empty_iff using that by presburger
  moreover have "n mod 16 < 16" "odd (n mod 16)"
    using assms by (simp_all add: dvd_mod_iff)
  ultimately have "n mod 16 \<in> {1, 3, 5, 7, 9, 11, 13, 15}"
    by blast
  moreover have "\<forall>u\<in>{1, 3, 5, 7, 9, 11, 13, 15}. u * (u + 2 * ((u + 2) AND 4)) mod 16 = (1 :: nat)"
    by (simp add: and_4)
  ultimately have "(n mod 16) * (n mod 16 + 2 * ((n mod 16 + 2) AND 4)) mod 16 = 1"
    by (rule bspec [rotated])
  then show ?thesis
    unfolding c by (rule trans [rotated]) (intro mod_mult_cong mod_add_cong; simp)
qed

lemma montg_init_val:
  fixes N :: "'l::len word mpi"
  assumes "LENGTH('l) = 4 * 2 ^ k" and "odd (unat (mpi_p N ! 0))"
  shows "mpi_montg_init N * mpi_p N ! 0 = - 1"
proof -
  let ?m = "mpi_p N ! 0" and ?n = "unat (mpi_p N ! 0)"
  have m: "?m = of_nat ?n"
    by simp
  have "(?m + 2) AND 4 = of_nat ((?n + 2) AND 4)"
    by (subst m) (simp only: of_nat_and_eq of_nat_add of_nat_numeral)
  then have x: "?m + push_bit 1 ((?m + 2) AND 4) = of_nat (?n + 2 * ((?n + 2) AND 4))"
    by (simp add: push_bit_eq_mult)
  let ?P = "?n * (?n + 2 * ((?n + 2) AND 4))"
  obtain y where y: "?P = 1 + 2 ^ 4 * y"
    using four_bits [OF assms(2)] div_mult_mod_eq [of ?P 16] that [of "?P div 16"] by simp
  have "?m * (?m + push_bit 1 ((?m + 2) AND 4)) = of_nat ?P"
    unfolding x by (subst m) (rule of_nat_mult [symmetric])
  also have "\<dots> = of_nat (1 + 2 ^ 4 * y)"
    by (rule arg_cong [OF y])
  also have "\<dots> = 1 + 2 ^ 4 * of_nat y"
    by simp
  finally have "?m * (?m + push_bit 1 ((?m + 2) AND 4)) = 1 + 2 ^ 4 * of_nat y" .
  then have "?m * newton_loop ?m (?m + push_bit 1 ((?m + 2) AND 4)) LENGTH('l) = 1"
    by (rule newton_loop_val) (use assms(1) in simp_all)
  moreover have "mpi_montg_init N = - newton_loop ?m (?m + push_bit 1 ((?m + 2) AND 4)) LENGTH('l)"
    by (simp add: mpi_montg_init_def Let_def minus_eq_not_plus_1)
  ultimately show ?thesis
    by (simp add: mult.commute)
qed

section \<open>The product in Montgomery form\<close>

lemma unat_low_limb: "d \<noteq> [] \<Longrightarrow> of_nat (limbs_val d) = d ! 0" for d :: "'l::len word list"
proof (cases d)
  case (Cons x xs)
  have "(of_nat (2 ^ LENGTH('l)) :: 'l word) = 0"
    by simp
  then show ?thesis
    by (simp add: Cons)
qed simp

lemma limbs_val_tl: "limbs_val (tl d) = limbs_val d div 2 ^ LENGTH('l)" for d :: "'l::len word list"
  using limbs_val_drop [of 1 d] by (simp add: drop_Suc)

text \<open>The multiple \<open>u1\<close> of the modulus makes the lowest limb 0.\<close>

lemma lowest_limb_zero:
  fixes d b nn :: "'l::len word list"
  assumes "mm * nn ! 0 = - 1" and "d \<noteq> []" and "b \<noteq> []" and "nn \<noteq> []"
  shows "2 ^ LENGTH('l) dvd limbs_val d + limbs_val b * unat u0 + limbs_val nn * unat ((d ! 0 + u0 * b ! 0) * mm)"
proof -
  let ?u1 = "(d ! 0 + u0 * b ! 0) * mm"
  have "(of_nat (limbs_val d + limbs_val b * unat u0 + limbs_val nn * unat ?u1) :: 'l word) = d ! 0 + b ! 0 * u0 + nn ! 0 * ?u1"
    unfolding of_nat_add of_nat_mult using assms(2-4) by (simp add: unat_low_limb)
  also have "\<dots> = (d ! 0 + u0 * b ! 0) * (1 + mm * nn ! 0)"
    by (simp add: algebra_simps)
  also have "\<dots> = 0"
    using assms(1) by simp
  finally show ?thesis
    by (rule iffD1 [OF word_of_nat_eq_0_iff])
qed

lemma two_le_base: "2 \<le> (2 :: nat) ^ LENGTH('l::len)"
  using power_increasing [OF Suc_leI [OF len_gt_0 [where 'a = 'l]], of "2 :: nat"] by simp

lemma mont_loop_val:
  fixes d b nn :: "'l::len word list"
  assumes K: "muladdc_exact K" and mm: "mm * nn ! 0 = - 1" and n: "length nn = n" "0 < n"
    and m: "0 < m" "m \<le> n" "m \<le> length b"
  defines "Bv \<equiv> limbs_val (take m b)" and "Nv \<equiv> limbs_val nn"
  shows "limbs_val d < Bv + Nv \<Longrightarrow> n + 2 + length us \<le> length d \<Longrightarrow>
    \<exists>d' q. mont_loop K m b n nn mm us d = Inr d' \<and>
      2 ^ (LENGTH('l) * length us) * limbs_val d' = limbs_val d + limbs_val us * Bv + q * Nv \<and>
      limbs_val d' < Bv + Nv \<and> length d' + length us = length d"
proof (induction us arbitrary: d)
  case Nil
  then show ?case
    by (intro exI [of _ d] exI [of _ 0]) simp
next
  case (Cons u0 us)
  let ?\<beta> = "2 ^ LENGTH('l) :: nat" and ?u1 = "(d ! 0 + u0 * b ! 0) * mm"
  let ?S = "limbs_val d + Bv * unat u0 + Nv * unat ?u1"
  have len: "n + 3 \<le> length d" "m \<le> length d" "n \<le> length d"
    using Cons.prems(2) m(2) by simp_all
  have small: "Bv < ?\<beta> ^ n" "Nv < ?\<beta> ^ n"
    using limbs_val_less_mono [of "take m b" n] limbs_val_less_mono [of nn n] m(2) n(1)
    by (simp_all add: Bv_def Nv_def power_mult)
  have S: "?S < ?\<beta> * (Bv + Nv)"
  proof -
    have "Bv * unat u0 \<le> Bv * (?\<beta> - 1)" "Nv * unat ?u1 \<le> Nv * (?\<beta> - 1)"
      using limb_less [of u0] limb_less [of ?u1] by (intro mult_le_mono2; linarith)+
    then have "?S < (Bv + Nv) + (Bv * (?\<beta> - 1) + Nv * (?\<beta> - 1))"
      using Cons.prems(1) by linarith
    also have "\<dots> = ?\<beta> * (Bv + Nv)"
      by (cases ?\<beta>) (simp_all add: algebra_simps)
    finally show ?thesis .
  qed
  have fits: "?S < 2 ^ (LENGTH('l) * length d)"
  proof -
    have "?\<beta> * (Bv + Nv) \<le> ?\<beta> * (?\<beta> * ?\<beta> ^ n)"
    proof (rule mult_le_mono2)
      have "2 * ?\<beta> ^ n \<le> ?\<beta> * ?\<beta> ^ n"
        using two_le_base by (rule mult_le_mono1)
      then show "Bv + Nv \<le> ?\<beta> * ?\<beta> ^ n"
        using small by linarith
    qed
    also have "\<dots> = 2 ^ (LENGTH('l) * (n + 2))"
      by (simp add: power_add power_mult [symmetric] algebra_simps flip: power_add)
    also have "\<dots> \<le> 2 ^ (LENGTH('l) * length d)"
      using len(1) by (intro power_increasing mult_le_mono2) simp_all
    finally show ?thesis
      using S by linarith
  qed
  obtain e where e: "mpi_mul_hlp K m b d u0 = Inr e" "limbs_val e = limbs_val d + Bv * unat u0" "length e = length d"
  proof -
    have "limbs_val d + Bv * unat u0 < 2 ^ (LENGTH('l) * length d)"
      using fits by linarith
    then show ?thesis
      using mul_hlp_val [OF K m(3) len(2), of u0] that by (auto simp: Bv_def)
  qed
  obtain f where f: "mpi_mul_hlp K n nn e ?u1 = Inr f" "limbs_val f = ?S" "length f = length d"
    using mul_hlp_val [OF K, of n nn e ?u1] n(1) len(3) e(2,3) fits by (auto simp: Nv_def)
  have "?\<beta> dvd ?S"
  proof -
    have "d \<noteq> []" "take m b \<noteq> []" "nn \<noteq> []" "take m b ! 0 = b ! 0"
      using len m n by auto
    then show ?thesis
      using lowest_limb_zero [OF mm, of d "take m b" u0] by (simp add: Bv_def Nv_def)
  qed
  then have exact: "?\<beta> * (?S div ?\<beta>) = ?S"
    by simp
  have less: "?S div ?\<beta> < Bv + Nv"
    using S by (simp add: div_less_iff_less_mult mult.commute)
  define g where "g = tl f"
  have g: "limbs_val g = ?S div ?\<beta>" "length g + 1 = length d"
    using f(2,3) len(1) by (simp_all add: g_def limbs_val_tl)
  have upd: "tl (f[0 := u0]) = g"
    using len(1) f(3) by (cases f) (simp_all add: g_def)
  have "limbs_val g < 2 ^ (LENGTH('l) * (n + 1))"
  proof -
    have "2 * ?\<beta> ^ n \<le> ?\<beta> * ?\<beta> ^ n"
      using two_le_base by (rule mult_le_mono1)
    then have "limbs_val g < ?\<beta> * ?\<beta> ^ n"
      using g(1) less small by linarith
    then show ?thesis
      by (simp add: power_mult [symmetric] power_add)
  qed
  then have "unat (g ! (n + 1)) = 0"
    using g(2) len(1) by (simp add: limbs_val_nth)
  then have clear: "g[n + 1 := 0] = g"
    by (metis list_update_id unat_eq_0)
  have run: "mont_loop K m b n nn mm (u0 # us) d = mont_loop K m b n nn mm us g"
    using e(1) f(1) clear by (simp add: Let_def upd)
  obtain d' q where d': "mont_loop K m b n nn mm us g = Inr d'"
      "2 ^ (LENGTH('l) * length us) * limbs_val d' = limbs_val g + limbs_val us * Bv + q * Nv"
      "limbs_val d' < Bv + Nv" "length d' + length us = length g"
    using Cons.IH [of g] g less Cons.prems(2) by auto
  have "2 ^ (LENGTH('l) * length (u0 # us)) * limbs_val d' = ?\<beta> * (limbs_val g + limbs_val us * Bv + q * Nv)"
    unfolding d'(2) [symmetric] by (simp add: power_add algebra_simps)
  also have "\<dots> = ?S + ?\<beta> * (limbs_val us * Bv + q * Nv)"
    using exact g(1) by (simp add: distrib_left)
  also have "\<dots> = limbs_val d + limbs_val (u0 # us) * Bv + (unat ?u1 + ?\<beta> * q) * Nv"
    by (simp add: algebra_simps)
  finally show ?case
    using run d'(1,3,4) g(2) by (intro exI [of _ d'] exI [of _ "unat ?u1 + ?\<beta> * q"]) simp
qed

text \<open>What is documented of the conditional assignment of limbs.\<close>

definition ct_assigns :: "'l::len word ct_functions \<Rightarrow> bool" where
  "ct_assigns C \<longleftrightarrow> (\<forall>n d s c. n \<le> length d \<and> n \<le> length s \<and> (c = 0 \<or> c = 1) \<longrightarrow>
     uint_cond_assign C n d s c = (if c = 1 then take n s @ drop n d else d))"

text \<open>The last subtraction: the carry limb becomes 1 exactly when the modulus had to be subtracted.\<close>

lemma final_subtraction:
  fixes d nn :: "'l::len word list"
  defines "n \<equiv> length nn" and "t \<equiv> limbs_val d" and "Nv \<equiv> limbs_val nn"
  assumes "n < length d" and t: "t < 2 * Nv" and sub: "mpi_sub_hlp 0 (take n d) nn = (low, c)"
  shows "if t < Nv then d ! n + 1 - c = 0 \<and> limbs_val (take n d) = t
    else d ! n + 1 - c = 1 \<and> limbs_val low = t - Nv" "length low = n"
proof -
  let ?P = "2 ^ (LENGTH('l) * n) :: nat"
  have "limbs_val low + limbs_val nn + unat (0 :: 'l word) = limbs_val (take n d) + 2 ^ (LENGTH('l) * length nn) * unat c \<and>
      unat c \<le> 1 \<and> length low = length nn"
    using sub by (intro sub_hlp_val) (use assms(4) in \<open>simp_all add: n_def\<close>)
  then have low: "limbs_val low + Nv = limbs_val (take n d) + ?P * unat c" "unat c \<le> 1"
    and len: "length low = n"
    by (simp_all add: Nv_def n_def)
  show "length low = n"
    by (rule len)
  have bounds: "limbs_val low < ?P" "Nv < ?P" "limbs_val (take n d) < ?P"
    using limbs_val_less_mono [of low n] limbs_val_less_mono [of nn n] limbs_val_less_mono [of "take n d" n] len
    by (simp_all add: Nv_def n_def)
  have low_t: "limbs_val (take n d) = t mod ?P"
    by (simp add: limbs_val_take t_def)
  have top: "unat (d ! n) = t div ?P mod 2 ^ LENGTH('l)"
    using limbs_val_nth [OF assms(4)] by (simp add: t_def)
  have "t < 2 * ?P"
    using t bounds(2) by linarith
  then have h: "t div ?P < 2"
    by (rule less_mult_imp_div_less)
  then have top: "unat (d ! n) = t div ?P"
    using top two_le_base [where 'l = 'l] by simp
  have split: "t = ?P * (t div ?P) + limbs_val (take n d)"
    unfolding low_t by simp
  have c: "c = of_nat (unat c)" "d ! n = of_nat (t div ?P)"
    unfolding top [symmetric] by simp_all
  consider "t div ?P = 0" "unat c = 0" | "t div ?P = 0" "unat c = 1" | "t div ?P = 1" "unat c = 0" | "t div ?P = 1" "unat c = 1"
    using h low(2) by linarith
  then show "if t < Nv then d ! n + 1 - c = 0 \<and> limbs_val (take n d) = t
    else d ! n + 1 - c = 1 \<and> limbs_val low = t - Nv"
  proof cases
    case 1
    then show ?thesis
      using split low c by auto
  next
    case 2
    then have "t < Nv"
      using split low(1) bounds by simp
    then show ?thesis
      using 2 split c by simp
  next
    case 3
    then have False
      using split low(1) t bounds by simp
    then show ?thesis ..
  next
    case 4
    then show ?thesis
      using split low(1) bounds c by auto
  qed
qed

lemma montmul_fact:
  fixes A B N T :: "'l::len word mpi"
  defines "n \<equiv> mpi_n N"
  assumes K: "muladdc_exact K" and C: "ct_assigns C" and mm: "mm * mpi_p N ! 0 = - 1"
    and n: "0 < n" "n \<le> mpi_n A" "mpi_n B \<noteq> 0" "2 * (n + 1) \<le> mpi_n T"
    and B: "limbs_val (take n (mpi_p B)) \<le> mpi_abs N" "0 < mpi_abs N"
  shows "\<exists>X. mpi_montmul K C A B N mm T = Inr X \<and> mpi_s X = mpi_s A \<and> mpi_n X = mpi_n A \<and>
    drop n (mpi_p X) = drop n (mpi_p A) \<and> limbs_val (take n (mpi_p X)) < mpi_abs N \<and>
    limbs_val (take n (mpi_p X)) * 2 ^ (LENGTH('l) * n) mod mpi_abs N =
      limbs_val (take n (mpi_p A)) * limbs_val (take n (mpi_p B)) mod mpi_abs N"
proof -
  let ?a = "take n (mpi_p A)" and ?Nv = "mpi_abs N" and ?m = "if mpi_n B < n then mpi_n B else n"
  let ?d = "replicate (mpi_n T) (0 :: 'l word)" and ?P = "2 ^ (LENGTH('l) * n) :: nat"
  have tm: "take ?m (mpi_p B) = take n (mpi_p B)"
    by simp
  have N: "limbs_val (mpi_p N) = ?Nv" "length (mpi_p N) = n"
    by (simp_all add: mpi_abs_def n_def)
  have "\<exists>d' q. mont_loop K ?m (mpi_p B) n (mpi_p N) mm ?a ?d = Inr d' \<and>
      2 ^ (LENGTH('l) * length ?a) * limbs_val d' = limbs_val ?d + limbs_val ?a * limbs_val (take ?m (mpi_p B)) + q * limbs_val (mpi_p N) \<and>
      limbs_val d' < limbs_val (take ?m (mpi_p B)) + limbs_val (mpi_p N) \<and> length d' + length ?a = length ?d"
    using n B N by (intro mont_loop_val [OF K mm]) simp_all
  then obtain d q where d: "mont_loop K ?m (mpi_p B) n (mpi_p N) mm ?a ?d = Inr d"
      "?P * limbs_val d = limbs_val ?a * limbs_val (take n (mpi_p B)) + q * ?Nv" "limbs_val d < limbs_val (take n (mpi_p B)) + ?Nv"
      "length d + n = mpi_n T"
    unfolding tm using N n(2) by auto
  have len: "n + 2 \<le> length d"
    using d(4) n(4) by simp
  obtain low c where sub: "mpi_sub_hlp 0 (take n d) (mpi_p N) = (low, c)"
    by fastforce
  have "limbs_val d < 2 * limbs_val (mpi_p N)"
    using d(3) B N by simp
  note fin = final_subtraction [OF _ this sub [folded N(2)], unfolded N, OF _]
  have lown: "length low = n"
    using fin(2) len by simp
  let ?dn = "d ! n + 1 - c"
  let ?X = "A\<lparr>mpi_p := uint_cond_assign C n (take n d @ drop n (mpi_p A)) (low @ ?dn # drop (n + 1) d) (ucast ?dn)\<rparr>"
  have run: "mpi_montmul K C A B N mm T = Inr ?X"
    using d(1) sub n unfolding mpi_montmul_def Let_def n_def [symmetric] by simp
  have sel: "mpi_p ?X = (if limbs_val d < ?Nv then take n d else low) @ drop n (mpi_p A)"
    using C fin(1) len lown n(2) unfolding ct_assigns_def by (auto split: if_splits)
  let ?r = "if limbs_val d < ?Nv then limbs_val d else limbs_val d - ?Nv"
  have r: "limbs_val (take n (mpi_p ?X)) = ?r"
    unfolding sel using fin(1) len lown by (auto split: if_splits)
  have "?P * limbs_val d mod ?Nv = ?P * ?r mod ?Nv"
  proof (cases "limbs_val d < ?Nv")
    case False
    then have "?P * limbs_val d = ?P * (limbs_val d - ?Nv) + ?P * ?Nv"
      by (simp flip: distrib_left)
    then show ?thesis
      using False by (simp only: if_False mod_mult_self1)
  qed simp
  then have "?r * ?P mod ?Nv = limbs_val ?a * limbs_val (take n (mpi_p B)) mod ?Nv"
    unfolding d(2) by (simp add: mult.commute)
  moreover have "?r < ?Nv"
    using d(3) B by auto
  moreover have "drop n (mpi_p ?X) = drop n (mpi_p A)" "mpi_n ?X = mpi_n A"
    unfolding sel using len lown n(2) by auto
  ultimately show ?thesis
    using run r by (intro exI [of _ ?X]) simp
qed

lemma low_limb_odd: "mpi_n E \<noteq> 0 \<and> odd (unat (mpi_p E ! 0)) \<longleftrightarrow> odd (mpi_abs E)" for E :: "'l::len word mpi"
  by (cases "mpi_p E") (simp_all add: mpi_abs_def)

section \<open>Properties\<close>

text \<open>
  Montgomery multiplication with the constant that the initialisation computes: for an odd modulus of \<open>n\<close> limbs
  and a second factor that is smaller, the low limbs of the result are below the modulus and are the product
  divided by \<open>R\<close>; no limb outside the operands is touched, the limbs of the first factor beyond the modulus stay as
  they are, and the result has its sign.
\<close>

theorem montmul_correct:
  fixes A B N T :: "'l::len word mpi"
  defines "n \<equiv> mpi_n N"
  assumes "muladdc_exact K" and "ct_assigns C" and "LENGTH('l) = 4 * 2 ^ k" and "odd (mpi_abs N)"
    and "n \<le> mpi_n A" and "mpi_n B \<noteq> 0" and "mpi_abs B < mpi_abs N" and "2 * (n + 1) \<le> mpi_n T"
  shows "\<exists>X. mpi_montmul K C A B N (mpi_montg_init N) T = Inr X \<and> mpi_s X = mpi_s A \<and> drop n (mpi_p X) = drop n (mpi_p A) \<and>
    limbs_val (take n (mpi_p X)) < mpi_abs N \<and>
    limbs_val (take n (mpi_p X)) * 2 ^ (LENGTH('l) * n) mod mpi_abs N =
      limbs_val (take n (mpi_p A)) * mpi_abs B mod mpi_abs N"
proof -
  have low: "n \<noteq> 0" "odd (unat (mpi_p N ! 0))"
    using low_limb_odd [of N] assms(5) by (simp_all add: n_def)
  have less: "mpi_abs B < 2 ^ (LENGTH('l) * n)"
    using assms(8) limbs_val_less [of "mpi_p N"] by (simp add: mpi_abs_def n_def)
  then have B: "limbs_val (take n (mpi_p B)) = mpi_abs B"
    by (simp add: limbs_val_take mpi_abs_def)
  show ?thesis
    using montmul_fact [OF assms(2,3) montg_init_val [OF assms(4) low(2)], of A B T] assms(5-9) low(1) B
    unfolding n_def by (auto simp: odd_pos)
qed

text \<open>Functions that keep the contracts of \<open>constant_time.c\<close>.\<close>

definition plain_ct :: "'l::len word ct_functions" where
  "plain_ct = \<lparr>uint_cond_assign = (\<lambda>n d s c. if c = 1 then take n s @ drop n d else d),
     safe_cond_assign = (\<lambda>M X Y b. and_then (mbedtls_mpi_grow M X (mpi_n Y)) (\<lambda>X.
       Inr (if b = 1 then \<lparr>mpi_s = mpi_s Y, mpi_p = mpi_p Y @ replicate (mpi_n X - mpi_n Y) 0\<rparr> else X))),
     size_bool_eq = (\<lambda>i j. of_bool (i = j))\<rparr>"

lemma plain_ct_assigns: "ct_assigns plain_ct"
  by (simp add: ct_assigns_def plain_ct_def)

theorem montmul_correct_witness:
  "\<exists>X. mpi_montmul wide_muladdc plain_ct \<lparr>mpi_s = 1, mpi_p = [3 :: 64 word, 0]\<rparr> \<lparr>mpi_s = 1, mpi_p = [4]\<rparr>
      \<lparr>mpi_s = 1, mpi_p = [5]\<rparr> (mpi_montg_init \<lparr>mpi_s = 1, mpi_p = [5]\<rparr>) \<lparr>mpi_s = 1, mpi_p = [0, 0, 0, 0]\<rparr> = Inr X \<and>
    limbs_val (take 1 (mpi_p X)) < 5 \<and> limbs_val (take 1 (mpi_p X)) * 2 ^ 64 mod 5 = 2"
proof -
  have len: "LENGTH(64) = 4 * 2 ^ 4"
    by simp
  show ?thesis
    using montmul_correct [OF wide_muladdc_exact plain_ct_assigns len, of "\<lparr>mpi_s = 1, mpi_p = [5]\<rparr>"
        "\<lparr>mpi_s = 1, mpi_p = [3, 0]\<rparr>" "\<lparr>mpi_s = 1, mpi_p = [4]\<rparr>" "\<lparr>mpi_s = 1, mpi_p = [0, 0, 0, 0]\<rparr>"]
    by (auto simp: mpi_abs_def)
qed

end
