(* ===== verification/Bignum_Exp.thy ===== *)
theory Bignum_Exp
  imports Bignum_Montgomery
begin

text \<open>
  Modular exponentiation of \<open>bignum.c\<close> (\<open>mbedtls_mpi_exp_mod\<close>): a sliding window over the bits of the exponent
  with a table of powers in Montgomery form, entries of which are selected in constant time.  A number \<open>X\<close> of
  the loop \<open>represents\<close> \<open>x\<close> when its value is \<open>x * R mod N\<close>; the table, the window and the remaining bits keep this, so that
  the result is the power of the integers modulo \<open>N\<close>.  The number \<open>R * R mod N\<close> that callers keep between calls
  (\<open>prec_RR\<close>) is part of the contract.
\<close>

section \<open>The code\<close>

text \<open>What the configuration of the build decides: the largest window and the largest length in bits.\<close>

record exp_config =
  MPI_WINDOW_SIZE :: nat
  MPI_MAX_BITS :: nat

definition window_size :: "exp_config \<Rightarrow> nat \<Rightarrow> nat" where
  "window_size cfg i =
     (let wsize = (if 671 < i then 6 else if 239 < i then 5 else if 79 < i then 4 else if 23 < i then 3 else 1) in
      if MPI_WINDOW_SIZE cfg < 6 \<and> MPI_WINDOW_SIZE cfg < wsize then MPI_WINDOW_SIZE cfg else wsize)"

text \<open>\<open>mpi_select\<close>: the whole table is read.\<close>

fun select_loop ::
  "platform \<Rightarrow> 'l::len word ct_functions \<Rightarrow> nat \<Rightarrow> 'l word mpi \<Rightarrow> nat \<Rightarrow> 'l word mpi list \<Rightarrow> mpi_error + 'l word mpi" where
  "select_loop M C idx R i [] = Inr R"
| "select_loop M C idx R i (t # ts) =
     and_then (safe_cond_assign C M R t (ucast (size_bool_eq C i idx))) (\<lambda>R. select_loop M C idx R (Suc i) ts)"

definition mpi_select ::
  "platform \<Rightarrow> 'l::len word ct_functions \<Rightarrow> 'l word mpi \<Rightarrow> 'l word mpi list \<Rightarrow> nat \<Rightarrow> nat \<Rightarrow> mpi_error + 'l word mpi" where
  "mpi_select M C R T T_size idx = select_loop M C idx R 0 (take T_size T)"

text \<open>What the calls of \<open>mpi_montmul\<close> have in common: the modulus, its \<open>mm\<close> and the temporary \<open>T\<close>.\<close>

record 'limb mont_context =
  core :: "'limb \<Rightarrow> 'limb \<Rightarrow> 'limb \<Rightarrow> 'limb \<Rightarrow> 'limb \<times> 'limb"
  ct :: "'limb ct_functions"
  modulus :: "'limb mpi"
  mont_mm :: "'limb"
  temp :: "'limb mpi"

definition mont_mul :: "'l::len word mont_context \<Rightarrow> 'l word mpi \<Rightarrow> 'l word mpi \<Rightarrow> mpi_error + 'l word mpi" where
  "mont_mul c A B = mpi_montmul (core c) (ct c) A B (modulus c) (mont_mm c) (temp c)"

fun mont_squares :: "'l::len word mont_context \<Rightarrow> nat \<Rightarrow> 'l word mpi \<Rightarrow> mpi_error + 'l word mpi" where
  "mont_squares c 0 X = Inr X"
| "mont_squares c (Suc k) X = and_then (mont_mul c X X) (mont_squares c k)"

text \<open>The table: \<open>W[i] = W[i - 1] * W[1]\<close> for the \<open>k\<close> entries from \<open>i\<close> on.\<close>

fun window_fill :: "platform \<Rightarrow> 'l::len word mont_context \<Rightarrow> nat \<Rightarrow> nat \<Rightarrow> 'l word mpi list \<Rightarrow> mpi_error + 'l word mpi list" where
  "window_fill M c 0 i W = Inr W"
| "window_fill M c (Suc k) i W =
     and_then (mbedtls_mpi_grow M (W ! i) (mpi_n (modulus c) + 1)) (\<lambda>Wi.
     and_then (mbedtls_mpi_copy M Wi (Other (W ! (i - 1)))) (\<lambda>Wi.
     and_then (mont_mul c Wi (W ! 1)) (\<lambda>Wi.
     window_fill M c k (i + 1) (W[i := Wi]))))"

definition window_table :: "platform \<Rightarrow> 'l::len word mont_context \<Rightarrow> nat \<Rightarrow> 'l word mpi list \<Rightarrow> mpi_error + 'l word mpi list" where
  "window_table M c wsize W =
     (if 1 < wsize then
        let j = push_bit (wsize - 1) 1 in
        and_then (mbedtls_mpi_grow M (W ! j) (mpi_n (modulus c) + 1)) (\<lambda>Wj.
        and_then (mbedtls_mpi_copy M Wj (Other (W ! 1))) (\<lambda>Wj.
        and_then (mont_squares c (wsize - 1) Wj) (\<lambda>Wj.
        window_fill M c (push_bit wsize 1 - (j + 1)) (j + 1) (W[j := Wj]))))
      else Inr W)"

text \<open>The bits of the exponent in the order in which the loop reads them.\<close>

definition exp_bits :: "'l::len word mpi \<Rightarrow> 'l word list" where
  "exp_bits E =
     concat (map (\<lambda>nblimbs. map (\<lambda>bufsize. drop_bit bufsize (mpi_p E ! nblimbs) AND 1) (rev [0..<LENGTH('l)])) (rev [0..<mpi_n E]))"

text \<open>The sliding window; \<open>state\<close> is 0 before the first bit that is set, 2 inside a window and 1 between windows.\<close>

fun exp_loop ::
  "platform \<Rightarrow> 'l::len word mont_context \<Rightarrow> nat \<Rightarrow> 'l word mpi list \<Rightarrow> 'l word list \<Rightarrow> 'l word mpi \<Rightarrow> 'l word mpi \<Rightarrow> nat \<Rightarrow> nat \<Rightarrow> nat \<Rightarrow>
   mpi_error + 'l word mpi \<times> nat \<times> nat" where
  "exp_loop M c wsize W [] X WW nbits wbits st = Inr (X, nbits, wbits)"
| "exp_loop M c wsize W (ei # es) X WW nbits wbits st =
     (if ei = 0 \<and> st = 0 then exp_loop M c wsize W es X WW nbits wbits st
      else if ei = 0 \<and> st = 1 then
        and_then (mont_mul c X X) (\<lambda>X. exp_loop M c wsize W es X WW nbits wbits st)
      else
        let st = 2; nbits = nbits + 1; wbits = wbits OR push_bit (wsize - nbits) (unat ei) in
        if nbits = wsize then
          and_then (mont_squares c wsize X) (\<lambda>X.
          and_then (mpi_select M (ct c) WW W (push_bit wsize 1) wbits) (\<lambda>WW.
          and_then (mont_mul c X WW) (\<lambda>X.
          exp_loop M c wsize W es X WW 0 0 (st - 1))))
        else exp_loop M c wsize W es X WW nbits wbits st)"

text \<open>The bits of the last window.\<close>

fun exp_rest :: "'l::len word mont_context \<Rightarrow> nat \<Rightarrow> 'l word mpi \<Rightarrow> nat \<Rightarrow> 'l word mpi \<Rightarrow> nat \<Rightarrow> mpi_error + 'l word mpi" where
  "exp_rest c wsize W1 0 X wbits = Inr X"
| "exp_rest c wsize W1 (Suc k) X wbits =
     and_then (mont_mul c X X) (\<lambda>X.
     let wbits = push_bit 1 wbits in
     and_then (if wbits AND push_bit wsize 1 \<noteq> 0 then mont_mul c X W1 else Inr X) (\<lambda>X.
     exp_rest c wsize W1 k X wbits))"

text \<open>The base is made positive; the sign is corrected at the end.\<close>

definition exp_positive :: "platform \<Rightarrow> bool \<Rightarrow> 'l::len word mpi \<Rightarrow> mpi_error + 'l word mpi" where
  "exp_positive M neg A =
     (if neg then and_then (mbedtls_mpi_copy M mbedtls_mpi_init (Other A)) (\<lambda>Apos. Inr (Apos\<lparr>mpi_s := 1\<rparr>)) else Inr A)"

text \<open>\<open>RR\<close> is taken from the caller or computed, and then given to the caller.\<close>

definition exp_square_of_R ::
  "platform \<Rightarrow> 'l::len muladdc \<Rightarrow> bool \<Rightarrow> 'l word mpi \<Rightarrow> 'l word mpi option \<Rightarrow> (mpi_error + 'l word mpi \<times> 'l word mpi option) option" where
  "exp_square_of_R M K have_udbl N prec_RR =
     (if prec_RR = None \<or> mpi_p (the prec_RR) = [] then
        run_then (Some (mbedtls_mpi_lset M mbedtls_mpi_init 1)) (\<lambda>RR.
        run_then (Some (mbedtls_mpi_shift_l M RR (mpi_n N * 2 * biL TYPE('l)))) (\<lambda>RR.
        run_then (mbedtls_mpi_mod_mpi M K have_udbl RR Self (Other N)) (\<lambda>RR.
        Some (Inr (RR, map_option (\<lambda>_. RR) prec_RR)))))
      else Some (Inr (the prec_RR, prec_RR)))"

definition exp_base ::
  "platform \<Rightarrow> 'l::len muladdc \<Rightarrow> bool \<Rightarrow> 'l word mpi \<Rightarrow> 'l word mpi \<Rightarrow> 'l word mpi \<Rightarrow> (mpi_error + 'l word mpi) option" where
  "exp_base M K have_udbl W1 A N =
     (if 0 \<le> mbedtls_mpi_cmp_mpi A N then
        run_then (mbedtls_mpi_mod_mpi M K have_udbl W1 (Other A) (Other N)) (\<lambda>W1.
        Some (mbedtls_mpi_grow M W1 (mpi_n N + 1)))
      else Some (mbedtls_mpi_copy M W1 (Other A)))"

text \<open>
  From the representation of the base on: the table, the loops and the conversion of the result.  \<open>W\<close> is the
  table as it was initialised, \<open>W1\<close> its entry for the base.
\<close>

definition exp_power ::
  "platform \<Rightarrow> 'l::len word mont_context \<Rightarrow> nat \<Rightarrow> 'l word mpi list \<Rightarrow> 'l word mpi \<Rightarrow> 'l word mpi \<Rightarrow> 'l word mpi \<Rightarrow> 'l word mpi \<Rightarrow>
   mpi_error + 'l word mpi" where
  "exp_power M c wsize W W1 RR E X =
     and_then (mont_mul c W1 RR) (\<lambda>W1.
     and_then (mbedtls_mpi_copy M X (Other RR)) (\<lambda>X.
     and_then (mpi_montred (core c) (ct c) X (modulus c) (mont_mm c) (temp c)) (\<lambda>X.
     and_then (window_table M c wsize (W[1 := W1])) (\<lambda>W.
     and_then (exp_loop M c wsize W (exp_bits E) X mbedtls_mpi_init 0 0 0) (\<lambda>(X, nbits, wbits).
     and_then (exp_rest c wsize (W ! 1) nbits X wbits) (\<lambda>X.
     mpi_montred (core c) (ct c) X (modulus c) (mont_mm c) (temp c)))))))"

definition mbedtls_mpi_exp_mod ::
  "exp_config \<Rightarrow> platform \<Rightarrow> 'l::len muladdc \<Rightarrow> bool \<Rightarrow> 'l word ct_functions \<Rightarrow> 'l word mpi \<Rightarrow> 'l word operand \<Rightarrow> 'l word mpi \<Rightarrow>
   'l word mpi \<Rightarrow> 'l word mpi option \<Rightarrow> (mpi_error + 'l word mpi \<times> 'l word mpi option) option" where
  "mbedtls_mpi_exp_mod cfg M K have_udbl C X A E N prec_RR =
     (if mbedtls_mpi_cmp_int N 0 \<le> 0 \<or> mpi_p N ! 0 AND 1 = 0 then Some (Inl MBEDTLS_ERR_MPI_BAD_INPUT_DATA)
      else if mbedtls_mpi_cmp_int E 0 < 0 then Some (Inl MBEDTLS_ERR_MPI_BAD_INPUT_DATA)
      else if MPI_MAX_BITS cfg < mbedtls_mpi_bitlen E \<or> MPI_MAX_BITS cfg < mbedtls_mpi_bitlen N
      then Some (Inl MBEDTLS_ERR_MPI_BAD_INPUT_DATA)
      else
        let mm = mpi_montg_init N;
            W = replicate (2 ^ MPI_WINDOW_SIZE cfg) \<lparr>mpi_s = 0, mpi_p = []\<rparr>;
            wsize = window_size cfg (mbedtls_mpi_bitlen E);
            j = mpi_n N + 1 in
        run_then (Some (mbedtls_mpi_grow M X j)) (\<lambda>X.
        run_then (Some (mbedtls_mpi_grow M (W ! 1) j)) (\<lambda>W1.
        run_then (Some (mbedtls_mpi_grow M mbedtls_mpi_init (j * 2))) (\<lambda>T.
        let neg = (mpi_s (deref X A) = - 1) in
        run_then (Some (exp_positive M neg (deref X A))) (\<lambda>A.
        run_then (exp_square_of_R M K have_udbl N prec_RR) (\<lambda>(RR, prec_RR).
        run_then (exp_base M K have_udbl W1 A N) (\<lambda>W1.
        let c = \<lparr>core = K, ct = C, modulus = N, mont_mm = mm, temp = T\<rparr> in
        run_then (Some (exp_power M c wsize W W1 RR E X)) (\<lambda>X.
        if neg \<and> mpi_n E \<noteq> 0 \<and> mpi_p E ! 0 AND 1 \<noteq> 0 then
          let X = X\<lparr>mpi_s := - 1\<rparr> in
          run_then (Some (mbedtls_mpi_add_mpi M X (Other N) Self)) (\<lambda>X. Some (Inr (X, prec_RR)))
        else Some (Inr (X, prec_RR))))))))))"

section \<open>Numbers times \<open>R\<close> modulo \<open>N\<close>\<close>

lemma mod_cancel:
  fixes a b k m :: nat
  assumes "a * k mod m = b * k mod m" and "coprime k m"
  shows "a mod m = b mod m"
proof -
  have "int (a * k) mod int m = int (b * k) mod int m"
    using arg_cong [OF assms(1), of int] by (simp add: of_nat_mod)
  then have "int m dvd (int a - int b) * int k"
    by (simp add: mod_eq_dvd_iff left_diff_distrib)
  moreover have "coprime (int m) (int k)"
    using assms(2) by (simp add: coprime_commute)
  ultimately have "int m dvd int a - int b"
    by (simp add: coprime_dvd_mult_left_iff)
  then have "int (a mod m) = int (b mod m)"
    by (simp add: of_nat_mod mod_eq_dvd_iff)
  then show ?thesis
    by simp
qed

definition mont_R :: "'l::len word mont_context \<Rightarrow> nat" where
  "mont_R c = 2 ^ (LENGTH('l) * mpi_n (modulus c))"

abbreviation mod_N :: "'l::len word mont_context \<Rightarrow> nat" where
  "mod_N c \<equiv> mpi_abs (modulus c)"

definition mont_ready :: "'l::len word mont_context \<Rightarrow> bool" where
  "mont_ready c \<longleftrightarrow> muladdc_exact (core c) \<and> ct_assigns (ct c) \<and> mont_mm c * mpi_p (modulus c) ! 0 = - 1 \<and>
     0 < mpi_n (modulus c) \<and> odd (mod_N c) \<and> 2 * (mpi_n (modulus c) + 1) \<le> mpi_n (temp c)"

definition represents :: "'l::len word mont_context \<Rightarrow> 'l word mpi \<Rightarrow> nat \<Rightarrow> bool" where
  "represents c X x \<longleftrightarrow> mpi_n (modulus c) \<le> mpi_n X \<and> mpi_abs X = x * mont_R c mod mod_N c"

lemma mont_ready_R: "mont_ready c \<Longrightarrow> mod_N c < mont_R c" "mont_ready c \<Longrightarrow> 0 < mod_N c"
    "mont_ready c \<Longrightarrow> coprime (mont_R c) (mod_N c)"
  by (simp_all add: mont_ready_def mont_R_def mpi_abs_def limbs_val_less odd_pos)

lemma low_limbs:
  fixes X :: "'l::len word mpi"
  assumes "mpi_abs X < 2 ^ (LENGTH('l) * n)"
  shows "limbs_val (take n (mpi_p X)) = mpi_abs X" "limbs_val (drop n (mpi_p X)) = 0"
  using assms by (simp_all add: limbs_val_take limbs_val_drop mpi_abs_def)

lemma mont_mul_fact:
  fixes c :: "'l::len word mont_context"
  assumes c: "mont_ready c" and X: "mpi_n (modulus c) \<le> mpi_n X" "mpi_abs X < mod_N c"
    and B: "mpi_n B \<noteq> 0" "mpi_abs B \<le> mod_N c"
  shows "\<exists>Y. mont_mul c X B = Inr Y \<and> mpi_s Y = mpi_s X \<and> mpi_n Y = mpi_n X \<and> mpi_abs Y < mod_N c \<and>
    mpi_abs Y * mont_R c mod mod_N c = mpi_abs X * mpi_abs B mod mod_N c"
proof -
  let ?n = "mpi_n (modulus c)"
  note R = mont_ready_R [OF c]
  have lx: "limbs_val (take ?n (mpi_p X)) = mpi_abs X" "limbs_val (drop ?n (mpi_p X)) = 0"
    using low_limbs [of X ?n] X(2) R(1) by (simp_all add: mont_R_def)
  have lb: "limbs_val (take ?n (mpi_p B)) = mpi_abs B"
    using low_limbs [of B ?n] B(2) R(1) by (simp add: mont_R_def)
  obtain Y where Y: "mpi_montmul (core c) (ct c) X B (modulus c) (mont_mm c) (temp c) = Inr Y" "mpi_s Y = mpi_s X"
      "mpi_n Y = mpi_n X" "drop ?n (mpi_p Y) = drop ?n (mpi_p X)" "limbs_val (take ?n (mpi_p Y)) < mod_N c"
      "limbs_val (take ?n (mpi_p Y)) * mont_R c mod mod_N c = mpi_abs X * mpi_abs B mod mod_N c"
    using montmul_fact [of "core c" "ct c" "mont_mm c" "modulus c" X B "temp c"] c X B R(2) lx(1) lb
    by (auto simp: mont_ready_def mont_R_def)
  have "mpi_abs Y div mont_R c = 0"
    using Y(4) lx(2) by (simp add: mpi_abs_def mont_R_def flip: limbs_val_drop)
  then have "mpi_abs Y < mont_R c"
    using R(1) by (auto simp: div_eq_0_iff)
  then have "limbs_val (take ?n (mpi_p Y)) = mpi_abs Y"
    using low_limbs [of Y ?n] by (simp add: mont_R_def)
  then show ?thesis
    using Y by (simp add: mont_mul_def)
qed

lemma represents_less: "mont_ready c \<Longrightarrow> represents c X x \<Longrightarrow> mpi_abs X < mod_N c"
  using mont_ready_R(2) [of c] by (auto simp: represents_def)

lemma represents_limbs: "mont_ready c \<Longrightarrow> represents c X x \<Longrightarrow> mpi_n X \<noteq> 0"
  by (auto simp: represents_def mont_ready_def)

lemma represents_I:
  assumes "mont_ready c" and "mpi_n (modulus c) \<le> mpi_n Y" and "mpi_abs Y < mod_N c"
    and "mpi_abs Y * mont_R c mod mod_N c = x * mont_R c * mont_R c mod mod_N c"
  shows "represents c Y x"
  using mod_cancel [OF assms(4) mont_ready_R(3) [OF assms(1)]] assms(2,3) by (simp add: represents_def)

lemma mont_mul_represents:
  assumes "mont_ready c" and "represents c X x" and "represents c B b"
  obtains Y where "mont_mul c X B = Inr Y" "represents c Y (x * b)" "mpi_s Y = mpi_s X" "mpi_n Y = mpi_n X"
proof -
  obtain Y where Y: "mont_mul c X B = Inr Y" "mpi_s Y = mpi_s X" "mpi_n Y = mpi_n X" "mpi_abs Y < mod_N c"
      "mpi_abs Y * mont_R c mod mod_N c = mpi_abs X * mpi_abs B mod mod_N c"
    using mont_mul_fact [OF assms(1), of X B] represents_less [OF assms(1)] represents_limbs [OF assms(1)] assms(2,3)
    by (fastforce simp: represents_def)
  have "mpi_abs Y * mont_R c mod mod_N c = x * b * mont_R c * mont_R c mod mod_N c"
    using Y(5) assms(2,3) by (simp add: represents_def mod_mult_eq ac_simps)
  then have "represents c Y (x * b)"
    using Y assms(2) by (intro represents_I [OF assms(1)]) (simp_all add: represents_def)
  with Y show ?thesis
    by (intro that)
qed

lemma mont_squares_represents:
  assumes "mont_ready c" and "represents c X x"
  shows "\<exists>Y. mont_squares c k X = Inr Y \<and> represents c Y (x ^ 2 ^ k) \<and> mpi_s Y = mpi_s X \<and> mpi_n Y = mpi_n X"
  using assms(2)
proof (induction k arbitrary: X x)
  case (Suc k)
  obtain Y where Y: "mont_mul c X X = Inr Y" "represents c Y (x * x)" "mpi_s Y = mpi_s X" "mpi_n Y = mpi_n X"
    by (rule mont_mul_represents [OF assms(1) Suc.prems Suc.prems])
  have "(x * x) ^ 2 ^ k = x ^ 2 ^ Suc k"
    by (simp add: power_mult flip: power2_eq_square)
  then show ?case
    using Suc.IH [OF Y(2)] Y by simp
qed simp

section \<open>The table\<close>

lemma table_entry:
  assumes c: "mont_ready c" and room: "plenty M m" "mpi_n (modulus c) < m"
    and V: "represents c V v" "mpi_n V \<le> m" and W: "mpi_n W \<le> m"
  obtains G Z where "mbedtls_mpi_grow M W (mpi_n (modulus c) + 1) = Inr G" "mbedtls_mpi_copy M G (Other V) = Inr Z"
    "represents c Z v" "mpi_n Z \<le> m"
proof -
  have "plenty M (mpi_n (modulus c) + 1)" "plenty M (mpi_n V)"
    using room V(2) by (auto elim: plenty_mono)
  then obtain G Z where GZ: "mbedtls_mpi_grow M W (mpi_n (modulus c) + 1) = Inr G" "mbedtls_mpi_copy M G (Other V) = Inr Z"
    using grow_succeeds copy_succeeds by meson
  have "represents c Z v" "mpi_n Z \<le> m"
    using grow_fact(3) [OF GZ(1)] copy_fact(1,3,4) [OF GZ(2)] V W room(2) by (auto simp: represents_def)
  with GZ show ?thesis
    by (rule that)
qed

lemma window_fill_fact:
  assumes c: "mont_ready c" and room: "plenty M m" "mpi_n (modulus c) < m" and i: "2 \<le> i" "i + k \<le> length W"
    and W: "represents c (W ! 1) a" "represents c (W ! (i - 1)) (a ^ (i - 1))" "\<forall>j<length W. mpi_n (W ! j) \<le> m"
  shows "\<exists>W'. window_fill M c k i W = Inr W' \<and> length W' = length W \<and> (\<forall>j<length W. mpi_n (W' ! j) \<le> m) \<and>
    (\<forall>j<i. W' ! j = W ! j) \<and> (\<forall>j. i \<le> j \<and> j < i + k \<longrightarrow> represents c (W' ! j) (a ^ j))"
  using i W
proof (induction k arbitrary: i W)
  case 0
  then show ?case
    by auto
next
  case (Suc k)
  have len: "i < length W" "i - 1 < length W"
    using Suc.prems(1,2) by simp_all
  have ns: "mpi_n (W ! (i - 1)) \<le> m" "mpi_n (W ! i) \<le> m"
    using Suc.prems(5) len by simp_all
  obtain G Z where GZ: "mbedtls_mpi_grow M (W ! i) (mpi_n (modulus c) + 1) = Inr G" "mbedtls_mpi_copy M G (Other (W ! (i - 1))) = Inr Z"
      "represents c Z (a ^ (i - 1))" "mpi_n Z \<le> m"
    by (rule table_entry [OF c room Suc.prems(4) ns])
  obtain Y where Y: "mont_mul c Z (W ! 1) = Inr Y" "represents c Y (a ^ (i - 1) * a)" "mpi_s Y = mpi_s Z" "mpi_n Y = mpi_n Z"
    by (rule mont_mul_represents [OF c GZ(3) Suc.prems(3)])
  have "a ^ (i - 1) * a = a ^ i"
    using Suc.prems(1) by (cases i) simp_all
  then have rep: "represents c Y (a ^ i)"
    using Y(2) by simp
  have "\<exists>W'. window_fill M c k (i + 1) (W[i := Y]) = Inr W' \<and> length W' = length (W[i := Y]) \<and>
      (\<forall>j<length (W[i := Y]). mpi_n (W' ! j) \<le> m) \<and> (\<forall>j<i + 1. W' ! j = W[i := Y] ! j) \<and>
      (\<forall>j. i + 1 \<le> j \<and> j < i + 1 + k \<longrightarrow> represents c (W' ! j) (a ^ j))"
    by (rule Suc.IH) (use Suc.prems rep len Y(4) GZ(4) in \<open>auto simp: nth_list_update\<close>)
  then obtain W' where W': "window_fill M c k (i + 1) (W[i := Y]) = Inr W'" "length W' = length W"
      "\<forall>j<length W. mpi_n (W' ! j) \<le> m" "\<forall>j<i + 1. W' ! j = W[i := Y] ! j"
      "\<forall>j. i + 1 \<le> j \<and> j < i + 1 + k \<longrightarrow> represents c (W' ! j) (a ^ j)"
    by auto
  have "represents c (W' ! j) (a ^ j)" if "i \<le> j" "j < i + Suc k" for j
    using W'(4,5) that rep len(1) by (cases "j = i") auto
  then show ?case
    using W' GZ Y(1) by (intro exI [of _ W']) simp
qed

definition table_ready :: "'l::len word mont_context \<Rightarrow> nat \<Rightarrow> nat \<Rightarrow> nat \<Rightarrow> 'l word mpi list \<Rightarrow> bool" where
  "table_ready c wsize m a W \<longleftrightarrow> 2 ^ wsize \<le> length W \<and> (\<forall>j<length W. mpi_n (W ! j) \<le> m) \<and>
     represents c (W ! 1) a \<and> (\<forall>j. 2 ^ (wsize - 1) \<le> j \<and> j < 2 ^ wsize \<longrightarrow> represents c (W ! j) (a ^ j))"

lemma window_table_fact:
  assumes c: "mont_ready c" and room: "plenty M m" "mpi_n (modulus c) < m" and wsize: "0 < wsize" "2 ^ wsize \<le> length W"
    and W: "represents c (W ! 1) a" "\<forall>j<length W. mpi_n (W ! j) \<le> m"
  shows "\<exists>W'. window_table M c wsize W = Inr W' \<and> table_ready c wsize m a W'"
proof (cases "1 < wsize")
  case False
  then have "wsize = 1"
    using wsize(1) by simp
  moreover have "represents c (W ! j) (a ^ j)" if "Suc 0 \<le> j" "j < 2" for j
  proof -
    have "j = 1"
      using that by simp
    then show ?thesis
      using W(1) by simp
  qed
  ultimately show ?thesis
    using W wsize(2) by (auto simp: window_table_def table_ready_def)
next
  case True
  then obtain h where h: "wsize = Suc (Suc h)"
    by (cases wsize; cases "wsize - 1") auto
  let ?j = "2 ^ Suc h :: nat"
  have j: "1 < ?j"
    by (rule one_less_power) simp_all
  then have j: "1 < ?j" "?j < length W" "2 ^ wsize = 2 * ?j"
    using wsize(2) h by simp_all
  have ns: "mpi_n (W ! 1) \<le> m" "mpi_n (W ! ?j) \<le> m"
    using W(2) j by auto
  obtain G Z where GZ: "mbedtls_mpi_grow M (W ! ?j) (mpi_n (modulus c) + 1) = Inr G" "mbedtls_mpi_copy M G (Other (W ! 1)) = Inr Z"
      "represents c Z a" "mpi_n Z \<le> m"
    by (rule table_entry [OF c room W(1) ns])
  obtain Y where Y: "mont_squares c (Suc h) Z = Inr Y" "represents c Y (a ^ ?j)" "mpi_n Y = mpi_n Z"
    using mont_squares_represents [OF c GZ(3)] by blast
  let ?W = "W[?j := Y]"
  have "\<exists>W'. window_fill M c (?j - 1) (?j + 1) ?W = Inr W' \<and> length W' = length ?W \<and> (\<forall>j<length ?W. mpi_n (W' ! j) \<le> m) \<and>
      (\<forall>j<?j + 1. W' ! j = ?W ! j) \<and> (\<forall>j. ?j + 1 \<le> j \<and> j < ?j + 1 + (?j - 1) \<longrightarrow> represents c (W' ! j) (a ^ j))"
    by (rule window_fill_fact [OF c room])
      (use j wsize(2) W Y GZ(4) in \<open>auto simp: nth_list_update simp del: power_Suc\<close>)
  then obtain W' where W': "window_fill M c (?j - 1) (?j + 1) ?W = Inr W'" "length W' = length W"
      "\<forall>j<length W. mpi_n (W' ! j) \<le> m" "\<forall>j<?j + 1. W' ! j = ?W ! j"
      "\<forall>j. ?j + 1 \<le> j \<and> j < ?j + 1 + (?j - 1) \<longrightarrow> represents c (W' ! j) (a ^ j)"
    by auto
  have "represents c (W' ! i) (a ^ i)" if "?j \<le> i" "i < 2 * ?j" for i
    using W'(4,5) that Y(2) j(2) by (cases "i = ?j") auto
  moreover have "represents c (W' ! 1) a"
    using W'(4) W(1) j(1) by simp
  ultimately have "table_ready c wsize m a W'"
    using W'(2,3) wsize(2) j(3) h by (simp add: table_ready_def del: power_Suc)
  moreover have "window_table M c wsize W = Inr W'"
    using W'(1) GZ Y(1) h by (simp add: window_table_def Let_def push_bit_eq_mult)
  ultimately show ?thesis
    by blast
qed

section \<open>The selection\<close>

text \<open>What is documented of the other two functions of \<open>constant_time.c\<close>.\<close>

definition ct_copies :: "'l::len word ct_functions \<Rightarrow> bool" where
  "ct_copies C \<longleftrightarrow> (\<forall>M X Y b. plenty M (mpi_n Y) \<and> (b = 0 \<or> b = 1) \<longrightarrow>
     (\<exists>Z. safe_cond_assign C M X Y b = Inr Z \<and> mpi_abs Z = mpi_abs (if b = 1 then Y else X) \<and>
        mpi_n Z = max (mpi_n X) (mpi_n Y)))"

definition ct_compares :: "'l::len word ct_functions \<Rightarrow> bool" where
  "ct_compares C \<longleftrightarrow> (\<forall>i j. size_bool_eq C i j = of_bool (i = j))"

lemma select_loop_fact:
  assumes C: "ct_copies C" "ct_compares C" and room: "plenty M m"
  shows "mpi_n R \<le> m \<Longrightarrow> \<forall>t\<in>set ts. mpi_n t \<le> m \<Longrightarrow>
    \<exists>Z. select_loop M C idx R i ts = Inr Z \<and>
      mpi_abs Z = mpi_abs (if i \<le> idx \<and> idx < i + length ts then ts ! (idx - i) else R) \<and>
      mpi_n R \<le> mpi_n Z \<and> mpi_n Z \<le> m \<and> (\<forall>t\<in>set ts. mpi_n t \<le> mpi_n Z)"
proof (induction ts arbitrary: R i)
  case (Cons t ts)
  let ?b = "ucast (size_bool_eq C i idx) :: u8"
  have b: "?b = of_bool (i = idx)"
    using C(2) by (simp add: ct_compares_def)
  have "plenty M (mpi_n t)"
    using room Cons.prems(2) by (auto elim: plenty_mono)
  then obtain Y where Y: "safe_cond_assign C M R t ?b = Inr Y" "mpi_abs Y = mpi_abs (if i = idx then t else R)"
      "mpi_n Y = max (mpi_n R) (mpi_n t)"
    using C(1) unfolding ct_copies_def b by (cases "i = idx") (auto, fastforce+)
  have "mpi_n Y \<le> m" "\<forall>t\<in>set ts. mpi_n t \<le> m"
    using Y(3) Cons.prems by simp_all
  then obtain Z where Z: "select_loop M C idx Y (Suc i) ts = Inr Z"
      "mpi_abs Z = mpi_abs (if Suc i \<le> idx \<and> idx < Suc i + length ts then ts ! (idx - Suc i) else Y)"
      "mpi_n Y \<le> mpi_n Z" "mpi_n Z \<le> m" "\<forall>t\<in>set ts. mpi_n t \<le> mpi_n Z"
    using Cons.IH [of Y "Suc i"] by auto
  have "mpi_abs Z = mpi_abs (if i \<le> idx \<and> idx < i + length (t # ts) then (t # ts) ! (idx - i) else R)"
    unfolding Z(2) using Y(2) by (auto simp: nth_Cons' Suc_le_eq)
  then show ?case
    using Y Z by simp
qed simp

lemma mpi_select_fact:
  assumes "ct_copies C" "ct_compares C" and "plenty M m" and "mpi_n R \<le> m" and "\<forall>j<length T. mpi_n (T ! j) \<le> m"
    and "idx < T_size" and "T_size \<le> length T"
  obtains Z where "mpi_select M C R T T_size idx = Inr Z" "mpi_abs Z = mpi_abs (T ! idx)" "mpi_n (T ! idx) \<le> mpi_n Z" "mpi_n Z \<le> m"
proof -
  have "\<forall>t\<in>set (take T_size T). mpi_n t \<le> m"
    using assms(5) by (auto simp: in_set_conv_nth)
  then obtain Z where Z: "mpi_select M C R T T_size idx = Inr Z" "mpi_abs Z = mpi_abs (T ! idx)" "mpi_n Z \<le> m"
      "\<forall>t\<in>set (take T_size T). mpi_n t \<le> mpi_n Z"
    using select_loop_fact [OF assms(1-3), of R "take T_size T" idx 0] assms(4,6,7) by (auto simp: mpi_select_def)
  have "take T_size T ! idx \<in> set (take T_size T)"
    using assms(6,7) by (intro nth_mem) simp
  then have "mpi_n (T ! idx) \<le> mpi_n Z"
    using Z(4) assms(6) by simp
  with Z(1,2) show ?thesis
    using Z(3) by (rule that)
qed

section \<open>The sliding window\<close>

lemma window_or:
  fixes w b :: nat
  assumes "b = 0 \<or> b = 1"
  shows "w * 2 ^ Suc k OR push_bit k b = (2 * w + b) * 2 ^ k"
proof -
  have "2 * w OR b = 2 * w + b"
    using assms or_one_eq [of "2 * w"] by (auto simp del: or_one_eq)
  then have "push_bit k (2 * w) OR push_bit k b = push_bit k (2 * w + b)"
    by (metis push_bit_or)
  then show ?thesis
    by (simp add: push_bit_eq_mult mult.assoc mult.left_commute)
qed

text \<open>
  The exponent read so far is \<open>e * 2 ^ nbits + w\<close>: \<open>X\<close> represents \<open>a ^ e\<close>, and \<open>w\<close> are the bits in
  the window.
\<close>

definition window_state :: "nat \<Rightarrow> nat \<Rightarrow> nat \<Rightarrow> nat \<Rightarrow> nat \<Rightarrow> nat \<Rightarrow> bool" where
  "window_state wsize e w nbits wbits st \<longleftrightarrow> nbits < wsize \<and> wbits = w * 2 ^ (wsize - nbits) \<and> w < 2 ^ nbits \<and>
     (nbits \<noteq> 0 \<longrightarrow> st = 2 \<and> 2 ^ (nbits - 1) \<le> w) \<and> (nbits = 0 \<longrightarrow> st = 1 \<or> st = 0 \<and> e = 0)"

lemma window_add:
  assumes "window_state wsize e w nbits wbits st" and "b = 0 \<or> b = 1" and "b = 1 \<or> st \<noteq> 0 \<and> st \<noteq> 1"
  shows "wbits OR push_bit (wsize - (nbits + 1)) b = (2 * w + b) * 2 ^ (wsize - (nbits + 1))"
    "2 * w + b < 2 ^ (nbits + 1)" "2 ^ nbits \<le> 2 * w + b"
proof -
  have "wsize - nbits = Suc (wsize - (nbits + 1))"
    using assms(1) by (auto simp: window_state_def)
  then show "wbits OR push_bit (wsize - (nbits + 1)) b = (2 * w + b) * 2 ^ (wsize - (nbits + 1))"
    using assms(1) window_or [OF assms(2)] by (simp add: window_state_def)
  show "2 * w + b < 2 ^ (nbits + 1)" "2 ^ nbits \<le> 2 * w + b"
    using assms by (cases nbits; auto simp: window_state_def)+
qed

lemma window_done:
  assumes c: "mont_ready c" and C: "ct_copies (ct c)" "ct_compares (ct c)" and room: "plenty M m"
    and W: "table_ready c wsize m a W" and X: "represents c X x" and WW: "mpi_n WW \<le> m"
    and w: "2 ^ (wsize - 1) \<le> w" "w < 2 ^ wsize"
  obtains X1 V Y where "mont_squares c wsize X = Inr X1" "mpi_select M (ct c) WW W (2 ^ wsize) w = Inr V" "mont_mul c X1 V = Inr Y"
    "represents c Y (x ^ 2 ^ wsize * a ^ w)" "mpi_s Y = mpi_s X" "mpi_n Y = mpi_n X" "mpi_n V \<le> m"
proof -
  obtain X1 where X1: "mont_squares c wsize X = Inr X1" "represents c X1 (x ^ 2 ^ wsize)" "mpi_s X1 = mpi_s X" "mpi_n X1 = mpi_n X"
    using mont_squares_represents [OF c X] by blast
  have len: "\<forall>j<length W. mpi_n (W ! j) \<le> m" "2 ^ wsize \<le> length W" "represents c (W ! w) (a ^ w)"
    using W w by (auto simp: table_ready_def)
  obtain V where V: "mpi_select M (ct c) WW W (2 ^ wsize) w = Inr V" "mpi_abs V = mpi_abs (W ! w)" "mpi_n (W ! w) \<le> mpi_n V" "mpi_n V \<le> m"
    by (rule mpi_select_fact [OF C room WW len(1) w(2) len(2)])
  have "represents c V (a ^ w)"
    using len(3) V(2,3) by (simp add: represents_def)
  then obtain Y where Y: "mont_mul c X1 V = Inr Y" "represents c Y (x ^ 2 ^ wsize * a ^ w)" "mpi_s Y = mpi_s X1" "mpi_n Y = mpi_n X1"
    by (rule mont_mul_represents [OF c X1(2)])
  show ?thesis
    by (rule that [OF X1(1) V(1) Y(1,2)]) (use X1 Y V in simp_all)
qed

lemma exp_loop_fact:
  fixes c :: "'l::len word mont_context"
  assumes c: "mont_ready c" and C: "ct_copies (ct c)" "ct_compares (ct c)" and room: "plenty M m"
    and W: "table_ready c wsize m a W"
  shows "\<forall>ei\<in>set es. ei = 0 \<or> ei = 1 \<Longrightarrow> window_state wsize e w nbits wbits st \<Longrightarrow> represents c X (a ^ e) \<Longrightarrow> mpi_n WW \<le> m \<Longrightarrow>
    \<exists>X' e' w' nbits'. exp_loop M c wsize W es X WW nbits wbits st = Inr (X', nbits', w' * 2 ^ (wsize - nbits')) \<and>
      represents c X' (a ^ e') \<and> nbits' < wsize \<and> w' < 2 ^ nbits' \<and>
      e' * 2 ^ nbits' + w' = foldl (\<lambda>v ei. 2 * v + unat ei) (e * 2 ^ nbits + w) es \<and> mpi_s X' = mpi_s X \<and> mpi_n X' = mpi_n X"
proof (induction es arbitrary: X e w nbits wbits st WW)
  case Nil
  then show ?case
    by (intro exI [of _ X] exI [of _ e] exI [of _ w] exI [of _ nbits]) (simp add: window_state_def)
next
  case (Cons ei es)
  have bits: "\<forall>ei\<in>set es. ei = 0 \<or> ei = 1" "unat ei = 0 \<or> unat ei = 1"
    using Cons.prems(1) by auto
  consider (skip) "ei = 0" "st = 0" | (square) "ei = 0" "st = 1" | (add) "\<not> (ei = 0 \<and> st = 0)" "\<not> (ei = 0 \<and> st = 1)"
    by blast
  then show ?case
  proof cases
    case skip
    then have "e * 2 ^ nbits + w = 0"
      using Cons.prems(2) by (auto simp: window_state_def)
    then show ?thesis
      using Cons.IH [OF bits(1) Cons.prems(2-4)] skip by simp
  next
    case square
    then have z: "nbits = 0" "w = 0" "wbits = 0" "0 < wsize"
      using Cons.prems(2) by (auto simp: window_state_def)
    obtain Y where Y: "mont_mul c X X = Inr Y" "represents c Y (a ^ e * a ^ e)" "mpi_s Y = mpi_s X" "mpi_n Y = mpi_n X"
      by (rule mont_mul_represents [OF c Cons.prems(3) Cons.prems(3)])
    have "window_state wsize (2 * e) 0 0 0 1" "represents c Y (a ^ (2 * e))"
      using Y(2) z(4) by (simp_all add: window_state_def mult_2 power_add)
    then show ?thesis
      using Cons.IH [OF bits(1) _ _ Cons.prems(4), of "2 * e" 0 0 0 1 Y] square Y z by simp
  next
    case add
    let ?b = "unat ei" and ?w = "2 * w + unat ei" and ?nb = "nbits + 1"
    have "?b = 1 \<or> st \<noteq> 0 \<and> st \<noteq> 1"
      using add bits(2) by (auto simp: unat_eq_0)
    note step = window_add [OF Cons.prems(2) bits(2) this]
    have val: "foldl (\<lambda>v ei. 2 * v + unat ei) (e * 2 ^ nbits + w) (ei # es) =
        foldl (\<lambda>v ei. 2 * v + unat ei) (e * 2 ^ ?nb + ?w) es"
      by (simp add: algebra_simps)
    show ?thesis
    proof (cases "?nb = wsize")
      case True
      have w: "2 ^ (wsize - 1) \<le> ?w" "?w < 2 ^ wsize"
        using step(2,3) True by auto
      obtain X1 V Y where Y: "mont_squares c wsize X = Inr X1" "mpi_select M (ct c) WW W (2 ^ wsize) ?w = Inr V" "mont_mul c X1 V = Inr Y"
          "represents c Y ((a ^ e) ^ 2 ^ wsize * a ^ ?w)" "mpi_s Y = mpi_s X" "mpi_n Y = mpi_n X" "mpi_n V \<le> m"
        by (rule window_done [OF c C room W Cons.prems(3,4) w])
      have "represents c Y (a ^ (e * 2 ^ wsize + ?w))"
        using Y(4) by (simp only: power_mult power_add)
      moreover have "window_state wsize (e * 2 ^ wsize + ?w) 0 0 0 1"
        using True by (simp add: window_state_def)
      moreover have run: "exp_loop M c wsize W (ei # es) X WW nbits wbits st = exp_loop M c wsize W es Y V 0 0 1"
        using add True step(1) Y(1-3) by (auto simp: Let_def push_bit_eq_mult)
      ultimately show ?thesis
        unfolding run val True using Cons.IH [OF bits(1) _ _ Y(7), of "e * 2 ^ wsize + ?w" 0 0 0 1 Y] Y(5,6) by simp
    next
      case False
      then have "window_state wsize e ?w ?nb (?w * 2 ^ (wsize - ?nb)) 2"
        using Cons.prems(2) step by (auto simp: window_state_def)
      moreover have run: "exp_loop M c wsize W (ei # es) X WW nbits wbits st =
          exp_loop M c wsize W es X WW ?nb (?w * 2 ^ (wsize - ?nb)) 2"
        using add False step(1) by (auto simp: Let_def)
      ultimately show ?thesis
        unfolding run val by (intro Cons.IH [OF bits(1) _ Cons.prems(3,4)])
    qed
  qed
qed

text \<open>The bits that are left, from the highest one.\<close>

lemma top_bit_test:
  fixes w v :: nat
  assumes "v mod 2 ^ wsize = w * 2 ^ (wsize - Suc k)" and "w < 2 ^ Suc k" and "Suc k \<le> wsize"
  shows "push_bit 1 v AND push_bit wsize 1 \<noteq> 0 \<longleftrightarrow> 2 ^ k \<le> w"
    "push_bit 1 v mod 2 ^ wsize = (w mod 2 ^ k) * 2 ^ (wsize - k)"
proof -
  have p: "(2 :: nat) ^ wsize = 2 ^ Suc k * 2 ^ (wsize - Suc k)" "(2 :: nat) ^ (wsize - k) = 2 * 2 ^ (wsize - Suc k)"
    "(2 :: nat) ^ wsize = 2 ^ k * 2 ^ (wsize - k)"
    using assms(3) by (simp_all flip: power_add power_Suc add: Suc_diff_Suc Suc_diff_le)
  have "push_bit 1 v AND push_bit wsize 1 \<noteq> 0 \<longleftrightarrow> bit (push_bit 1 v) wsize"
    by (simp add: and_exp_eq_0_iff_not_bit push_bit_eq_mult [of wsize])
  also have "\<dots> \<longleftrightarrow> bit v (wsize - 1)"
    unfolding bit_push_bit_iff_nat using assms(3) by simp
  also have "\<dots> \<longleftrightarrow> bit (v mod 2 ^ wsize) (wsize - 1)"
    using assms(3) by (simp add: bit_simps flip: take_bit_eq_mod)
  also have "\<dots> \<longleftrightarrow> bit (push_bit (wsize - Suc k) w) (wsize - 1)"
    unfolding assms(1) by (simp add: push_bit_eq_mult)
  also have "\<dots> \<longleftrightarrow> bit w k"
    using assms(3) by (auto simp: bit_simps)
  also have "\<dots> \<longleftrightarrow> 2 ^ k \<le> w"
  proof (cases "2 ^ k \<le> w")
    case True
    then have "w div 2 ^ k = 1"
      using assms(2) by (intro div_nat_eqI) simp_all
    then show ?thesis
      using True by (simp add: bit_iff_odd)
  qed (simp add: bit_iff_odd)
  finally show "push_bit 1 v AND push_bit wsize 1 \<noteq> 0 \<longleftrightarrow> 2 ^ k \<le> w" .
  have "push_bit 1 v mod 2 ^ wsize = (2 * (v mod 2 ^ wsize)) mod 2 ^ wsize"
    by (simp add: mod_mult_right_eq mult.commute)
  also have "\<dots> = (w * 2 ^ (wsize - k)) mod (2 ^ k * 2 ^ (wsize - k))"
    unfolding assms(1) unfolding p(3) unfolding p(2) by (simp add: ac_simps)
  also have "\<dots> = (w mod 2 ^ k) * 2 ^ (wsize - k)"
    by (simp add: mod_mult_mult2)
  finally show "push_bit 1 v mod 2 ^ wsize = (w mod 2 ^ k) * 2 ^ (wsize - k)" .
qed

lemma exp_rest_fact:
  assumes c: "mont_ready c" and W: "represents c W1 a"
  shows "represents c X (a ^ e) \<Longrightarrow> v mod 2 ^ wsize = w * 2 ^ (wsize - k) \<Longrightarrow> w < 2 ^ k \<Longrightarrow> k \<le> wsize \<Longrightarrow>
    \<exists>Y. exp_rest c wsize W1 k X v = Inr Y \<and> represents c Y (a ^ (e * 2 ^ k + w)) \<and> mpi_s Y = mpi_s X \<and> mpi_n Y = mpi_n X"
proof (induction k arbitrary: X e v w)
  case (Suc k)
  let ?v = "push_bit 1 v"
  note bit = top_bit_test [OF Suc.prems(2-4)]
  have double: "a ^ e * a ^ e = a ^ (2 * e)"
    by (simp add: mult_2 power_add)
  obtain X1 where X1: "mont_mul c X X = Inr X1" "represents c X1 (a ^ (2 * e))" "mpi_s X1 = mpi_s X" "mpi_n X1 = mpi_n X"
    using mont_mul_represents [OF c Suc.prems(1) Suc.prems(1)] unfolding double by blast
  let ?t = "if 2 ^ k \<le> w then 1 else 0 :: nat"
  obtain X2 where X2: "(if ?v AND push_bit wsize 1 \<noteq> 0 then mont_mul c X1 W1 else Inr X1) = Inr X2"
      "represents c X2 (a ^ (2 * e + ?t))" "mpi_s X2 = mpi_s X" "mpi_n X2 = mpi_n X"
  proof (cases "2 ^ k \<le> w")
    case True
    obtain Y where "mont_mul c X1 W1 = Inr Y" "represents c Y (a ^ (2 * e) * a)" "mpi_s Y = mpi_s X1" "mpi_n Y = mpi_n X1"
      by (rule mont_mul_represents [OF c X1(2) W])
    then show ?thesis
      using that [of Y] bit(1) True X1(3,4) by (simp add: mult.commute)
  qed (use that [of X1] bit(1) X1 in simp)
  have less: "w mod 2 ^ k < 2 ^ k"
    by simp
  have "(2 * e + ?t) * 2 ^ k + w mod 2 ^ k = e * 2 ^ Suc k + w"
  proof (cases "2 ^ k \<le> w")
    case True
    then have "w mod 2 ^ k = w - 2 ^ k"
      using Suc.prems(3) by (simp add: mod_if [of w] le_mod_geq)
    then show ?thesis
      using True by (simp add: algebra_simps)
  qed simp
  then show ?case
    using Suc.IH [OF X2(2) bit(2) less] Suc.prems(4) X1(1) X2 by (simp add: Let_def)
qed simp

section \<open>The bits of the exponent\<close>

lemma unat_and_one: "unat (x AND 1) = unat x mod 2" for x :: "'l::len word"
proof -
  have "unat (x AND 1) = unat x AND 1"
    by (simp only: unsigned_and_eq unsigned_1)
  then show ?thesis
    by (simp only: and_one_eq)
qed

lemma limb_bits:
  fixes x :: "'l::len word"
  shows "foldl (\<lambda>v ei. 2 * v + unat ei) v (map (\<lambda>b. drop_bit b x AND 1) (rev [0..<k])) = v * 2 ^ k + unat x mod 2 ^ k"
proof (induction k arbitrary: v)
  case (Suc k)
  have "unat (drop_bit k x AND 1) = unat x div 2 ^ k mod 2"
    unfolding unat_and_one unat_drop_bit_eq by (simp add: drop_bit_eq_div)
  moreover have "unat x mod 2 ^ Suc k = 2 ^ k * (unat x div 2 ^ k mod 2) + unat x mod 2 ^ k"
    using mod_mult2_eq [of "unat x" "2 ^ k" 2] by (simp add: mult.commute)
  ultimately show ?case
    using Suc.IH by (simp add: algebra_simps)
qed simp

lemma exp_bits_prefix:
  fixes p :: "'l::len word list"
  assumes "k \<le> length p"
  shows "foldl (\<lambda>v ei. 2 * v + unat ei) v
      (concat (map (\<lambda>i. map (\<lambda>b. drop_bit b (p ! i) AND 1) (rev [0..<LENGTH('l)])) (rev [0..<k]))) =
    v * 2 ^ (LENGTH('l) * k) + limbs_val (take k p)"
  using assms
proof (induction k arbitrary: v)
  case (Suc k)
  then show ?case
    using limb_bits [where 'l = 'l and k = "LENGTH('l)" and x = "p ! k"] limb_less [of "p ! k"]
    by (simp add: limbs_val_take_Suc power_add algebra_simps)
qed simp

lemma exp_bits_val: "foldl (\<lambda>v ei. 2 * v + unat ei) 0 (exp_bits E) = mpi_abs E"
  using exp_bits_prefix [of "mpi_n E" "mpi_p E" 0] by (simp add: exp_bits_def mpi_abs_def)

lemma exp_bits_binary: "\<forall>ei\<in>set (exp_bits E). ei = 0 \<or> ei = 1"
  by (auto simp: exp_bits_def and_one_eq mod2_eq_if split: if_splits)

lemma and_one_odd: "x AND 1 \<noteq> 0 \<longleftrightarrow> odd (unat x)" for x :: "'l::len word"
proof -
  have "x AND 1 = 0 \<longleftrightarrow> unat (x AND 1) = 0"
    by (simp only: unat_eq_0)
  then show ?thesis
    unfolding unat_and_one by presburger
qed

lemma exp_power_fact:
  fixes c :: "'l::len word mont_context"
  assumes c: "mont_ready c" and C: "ct_copies (ct c)" "ct_compares (ct c)" and room: "plenty M m" "mpi_n (modulus c) < m"
    and wsize: "0 < wsize" "2 ^ wsize \<le> length W" and W: "\<forall>j<length W. mpi_n (W ! j) \<le> m"
    and W1: "mpi_n (modulus c) \<le> mpi_n W1" "mpi_n W1 \<le> m" "mpi_abs W1 = a mod mod_N c"
    and RR: "mpi_abs RR = mont_R c * mont_R c mod mod_N c" "mpi_n RR \<noteq> 0" "mpi_n RR \<le> m"
    and X: "mpi_n (modulus c) \<le> mpi_n X" "mpi_n X \<le> m"
  shows "\<exists>Y. exp_power M c wsize W W1 RR E X = Inr Y \<and> mpi_abs Y = a ^ mpi_abs E mod mod_N c \<and>
    mpi_s Y = mpi_s RR \<and> mpi_n Y \<le> m"
proof -
  note R = mont_ready_R [OF c]
  have RR_less: "mpi_abs RR < mod_N c" "mpi_abs W1 < mod_N c"
    using RR(1) W1(3) R(2) by simp_all
  obtain V where V: "mont_mul c W1 RR = Inr V" "mpi_n V = mpi_n W1" "mpi_abs V < mod_N c"
      "mpi_abs V * mont_R c mod mod_N c = mpi_abs W1 * mpi_abs RR mod mod_N c"
    using mont_mul_fact [OF c W1(1) RR_less(2) RR(2)] RR_less(1) by auto
  have "represents c V a"
    using V W1 RR(1) by (intro represents_I [OF c]) (simp_all add: mod_mult_eq mult.assoc)
  have "plenty M (mpi_n RR)"
    using room(1) RR(3) by (rule plenty_mono)
  then obtain X1 where X1: "mbedtls_mpi_copy M X (Other RR) = Inr X1"
    using copy_succeeds by blast
  have x1: "mpi_abs X1 = mpi_abs RR" "mpi_n X \<le> mpi_n X1" "mpi_n X1 \<le> m" "mpi_s X1 = mpi_s RR"
    using copy_fact(1,3,4,6) [OF X1] RR(2,3) X(2) by auto
  let ?one = "\<lparr>mpi_s = 1, mpi_p = [1]\<rparr> :: 'l word mpi"
  have one: "mpi_n ?one \<noteq> 0" "mpi_abs ?one = 1"
    by (simp_all add: mpi_abs_def)
  have red: "mpi_montred (core c) (ct c) Z (modulus c) (mont_mm c) (temp c) = mont_mul c Z ?one" for Z
    by (simp add: mpi_montred_def mont_mul_def)
  obtain X2 where X2: "mont_mul c X1 ?one = Inr X2" "mpi_s X2 = mpi_s RR" "mpi_n X2 = mpi_n X1" "mpi_abs X2 < mod_N c"
      "mpi_abs X2 * mont_R c mod mod_N c = mpi_abs RR mod mod_N c"
    using mont_mul_fact [OF c, of X1 ?one] x1 X(1) RR_less(1) one R(2) by auto
  have rep1: "represents c X2 (a ^ 0)"
    using X2 x1 X(1) RR(1) by (intro represents_I [OF c]) simp_all
  let ?W = "W[1 := V]"
  have "1 < length W"
    using wsize one_less_power [of "2 :: nat" wsize] by simp
  then have "\<exists>W'. window_table M c wsize ?W = Inr W' \<and> table_ready c wsize m a W'"
    using wsize W \<open>represents c V a\<close> V(2) W1(2) by (intro window_table_fact [OF c room]) (auto simp: nth_list_update)
  then obtain T where T: "window_table M c wsize ?W = Inr T" "table_ready c wsize m a T"
    by blast
  have "window_state wsize 0 0 0 0 0"
    using wsize(1) by (simp add: window_state_def)
  then obtain X3 e w nbits where X3: "exp_loop M c wsize T (exp_bits E) X2 mbedtls_mpi_init 0 0 0 = Inr (X3, nbits, w * 2 ^ (wsize - nbits))"
      "represents c X3 (a ^ e)" "nbits < wsize" "w < 2 ^ nbits" "e * 2 ^ nbits + w = mpi_abs E" "mpi_s X3 = mpi_s RR" "mpi_n X3 = mpi_n X1"
    using exp_loop_fact [OF c C room(1) T(2), of "exp_bits E" 0 0 0 0 0 X2 mbedtls_mpi_init] rep1 exp_bits_binary [of E] X2(2,3)
    by (auto simp: exp_bits_val)
  have "w * 2 ^ (wsize - nbits) < 2 ^ nbits * 2 ^ (wsize - nbits)"
    using X3(4) by simp
  then have "w * 2 ^ (wsize - nbits) mod 2 ^ wsize = w * 2 ^ (wsize - nbits)"
    using X3(3) by (simp flip: power_add)
  moreover have "represents c (T ! 1) a"
    using T(2) by (simp add: table_ready_def)
  ultimately have "\<exists>Y. exp_rest c wsize (T ! 1) nbits X3 (w * 2 ^ (wsize - nbits)) = Inr Y \<and>
      represents c Y (a ^ (e * 2 ^ nbits + w)) \<and> mpi_s Y = mpi_s X3 \<and> mpi_n Y = mpi_n X3"
    by (intro exp_rest_fact [OF c _ X3(2)]) (use X3(3,4) in simp_all)
  then obtain X4 where X4: "exp_rest c wsize (T ! 1) nbits X3 (w * 2 ^ (wsize - nbits)) = Inr X4"
      "represents c X4 (a ^ mpi_abs E)" "mpi_s X4 = mpi_s RR" "mpi_n X4 = mpi_n X1"
    unfolding X3(5-7) by blast
  obtain Y where Y: "mont_mul c X4 ?one = Inr Y" "mpi_s Y = mpi_s RR" "mpi_n Y = mpi_n X1" "mpi_abs Y < mod_N c"
      "mpi_abs Y * mont_R c mod mod_N c = mpi_abs X4 mod mod_N c"
    using mont_mul_fact [OF c, of X4 ?one] represents_less [OF c X4(2)] X4 one R(2) by (auto simp: represents_def)
  have "mpi_abs X4 = a ^ mpi_abs E * mont_R c mod mod_N c"
    using X4(2) by (simp add: represents_def)
  from Y(5) [unfolded this mod_mod_trivial] R(3) have "mpi_abs Y mod mod_N c = a ^ mpi_abs E mod mod_N c"
    by (rule mod_cancel)
  then have "mpi_abs Y = a ^ mpi_abs E mod mod_N c"
    using Y(4) by simp
  moreover have "exp_power M c wsize W W1 RR E X = Inr Y"
    using V(1) X1 X2(1) T(1) X3(1) X4(1) Y(1) by (simp add: exp_power_def red)
  ultimately show ?thesis
    using Y x1(3) by simp
qed

section \<open>Exponentiation\<close>

lemma val_pos: "has_sign N \<Longrightarrow> 0 < mpi_val N \<Longrightarrow> mpi_val N = int (mpi_abs N) \<and> mpi_s N = 1"
  by (auto simp: has_sign_def mpi_val_def mult_less_0_iff)

definition R_of :: "'l::len word mpi \<Rightarrow> nat" where
  "R_of N = 2 ^ (LENGTH('l) * mpi_n N)"

text \<open>The number that a caller keeps between calls.\<close>

definition cached_RR :: "'l::len word mpi \<Rightarrow> 'l word mpi option \<Rightarrow> bool" where
  "cached_RR N prec_RR \<longleftrightarrow> (\<forall>RR. prec_RR = Some RR \<and> mpi_p RR \<noteq> [] \<longrightarrow>
     has_sign RR \<and> mpi_val RR = int (R_of N * R_of N mod mpi_abs N) \<and> mpi_n RR \<le> 2 * mpi_n N + 4)"

lemma square_of_R_fact:
  fixes N :: "'l::len word mpi"
  assumes K: "muladdc_exact K" and u: "have_udbl \<or> even LENGTH('l)" "1 < LENGTH('l)"
    and N: "has_sign N" "0 < mpi_val N" and prec: "cached_RR N prec_RR"
    and room: "plenty M (2 * mpi_n N + 5)" "(2 * mpi_n N + 4) * LENGTH('l) < 2 ^ SIZE_BITS M"
  shows "\<exists>RR P. exp_square_of_R M K have_udbl N prec_RR = Some (Inr (RR, P)) \<and> has_sign RR \<and>
    mpi_val RR = int (R_of N * R_of N mod mpi_abs N) \<and> mpi_n RR \<noteq> 0 \<and> mpi_n RR \<le> 2 * mpi_n N + 4 \<and> cached_RR N P"
proof (cases "prec_RR = None \<or> mpi_p (the prec_RR) = []")
  case False
  then show ?thesis
    using prec by (auto simp: exp_square_of_R_def cached_RR_def)
next
  case True
  let ?L = "LENGTH('l)" and ?n = "mpi_n N"
  obtain I where I: "mbedtls_mpi_lset M mbedtls_mpi_init (1 :: 'l word) = Inr I"
    using lset_succeeds [of M mbedtls_mpi_init "1 :: 'l word"] plenty_mono [OF room(1), of 1] by auto
  have one: "sint (1 :: 'l word) = 1"
    using u(2) by simp
  have i: "mpi_abs I = 1" "mpi_s I = 1" "mpi_n I = 1"
    using lset_fact(2,3,5) [OF I] one by (simp_all add: sint_abs_def sint_sign_def mbedtls_mpi_init_def)
  have "mbedtls_mpi_bitlen I \<le> 1" "0 < mbedtls_mpi_bitlen I"
    using bitlen_le_iff [of I 1] bitlen_bounds(2) [of I] i(1) by simp_all
  then have bits: "mbedtls_mpi_bitlen I = 1"
    by simp
  have limbs: "BITS_TO_LIMBS TYPE('l) (1 + ?n * 2 * ?L) = 2 * ?n + 1"
    using u(2) div_mult_self1 [of ?L 1 "?n * 2"] mod_mult_self1 [of 1 "?n * 2" ?L] by (simp add: BITS_TO_LIMBS_def)
  have size: "mbedtls_mpi_bitlen I + ?n * 2 * ?L < 2 ^ SIZE_BITS M"
    using room(2) u(2) unfolding bits by (simp add: algebra_simps)
  moreover have "plenty M (BITS_TO_LIMBS TYPE('l) (mbedtls_mpi_bitlen I + ?n * 2 * ?L))"
    unfolding bits limbs using room(1) by (rule plenty_mono) simp
  ultimately obtain S where S: "mbedtls_mpi_shift_l M I (?n * 2 * ?L) = Inr S"
    using shift_l_succeeds by blast
  have s: "mpi_abs S = R_of N * R_of N" "mpi_s S = 1" "mpi_n S = 2 * ?n + 1"
    using shift_l_fact [OF S size] i unfolding bits limbs
    by (simp_all add: R_of_def algebra_simps flip: power_add mult_2)
  have "(mpi_n S + 2) * ?L < 2 ^ SIZE_BITS M"
    using room(2) s(3) by (simp add: algebra_simps)
  then have "room_for_remainder M S S N"
    using room(1) s(3) by (auto simp: room_for_remainder_def room_for_division_def elim!: plenty_mono)
  then obtain RR where RR: "mbedtls_mpi_mod_mpi M K have_udbl S Self (Other N) = Some (Inr RR)"
      "mpi_val RR = mpi_val S mod mpi_val N" "has_sign RR" "mpi_n S \<le> mpi_n RR" "mpi_n RR \<le> 2 * ?n + 4"
    using mod_mpi_fact [OF K u(1), of M S Self N] N s(2,3) by (auto simp: has_sign_def)
  have "mpi_val RR = int (R_of N * R_of N mod mpi_abs N)"
    using RR(2) val_pos [OF N] s(1,2) by (simp add: mpi_val_def of_nat_mod)
  moreover have "exp_square_of_R M K have_udbl N prec_RR = Some (Inr (RR, map_option (\<lambda>_. RR) prec_RR))"
    using True I S RR(1) by (simp add: exp_square_of_R_def)
  ultimately show ?thesis
    using RR(3-5) s(3) by (auto simp: cached_RR_def)
qed

lemma exp_base_fact:
  fixes N :: "'l::len word mpi"
  assumes K: "muladdc_exact K" and u: "have_udbl \<or> even LENGTH('l)"
    and N: "has_sign N" "0 < mpi_val N" and A: "mpi_s A = 1" and W: "mpi_n W = mpi_n N + 1"
    and room: "plenty M (max (mpi_n A) (mpi_n N) + 3)" "(mpi_n A + 2) * LENGTH('l) < 2 ^ SIZE_BITS M"
  shows "\<exists>W1. exp_base M K have_udbl W A N = Some (Inr W1) \<and> mpi_abs W1 = mpi_abs A mod mpi_abs N \<and>
    mpi_n N < mpi_n W1 \<and> mpi_n W1 \<le> max (mpi_n A) (mpi_n N) + 3"
proof -
  have sign: "has_sign A"
    using A by (simp add: has_sign_def)
  have cmp: "0 \<le> mbedtls_mpi_cmp_mpi A N \<longleftrightarrow> mpi_abs N \<le> mpi_abs A"
    using cmp_mpi_val [OF sign N(1)] val_pos [OF N] A by (simp add: mpi_val_def sgn_if)
  show ?thesis
  proof (cases "mpi_abs N \<le> mpi_abs A")
    case True
    have "room_for_remainder M W A N"
      using room W by (auto simp: room_for_remainder_def room_for_division_def elim!: plenty_mono)
    then obtain Y where Y: "mbedtls_mpi_mod_mpi M K have_udbl W (Other A) (Other N) = Some (Inr Y)"
        "mpi_val Y = mpi_val A mod mpi_val N" "has_sign Y" "mpi_n W \<le> mpi_n Y" "mpi_n Y \<le> max (mpi_n A) (mpi_n N) + 3"
      using mod_mpi_fact [OF K u, of M W "Other A" N] N sign W by auto
    have "plenty M (mpi_n N + 1)"
      using room(1) by (rule plenty_mono) simp
    then obtain Z where Z: "mbedtls_mpi_grow M Y (mpi_n N + 1) = Inr Z"
      using grow_succeeds by blast
    have "mpi_val Y = int (mpi_abs A mod mpi_abs N)"
      using Y(2) val_pos [OF N] A by (simp add: mpi_val_def of_nat_mod)
    then have "mpi_abs Z = mpi_abs A mod mpi_abs N"
      using grow_fact(4) [OF Z] val_nonneg [OF Y(3)] by simp
    then show ?thesis
      using True cmp Y Z grow_fact(3) [OF Z] W by (simp add: exp_base_def)
  next
    case False
    have "plenty M (mpi_n A)"
      using room(1) by (rule plenty_mono) simp
    then obtain Y where Y: "mbedtls_mpi_copy M W (Other A) = Inr Y"
      using copy_succeeds by blast
    show ?thesis
      using False cmp Y copy_fact(1,3,4) [OF Y] W by (simp add: exp_base_def)
  qed
qed

lemma window_size_bounds:
  assumes "0 < MPI_WINDOW_SIZE cfg"
  shows "0 < window_size cfg i" "window_size cfg i \<le> MPI_WINDOW_SIZE cfg"
  using assms by (auto simp: window_size_def Let_def)

lemma signed_power_mod:
  fixes a e N :: nat
  assumes "0 < N"
  shows "(- int a) ^ e mod int N =
    (if even e then int (a ^ e mod N) else if N dvd a ^ e then 0 else int N - int (a ^ e mod N))"
proof (cases "even e")
  case False
  then have "(- int a) ^ e mod int N = (- int (a ^ e)) mod int N"
    by simp
  then show ?thesis
    using False by (simp add: zmod_zminus1_eq_if of_nat_mod flip: of_nat_power of_nat_dvd_iff dvd_eq_mod_eq_0)
qed (simp add: of_nat_mod)

text \<open>What the function needs of the heap, in limbs and in the range of \<open>size_t\<close>.\<close>

definition room_for_exp :: "platform \<Rightarrow> 'l::len word mpi \<Rightarrow> 'l word mpi \<Rightarrow> 'l word mpi \<Rightarrow> bool" where
  "room_for_exp M X A N \<longleftrightarrow>
     (let k = max (mpi_n X) (max (mpi_n A) (2 * mpi_n N + 1)) in plenty M (k + 5) \<and> (k + 4) * LENGTH('l) < 2 ^ SIZE_BITS M)"

lemma exp_positive_fact:
  assumes "has_sign A" and "plenty M (mpi_n A)"
  shows "\<exists>B. exp_positive M (mpi_s A = - 1) A = Inr B \<and> mpi_s B = 1 \<and> mpi_abs B = mpi_abs A \<and> mpi_n B \<le> mpi_n A"
proof (cases "mpi_s A = - 1")
  case True
  obtain B where B: "mbedtls_mpi_copy M mbedtls_mpi_init (Other A) = Inr B"
    using copy_succeeds [OF assms(2)] by blast
  show ?thesis
    using B copy_fact(1,4) [OF B] True by (simp add: exp_positive_def mbedtls_mpi_init_def mpi_abs_def)
qed (use assms(1) in \<open>simp add: exp_positive_def has_sign_def\<close>)

lemma abs_val_cases: "has_sign A \<Longrightarrow> mpi_val A = (if mpi_s A = - 1 then - int (mpi_abs A) else int (mpi_abs A))"
  by (auto simp: has_sign_def mpi_val_def)

lemma exp_mod_fact:
  fixes X :: "'l::len word mpi"
  assumes cfg: "0 < MPI_WINDOW_SIZE cfg" and K: "muladdc_exact K" and u: "have_udbl \<or> even LENGTH('l)" and L: "LENGTH('l) = 4 * 2 ^ h"
    and C: "ct_assigns C" "ct_copies C" "ct_compares C"
    and sign: "has_sign (deref X A)" "has_sign E" "has_sign N" and N: "0 < mpi_val N" "odd (mpi_val N)"
    and E: "0 \<le> mpi_val E" and bits: "mbedtls_mpi_bitlen E \<le> MPI_MAX_BITS cfg" "mbedtls_mpi_bitlen N \<le> MPI_MAX_BITS cfg"
    and prec: "cached_RR N prec_RR" and room: "room_for_exp M X (deref X A) N"
  shows "\<exists>Y P. mbedtls_mpi_exp_mod cfg M K have_udbl C X A E N prec_RR = Some (Inr (Y, P)) \<and> cached_RR N P \<and>
    mpi_val Y = (if mpi_s (deref X A) = - 1 \<and> odd (mpi_val E) \<and> mpi_val N dvd mpi_val (deref X A) ^ nat (mpi_val E)
      then mpi_val N else mpi_val (deref X A) ^ nat (mpi_val E) mod mpi_val N) \<and>
    (mpi_s (deref X A) = 1 \<longrightarrow> has_sign Y \<and> mpi_n Y \<le> max (mpi_n X) (max (mpi_n (deref X A)) (2 * mpi_n N + 1)) + 4)"
proof -
  define k where "k = max (mpi_n X) (max (mpi_n (deref X A)) (2 * mpi_n N + 1))"
  have room: "plenty M (k + 5)" "(k + 4) * LENGTH('l) < 2 ^ SIZE_BITS M"
    using room by (simp_all add: room_for_exp_def k_def Let_def)
  have plenty: "plenty M i" if "i \<le> k + 5" for i
    using room(1) that by (rule plenty_mono)
  have size: "i * LENGTH('l) < 2 ^ SIZE_BITS M" if "i \<le> k + 4" for i
    using room(2) mult_le_mono1 [OF that, of "LENGTH('l)"] by linarith
  have k: "mpi_n X \<le> k" "mpi_n (deref X A) \<le> k" "2 * mpi_n N + 1 \<le> k"
    by (simp_all add: k_def)
  have n: "mpi_abs N \<noteq> 0" "mpi_n N \<noteq> 0" "odd (mpi_abs N)" "mpi_val N = int (mpi_abs N)"
    using N val_pos [OF sign(3) N(1)] by (auto simp: mpi_abs_def)
  have e: "mpi_abs E = nat (mpi_val E)" "odd (mpi_val E) \<longleftrightarrow> odd (mpi_abs E)"
    using E abs_val_cases [OF sign(2)] by (auto split: if_splits)
  define j where "j = mpi_n N + 1"
  obtain X1 where X1: "mbedtls_mpi_grow M X j = Inr X1"
    using grow_succeeds [OF plenty, of j X] k by (auto simp: j_def)
  let ?Z = "\<lparr>mpi_s = 0, mpi_p = []\<rparr> :: 'l word mpi"
  obtain W1 where W1: "mbedtls_mpi_grow M ?Z j = Inr W1"
    using grow_succeeds [OF plenty, of j ?Z] k by (auto simp: j_def)
  obtain T where T: "mbedtls_mpi_grow M (mbedtls_mpi_init :: 'l word mpi) (j * 2) = Inr T"
    using grow_succeeds [OF plenty, of "j * 2" mbedtls_mpi_init] k by (auto simp: j_def)
  let ?A = "deref X1 A"
  have A: "has_sign ?A" "mpi_s ?A = mpi_s (deref X A)" "mpi_val ?A = mpi_val (deref X A)" "mpi_n ?A \<le> k"
    using grow_fact [OF X1] sign(1) k by (cases A; simp add: has_sign_def j_def)+
  obtain B where B: "exp_positive M (mpi_s ?A = - 1) ?A = Inr B" "mpi_s B = 1" "mpi_abs B = mpi_abs ?A" "mpi_n B \<le> mpi_n ?A"
    using exp_positive_fact [OF A(1) plenty] A(4) by auto
  have "(1 :: nat) \<le> 2 ^ h"
    by simp
  then have L1: "1 < LENGTH('l)"
    unfolding L by linarith
  obtain RR P where RR: "exp_square_of_R M K have_udbl N prec_RR = Some (Inr (RR, P))" "has_sign RR"
      "mpi_val RR = int (R_of N * R_of N mod mpi_abs N)" "mpi_n RR \<noteq> 0" "mpi_n RR \<le> 2 * mpi_n N + 4" "cached_RR N P"
    using square_of_R_fact [OF K u L1 sign(3) N(1) prec plenty size] k(3) by auto
  obtain V where V: "exp_base M K have_udbl W1 B N = Some (Inr V)" "mpi_abs V = mpi_abs ?A mod mpi_abs N"
      "mpi_n N < mpi_n V" "mpi_n V \<le> k + 3"
    using exp_base_fact [OF K u sign(3) N(1) B(2) _ plenty size, of W1] grow_fact(3) [OF W1] k A(4) B(3,4)
    by (auto simp: j_def)
  let ?c = "\<lparr>core = K, ct = C, modulus = N, mont_mm = mpi_montg_init N, temp = T\<rparr>"
  have low: "odd (unat (mpi_p N ! 0))"
    using low_limb_odd [of N] n(3) by simp
  then have "mpi_montg_init N * mpi_p N ! 0 = - 1"
    using montg_init_val [OF L] by simp
  then have ready: "mont_ready ?c"
    using K C(1) n grow_fact(3) [OF T] by (simp add: mont_ready_def j_def)
  let ?wsize = "window_size cfg (mbedtls_mpi_bitlen E)" and ?W = "replicate (2 ^ MPI_WINDOW_SIZE cfg) ?Z"
  have abs_RR: "mpi_abs RR = mont_R ?c * mont_R ?c mod mpi_abs N"
    using val_nonneg [OF RR(2,3)] by (simp add: mont_R_def R_of_def)
  have x1: "mpi_n N \<le> mpi_n X1" "mpi_n X1 \<le> k + 4"
    using grow_fact(3) [OF X1] k by (simp_all add: j_def)
  obtain Y where Y: "exp_power M ?c ?wsize ?W V RR E X1 = Inr Y" "mpi_abs Y = mpi_abs ?A ^ mpi_abs E mod mpi_abs N"
      "mpi_s Y = mpi_s RR" "mpi_n Y \<le> k + 4"
    using exp_power_fact [OF ready, of M "k + 4" ?wsize ?W V "mpi_abs ?A" RR X1 E] C window_size_bounds [OF cfg] plenty k V abs_RR RR(4,5) x1
    by auto
  have val_Y: "mpi_val Y = int (mpi_abs Y)"
  proof (cases "mpi_s RR = 1")
    case False
    then have "mpi_abs RR = 0"
      using RR(2,3) by (simp add: has_sign_def mpi_val_def)
    then have "mpi_abs N dvd mont_R ?c * mont_R ?c" (is "_ dvd ?r")
      using abs_RR by (simp add: dvd_eq_mod_eq_0)
    moreover have "coprime (mpi_abs N) ?r"
      using mont_ready_R(3) [OF ready] by (simp add: coprime_commute)
    ultimately have "is_unit (mpi_abs N)"
      by (intro coprime_common_divisor [of "mpi_abs N" ?r]) simp_all
    then show ?thesis
      using Y(2) by (simp add: mpi_val_def)
  qed (use Y(3) in \<open>simp add: mpi_val_def\<close>)
  have run: "mbedtls_mpi_exp_mod cfg M K have_udbl C X A E N prec_RR =
      (if mpi_s ?A = - 1 \<and> odd (mpi_abs E) then
         run_then (Some (mbedtls_mpi_add_mpi M (Y\<lparr>mpi_s := - 1\<rparr>) (Other N) Self)) (\<lambda>X. Some (Inr (X, P)))
       else Some (Inr (Y, P)))"
  proof -
    have "\<not> mbedtls_mpi_cmp_int N 0 \<le> 0" "\<not> mbedtls_mpi_cmp_int E 0 < 0" "mpi_p N ! 0 AND 1 \<noteq> 0"
      using cmp_int_val [OF sign(3), of 0] cmp_int_val [OF sign(2), of 0] N(1) E and_one_odd [of "mpi_p N ! 0"] low by simp_all
    moreover have "?W ! 1 = ?Z"
      using cfg one_less_power [of "2 :: nat" "MPI_WINDOW_SIZE cfg"] by simp
    moreover have "mpi_n E \<noteq> 0 \<and> mpi_p E ! 0 AND 1 \<noteq> 0 \<longleftrightarrow> odd (mpi_abs E)"
      unfolding and_one_odd by (rule low_limb_odd)
    ultimately show ?thesis
      using bits X1 W1 T B(1) RR(1) V(1) Y(1) unfolding mbedtls_mpi_exp_mod_def Let_def j_def [symmetric] by simp
  qed
  let ?a = "mpi_abs ?A" and ?e = "mpi_abs E"
  have "0 < mpi_abs N"
    using n(1) by simp
  note power = signed_power_mod [OF this, of ?a ?e]
  have valA: "mpi_val (deref X A) = (if mpi_s ?A = - 1 then - int ?a else int ?a)"
    using abs_val_cases [OF A(1)] A(3) by simp
  show ?thesis
  proof (cases "mpi_s ?A = - 1 \<and> odd ?e")
    case True
    have "plenty M (max (mpi_n Y) (mpi_n N) + 1)"
      using plenty Y(4) k by simp
    then obtain Z where Z: "mbedtls_mpi_add_mpi M (Y\<lparr>mpi_s := - 1\<rparr>) (Other N) Self = Inr Z"
      using add_mpi_succeeds [of M "Y\<lparr>mpi_s := - 1\<rparr>" "Other N" Self] by (auto simp: max.commute)
    have "mpi_val Z = int (mpi_abs N) - int (mpi_abs Y)"
      using add_mpi_fact(1) [OF Z] sign(3) n(4) by (simp add: has_sign_def mpi_val_def mpi_abs_def)
    then have val: "mpi_val Z = (if mpi_abs N dvd ?a ^ ?e then int (mpi_abs N) else (- int ?a) ^ ?e mod int (mpi_abs N))"
      using power True Y(2) by (simp add: dvd_eq_mod_eq_0)
    have "int (mpi_abs N) dvd (- int ?a) ^ ?e \<longleftrightarrow> mpi_abs N dvd ?a ^ ?e"
      using True by (simp flip: of_nat_power)
    then have "mpi_val Z = (if mpi_s (deref X A) = - 1 \<and> odd (mpi_val E) \<and> mpi_val N dvd mpi_val (deref X A) ^ nat (mpi_val E)
        then mpi_val N else mpi_val (deref X A) ^ nat (mpi_val E) mod mpi_val N)"
      unfolding val valA n(4) e(2) e(1) [symmetric] A(2) [symmetric] using True by simp
    then show ?thesis
      using run Z RR(6) True A(2) by simp
  next
    case False
    then have "mpi_val (deref X A) ^ ?e mod int (mpi_abs N) = int (mpi_abs Y)"
      using power valA Y(2) by (auto simp: of_nat_mod)
    moreover have "has_sign Y" "mpi_n Y \<le> k + 4"
      using Y(3,4) RR(2) by (simp_all add: has_sign_def)
    ultimately show ?thesis
      using run RR(6) False A(2) e n(4) val_Y unfolding k_def by (auto simp: Y(2))
  qed
qed

section \<open>Properties\<close>

lemma plain_ct_ok: "ct_assigns plain_ct" "ct_copies plain_ct" "ct_compares plain_ct"
proof -
  show "ct_assigns plain_ct"
    by (rule plain_ct_assigns)
  show "ct_compares plain_ct"
    by (simp add: ct_compares_def plain_ct_def)
  show "ct_copies plain_ct"
    unfolding ct_copies_def plain_ct_def
    by (intro allI impI) (auto simp: grow_eq mpi_abs_def limbs_val_append)
qed

text \<open>
  C32: Exponentiation: for a modulus that is positive and odd and an exponent that is not negative the function
  returns the power modulo the modulus, for every window size, whether \<open>R\<^sup>2\<close> is computed or taken from an earlier call,
  and the number it leaves to the caller is right for the next one.  The exception is a negative base
  whose odd power is a multiple of the modulus: the result is the modulus instead of 0.  Other operands are
  rejected.
\<close>

theorem exp_mod_correct:
  fixes X :: "'l::len word mpi"
  assumes "0 < MPI_WINDOW_SIZE cfg" and "muladdc_exact K" and "have_udbl \<or> even LENGTH('l)" and "LENGTH('l) = 4 * 2 ^ h"
    and "ct_assigns C" and "ct_copies C" and "ct_compares C"
    and "mpi_ok M (deref X A)" and "mpi_ok M E" and "mpi_ok M N" and "cached_RR N prec_RR" and "room_for_exp M X (deref X A) N"
  shows "if mpi_val N \<le> 0 \<or> even (mpi_val N) \<or> mpi_val E < 0 \<or>
      MPI_MAX_BITS cfg < mbedtls_mpi_bitlen E \<or> MPI_MAX_BITS cfg < mbedtls_mpi_bitlen N
    then mbedtls_mpi_exp_mod cfg M K have_udbl C X A E N prec_RR = Some (Inl MBEDTLS_ERR_MPI_BAD_INPUT_DATA)
    else \<exists>Y P. mbedtls_mpi_exp_mod cfg M K have_udbl C X A E N prec_RR = Some (Inr (Y, P)) \<and> cached_RR N P \<and>
      mpi_val Y = (if mpi_s (deref X A) = - 1 \<and> odd (mpi_val E) \<and> mpi_val N dvd mpi_val (deref X A) ^ nat (mpi_val E)
        then mpi_val N else mpi_val (deref X A) ^ nat (mpi_val E) mod mpi_val N)"
proof -
  have sign: "has_sign (deref X A)" "has_sign E" "has_sign N"
    using assms(8-10) by (simp_all add: mpi_ok_def has_sign_def)
  have cmp: "mbedtls_mpi_cmp_int N 0 \<le> 0 \<longleftrightarrow> mpi_val N \<le> 0" "mbedtls_mpi_cmp_int E 0 < 0 \<longleftrightarrow> mpi_val E < 0"
    using cmp_int_val [OF sign(3), of 0] cmp_int_val [OF sign(2), of 0] by (simp_all add: sgn_if)
  have low: "mpi_p N ! 0 AND 1 = 0 \<longleftrightarrow> even (mpi_val N)" if "0 < mpi_val N"
  proof -
    have "mpi_n N \<noteq> 0"
      using that by (intro notI) (simp add: mpi_val_def mpi_abs_def)
    moreover have "mpi_val N = int (mpi_abs N)"
      using val_pos [OF sign(3) that] ..
    ultimately show ?thesis
      using and_one_odd [of "mpi_p N ! 0"] low_limb_odd [of N] by auto
  qed
  note fact = exp_mod_fact [OF assms(1-7) sign _ _ _ _ _ assms(11,12)]
  have nested: "(if a then S else if b then S else if c then S else Z) = S" if "a \<or> b \<or> c"
    for a b c and S Z :: "(mpi_error + 'l word mpi \<times> 'l word mpi option) option"
    using that by auto
  show ?thesis (is "if ?bad then _ else _")
  proof (cases ?bad)
    case True
    then have "mbedtls_mpi_exp_mod cfg M K have_udbl C X A E N prec_RR = Some (Inl MBEDTLS_ERR_MPI_BAD_INPUT_DATA)"
      unfolding mbedtls_mpi_exp_mod_def by (intro nested) (use cmp low in auto)
    then show ?thesis
      using True by simp
  next
    case False
    then have ok: "0 < mpi_val N" "odd (mpi_val N)" "0 \<le> mpi_val E"
        "mbedtls_mpi_bitlen E \<le> MPI_MAX_BITS cfg" "mbedtls_mpi_bitlen N \<le> MPI_MAX_BITS cfg"
      by simp_all
    show ?thesis
      unfolding if_not_P [OF False] using fact [OF ok] by blast
  qed
qed

theorem exp_mod_correct_witness:
  "\<exists>Y P. mbedtls_mpi_exp_mod \<lparr>MPI_WINDOW_SIZE = 6, MPI_MAX_BITS = 8192\<rparr> demo_platform wide_muladdc False plain_ct
      \<lparr>mpi_s = - 1, mpi_p = [3 :: 64 word]\<rparr> Self \<lparr>mpi_s = 1, mpi_p = [5, 0]\<rparr> \<lparr>mpi_s = 1, mpi_p = [7, 0]\<rparr> None = Some (Inr (Y, P)) \<and>
    mpi_val Y = 2"
proof -
  let ?A = "\<lparr>mpi_s = - 1, mpi_p = [3 :: 64 word]\<rparr>" and ?E = "\<lparr>mpi_s = 1, mpi_p = [5 :: 64 word, 0]\<rparr>"
    and ?N = "\<lparr>mpi_s = 1, mpi_p = [7 :: 64 word, 0]\<rparr>" and ?cfg = "\<lparr>MPI_WINDOW_SIZE = 6, MPI_MAX_BITS = 8192\<rparr>"
  have val: "mpi_val ?A = - 3" "mpi_val ?E = 5" "mpi_val ?N = 7" "mpi_ok demo_platform ?A" "mpi_ok demo_platform ?E" "mpi_ok demo_platform ?N"
    by (simp_all add: mpi_val_def mpi_abs_def mpi_ok_def demo_platform_def)
  have bits: "\<not> 8192 < mbedtls_mpi_bitlen ?E" "\<not> 8192 < mbedtls_mpi_bitlen ?N"
    unfolding not_less bitlen_le_iff by (simp_all add: mpi_abs_def)
  have len: "LENGTH(64) = 4 * 2 ^ 4"
    by simp
  have room: "room_for_exp demo_platform ?A ?A ?N" "cached_RR ?N None"
    by (simp_all add: room_for_exp_def demo_plenty cached_RR_def) (simp add: demo_platform_def)
  show ?thesis
    using exp_mod_correct [OF _ wide_muladdc_exact _ len plain_ct_ok, of ?cfg False demo_platform ?A Self ?E ?N None] val bits room
    by auto
qed

end
