(* ===== verification/Bignum_Inv.thy ===== *)
theory Bignum_Inv
  imports Bignum_Gcd Bignum_Exp
begin

text \<open>
  The modular inverse of \<open>bignum.c\<close> (\<open>mbedtls_mpi_inv_mod\<close>): the binary extended Euclidean algorithm.  Two numbers
  and for each of them two factors are kept, so that \<open>U1 * TA + U2 * TB = TU\<close> and \<open>V1 * TA + V2 * TB = TV\<close>; the smaller
  number is subtracted from the larger, and even numbers are halved.  The product of the numbers halves with every
  pass, which gives termination and a bound of the factors, and so of the memory.
\<close>

section \<open>The code\<close>

text \<open>A loop may call itself behind other computations.\<close>

lemma run_then_bind: "run_then m f = Option.bind m (\<lambda>r. case r of Inl e \<Rightarrow> Some (Inl e) | Inr x \<Rightarrow> f x)"
  by (simp add: run_then_def split: option.split sum.split)

lemma run_then_mono [partial_function_mono]:
  assumes "mono_option F" and "\<And>x. mono_option (\<lambda>f. G x f)"
  shows "mono_option (\<lambda>f. run_then (F f) (\<lambda>x. G x f))"
  unfolding run_then_bind
proof (intro bind_mono assms(1))
  fix r
  show "mono_option (\<lambda>f. case r of Inl e \<Rightarrow> Some (Inl e) | Inr x \<Rightarrow> G x f)"
    by (cases r) (simp_all add: assms(2) option.const_mono)
qed

type_synonym 'limb triple = "'limb mpi \<times> 'limb mpi \<times> 'limb mpi"

text \<open>One pass of the loops that halve \<open>TU\<close> or \<open>TV\<close>.\<close>

definition inv_half ::
  "platform \<Rightarrow> 'l::len word mpi \<Rightarrow> 'l word mpi \<Rightarrow> 'l word triple \<Rightarrow> mpi_error + 'l word triple" where
  "inv_half M TA TB = (\<lambda>(TU, U1, U2).
     and_then (mbedtls_mpi_shift_r M TU 1) (\<lambda>TU.
     and_then
       (if mpi_p U1 ! 0 AND 1 \<noteq> 0 \<or> mpi_p U2 ! 0 AND 1 \<noteq> 0 then
          and_then (mbedtls_mpi_add_mpi M U1 Self (Other TB)) (\<lambda>U1.
          and_then (mbedtls_mpi_sub_mpi M U2 Self (Other TA)) (\<lambda>U2. Inr (U1, U2)))
        else Inr (U1, U2)) (\<lambda>(U1, U2).
     and_then (mbedtls_mpi_shift_r M U1 1) (\<lambda>U1.
     and_then (mbedtls_mpi_shift_r M U2 1) (\<lambda>U2.
     Inr (TU, U1, U2))))))"

partial_function (option) inv_halve ::
  "platform \<Rightarrow> 'l::len word mpi \<Rightarrow> 'l word mpi \<Rightarrow> 'l word triple \<Rightarrow> (mpi_error + 'l word triple) option" where
  [code]: "inv_halve M TA TB U =
     (if mpi_p (fst U) ! 0 AND 1 = 0
      then run_then (Some (inv_half M TA TB U)) (\<lambda>U. inv_halve M TA TB U)
      else Some (Inr U))"

definition inv_minus :: "platform \<Rightarrow> 'l::len word triple \<Rightarrow> 'l word triple \<Rightarrow> mpi_error + 'l word triple" where
  "inv_minus M = (\<lambda>(TU, U1, U2) (TV, V1, V2).
     and_then (mbedtls_mpi_sub_mpi M TU Self (Other TV)) (\<lambda>TU.
     and_then (mbedtls_mpi_sub_mpi M U1 Self (Other V1)) (\<lambda>U1.
     and_then (mbedtls_mpi_sub_mpi M U2 Self (Other V2)) (\<lambda>U2.
     Inr (TU, U1, U2)))))"

definition inv_subtract ::
  "platform \<Rightarrow> 'l::len word triple \<Rightarrow> 'l word triple \<Rightarrow> mpi_error + 'l word triple \<times> 'l word triple" where
  "inv_subtract M U V =
     (if 0 \<le> mbedtls_mpi_cmp_mpi (fst U) (fst V)
      then and_then (inv_minus M U V) (\<lambda>U. Inr (U, V))
      else and_then (inv_minus M V U) (\<lambda>V. Inr (U, V)))"

partial_function (option) inv_loop ::
  "platform \<Rightarrow> 'l::len word mpi \<Rightarrow> 'l word mpi \<Rightarrow> 'l word triple \<Rightarrow> 'l word triple \<Rightarrow> (mpi_error + 'l word triple) option" where
  [code]: "inv_loop M TA TB U V =
     run_then (inv_halve M TA TB U) (\<lambda>U.
     run_then (inv_halve M TA TB V) (\<lambda>V.
     run_then (Some (inv_subtract M U V)) (\<lambda>UV.
     if mbedtls_mpi_cmp_int (fst (fst UV)) 0 \<noteq> 0 then inv_loop M TA TB (fst UV) (snd UV) else Some (Inr (snd UV)))))"

text \<open>The numbers before the loop.\<close>

definition inv_init ::
  "platform \<Rightarrow> 'l::len word mpi \<Rightarrow> 'l word mpi \<Rightarrow> mpi_error + 'l word mpi \<times> 'l word triple \<times> 'l word triple" where
  "inv_init M TA N =
     and_then (mbedtls_mpi_copy M mbedtls_mpi_init (Other TA)) (\<lambda>TU.
     and_then (mbedtls_mpi_copy M mbedtls_mpi_init (Other N)) (\<lambda>TB.
     and_then (mbedtls_mpi_copy M mbedtls_mpi_init (Other N)) (\<lambda>TV.
     and_then (mbedtls_mpi_lset M mbedtls_mpi_init 1) (\<lambda>U1.
     and_then (mbedtls_mpi_lset M mbedtls_mpi_init 0) (\<lambda>U2.
     and_then (mbedtls_mpi_lset M mbedtls_mpi_init 0) (\<lambda>V1.
     and_then (mbedtls_mpi_lset M mbedtls_mpi_init 1) (\<lambda>V2.
     Inr (TB, (TU, U1, U2), (TV, V1, V2)))))))))"

text \<open>\<open>X\<close> is written only by the last call, so that it may be \<open>A\<close> or \<open>N\<close>.\<close>

definition mbedtls_mpi_inv_mod ::
  "platform \<Rightarrow> 'l::len muladdc \<Rightarrow> bool \<Rightarrow> 'l word mpi \<Rightarrow> 'l word mpi \<Rightarrow> 'l word mpi \<Rightarrow> (mpi_error + 'l word mpi) option" where
  "mbedtls_mpi_inv_mod M K have_udbl X A N =
     (if mbedtls_mpi_cmp_int N 1 \<le> 0 then Some (Inl MBEDTLS_ERR_MPI_BAD_INPUT_DATA)
      else
        run_then (Some (mbedtls_mpi_gcd M mbedtls_mpi_init (Other A) (Other N))) (\<lambda>G.
        if mbedtls_mpi_cmp_int G 1 \<noteq> 0 then Some (Inl MBEDTLS_ERR_MPI_NOT_ACCEPTABLE)
        else
          run_then (mbedtls_mpi_mod_mpi M K have_udbl mbedtls_mpi_init (Other A) (Other N)) (\<lambda>TA.
          run_then (Some (inv_init M TA N)) (\<lambda>(TB, U, V).
          run_then (inv_loop M TA TB U V) (\<lambda>(TV, V1, V2).
          run_then (add_up M (Other N) V1) (\<lambda>V1.
          run_then (take_down M (Other N) V1) (\<lambda>V1.
          Some (mbedtls_mpi_copy M X (Other V1)))))))))"

section \<open>Numbers within a number of limbs\<close>

definition sized :: "nat \<Rightarrow> 'l::len word mpi \<Rightarrow> bool" where
  "sized m X \<longleftrightarrow> has_sign X \<and> 0 < mpi_n X \<and> mpi_n X \<le> m"

lemma abs_of_val: "has_sign X \<Longrightarrow> int (mpi_abs X) = \<bar>mpi_val X\<bar>"
  by (auto simp: has_sign_def mpi_val_def)

lemma abs_below: "has_sign X \<Longrightarrow> \<bar>mpi_val X\<bar> < 2 ^ k \<Longrightarrow> mpi_abs X < 2 ^ k"
  using abs_of_val [of X] by (metis of_nat_less_iff of_nat_numeral of_nat_power)

lemma sized_sub:
  fixes X :: "'l::len word mpi"
  assumes "sized m X" and "sized m B" and "plenty M (m + 1)" and "\<bar>mpi_val X - mpi_val B\<bar> < 2 ^ (LENGTH('l) * m)"
  obtains Y where "mbedtls_mpi_sub_mpi M X Self (Other B) = Inr Y" "sized m Y" "mpi_val Y = mpi_val X - mpi_val B"
proof -
  have sign: "has_sign (deref X Self)" "has_sign (deref X (Other B))" and n: "mpi_n X \<le> m" "mpi_n B \<le> m" "0 < mpi_n X"
    using assms(1,2) by (simp_all add: sized_def)
  obtain Y where Y: "mbedtls_mpi_sub_mpi M X Self (Other B) = Inr Y"
    using sub_mpi_succeeds [of M X Self "Other B"] plenty_mono [OF assms(3)] n by auto
  note fact = sub_mpi_fact [OF Y sign]
  have "mpi_n Y \<le> m"
    using sub_mpi_limbs [OF Y] n abs_below [OF fact(2)] fact(1) assms(4) by simp
  moreover have "0 < mpi_n Y"
    using fact(3) n(3) by linarith
  ultimately have "sized m Y"
    using fact(2) unfolding sized_def by blast
  with Y show ?thesis
    using fact(1) by (intro that) simp_all
qed

lemma sized_add:
  fixes X :: "'l::len word mpi"
  assumes "sized m X" and "sized m B" and "plenty M (m + 1)" and "\<bar>mpi_val X + mpi_val B\<bar> < 2 ^ (LENGTH('l) * m)"
  obtains Y where "mbedtls_mpi_add_mpi M X Self (Other B) = Inr Y" "sized m Y" "mpi_val Y = mpi_val X + mpi_val B"
proof -
  have sign: "has_sign (deref X Self)" "has_sign (deref X (Other B))" and n: "mpi_n X \<le> m" "mpi_n B \<le> m" "0 < mpi_n X"
    using assms(1,2) by (simp_all add: sized_def)
  obtain Y where Y: "mbedtls_mpi_add_mpi M X Self (Other B) = Inr Y"
    using add_mpi_succeeds [of M X Self "Other B"] plenty_mono [OF assms(3)] n by auto
  note fact = add_mpi_fact [OF Y sign]
  have "mpi_n Y \<le> m"
    using add_mpi_limbs [OF Y] n abs_below [OF fact(2)] fact(1) assms(4) by simp
  moreover have "0 < mpi_n Y"
    using fact(3) n(3) by linarith
  ultimately have "sized m Y"
    using fact(2) unfolding sized_def by blast
  with Y show ?thesis
    using fact(1) by (intro that) simp_all
qed

lemma sized_half:
  assumes "sized m X" and "plenty M (m + 1)" and "even (mpi_val X)"
  obtains Y where "mbedtls_mpi_shift_r M X 1 = Inr Y" "sized m Y" "mpi_val Y = mpi_val X div 2"
proof -
  obtain Y where Y: "mbedtls_mpi_shift_r M X 1 = Inr Y"
    using shift_r_succeeds [of M X 1] plenty_mono [OF assms(2), of 1] by auto
  have sign: "has_sign X"
    using assms(1) by (simp add: sized_def)
  have "even (mpi_abs X)"
    using assms(3) sign by (auto simp: has_sign_def mpi_val_def)
  then obtain h where h: "mpi_abs X = 2 * h"
    by (rule evenE)
  have "mpi_val Y = mpi_val X div 2"
  proof (cases "h = 0")
    case True
    then show ?thesis
      using shift_r_fact(1) [OF Y] h by (simp add: mpi_val_def)
  next
    case False
    then have "mpi_s Y = mpi_s X"
      using shift_r_fact(1,2) [OF Y] h by simp
    then show ?thesis
      using shift_r_fact(1) [OF Y] h sign by (auto simp: mpi_val_def has_sign_def)
  qed
  moreover have "0 < mpi_n Y" "mpi_n Y \<le> m"
    using shift_r_fact(4) [OF Y] assms(1) unfolding sized_def by linarith+
  then have "sized m Y"
    using shift_r_fact(3) [OF Y sign] unfolding sized_def by blast
  ultimately show ?thesis
    using that Y by blast
qed

lemma sized_odd: "sized m X \<Longrightarrow> mpi_p X ! 0 AND 1 \<noteq> 0 \<longleftrightarrow> odd (mpi_val X)"
  using low_limb_odd [of X] and_one_odd [of "mpi_p X ! 0"]
  by (auto simp: sized_def has_sign_def mpi_val_def)

section \<open>One halving\<close>

text \<open>
  The equation of the extended Euclidean algorithm for the operands \<open>a\<close> and \<open>n\<close>, with factors bounded by \<open>b\<close>.
\<close>

definition triple_ok :: "nat \<Rightarrow> int \<Rightarrow> int \<Rightarrow> int \<Rightarrow> 'l::len word triple \<Rightarrow> bool" where
  "triple_ok m a n b = (\<lambda>(TU, U1, U2). sized m TU \<and> sized m U1 \<and> sized m U2 \<and> 0 \<le> mpi_val TU \<and>
     mpi_val U1 * a + mpi_val U2 * n = mpi_val TU \<and> \<bar>mpi_val U1\<bar> \<le> b \<and> \<bar>mpi_val U2\<bar> \<le> b)"

lemma triple_ok_mono: "triple_ok m a n b U \<Longrightarrow> b \<le> c \<Longrightarrow> triple_ok m a n c U"
  by (auto simp: triple_ok_def)

definition operands_ok :: "platform \<Rightarrow> nat \<Rightarrow> 'l::len word mpi \<Rightarrow> 'l word mpi \<Rightarrow> int \<Rightarrow> int \<Rightarrow> bool" where
  "operands_ok M m TA TB a n \<longleftrightarrow> sized m TA \<and> sized m TB \<and> mpi_val TA = a \<and> mpi_val TB = n \<and> 0 \<le> a \<and> a \<le> n \<and>
     (odd a \<or> odd n) \<and> plenty M (m + 1)"

lemma half_parity:
  fixes u v a n :: int
  assumes "even (u * a + v * n)" and "odd a \<or> odd n" and "odd u \<or> odd v"
  shows "even (u + n)" "even (v - a)"
  using assms by auto

lemma half_bound: "\<bar>x\<bar> \<le> b + n \<Longrightarrow> even x \<Longrightarrow> \<bar>x div 2\<bar> \<le> (b + n) div 2" for x b n :: int
  by auto

lemma inv_half_fact:
  fixes TA :: "'l::len word mpi"
  assumes ops: "operands_ok M m TA TB a n" and U: "triple_ok m a n b U" and even: "even (mpi_val (fst U))"
    and b: "b + n < 2 ^ (LENGTH('l) * m)"
  obtains U' where "inv_half M TA TB U = Inr U'" "triple_ok m a n ((b + n) div 2) U'" "mpi_val (fst U') = mpi_val (fst U) div 2"
proof -
  obtain TU U1 U2 where u: "U = (TU, U1, U2)"
    by (cases U)
  have o: "sized m TA" "sized m TB" "mpi_val TA = a" "mpi_val TB = n" "0 \<le> a" "a \<le> n" "odd a \<or> odd n" "plenty M (m + 1)"
    using ops by (simp_all add: operands_ok_def)
  have t: "sized m TU" "sized m U1" "sized m U2" "0 \<le> mpi_val TU" "mpi_val U1 * a + mpi_val U2 * n = mpi_val TU"
      "\<bar>mpi_val U1\<bar> \<le> b" "\<bar>mpi_val U2\<bar> \<le> b"
    using U by (simp_all add: triple_ok_def u)
  obtain T where T: "mbedtls_mpi_shift_r M TU 1 = Inr T" "sized m T" "mpi_val T = mpi_val TU div 2"
    by (rule sized_half [OF t(1) o(8)]) (use even u in simp)
  obtain X1 X2 where X: "(if mpi_p U1 ! 0 AND 1 \<noteq> 0 \<or> mpi_p U2 ! 0 AND 1 \<noteq> 0 then
          and_then (mbedtls_mpi_add_mpi M U1 Self (Other TB)) (\<lambda>U1.
          and_then (mbedtls_mpi_sub_mpi M U2 Self (Other TA)) (\<lambda>U2. Inr (U1, U2)))
        else Inr (U1, U2)) = Inr (X1, X2)"
      "sized m X1" "sized m X2" "even (mpi_val X1)" "even (mpi_val X2)" "mpi_val X1 * a + mpi_val X2 * n = mpi_val TU"
      "\<bar>mpi_val X1\<bar> \<le> b + n" "\<bar>mpi_val X2\<bar> \<le> b + n"
  proof (cases "odd (mpi_val U1) \<or> odd (mpi_val U2)")
    case True
    have "\<bar>mpi_val U1 + mpi_val TB\<bar> < 2 ^ (LENGTH('l) * m)" "\<bar>mpi_val U2 - mpi_val TA\<bar> < 2 ^ (LENGTH('l) * m)"
      using t(6,7) b o(3-6) by linarith+
    then obtain Y1 Y2 where "mbedtls_mpi_add_mpi M U1 Self (Other TB) = Inr Y1" "sized m Y1" "mpi_val Y1 = mpi_val U1 + n"
        "mbedtls_mpi_sub_mpi M U2 Self (Other TA) = Inr Y2" "sized m Y2" "mpi_val Y2 = mpi_val U2 - a"
      using sized_add [OF t(2) o(2) o(8)] sized_sub [OF t(3) o(1) o(8)] o(3,4) by metis
    moreover have "(mpi_val U1 + n) * a + (mpi_val U2 - a) * n = mpi_val TU"
      using t(5) by (simp add: algebra_simps)
    moreover have "even (mpi_val U1 + n)" "even (mpi_val U2 - a)"
      using half_parity [OF _ o(7) True] even t(5) u by simp_all
    moreover have "\<bar>mpi_val U1 + n\<bar> \<le> b + n" "\<bar>mpi_val U2 - a\<bar> \<le> b + n"
      using t(6,7) o(5,6) by linarith+
    ultimately show ?thesis
      using that [of Y1 Y2] True sized_odd [OF t(2)] sized_odd [OF t(3)] by simp
  next
    case False
    have "\<bar>mpi_val U1\<bar> \<le> b + n" "\<bar>mpi_val U2\<bar> \<le> b + n"
      using t(6,7) o(5,6) by linarith+
    then show ?thesis
      using that [of U1 U2] False t sized_odd [OF t(2)] sized_odd [OF t(3)] by simp
  qed
  obtain Y1 where Y1: "mbedtls_mpi_shift_r M X1 1 = Inr Y1" "sized m Y1" "mpi_val Y1 = mpi_val X1 div 2"
    by (rule sized_half [OF X(2) o(8) X(4)])
  obtain Y2 where Y2: "mbedtls_mpi_shift_r M X2 1 = Inr Y2" "sized m Y2" "mpi_val Y2 = mpi_val X2 div 2"
    by (rule sized_half [OF X(3) o(8) X(5)])
  obtain h k where hk: "mpi_val X1 = 2 * h" "mpi_val X2 = 2 * k"
    using X(4,5) by (elim evenE)
  have "mpi_val Y1 * a + mpi_val Y2 * n = mpi_val T"
    using X(6) T(3) Y1(3) Y2(3) unfolding hk by simp
  moreover have "\<bar>mpi_val Y1\<bar> \<le> (b + n) div 2" "\<bar>mpi_val Y2\<bar> \<le> (b + n) div 2"
    unfolding Y1(3) Y2(3) by (rule half_bound [OF X(7) X(4)], rule half_bound [OF X(8) X(5)])
  moreover have "0 \<le> mpi_val T"
    unfolding T(3) using t(4) by simp
  ultimately have "triple_ok m a n ((b + n) div 2) (T, Y1, Y2)"
    using T(2) Y1(2) Y2(2) unfolding triple_ok_def split_conv by blast
  moreover have "inv_half M TA TB U = Inr (T, Y1, Y2)"
    unfolding inv_half_def u split_conv T(1) and_then_Inr X(1) Y1(1) Y2(1) ..
  ultimately show ?thesis
    using that T(3) u by simp
qed

section \<open>The loops\<close>

lemma triple_odd: "triple_ok m a n b U \<Longrightarrow> mpi_p (fst U) ! 0 AND 1 = 0 \<longleftrightarrow> even (mpi_val (fst U))"
  using sized_odd [of m "fst U"] by (cases U) (simp add: triple_ok_def)

lemma inv_halve_odd: "triple_ok m a n b U \<Longrightarrow> odd (mpi_val (fst U)) \<Longrightarrow> inv_halve M TA TB U = Some (Inr U)"
  using triple_odd [of m a n b U] by (subst inv_halve.simps) simp

lemma inv_halve_even:
  fixes TA :: "'l::len word mpi"
  assumes ops: "operands_ok M m TA TB a n"
  shows "triple_ok m a n b U \<Longrightarrow> even (mpi_val (fst U)) \<Longrightarrow> 0 < mpi_val (fst U) \<Longrightarrow> n \<le> b \<Longrightarrow> b + n < 2 ^ (LENGTH('l) * m) \<Longrightarrow>
    \<exists>U'. inv_halve M TA TB U = Some (Inr U') \<and> triple_ok m a n ((b + n) div 2) U' \<and> odd (mpi_val (fst U')) \<and>
      mpi_val (fst U') dvd mpi_val (fst U) \<and> 2 * mpi_val (fst U') \<le> mpi_val (fst U)"
proof (induction "nat (mpi_val (fst U))" arbitrary: U b rule: less_induct)
  case less
  let ?t = "mpi_val (fst U)"
  obtain V where V: "inv_half M TA TB U = Inr V" "triple_ok m a n ((b + n) div 2) V" "mpi_val (fst V) = ?t div 2"
    by (rule inv_half_fact [OF ops less.prems(1,2,5)])
  have t: "?t = 2 * mpi_val (fst V)"
    using less.prems(2) V(3) by simp
  have run: "inv_halve M TA TB U = inv_halve M TA TB V"
    using triple_odd [OF less.prems(1)] less.prems(2) V(1) by (subst inv_halve.simps) simp
  show ?case
  proof (cases "odd (mpi_val (fst V))")
    case True
    then show ?thesis
      using run inv_halve_odd [OF V(2) True] V(2) t by (intro exI [of _ V]) simp
  next
    case False
    let ?b = "(b + n) div 2"
    have b: "n \<le> ?b" "?b + n < 2 ^ (LENGTH('l) * m)" "(?b + n) div 2 \<le> ?b"
      using less.prems(4,5) by linarith+
    have "nat (mpi_val (fst V)) < nat ?t" "0 < mpi_val (fst V)" "even (mpi_val (fst V))"
      using t less.prems(3) False by linarith+
    then obtain W where W: "inv_halve M TA TB V = Some (Inr W)" "triple_ok m a n ((?b + n) div 2) W" "odd (mpi_val (fst W))"
        "mpi_val (fst W) dvd mpi_val (fst V)" "2 * mpi_val (fst W) \<le> mpi_val (fst V)"
      using less.hyps [of V ?b] V(2) b(1,2) by blast
    have "mpi_val (fst W) dvd ?t" "2 * mpi_val (fst W) \<le> ?t"
      using W(4,5) t \<open>0 < mpi_val (fst V)\<close> by simp_all
    then show ?thesis
      using run W(1,3) triple_ok_mono [OF W(2) b(3)] by (intro exI [of _ W]) simp
  qed
qed

lemma inv_minus_fact:
  fixes U :: "'l::len word triple"
  assumes U: "triple_ok m a n b U" and V: "triple_ok m a n b V" and le: "mpi_val (fst V) \<le> mpi_val (fst U)"
    and room: "plenty M (m + 1)" "2 * b < 2 ^ (LENGTH('l) * m)" "mpi_val (fst U) < 2 ^ (LENGTH('l) * m)"
  obtains W where "inv_minus M U V = Inr W" "triple_ok m a n (2 * b) W" "mpi_val (fst W) = mpi_val (fst U) - mpi_val (fst V)"
proof -
  obtain TU U1 U2 where u: "U = (TU, U1, U2)"
    by (cases U)
  obtain TV V1 V2 where v: "V = (TV, V1, V2)"
    by (cases V)
  have t: "sized m TU" "sized m U1" "sized m U2" "mpi_val U1 * a + mpi_val U2 * n = mpi_val TU"
      "\<bar>mpi_val U1\<bar> \<le> b" "\<bar>mpi_val U2\<bar> \<le> b"
    using U by (simp_all add: triple_ok_def u)
  have s: "sized m TV" "sized m V1" "sized m V2" "mpi_val V1 * a + mpi_val V2 * n = mpi_val TV"
      "\<bar>mpi_val V1\<bar> \<le> b" "\<bar>mpi_val V2\<bar> \<le> b" "0 \<le> mpi_val TV"
    using V by (simp_all add: triple_ok_def v)
  have bound: "\<bar>mpi_val U1 - mpi_val V1\<bar> \<le> 2 * b" "\<bar>mpi_val U2 - mpi_val V2\<bar> \<le> 2 * b" "0 \<le> mpi_val TU - mpi_val TV"
    using t(5,6) s(5,6) le u v by auto
  have small: "\<bar>mpi_val U1 - mpi_val V1\<bar> < 2 ^ (LENGTH('l) * m)" "\<bar>mpi_val U2 - mpi_val V2\<bar> < 2 ^ (LENGTH('l) * m)"
      "\<bar>mpi_val TU - mpi_val TV\<bar> < 2 ^ (LENGTH('l) * m)"
    using bound room(2,3) s(7) u by auto
  obtain T where T: "mbedtls_mpi_sub_mpi M TU Self (Other TV) = Inr T" "sized m T" "mpi_val T = mpi_val TU - mpi_val TV"
    by (rule sized_sub [OF t(1) s(1) room(1) small(3)])
  obtain Y1 where Y1: "mbedtls_mpi_sub_mpi M U1 Self (Other V1) = Inr Y1" "sized m Y1" "mpi_val Y1 = mpi_val U1 - mpi_val V1"
    by (rule sized_sub [OF t(2) s(2) room(1) small(1)])
  obtain Y2 where Y2: "mbedtls_mpi_sub_mpi M U2 Self (Other V2) = Inr Y2" "sized m Y2" "mpi_val Y2 = mpi_val U2 - mpi_val V2"
    by (rule sized_sub [OF t(3) s(3) room(1) small(2)])
  have "mpi_val Y1 * a + mpi_val Y2 * n = mpi_val T"
    unfolding T(3) Y1(3) Y2(3) t(4) [symmetric] s(4) [symmetric] by (simp add: algebra_simps)
  then have "triple_ok m a n (2 * b) (T, Y1, Y2)"
    using T(2) Y1(2) Y2(2) bound unfolding triple_ok_def split_conv T(3) Y1(3) Y2(3) by blast
  moreover have "inv_minus M U V = Inr (T, Y1, Y2)"
    unfolding inv_minus_def u v split_conv T(1) Y1(1) Y2(1) and_then_Inr ..
  ultimately show ?thesis
    using that T(3) u v by simp
qed

text \<open>The larger number after the subtraction and the halvings.\<close>

lemma minus_halve:
  fixes U :: "'l::len word triple"
  assumes ops: "operands_ok M m TA TB a n" and U: "triple_ok m a n b U" and V: "triple_ok m a n b V"
    and odd: "odd (mpi_val (fst U))" "odd (mpi_val (fst V))" and less: "mpi_val (fst V) < mpi_val (fst U)"
    and cop: "coprime (mpi_val (fst U)) (mpi_val (fst V))"
    and room: "n \<le> b" "2 * b + n < 2 ^ (LENGTH('l) * m)" "mpi_val (fst U) < 2 ^ (LENGTH('l) * m)"
  obtains W X where "inv_minus M U V = Inr W" "mpi_val (fst W) \<noteq> 0" "sized m (fst W)" "inv_halve M TA TB W = Some (Inr X)" "triple_ok m a n (b + n) X"
    "odd (mpi_val (fst X))" "coprime (mpi_val (fst X)) (mpi_val (fst V))" "2 * mpi_val (fst X) < mpi_val (fst U)"
proof -
  have n: "0 \<le> n" "plenty M (m + 1)"
    using ops by (auto simp: operands_ok_def)
  have pos: "0 < mpi_val (fst V)"
    using V odd(2) by (cases V) (auto simp: triple_ok_def order.order_iff_strict)
  have "2 * b < 2 ^ (LENGTH('l) * m)" "mpi_val (fst V) \<le> mpi_val (fst U)"
    using room(2) n(1) less by linarith+
  note two = this
  obtain W where W: "inv_minus M U V = Inr W" "triple_ok m a n (2 * b) W" "mpi_val (fst W) = mpi_val (fst U) - mpi_val (fst V)"
    by (rule inv_minus_fact [OF U V two(2) n(2) two(1) room(3)])
  have "even (mpi_val (fst W))" "0 < mpi_val (fst W)" "n \<le> 2 * b"
    unfolding W(3) using odd less room(1) n(1) by simp_all
  note w = this
  obtain X where X: "inv_halve M TA TB W = Some (Inr X)" "triple_ok m a n ((2 * b + n) div 2) X" "odd (mpi_val (fst X))"
      "mpi_val (fst X) dvd mpi_val (fst W)" "2 * mpi_val (fst X) \<le> mpi_val (fst W)"
    using inv_halve_even [OF ops W(2) w room(2)] by blast
  have "coprime (mpi_val (fst W)) (mpi_val (fst V))"
    unfolding W(3) using cop by (simp only: coprime_iff_gcd_eq_1 gcd_diff1)
  then have "coprime (mpi_val (fst X)) (mpi_val (fst V))"
    by (rule coprime_divisors [OF X(4) dvd_refl])
  moreover have "(2 * b + n) div 2 \<le> b + n"
    using n(1) by linarith
  then have "triple_ok m a n (b + n) X"
    by (rule triple_ok_mono [OF X(2)])
  moreover have "2 * mpi_val (fst X) < mpi_val (fst U)"
    using X(5) W(3) pos by linarith
  moreover have "sized m (fst W)"
    using W(2) by (cases W) (simp add: triple_ok_def)
  ultimately show ?thesis
    using w(2) by (intro that [OF W(1) _ _ X(1)]) (use X(3) in simp_all)
qed

lemma triple_fst: "triple_ok m a n b U \<Longrightarrow> sized m (fst U) \<and> 0 \<le> mpi_val (fst U)"
  by (cases U) (simp add: triple_ok_def)

lemma inv_subtract_cases:
  assumes "triple_ok m a n b U" and "triple_ok m a n b V"
  shows "inv_subtract M U V =
    (if mpi_val (fst V) \<le> mpi_val (fst U) then and_then (inv_minus M U V) (\<lambda>U. Inr (U, V))
     else and_then (inv_minus M V U) (\<lambda>V. Inr (U, V)))"
proof -
  have "has_sign (fst U)" "has_sign (fst V)"
    using triple_fst [OF assms(1)] triple_fst [OF assms(2)] by (auto simp: sized_def)
  then show ?thesis
    by (simp add: inv_subtract_def cmp_mpi_val sgn_if)
qed

text \<open>
  After the halvings both numbers are odd; every further pass halves their product and adds at most \<open>n\<close> to the
  bound of the factors.
\<close>

lemma inv_loop_fact:
  fixes U V :: "'l::len word triple"
  assumes ops: "operands_ok M m TA TB a n"
  shows "inv_halve M TA TB U = Some (Inr U') \<Longrightarrow> inv_halve M TA TB V = Some (Inr V') \<Longrightarrow>
    triple_ok m a n b U' \<Longrightarrow> triple_ok m a n b V' \<Longrightarrow> odd (mpi_val (fst U')) \<Longrightarrow> odd (mpi_val (fst V')) \<Longrightarrow>
    coprime (mpi_val (fst U')) (mpi_val (fst V')) \<Longrightarrow> mpi_val (fst U') * mpi_val (fst V') < 2 ^ j \<Longrightarrow>
    mpi_val (fst U') < 2 ^ (LENGTH('l) * m) \<Longrightarrow> mpi_val (fst V') < 2 ^ (LENGTH('l) * m) \<Longrightarrow>
    n \<le> b \<Longrightarrow> 2 * (b + n * int j) + n < 2 ^ (LENGTH('l) * m) \<Longrightarrow>
    \<exists>W. inv_loop M TA TB U V = Some (Inr W) \<and> triple_ok m a n (b + n * int j) W \<and> mpi_val (fst W) = 1"
proof (induction j arbitrary: U V U' V' b)
  case 0
  have "0 < mpi_val (fst U')" "0 < mpi_val (fst V')"
    using triple_fst [OF 0(3)] triple_fst [OF 0(4)] 0(5,6) by (auto simp: order.order_iff_strict)
  then have "0 < mpi_val (fst U') * mpi_val (fst V')"
    by (rule mult_pos_pos)
  then show ?case
    using 0(8) by simp
next
  case (Suc j)
  let ?u = "mpi_val (fst U')" and ?v = "mpi_val (fst V')"
  note U = Suc.prems(3) and V = Suc.prems(4) and odd = Suc.prems(5,6)
  have pos: "0 < ?u" "0 < ?v"
    using triple_fst [OF U] triple_fst [OF V] odd by (auto simp: order.order_iff_strict)
  have n: "0 \<le> n" "plenty M (m + 1)"
    using ops by (auto simp: operands_ok_def)
  have nj: "0 \<le> n * int j" "b + n * int (Suc j) = (b + n) + n * int j"
    using n(1) by (simp_all add: algebra_simps)
  have room: "2 * b + n < 2 ^ (LENGTH('l) * m)" "2 * b < 2 ^ (LENGTH('l) * m)" "2 * (b + n + n * int j) + n < 2 ^ (LENGTH('l) * m)"
  proof -
    have "2 * b + n < Z \<and> 2 * b < Z \<and> 2 * (b + n + q) + n < Z" if "2 * (b + n + q) + n < Z" "0 \<le> q" for q Z
      using that n(1) by auto
    from this [OF Suc.prems(12) [unfolded nj(2)] nj(1)]
    show "2 * b + n < 2 ^ (LENGTH('l) * m)" "2 * b < 2 ^ (LENGTH('l) * m)" "2 * (b + n + n * int j) + n < 2 ^ (LENGTH('l) * m)"
      by blast+
  qed
  have run: "inv_loop M TA TB U V = run_then (Some (inv_subtract M U' V')) (\<lambda>UV.
      if mbedtls_mpi_cmp_int (fst (fst UV)) 0 \<noteq> 0 then inv_loop M TA TB (fst UV) (snd UV) else Some (Inr (snd UV)))"
    by (subst inv_loop.simps) (simp add: Suc.prems(1,2))
  have zero: "mbedtls_mpi_cmp_int (fst X) 0 \<noteq> 0 \<longleftrightarrow> mpi_val (fst X) \<noteq> 0" if "sized m (fst X)" for X :: "'l word triple"
    using that cmp_int_val [of "fst X" 0] by (simp add: sized_def sgn_0_0)
  consider (equal) "?u = ?v" | (more) "?v < ?u" | (less) "?u < ?v"
    by linarith
  then show ?case
  proof cases
    case equal
    obtain W where W: "inv_minus M U' V' = Inr W" "triple_ok m a n (2 * b) W" "mpi_val (fst W) = ?u - ?v"
      by (rule inv_minus_fact [OF U V _ n(2) room(2) Suc.prems(9)]) (use equal in simp)
    have "?v = 1"
      using Suc.prems(7) pos equal by simp
    moreover have "inv_loop M TA TB U V = Some (Inr V')"
      using run W inv_subtract_cases [OF U V] equal zero [of W] triple_fst [OF W(2)] by simp
    ultimately show ?thesis
      using triple_ok_mono [OF V, of "b + n * int (Suc j)"] nj n(1) by simp
  next
    case more
    obtain W X where X: "inv_minus M U' V' = Inr W" "mpi_val (fst W) \<noteq> 0" "sized m (fst W)" "inv_halve M TA TB W = Some (Inr X)"
        "triple_ok m a n (b + n) X" "odd (mpi_val (fst X))" "coprime (mpi_val (fst X)) ?v" "2 * mpi_val (fst X) < ?u"
      by (rule minus_halve [OF ops U V odd more Suc.prems(7,11) room(1) Suc.prems(9)])
    have "inv_loop M TA TB U V = inv_loop M TA TB W V'"
      using run X(1,2) inv_subtract_cases [OF U V] more zero [OF X(3)] by simp
    moreover have "mpi_val (fst X) * ?v < 2 ^ j"
      using mult_strict_right_mono [OF X(8) pos(2)] Suc.prems(8) by simp
    moreover have "mpi_val (fst X) < 2 ^ (LENGTH('l) * m)"
      using X(8) Suc.prems(9) triple_fst [OF X(5)] by linarith
    ultimately show ?thesis
      unfolding nj(2) using Suc.IH [OF X(4) inv_halve_odd [OF V odd(2)] X(5) triple_ok_mono [OF V] X(6) odd(2) X(7)]
        Suc.prems(10,11) room(3) n(1) by simp
  next
    case less
    have cop: "coprime ?v ?u"
      using Suc.prems(7) by (simp add: coprime_commute)
    obtain W X where X: "inv_minus M V' U' = Inr W" "mpi_val (fst W) \<noteq> 0" "sized m (fst W)" "inv_halve M TA TB W = Some (Inr X)"
        "triple_ok m a n (b + n) X" "odd (mpi_val (fst X))" "coprime (mpi_val (fst X)) ?u" "2 * mpi_val (fst X) < ?v"
      by (rule minus_halve [OF ops V U odd(2,1) less cop Suc.prems(11) room(1) Suc.prems(10)])
    have "inv_loop M TA TB U V = inv_loop M TA TB U' W"
      using run X(1) inv_subtract_cases [OF U V] less pos zero [of U'] triple_fst [OF U] by simp
    moreover have "?u * mpi_val (fst X) < 2 ^ j"
      using mult_strict_left_mono [OF X(8) pos(1)] Suc.prems(8) by simp
    moreover have "mpi_val (fst X) < 2 ^ (LENGTH('l) * m)"
      using X(8) Suc.prems(10) triple_fst [OF X(5)] by linarith
    moreover have "coprime ?u (mpi_val (fst X))"
      using X(7) by (simp add: coprime_commute)
    ultimately show ?thesis
      unfolding nj(2) using Suc.IH [OF inv_halve_odd [OF U odd(1)] X(4) triple_ok_mono [OF U] X(5) odd(1) X(6)]
        Suc.prems(9,11) room(3) n(1) by simp
  qed
qed

text \<open>The result of the loop is brought into range.\<close>

lemma add_up_fact:
  fixes N :: "'l::len word mpi"
  assumes N: "sized m N" "0 < mpi_val N" "mpi_val N < 2 ^ (LENGTH('l) * m)" and room: "plenty M (m + 1)"
  shows "sized m R \<Longrightarrow> \<bar>mpi_val R\<bar> < 2 ^ (LENGTH('l) * m) \<Longrightarrow>
    \<exists>Y. add_up M (Other N) R = Some (Inr Y) \<and> sized m Y \<and> 0 \<le> mpi_val Y \<and> mpi_val Y \<le> max (mpi_val R) (mpi_val N) \<and>
      mpi_val Y mod mpi_val N = mpi_val R mod mpi_val N"
proof (induction "nat (- mpi_val R)" arbitrary: R rule: less_induct)
  case less
  have "has_sign R"
    using less.prems(1) by (simp add: sized_def)
  then have neg: "mbedtls_mpi_cmp_int R 0 < 0 \<longleftrightarrow> mpi_val R < 0"
    using cmp_int_val [of R 0] by simp
  show ?case
  proof (cases "mpi_val R < 0")
    case True
    have "\<bar>mpi_val R + mpi_val N\<bar> < 2 ^ (LENGTH('l) * m)"
      using less.prems(2) N(2,3) True by linarith
    then obtain Y where Y: "mbedtls_mpi_add_mpi M R Self (Other N) = Inr Y" "sized m Y" "mpi_val Y = mpi_val R + mpi_val N"
      by (rule sized_add [OF less.prems(1) N(1) room])
    have "add_up M (Other N) R = add_up M (Other N) Y"
      using neg True Y(1) by (subst add_up.simps) simp
    moreover have "nat (- mpi_val Y) < nat (- mpi_val R)" "\<bar>mpi_val Y\<bar> < 2 ^ (LENGTH('l) * m)"
      unfolding Y(3) using True N(2,3) less.prems(2) by linarith+
    then obtain Z where "add_up M (Other N) Y = Some (Inr Z)" "sized m Z" "0 \<le> mpi_val Z" "mpi_val Z \<le> max (mpi_val Y) (mpi_val N)"
        "mpi_val Z mod mpi_val N = mpi_val Y mod mpi_val N"
      using less.hyps [OF _ Y(2)] by blast
    ultimately show ?thesis
      using Y(3) True by (intro exI [of _ Z]) auto
  next
    case False
    then show ?thesis
      using neg less.prems(1) by (subst add_up.simps) simp
  qed
qed

lemma take_down_fact:
  fixes N :: "'l::len word mpi"
  assumes N: "sized m N" "0 < mpi_val N" and room: "plenty M (m + 1)"
  shows "sized m R \<Longrightarrow> 0 \<le> mpi_val R \<Longrightarrow> mpi_val R < 2 ^ (LENGTH('l) * m) \<Longrightarrow>
    \<exists>Y. take_down M (Other N) R = Some (Inr Y) \<and> sized m Y \<and> mpi_val Y = mpi_val R mod mpi_val N"
proof (induction "nat (mpi_val R)" arbitrary: R rule: less_induct)
  case less
  have "has_sign R" "has_sign N"
    using less.prems(1) N(1) by (simp_all add: sized_def)
  then have ge: "0 \<le> mbedtls_mpi_cmp_mpi R N \<longleftrightarrow> mpi_val N \<le> mpi_val R"
    by (simp add: cmp_mpi_val sgn_if)
  show ?case
  proof (cases "mpi_val N \<le> mpi_val R")
    case True
    have "\<bar>mpi_val R - mpi_val N\<bar> < 2 ^ (LENGTH('l) * m)"
      using less.prems(3) N(2) True by linarith
    then obtain Y where Y: "mbedtls_mpi_sub_mpi M R Self (Other N) = Inr Y" "sized m Y" "mpi_val Y = mpi_val R - mpi_val N"
      by (rule sized_sub [OF less.prems(1) N(1) room])
    have "take_down M (Other N) R = take_down M (Other N) Y"
      using ge True Y(1) by (subst take_down.simps) simp
    moreover have "nat (mpi_val Y) < nat (mpi_val R)" "0 \<le> mpi_val Y" "mpi_val Y < 2 ^ (LENGTH('l) * m)"
      unfolding Y(3) using True N(2) less.prems(3) by linarith+
    then obtain Z where "take_down M (Other N) Y = Some (Inr Z)" "sized m Z" "mpi_val Z = mpi_val Y mod mpi_val N"
      using less.hyps [OF _ Y(2)] by blast
    ultimately show ?thesis
      using Y(3) by (intro exI [of _ Z]) simp
  next
    case False
    then show ?thesis
      using ge less.prems(1,2) by (subst take_down.simps) simp
  qed
qed

section \<open>The inverse\<close>

lemma inv_halve_any:
  fixes TA :: "'l::len word mpi"
  assumes ops: "operands_ok M m TA TB a n" and U: "triple_ok m a n n U" "0 < mpi_val (fst U)" and room: "2 * n < 2 ^ (LENGTH('l) * m)"
  obtains U' where "inv_halve M TA TB U = Some (Inr U')" "triple_ok m a n n U'" "odd (mpi_val (fst U'))"
    "mpi_val (fst U') dvd mpi_val (fst U)" "mpi_val (fst U') \<le> mpi_val (fst U)"
proof (cases "odd (mpi_val (fst U))")
  case True
  show ?thesis
    by (rule that [OF inv_halve_odd [OF U(1) True] U(1) True]) simp_all
next
  case False
  have "n + n < 2 ^ (LENGTH('l) * m)"
    using room by simp
  then obtain U' where U': "inv_halve M TA TB U = Some (Inr U')" "triple_ok m a n ((n + n) div 2) U'" "odd (mpi_val (fst U'))"
      "mpi_val (fst U') dvd mpi_val (fst U)" "2 * mpi_val (fst U') \<le> mpi_val (fst U)"
    using inv_halve_even [OF ops U(1) _ U(2)] False by auto
  have "triple_ok m a n n U'"
    by (rule triple_ok_mono [OF U'(2)]) simp
  moreover have "mpi_val (fst U') \<le> mpi_val (fst U)"
    using U'(5) triple_fst [OF U'(2)] by linarith
  ultimately show ?thesis
    by (intro that [OF U'(1) _ U'(3,4)])
qed

text \<open>Enough limbs for all factors.\<close>

lemma room_parts: "2 * (n + q) + n < Z \<Longrightarrow> 0 \<le> q \<Longrightarrow> 0 < n \<Longrightarrow> 2 * n < Z \<and> n < Z \<and> n + q < Z" for n q Z :: int
  by auto

lemma factor_room:
  fixes x L k m :: nat and n :: int
  assumes "0 \<le> n" and "n < 2 ^ x" and "2 * x + 3 \<le> k"
  shows "2 * (n + n * int (2 * x)) + n < 2 ^ k"
proof -
  have "int x < int (2 ^ x)"
    by (simp only: of_nat_less_iff less_exp)
  then have "int x < 2 ^ x"
    unfolding of_nat_power of_nat_numeral .
  then have "4 * int x + 3 \<le> 8 * 2 ^ x"
    by linarith
  then have "4 * int x + 3 \<le> 2 ^ (x + 3)"
    by (simp add: power_add)
  then have "n * (4 * int x + 3) \<le> n * 2 ^ (x + 3)"
    using assms(1) by (rule mult_left_mono)
  also have "\<dots> < 2 ^ x * 2 ^ (x + 3)"
    using assms(2) by (rule mult_strict_right_mono) simp
  also have "\<dots> = 2 ^ (2 * x + 3)"
    unfolding power_add [symmetric] by (rule arg_cong) simp
  also have "\<dots> \<le> 2 ^ k"
    using assms(3) by (intro power_increasing) simp_all
  finally show ?thesis
    by (simp add: algebra_simps)
qed

definition room_for_inverse :: "platform \<Rightarrow> 'l::len word mpi \<Rightarrow> 'l word mpi \<Rightarrow> bool" where
  "room_for_inverse M A N \<longleftrightarrow>
     (let m = max (2 * mpi_n N) (mpi_n A) + 3 in plenty M (m + 1) \<and> m * LENGTH('l) < 2 ^ SIZE_BITS M)"

lemma sized_copy:
  assumes "has_sign X" and "mpi_val X \<noteq> 0" and "mpi_n X \<le> m" and "plenty M (m + 1)"
  obtains Y where "mbedtls_mpi_copy M mbedtls_mpi_init (Other X) = Inr Y" "sized m Y" "mpi_val Y = mpi_val X"
proof -
  have n: "mpi_n X \<noteq> 0"
    using assms(2) by (intro notI) (simp add: mpi_val_def mpi_abs_def)
  obtain Y where Y: "mbedtls_mpi_copy M mbedtls_mpi_init (Other X) = Inr Y"
    using copy_succeeds [OF plenty_mono [OF assms(4)]] assms(3) by (meson le_add1 le_trans)
  have "mpi_val Y = mpi_val X" "mpi_n Y \<le> m" "mpi_s Y = mpi_s X"
    using copy_fact(2,4,6) [OF Y] n assms(3) by (simp_all add: mbedtls_mpi_init_def)
  moreover have "mpi_n Y \<noteq> 0"
    using calculation(1) assms(2) by (intro notI) (simp add: mpi_val_def [of Y] mpi_abs_def)
  ultimately show ?thesis
    using that Y assms(1) by (simp add: sized_def has_sign_def)
qed

lemma sized_lset:
  fixes z :: "'l::len word"
  assumes "plenty M (m + 1)" and "0 < m"
  obtains Y where "mbedtls_mpi_lset M mbedtls_mpi_init z = Inr Y" "sized m Y" "mpi_val Y = sint z"
proof -
  obtain Y where Y: "mbedtls_mpi_lset M mbedtls_mpi_init z = Inr Y"
    using lset_succeeds [of M mbedtls_mpi_init z] plenty_mono [OF assms(1), of 1] by auto
  have "mpi_n Y = 1" "has_sign Y"
    using lset_fact(3,5) [OF Y] by (simp_all add: mbedtls_mpi_init_def sint_sign_def has_sign_def)
  then show ?thesis
    using that Y lset_fact(1) [OF Y] assms(2) by (simp add: sized_def del: length_greater_0_conv)
qed

lemma inv_init_fact:
  fixes N :: "'l::len word mpi"
  assumes L: "1 < LENGTH('l)" and TA: "has_sign TA" "mpi_val TA \<noteq> 0" "mpi_n TA \<le> m" and N: "has_sign N" "mpi_val N \<noteq> 0" "mpi_n N \<le> m"
    and m: "plenty M (m + 1)" "0 < m"
  obtains TB TU U1 U2 TV V1 V2 where "inv_init M TA N = Inr (TB, (TU, U1, U2), (TV, V1, V2))"
    "sized m TB" "sized m TU" "sized m U1" "sized m U2" "sized m TV" "sized m V1" "sized m V2" "mpi_val TB = mpi_val N"
    "mpi_val TU = mpi_val TA" "mpi_val TV = mpi_val N" "mpi_val U1 = 1" "mpi_val U2 = 0" "mpi_val V1 = 0" "mpi_val V2 = 1"
proof -
  obtain TU where TU: "mbedtls_mpi_copy M mbedtls_mpi_init (Other TA) = Inr TU" "sized m TU" "mpi_val TU = mpi_val TA"
    by (rule sized_copy [OF TA m(1)])
  obtain TB where TB: "mbedtls_mpi_copy M mbedtls_mpi_init (Other N) = Inr TB" "sized m TB" "mpi_val TB = mpi_val N"
    by (rule sized_copy [OF N m(1)])
  obtain Z where Z: "mbedtls_mpi_lset M mbedtls_mpi_init (0 :: 'l word) = Inr Z" "sized m Z" "mpi_val Z = sint (0 :: 'l word)"
    by (rule sized_lset [OF m])
  obtain I where I: "mbedtls_mpi_lset M mbedtls_mpi_init (1 :: 'l word) = Inr I" "sized m I" "mpi_val I = sint (1 :: 'l word)"
    by (rule sized_lset [OF m])
  have "inv_init M TA N = Inr (TB, (TU, I, Z), (TB, Z, I))"
    by (simp add: inv_init_def TU(1) TB(1) Z(1) I(1))
  then show ?thesis
    by (rule that) (use TU TB Z I L in simp_all)
qed

lemma inv_mod_fact:
  fixes X :: "'l::len word mpi"
  assumes K: "muladdc_exact K" and u: "have_udbl \<or> even LENGTH('l)" "1 < LENGTH('l)"
    and sign: "has_sign A" "has_sign N" and N: "1 < mpi_val N" and room: "room_for_inverse M A N"
  shows "if coprime (mpi_val A) (mpi_val N)
    then \<exists>Y. mbedtls_mpi_inv_mod M K have_udbl X A N = Some (Inr Y) \<and> 0 \<le> mpi_val Y \<and> mpi_val Y < mpi_val N \<and>
      mpi_val A * mpi_val Y mod mpi_val N = 1
    else mbedtls_mpi_inv_mod M K have_udbl X A N = Some (Inl MBEDTLS_ERR_MPI_NOT_ACCEPTABLE)"
proof -
  define m where "m = max (2 * mpi_n N) (mpi_n A) + 3"
  have room: "plenty M (m + 1)" "m * LENGTH('l) < 2 ^ SIZE_BITS M"
    using room by (simp_all add: room_for_inverse_def m_def Let_def)
  have plenty: "plenty M i" if "i \<le> m + 1" for i
    using room(1) that by (rule plenty_mono)
  have size: "i * LENGTH('l) < 2 ^ SIZE_BITS M" if "i \<le> m" for i
    using room(2) mult_le_mono1 [OF that, of "LENGTH('l)"] by linarith
  have m: "2 * mpi_n N + 3 \<le> m" "mpi_n A + 3 \<le> m" "0 < m"
    by (simp_all add: m_def)
  have n: "mpi_val N = int (mpi_abs N)" "mpi_abs N \<noteq> 0"
    using val_pos [OF sign(2)] N by auto
  have "sint (1 :: 'l word) = 1"
    using u(2) by simp
  then have cmp_N: "\<not> mbedtls_mpi_cmp_int N 1 \<le> 0"
    using cmp_int_val [OF sign(2), of 1] N by simp
  have "room_for_gcd M mbedtls_mpi_init (Other A) (Other N)"
    unfolding room_for_gcd_def Let_def using m plenty size by (simp add: mbedtls_mpi_init_def)
  then obtain G where G: "mbedtls_mpi_gcd M mbedtls_mpi_init (Other A) (Other N) = Inr G" "mpi_val G = int (gcd (mpi_abs A) (mpi_abs N))" "mpi_s G = 1"
    using gcd_fact [of M mbedtls_mpi_init "Other A" "Other N"] n(2) by auto
  have "has_sign G"
    using G(3) by (simp add: has_sign_def)
  moreover have "coprime (mpi_val A) (mpi_val N) \<longleftrightarrow> gcd (mpi_abs A) (mpi_abs N) = 1"
    using sign by (auto simp: has_sign_def mpi_val_def coprime_iff_gcd_eq_1)
  ultimately have cmp_G: "mbedtls_mpi_cmp_int G 1 \<noteq> 0 \<longleftrightarrow> \<not> coprime (mpi_val A) (mpi_val N)"
    using cmp_int_val [of G 1] G(2) \<open>sint (1 :: 'l word) = 1\<close> by (simp add: sgn_0_0)
  show ?thesis
  proof (cases "coprime (mpi_val A) (mpi_val N)")
    case False
    then show ?thesis
      using cmp_N G(1) cmp_G by (simp add: mbedtls_mpi_inv_mod_def)
  next
    case True
    let ?n = "mpi_val N" and ?a = "mpi_val A mod mpi_val N"
    have "(mpi_n A + 2) * LENGTH('l) < 2 ^ SIZE_BITS M"
      using m(2) by (intro size) simp
    then have "room_for_remainder M mbedtls_mpi_init A N"
      unfolding room_for_remainder_def room_for_division_def using m plenty by (simp add: mbedtls_mpi_init_def)
    then obtain TA where TA: "mbedtls_mpi_mod_mpi M K have_udbl mbedtls_mpi_init (Other A) (Other N) = Some (Inr TA)"
        "mpi_val TA = ?a" "has_sign TA" "mpi_n TA \<le> max (mpi_n A + 2) (mpi_n N) + 1"
      using mod_mpi_fact [OF K u(1), of M mbedtls_mpi_init "Other A" N] sign N by (auto simp: has_sign_def mbedtls_mpi_init_def)
    have a: "coprime ?a ?n" "0 \<le> ?a" "?a < ?n"
      using True N by simp_all
    have "?a \<noteq> 0"
      using a(1) N by (intro notI) simp
    then have pos: "0 < ?a"
      using a(2) by linarith
    have nTA: "mpi_val TA \<noteq> 0" "mpi_n TA \<le> m" "?n \<noteq> 0" "mpi_n N \<le> m"
      using TA(2,4) \<open>?a \<noteq> 0\<close> N m by simp_all
    obtain TB TU U1 U2 TV V1 V2 where init: "inv_init M TA N = Inr (TB, (TU, U1, U2), (TV, V1, V2))"
      and sized: "sized m TB" "sized m TU" "sized m U1" "sized m U2" "sized m TV" "sized m V1" "sized m V2"
      and vals: "mpi_val TB = ?n" "mpi_val TU = mpi_val TA" "mpi_val TV = ?n" "mpi_val U1 = 1" "mpi_val U2 = 0" "mpi_val V1 = 0" "mpi_val V2 = 1"
      by (rule inv_init_fact [OF u(2) TA(3) nTA(1,2) sign(2) nTA(3,4) room(1) m(3)])
    have "mpi_n TA \<noteq> 0"
      using nTA(1) by (intro notI) (simp add: mpi_val_def mpi_abs_def)
    moreover have "odd ?a \<or> odd ?n"
      using coprime_common_divisor [OF a(1), of 2] by fastforce
    ultimately have ops: "operands_ok M m TA TB ?a ?n"
      using TA(2,3) nTA(2) sized(1) vals(1) a(2,3) room(1) by (simp add: operands_ok_def sized_def)
    let ?x = "LENGTH('l) * mpi_n N" and ?Z = "2 ^ (LENGTH('l) * m) :: int"
    have less: "?n < 2 ^ ?x"
      using limbs_val_less [of "mpi_p N"] unfolding n(1) by (simp add: mpi_abs_def flip: of_nat_less_iff)
    have "LENGTH('l) * (2 * mpi_n N + 3) \<le> LENGTH('l) * m"
      using m(1) by (rule mult_le_mono2)
    then have "2 * ?x + 3 \<le> LENGTH('l) * m"
      using u(2) by (simp add: algebra_simps)
    then have fits: "2 * (?n + ?n * int (2 * ?x)) + ?n < ?Z"
      using N less by (intro factor_room [of _ ?x]) simp_all
    have "0 \<le> ?n * int (2 * ?x)" "0 < ?n"
      using N by simp_all
    from room_parts [OF fits this] have small: "2 * ?n < ?Z" "?n < ?Z" "?n + ?n * int (2 * ?x) < ?Z"
      by blast+
    have U: "triple_ok m ?a ?n ?n (TU, U1, U2)" and V: "triple_ok m ?a ?n ?n (TV, V1, V2)"
      using sized vals TA(2) a(2) N by (simp_all add: triple_ok_def)
    have u0: "0 < mpi_val (fst (TU, U1, U2))" "0 < mpi_val (fst (TV, V1, V2))"
      using vals TA(2) pos N by simp_all
    obtain U' where U': "inv_halve M TA TB (TU, U1, U2) = Some (Inr U')" "triple_ok m ?a ?n ?n U'" "odd (mpi_val (fst U'))"
        "mpi_val (fst U') dvd mpi_val (fst (TU, U1, U2))" "mpi_val (fst U') \<le> mpi_val (fst (TU, U1, U2))"
      by (rule inv_halve_any [OF ops U u0(1) small(1)])
    obtain V' where V': "inv_halve M TA TB (TV, V1, V2) = Some (Inr V')" "triple_ok m ?a ?n ?n V'" "odd (mpi_val (fst V'))"
        "mpi_val (fst V') dvd mpi_val (fst (TV, V1, V2))" "mpi_val (fst V') \<le> mpi_val (fst (TV, V1, V2))"
      by (rule inv_halve_any [OF ops V u0(2) small(1)])
    have U_le: "0 \<le> mpi_val (fst U')" "mpi_val (fst U') < ?n" and V_le: "0 \<le> mpi_val (fst V')" "mpi_val (fst V') \<le> ?n"
      using triple_fst [OF U'(2)] triple_fst [OF V'(2)] U'(5) V'(5) vals(2,3) TA(2) a(3) by simp_all
    have cop: "coprime (mpi_val (fst U')) (mpi_val (fst V'))"
      using coprime_divisors [OF U'(4) V'(4)] a(1) vals(2,3) TA(2) by simp
    have "mpi_val (fst U') * mpi_val (fst V') \<le> ?n * ?n"
      using U_le V_le by (intro mult_mono) simp_all
    also have "\<dots> < 2 ^ ?x * 2 ^ ?x"
      using less N by (intro mult_strict_mono) simp_all
    finally have prod: "mpi_val (fst U') * mpi_val (fst V') < 2 ^ (2 * ?x)"
      by (simp only: mult_2 power_add)
    obtain W where W: "inv_loop M TA TB (TU, U1, U2) (TV, V1, V2) = Some (Inr W)" "triple_ok m ?a ?n (?n + ?n * int (2 * ?x)) W"
        "mpi_val (fst W) = 1"
      using inv_loop_fact [OF ops U'(1) V'(1) U'(2) V'(2) U'(3) V'(3) cop prod _ _ order_refl fits] U_le V_le small(2) by fastforce
    obtain TW W1 W2 where w: "W = (TW, W1, W2)"
      by (cases W)
    have w1: "sized m W1" "mpi_val W1 * ?a + mpi_val W2 * ?n = 1" "\<bar>mpi_val W1\<bar> < ?Z"
      using W(2,3) small(3) by (simp_all add: triple_ok_def w)
    have "mpi_n N \<noteq> 0"
      using n(2) by (intro notI) (simp add: mpi_abs_def)
    then have sN: "sized m N" "0 < ?n"
      using sign(2) nTA(4) N by (simp_all add: sized_def)
    obtain Y where Y: "add_up M (Other N) W1 = Some (Inr Y)" "sized m Y" "0 \<le> mpi_val Y" "mpi_val Y \<le> max (mpi_val W1) ?n"
        "mpi_val Y mod ?n = mpi_val W1 mod ?n"
      using add_up_fact [OF sN small(2) room(1) w1(1,3)] by blast
    have "mpi_val Y < ?Z"
      using Y(4) w1(3) small(2) by linarith
    then obtain Z where Z: "take_down M (Other N) Y = Some (Inr Z)" "sized m Z" "mpi_val Z = mpi_val Y mod ?n"
      using take_down_fact [OF sN room(1) Y(2,3)] by blast
    have "plenty M (mpi_n Z)"
      using Z(2) by (intro plenty) (simp add: sized_def)
    then obtain R where R: "mbedtls_mpi_copy M X (Other Z) = Inr R"
      using copy_succeeds by blast
    have val: "mpi_val R = mpi_val W1 mod ?n"
      using copy_fact(2) [OF R] Z(3) Y(5) by simp
    have "mpi_val A * mpi_val R mod ?n = mpi_val W1 * ?a mod ?n"
      unfolding val by (simp add: mod_simps mult.commute)
    also have "\<dots> = (mpi_val W1 * ?a + mpi_val W2 * ?n) mod ?n"
      by simp
    also have "\<dots> = 1"
      unfolding w1(2) using N by simp
    finally have "mpi_val A * mpi_val R mod ?n = 1" .
    moreover have "mbedtls_mpi_inv_mod M K have_udbl X A N = Some (Inr R)"
      using cmp_N G(1) cmp_G True TA(1) init W(1) w Y(1) Z(1) R by (simp add: mbedtls_mpi_inv_mod_def)
    ultimately show ?thesis
      using True val N by simp
  qed
qed

section \<open>Properties\<close>

text \<open>
  C33: The binary extended algorithm terminates and computes the inverse: for a modulus above 1 and every
  number prime to it, also a negative one, the result is between 0 and the modulus and its product with the number is
  1 modulo the modulus, for odd and even moduli.  A modulus that is not above 1 and a number that has no inverse are
  reported, each with its own error.
\<close>

theorem inv_mod_correct:
  fixes X :: "'l::len word mpi"
  assumes "muladdc_exact K" and "have_udbl \<or> even LENGTH('l)" and "1 < LENGTH('l)"
    and "mpi_ok M A" and "mpi_ok M N" and "room_for_inverse M A N"
  shows "if mpi_val N \<le> 1 then mbedtls_mpi_inv_mod M K have_udbl X A N = Some (Inl MBEDTLS_ERR_MPI_BAD_INPUT_DATA)
    else if coprime (mpi_val A) (mpi_val N)
    then \<exists>Y. mbedtls_mpi_inv_mod M K have_udbl X A N = Some (Inr Y) \<and> 0 \<le> mpi_val Y \<and> mpi_val Y < mpi_val N \<and>
      mpi_val A * mpi_val Y mod mpi_val N = 1
    else mbedtls_mpi_inv_mod M K have_udbl X A N = Some (Inl MBEDTLS_ERR_MPI_NOT_ACCEPTABLE)"
proof -
  have sign: "has_sign A" "has_sign N"
    using assms(4,5) by (simp_all add: mpi_ok_def has_sign_def)
  have "sint (1 :: 'l word) = 1"
    using assms(3) by simp
  then have "mbedtls_mpi_cmp_int N 1 \<le> 0" if "mpi_val N \<le> 1"
    using cmp_int_val [OF sign(2), of 1] that by (simp add: sgn_if)
  then have "mbedtls_mpi_inv_mod M K have_udbl X A N = Some (Inl MBEDTLS_ERR_MPI_BAD_INPUT_DATA)" if "mpi_val N \<le> 1"
    using that by (simp add: mbedtls_mpi_inv_mod_def)
  then show ?thesis
    using inv_mod_fact [OF assms(1-3) sign _ assms(6), of X] by (cases "mpi_val N \<le> 1") simp_all
qed

theorem inv_mod_correct_witness:
  "\<exists>Y. mbedtls_mpi_inv_mod demo_platform wide_muladdc False mbedtls_mpi_init \<lparr>mpi_s = - 1, mpi_p = [3 :: 64 word]\<rparr>
      \<lparr>mpi_s = 1, mpi_p = [10, 0]\<rparr> = Some (Inr Y) \<and> 0 \<le> mpi_val Y \<and> mpi_val Y < 10 \<and> - 3 * mpi_val Y mod 10 = 1"
proof -
  let ?A = "\<lparr>mpi_s = - 1, mpi_p = [3 :: 64 word]\<rparr>" and ?N = "\<lparr>mpi_s = 1, mpi_p = [10 :: 64 word, 0]\<rparr>"
  have val: "mpi_val ?A = - 3" "mpi_val ?N = 10" "mpi_ok demo_platform ?A" "mpi_ok demo_platform ?N"
    by (simp_all add: mpi_val_def mpi_abs_def mpi_ok_def demo_platform_def)
  have "room_for_inverse demo_platform ?A ?N"
    by (simp add: room_for_inverse_def demo_plenty) (simp add: demo_platform_def)
  moreover have "coprime (- 3) (10 :: int)"
    by code_simp
  ultimately show ?thesis
    using inv_mod_correct [OF wide_muladdc_exact, of False demo_platform ?A ?N mbedtls_mpi_init] val by simp
qed

end
