(* ===== verification/Bignum_Write.thy ===== *)
theory Bignum_Write
  imports Bignum_Inv
begin

text \<open>
  Multi-precision integers (\<open>bignum.c\<close>), output as text: \<open>mpi_write_hlp\<close> and \<open>mbedtls_mpi_write_string\<close>.
  The buffer of the caller is a list of bytes; a store outside of it is the error \<open>Array_Overrun\<close>, which
  the main theorem excludes.  The digits come from repeated division in every radix but 16, and from the bytes of the
  limbs in radix 16.  Both branches write the numeral of the absolute value, so that reading the text back
  (\<open>Bignum_Radix\<close>) gives the number.
\<close>

section \<open>The code\<close>

text \<open>A character is stored in the buffer of the caller.\<close>

definition put :: "bytes \<Rightarrow> nat \<Rightarrow> u8 \<Rightarrow> mpi_error + bytes" where
  "put buf i c = (if i < length buf then Inr (buf[i := c]) else Inl Array_Overrun)"

definition digit_char :: "'l::len word \<Rightarrow> u8" where
  "digit_char r = (if r < 0xA then 0x30 + ucast r else 0x41 + ucast (r - 0xA))"

text \<open>The digits are written from the end of the buffer, \<open>p_end\<close> is the position of the last one written.\<close>

partial_function (option) write_loop ::
  "platform \<Rightarrow> 'l::len muladdc \<Rightarrow> bool \<Rightarrow> 'l word \<Rightarrow> nat \<Rightarrow> 'l word mpi \<Rightarrow> bytes \<Rightarrow> nat \<Rightarrow> nat \<Rightarrow> (mpi_error + bytes \<times> nat \<times> nat) option" where
  [code]: "write_loop M K have_udbl radix buflen X buf p_end len =
     (if buflen \<le> len then Some (Inl MBEDTLS_ERR_MPI_BUFFER_TOO_SMALL)
      else
        run_then (Some (mbedtls_mpi_mod_int X radix)) (\<lambda>r.
        run_then (mbedtls_mpi_div_int M K have_udbl (\<lambda>_. X) (Some 0) None (At 0) radix) (\<lambda>st.
        run_then (Some (put buf (p_end - 1) (digit_char r))) (\<lambda>buf.
        if mbedtls_mpi_cmp_int (st 0) 0 \<noteq> 0
        then write_loop M K have_udbl radix buflen (st 0) buf (p_end - 1) (len + 1)
        else Some (Inr (buf, p_end - 1, len + 1))))))"

definition mpi_write_hlp ::
  "platform \<Rightarrow> 'l::len muladdc \<Rightarrow> bool \<Rightarrow> 'l word mpi \<Rightarrow> 'l word \<Rightarrow> bytes \<Rightarrow> nat \<Rightarrow> nat \<Rightarrow> (mpi_error + bytes \<times> nat) option" where
  "mpi_write_hlp M K have_udbl X radix buf p buflen =
     run_then (write_loop M K have_udbl radix buflen X buf (p + buflen) 0) (\<lambda>(buf, p_end, len).
     Some (Inr (take p buf @ take len (drop p_end buf) @ drop (p + len) buf, p + len)))"

text \<open>Radix 16: the bytes \<open>(i, j)\<close> of the limbs, the leading zeros are skipped.\<close>

definition hex_char :: "nat \<Rightarrow> u8" where
  "hex_char d = [0x30, 0x31, 0x32, 0x33, 0x34, 0x35, 0x36, 0x37, 0x38, 0x39, 0x41, 0x42, 0x43, 0x44, 0x45, 0x46] ! d"

fun hex_write :: "'l::len word list \<Rightarrow> bytes \<Rightarrow> nat \<Rightarrow> nat \<Rightarrow> (nat \<times> nat) list \<Rightarrow> mpi_error + bytes \<times> nat" where
  "hex_write limbs buf p k [] = Inr (buf, p)"
| "hex_write limbs buf p k ((i, j) # ijs) =
     (let c = unat (drop_bit (push_bit 3 (j - 1)) (limbs ! (i - 1)) AND 0xFF) in
      if c = 0 \<and> k = 0 \<and> i + j \<noteq> 2 then hex_write limbs buf p k ijs
      else
        and_then (put buf p (hex_char (c div 16))) (\<lambda>buf.
        and_then (put buf (p + 1) (hex_char (c mod 16))) (\<lambda>buf.
        hex_write limbs buf (p + 2) 1 ijs)))"

definition hex_positions :: "'l::len word list \<Rightarrow> (nat \<times> nat) list" where
  "hex_positions limbs = concat (map (\<lambda>i. map (\<lambda>j. (i, j)) (rev [1..<ciL TYPE('l) + 1])) (rev [1..<length limbs + 1]))"

text \<open>The size that the text may need.\<close>

definition text_size :: "'l::len word mpi \<Rightarrow> nat \<Rightarrow> nat" where
  "text_size X radix =
     (let n = mbedtls_mpi_bitlen X;
          n = (if 4 \<le> radix then drop_bit 1 n else n);
          n = (if 16 \<le> radix then drop_bit 1 n else n);
          n = n + 1; n = n + 1; n = n + 1 in
      n + (n AND 1))"

text \<open>
  An error is returned with what \<open>olen\<close> then holds, if it is set; success with the buffer and \<open>olen\<close>.
\<close>

definition no_length :: "(mpi_error + 'a) option \<Rightarrow> (mpi_error \<times> nat option + 'a) option" where
  "no_length = map_option (map_sum (\<lambda>e. (e, None)) id)"

definition mbedtls_mpi_write_string ::
  "platform \<Rightarrow> 'l::len muladdc \<Rightarrow> bool \<Rightarrow> 'l word mpi \<Rightarrow> nat \<Rightarrow> bytes \<Rightarrow> nat \<Rightarrow> (mpi_error \<times> nat option + bytes \<times> nat) option" where
  "mbedtls_mpi_write_string M K have_udbl X radix buf buflen =
     (if radix < 2 \<or> 16 < radix then Some (Inl (MBEDTLS_ERR_MPI_BAD_INPUT_DATA, None))
      else if buflen < text_size X radix then Some (Inl (MBEDTLS_ERR_MPI_BUFFER_TOO_SMALL, Some (text_size X radix)))
      else no_length (
        run_then (Some (if mpi_s X = - 1 then and_then (put buf 0 0x2D) (\<lambda>buf. Inr (buf, 1, buflen - 1)) else Inr (buf, 0, buflen)))
          (\<lambda>(buf, p, buflen).
        run_then
          (if radix = 16 then Some (hex_write (mpi_p X) buf p 0 (hex_positions (mpi_p X)))
           else
             run_then (Some (mbedtls_mpi_copy M mbedtls_mpi_init (Other X))) (\<lambda>T.
             let T = (if mpi_s T = - 1 then T\<lparr>mpi_s := 1\<rparr> else T) in
             mpi_write_hlp M K have_udbl T (of_nat radix) buf p buflen)) (\<lambda>(buf, p).
        run_then (Some (put buf p 0)) (\<lambda>buf.
        Some (Inr (buf, p + 1)))))))"

section \<open>The digits of a number\<close>

lemma digit_char_val:
  fixes r :: "'l::len word"
  assumes "whole_bytes TYPE('l)" and "unat r < 16"
  shows "char_digit (digit_char r) = unat r"
proof -
  let ?k = "unat r"
  have cast: "(ucast x :: u8) = of_nat (unat x)" for x :: "'l word"
    by (simp add: unsigned_ucast_eq)
  have ten: "unat (0xA :: 'l word) = 10"
    using small_limb [OF assms(1), of 10] by simp
  have less: "r < 0xA \<longleftrightarrow> ?k < 10"
    unfolding word_less_nat_alt ten ..
  have sub: "unat (r - 0xA) = ?k - 10" if "10 \<le> ?k"
    using that unat_sub [of "0xA" r] unfolding word_le_nat_alt ten by simp
  have "digit_char r = of_nat (if ?k < 10 then 48 + ?k else 55 + ?k)"
    using less sub by (auto simp: digit_char_def cast not_less of_nat_diff simp del: of_nat_unat)
  then have "unat (digit_char r) = (if ?k < 10 then 48 + ?k else 55 + ?k)"
    using assms(2) by (simp add: unat_of_nat del: of_nat_unat)
  then show ?thesis
    using assms(2) by (auto simp: char_digit_def word_le_nat_alt)
qed

lemma div_int_self:
  fixes X :: "'l::len word mpi"
  assumes K: "muladdc_exact K" and u: "whole_bytes TYPE('l)" and radix: "2 \<le> radix" "radix \<le> 16"
    and X: "mpi_s X = 1" "mpi_n X \<le> m" "0 < m" and room: "plenty M (m + 3)" "(m + 2) * LENGTH('l) < 2 ^ SIZE_BITS M"
  obtains st where "mbedtls_mpi_div_int M K have_udbl (\<lambda>_. X) (Some 0) None (At 0) (of_nat radix) = Some (Inr st)"
    "mpi_abs (st 0) = mpi_abs X div radix" "has_sign (st 0)" "mpi_abs (st 0) \<noteq> 0 \<longrightarrow> mpi_s (st 0) = 1" "mpi_n (st 0) \<le> m"
proof -
  let ?B = "mpi_of_sint (of_nat radix :: 'l word)"
  have b: "mpi_val ?B = int radix"
    using small_sint [OF u, of radix] radix(2) by simp
  have val: "mpi_val X = int (mpi_abs X)"
    using X(1) by (simp add: mpi_val_def)
  have "mpi_abs ?B \<noteq> 0"
  proof
    assume "mpi_abs ?B = 0"
    then have "mpi_val ?B = 0"
      by (simp only: mpi_val_def of_nat_0 mult_zero_right)
    then show False
      using b radix(1) by simp
  qed
  moreover have "(mpi_n X + 2) * LENGTH('l) < 2 ^ SIZE_BITS M"
    using mult_le_mono1 [OF add_le_mono1 [OF X(2)], of 2 "LENGTH('l)"] room(2) by (rule le_less_trans)
  then have "room_for_division M X ?B"
    using room(1) X(2,3) by (auto simp: room_for_division_def elim!: plenty_mono)
  moreover have "even LENGTH('l)"
    using u by (simp add: whole_bytes_def)
  moreover have "safe_quotient (\<lambda>_. X) (Some 0) None (At 0) (Val ?B)"
    using X(1) by (simp add: safe_quotient_def)
  moreover have "has_sign X" "has_sign ?B"
    using X(1) by (simp_all add: has_sign_def [of X])
  ultimately obtain st where st: "mbedtls_mpi_div_mpi M K have_udbl (\<lambda>_. X) (Some 0) None (At 0) (Val ?B) = Some (Inr st)"
      "mpi_val (st 0) = mpi_val X sdiv int radix" "has_sign (st 0)" "mpi_n (st 0) \<le> max (mpi_n X) (max 1 (mpi_n X))"
    using div_mpi_fact [OF K, of have_udbl M "\<lambda>_. X" "At 0" "Val ?B" "Some 0" None] b by auto
  have "mpi_val X sdiv int radix = int (mpi_abs X div radix)"
    using truncated_division(1) [of 1 1 "mpi_abs X" radix] val by simp
  then have "mpi_abs (st 0) = mpi_abs X div radix" "mpi_abs (st 0) \<noteq> 0 \<longrightarrow> mpi_s (st 0) = 1"
    using st(2,3) by (auto simp: has_sign_def mpi_val_def)
  moreover have "mpi_n (st 0) \<le> m"
    using st(4) X(2,3) by linarith
  ultimately show ?thesis
    by (intro that [of st]) (use st in \<open>simp_all add: mbedtls_mpi_div_int_def\<close>)
qed

lemma write_loop_fact:
  fixes X :: "'l::len word mpi"
  assumes K: "muladdc_exact K" and u: "whole_bytes TYPE('l)" and radix: "2 \<le> radix" "radix \<le> 16"
    and room: "plenty M (m + 3)" "(m + 2) * LENGTH('l) < 2 ^ SIZE_BITS M" "0 < m"
  shows "mpi_s X = 1 \<Longrightarrow> mpi_n X \<le> m \<Longrightarrow> mpi_abs X < radix ^ r \<Longrightarrow> 0 < r \<Longrightarrow> len + r \<le> buflen \<Longrightarrow> r \<le> p_end \<Longrightarrow> p_end \<le> length buf \<Longrightarrow>
    \<exists>s. write_loop M K have_udbl (of_nat radix) buflen X buf p_end len =
        Some (Inr (take (p_end - length s) buf @ s @ drop p_end buf, p_end - length s, len + length s)) \<and>
      s \<noteq> [] \<and> length s \<le> r \<and> list_all (\<lambda>c. char_digit c < radix) s \<and> numeral_val radix s = mpi_abs X"
proof (induction r arbitrary: X buf p_end len)
  case (Suc r)
  let ?v = "mpi_abs X" and ?b = "of_nat radix :: 'l word"
  have b: "unat ?b = radix" "sint ?b = int radix"
    using small_limb [OF u, of radix] small_sint [OF u, of radix] radix(2) by simp_all
  have "(4 :: nat) \<le> LENGTH('l) div 2"
    using u ciL_pos [OF u] by (simp add: whole_bytes_def)
  then have "(2 :: nat) ^ 4 \<le> 2 ^ (LENGTH('l) div 2)"
    by (rule power_increasing) simp
  then have half: "unat ?b \<le> 2 ^ (LENGTH('l) div 2)"
    unfolding b(1) using radix(2) by simp
  have "even LENGTH('l)" "0 < sint ?b" "has_sign X"
    using u radix(1) Suc.prems(1) unfolding b(2) by (simp_all add: whole_bytes_def has_sign_def)
  then obtain d where d: "mbedtls_mpi_mod_int X ?b = Inr d" "int (unat d) = mpi_val X mod sint ?b"
    using mod_int_fact [OF _ half] by blast
  have less: "?v mod radix < radix"
    using radix(1) by simp
  have val: "unat d = ?v mod radix"
    using d(2) Suc.prems(1) unfolding b(2) by (simp add: mpi_val_def del: of_nat_unat flip: of_nat_mod)
  with less radix(2) have "unat d < 16"
    by linarith
  then have digit: "char_digit (digit_char d) = ?v mod radix" "?v mod radix < radix"
    using digit_char_val [OF u, of d] less val by simp_all
  obtain st where st: "mbedtls_mpi_div_int M K have_udbl (\<lambda>_. X) (Some 0) None (At 0) ?b = Some (Inr st)"
      "mpi_abs (st 0) = ?v div radix" "has_sign (st 0)" "mpi_abs (st 0) \<noteq> 0 \<longrightarrow> mpi_s (st 0) = 1" "mpi_n (st 0) \<le> m"
    by (rule div_int_self [OF K u radix Suc.prems(1,2) room(3,1,2), where have_udbl = have_udbl])
  let ?c = "digit_char d" and ?p = "p_end - 1"
  have p: "?p < length buf" "p_end = Suc ?p"
    using Suc.prems(6,7) by simp_all
  have put: "put buf ?p ?c = Inr (buf[?p := ?c])"
    using p(1) by (simp add: put_def)
  have zero: "mbedtls_mpi_cmp_int (st 0) 0 \<noteq> 0 \<longleftrightarrow> ?v div radix \<noteq> 0"
    using cmp_int_val [OF st(3), of 0] st(2,3) by (auto simp: sgn_0_0 mpi_val_def has_sign_def)
  have run: "write_loop M K have_udbl ?b buflen X buf p_end len =
      (if ?v div radix \<noteq> 0 then write_loop M K have_udbl ?b buflen (st 0) (buf[?p := ?c]) ?p (len + 1)
       else Some (Inr (buf[?p := ?c], ?p, len + 1)))"
    using Suc.prems(5) d(1) st(1) put zero by (subst write_loop.simps) simp
  show ?case
  proof (cases "?v div radix = 0")
    case True
    then have "?v mod radix = ?v"
      using mult_div_mod_eq [of radix ?v] by simp
    then have "numeral_val radix [?c] = ?v"
      using digit(1) by (simp add: numeral_val_def)
    moreover have "buf[?p := ?c] = take ?p buf @ [?c] @ drop p_end buf"
      using p by (simp add: upd_conv_take_nth_drop)
    ultimately show ?thesis
      using run True digit by (intro exI [of _ "[?c]"]) simp
  next
    case False
    have less: "mpi_abs (st 0) < radix ^ r"
      unfolding st(2) using Suc.prems(3) by (simp add: div_less_iff_less_mult mult.commute less_mult_imp_div_less)
    have r: "0 < r"
      using less False st(2) by (cases r) simp_all
    have "\<exists>s. write_loop M K have_udbl ?b buflen (st 0) (buf[?p := ?c]) ?p (len + 1) =
        Some (Inr (take (?p - length s) (buf[?p := ?c]) @ s @ drop ?p (buf[?p := ?c]), ?p - length s, len + 1 + length s)) \<and>
      s \<noteq> [] \<and> length s \<le> r \<and> list_all (\<lambda>c. char_digit c < radix) s \<and> numeral_val radix s = mpi_abs (st 0)"
      using Suc.prems(5-7) st(2,4,5) False less r by (intro Suc.IH) simp_all
    then obtain s where s: "write_loop M K have_udbl ?b buflen (st 0) (buf[?p := ?c]) ?p (len + 1) =
        Some (Inr (take (?p - length s) (buf[?p := ?c]) @ s @ drop ?p (buf[?p := ?c]), ?p - length s, len + 1 + length s))"
      "s \<noteq> []" "length s \<le> r" "list_all (\<lambda>c. char_digit c < radix) s" "numeral_val radix s = mpi_abs (st 0)"
      by blast
    have "drop ?p (buf[?p := ?c]) = ?c # drop p_end buf"
      using p by (simp add: upd_conv_take_nth_drop)
    moreover have "take (?p - length s) (buf[?p := ?c]) = take (p_end - length (s @ [?c])) buf"
      by (simp add: take_update_cancel)
    moreover have "numeral_val radix (s @ [?c]) = ?v"
      unfolding numeral_val_snoc s(5) st(2) digit(1) by simp
    ultimately show ?thesis
      using run False s digit by (intro exI [of _ "s @ [?c]"]) simp
  qed
qed simp

lemma write_hlp_fact:
  fixes X :: "'l::len word mpi"
  assumes K: "muladdc_exact K" and u: "whole_bytes TYPE('l)" and radix: "2 \<le> radix" "radix \<le> 16"
    and room: "plenty M (m + 3)" "(m + 2) * LENGTH('l) < 2 ^ SIZE_BITS M" "0 < m"
    and X: "mpi_s X = 1" "mpi_n X \<le> m" "mpi_abs X < radix ^ r" and r: "0 < r" "r \<le> buflen" "p + buflen \<le> length buf"
  shows "\<exists>s t. mpi_write_hlp M K have_udbl X (of_nat radix) buf p buflen = Some (Inr (take p buf @ s @ t, p + length s)) \<and>
    length (take p buf @ s @ t) = length buf \<and> s \<noteq> [] \<and> length s \<le> r \<and> list_all (\<lambda>c. char_digit c < radix) s \<and> numeral_val radix s = mpi_abs X"
proof -
  have "0 + r \<le> buflen" "r \<le> p + buflen"
    using r(2) by simp_all
  then obtain s where s: "write_loop M K have_udbl (of_nat radix) buflen X buf (p + buflen) 0 =
        Some (Inr (take (p + buflen - length s) buf @ s @ drop (p + buflen) buf, p + buflen - length s, 0 + length s))"
      "s \<noteq> []" "length s \<le> r" "list_all (\<lambda>c. char_digit c < radix) s" "numeral_val radix s = mpi_abs X"
    using write_loop_fact [OF K u radix room X r(1)] r(3) by blast
  let ?buf = "take (p + buflen - length s) buf @ s @ drop (p + buflen) buf"
  have len: "length (take (p + buflen - length s) buf) = p + buflen - length s" "p \<le> p + buflen - length s" "length ?buf = length buf"
    using s(3) r(2,3) by simp_all
  have parts: "take p ?buf = take p buf" "take (length s) (drop (p + buflen - length s) ?buf) = s"
    using len by (simp_all add: min_def)
  have "mpi_write_hlp M K have_udbl X (of_nat radix) buf p buflen = Some (Inr (take p buf @ s @ drop (p + length s) ?buf, p + length s))"
    by (simp only: mpi_write_hlp_def s(1) run_then_simps split_conv add_0 parts)
  moreover have "length (take p buf @ s @ drop (p + length s) ?buf) = length buf"
    using len s(3) r(2,3) by simp
  ultimately show ?thesis
    using s(2-5) by blast
qed

section \<open>Hexadecimal digits\<close>

text \<open>The bytes that are printed.\<close>

definition hex_byte :: "'l::len word list \<Rightarrow> nat \<times> nat \<Rightarrow> nat" where
  "hex_byte limbs = (\<lambda>(i, j). unat (drop_bit (push_bit 3 (j - 1)) (limbs ! (i - 1)) AND 0xFF))"

fun printed :: "'l::len word list \<Rightarrow> nat \<Rightarrow> (nat \<times> nat) list \<Rightarrow> nat list" where
  "printed limbs k [] = []"
| "printed limbs k (ij # ijs) =
     (if hex_byte limbs ij = 0 \<and> k = 0 \<and> fst ij + snd ij \<noteq> 2 then printed limbs k ijs
      else hex_byte limbs ij # printed limbs 1 ijs)"

definition hex_text :: "nat list \<Rightarrow> bytes" where
  "hex_text cs = concat (map (\<lambda>c. [hex_char (c div 16), hex_char (c mod 16)]) cs)"

lemma hex_text_simps [simp]: "hex_text [] = []" "hex_text (c # cs) = hex_char (c div 16) # hex_char (c mod 16) # hex_text cs"
    "hex_text (cs @ ds) = hex_text cs @ hex_text ds"
  by (simp_all add: hex_text_def)

lemma length_hex_text [simp]: "length (hex_text cs) = 2 * length cs"
  by (induction cs) simp_all

lemma hex_write_printed:
  "p + 2 * length (printed limbs k ijs) \<le> length buf \<Longrightarrow>
   hex_write limbs buf p k ijs =
     Inr (take p buf @ hex_text (printed limbs k ijs) @ drop (p + 2 * length (printed limbs k ijs)) buf, p + 2 * length (printed limbs k ijs))"
proof (induction ijs arbitrary: buf p k)
  case (Cons ij ijs)
  obtain i j where ij: "ij = (i, j)"
    by (cases ij)
  have c: "unat (drop_bit (push_bit 3 (j - 1)) (limbs ! (i - 1)) AND 0xFF) = hex_byte limbs ij"
    by (simp add: hex_byte_def ij)
  show ?case
  proof (cases "hex_byte limbs ij = 0 \<and> k = 0 \<and> i + j \<noteq> 2")
    case True
    then have "hex_write limbs buf p k (ij # ijs) = hex_write limbs buf p k ijs"
      using c unfolding ij by (simp add: Let_def)
    moreover have "printed limbs k (ij # ijs) = printed limbs k ijs"
      using True ij by simp
    ultimately show ?thesis
      using Cons.IH [of p k buf] Cons.prems by simp
  next
    case False
    let ?h = "hex_char (hex_byte limbs ij div 16)" and ?l = "hex_char (hex_byte limbs ij mod 16)"
    let ?buf = "buf[p := ?h, p + 1 := ?l]" and ?n = "2 * length (printed limbs 1 ijs)"
    have pr: "printed limbs k (ij # ijs) = hex_byte limbs ij # printed limbs 1 ijs"
      using False unfolding ij by auto
    then have len: "p + 1 < length buf" "p + 2 + ?n \<le> length ?buf"
      using Cons.prems by simp_all
    have "hex_write limbs buf p k (ij # ijs) = hex_write limbs ?buf (p + 2) 1 ijs"
      using False c len(1) unfolding ij by (auto simp: Let_def put_def)
    moreover have "take (p + 2) ?buf = take p buf @ [?h, ?l]"
      using len(1) by (simp add: take_Suc_conv_app_nth numeral_2_eq_2)
    moreover have "drop (p + 2 + ?n) ?buf = drop (p + 2 + ?n) buf"
      by (simp add: drop_update_cancel)
    ultimately show ?thesis
      using Cons.IH [OF len(2)] unfolding pr by simp
  qed
qed simp

lemma printed_val:
  "foldl (\<lambda>v c. 256 * v + c) v (printed limbs k ijs) = foldl (\<lambda>v c. 256 * v + c) v (map (hex_byte limbs) ijs) \<or> k = 0 \<and> v \<noteq> 0"
proof (induction ijs arbitrary: v k)
  case (Cons ij ijs)
  show ?case
    using Cons.IH [of v 0] Cons.IH [of "256 * v + hex_byte limbs ij" 1] by auto
qed simp

lemma printed_leading:
  assumes "\<forall>ij\<in>set ijs. fst ij + snd ij \<noteq> 2"
  shows "printed limbs 0 (ijs @ [(1, 1)]) \<noteq> [] \<and> (hd (printed limbs 0 (ijs @ [(1, 1)])) \<noteq> 0 \<or> length (printed limbs 0 (ijs @ [(1, 1)])) = 1)"
  using assms by (induction ijs) auto

lemma hex_byte_mod:
  assumes "whole_bytes TYPE('l::len)"
  shows "hex_byte (limbs :: 'l word list) (i, j) = (unat (limbs ! (i - 1)) div 256 ^ (j - 1)) mod 256"
proof -
  have "8 \<le> LENGTH('l)"
    using assms ciL_pos [OF assms] by (simp add: whole_bytes_def)
  have mask: "unat (x AND 0xFF) = unat x mod 2 ^ 8" for x :: "'l word"
  proof -
    have "x AND 0xFF = take_bit 8 x"
      by (simp add: take_bit_eq_mask mask_eq_exp_minus_1)
    then show ?thesis
      by (simp only: unsigned_take_bit_eq) (simp add: take_bit_eq_mod)
  qed
  have "hex_byte limbs (i, j) = unat (drop_bit (8 * (j - 1)) (limbs ! (i - 1))) mod 2 ^ 8"
    unfolding hex_byte_def split_conv mask by (simp add: push_bit_eq_mult mult.commute)
  also have "\<dots> = (unat (limbs ! (i - 1)) div 2 ^ (8 * (j - 1))) mod 2 ^ 8"
    by (simp add: unat_drop_bit)
  finally show ?thesis
    by (simp add: power_mult)
qed

lemma limb_hex_bytes:
  fixes limbs :: "'l::len word list"
  assumes "whole_bytes TYPE('l)"
  shows "foldl (\<lambda>v c. 256 * v + c) v (map (hex_byte limbs) (map (\<lambda>j. (i, j)) (rev [1..<k + 1]))) = v * 256 ^ k + unat (limbs ! (i - 1)) mod 256 ^ k"
proof (induction k arbitrary: v)
  case (Suc k)
  let ?x = "unat (limbs ! (i - 1))"
  have "?x mod 256 ^ Suc k = 256 ^ k * (?x div 256 ^ k mod 256) + ?x mod 256 ^ k"
    using mod_mult2_eq [of ?x "256 ^ k" 256] by (simp add: mult.commute)
  then show ?case
    using Suc.IH [of "256 * v + ?x div 256 ^ k mod 256"] by (simp add: hex_byte_mod [OF assms] algebra_simps)
qed simp

lemma hex_positions_val:
  fixes limbs :: "'l::len word list"
  assumes u: "whole_bytes TYPE('l)"
  shows "foldl (\<lambda>v c. 256 * v + c) 0 (map (hex_byte limbs) (hex_positions limbs)) = limbs_val limbs"
proof -
  have base: "(256 :: nat) ^ ciL TYPE('l) = 2 ^ LENGTH('l)"
    using u power_mult [of "2 :: nat" 8 "ciL TYPE('l)"] by (simp add: whole_bytes_def)
  have "foldl (\<lambda>v c. 256 * v + c) v
      (map (hex_byte limbs) (concat (map (\<lambda>i. map (\<lambda>j. (i, j)) (rev [1..<ciL TYPE('l) + 1])) (rev [1..<k + 1])))) =
    v * 2 ^ (LENGTH('l) * k) + limbs_val (take k limbs)" if "k \<le> length limbs" for k v
    using that
  proof (induction k arbitrary: v)
    case (Suc k)
    have "unat (limbs ! k) mod 2 ^ LENGTH('l) = unat (limbs ! k)"
      by (intro mod_less) simp
    then have limb: "foldl (\<lambda>v c. 256 * v + c) v (map (hex_byte limbs) (map (\<lambda>j. (Suc k, j)) (rev [1..<ciL TYPE('l) + 1]))) =
        v * 2 ^ LENGTH('l) + unat (limbs ! k)"
      using limb_hex_bytes [OF u, of v limbs "Suc k" "ciL TYPE('l)"] unfolding base by (simp del: upt_Suc)
    have "rev [1..<Suc k + 1] = Suc k # rev [1..<k + 1]"
      by simp
    then show ?case
      using Suc.IH Suc.prems limb
      by (simp add: take_Suc_conv_app_nth limbs_val_append power_add algebra_simps del: upt_Suc map_map)
  qed simp
  from this [of "length limbs" 0] show ?thesis
    by (simp add: hex_positions_def)
qed

lemma hex_positions_last:
  fixes limbs :: "'l::len word list"
  assumes "whole_bytes TYPE('l)" and "limbs \<noteq> []"
  obtains qs where "hex_positions limbs = qs @ [(1, 1)]" "\<forall>ij\<in>set qs. fst ij + snd ij \<noteq> 2"
proof -
  let ?row = "\<lambda>i. map (\<lambda>j. (i, j)) (rev [1..<ciL TYPE('l) + 1])"
  have "1 < length limbs + 1" "1 < ciL TYPE('l) + 1"
    using assms ciL_pos [OF assms(1)] by simp_all
  then have up: "[1..<length limbs + 1] = 1 # [2..<length limbs + 1]" "[1..<ciL TYPE('l) + 1] = 1 # [2..<ciL TYPE('l) + 1]"
    by (simp_all add: upt_conv_Cons numeral_2_eq_2 del: upt_Suc)
  have "hex_positions limbs = (concat (map ?row (rev [2..<length limbs + 1])) @ map (\<lambda>j. (1, j)) (rev [2..<ciL TYPE('l) + 1])) @ [(1, 1)]"
    unfolding hex_positions_def by (subst up(1)) (simp only: up(2) rev.simps map_append concat_append list.map concat.simps append.simps append_assoc append_Nil2)
  moreover have "\<forall>ij\<in>set (concat (map ?row (rev [2..<length limbs + 1])) @ map (\<lambda>j. (1, j)) (rev [2..<ciL TYPE('l) + 1])). fst ij + snd ij \<noteq> 2"
    by auto
  ultimately show ?thesis
    by (rule that)
qed

lemma hex_char_digit: "d < 16 \<Longrightarrow> char_digit (hex_char d) = d"
proof -
  have "list_all (\<lambda>d. char_digit (hex_char d) = d) [0..<16]"
    by code_simp
  then show "d < 16 \<Longrightarrow> char_digit (hex_char d) = d"
    by (auto simp: list_all_iff)
qed

lemma hex_text_val:
  assumes "list_all (\<lambda>c. c < 256) cs"
  shows "list_all (\<lambda>c. char_digit c < 16) (hex_text cs)" "numeral_val 16 (hex_text cs) = foldl (\<lambda>v c. 256 * v + c) 0 cs"
proof -
  have "list_all (\<lambda>c. char_digit c < 16) (hex_text cs) \<and>
      foldl (\<lambda>v c. v * 16 + char_digit c) v (hex_text cs) = foldl (\<lambda>v c. 256 * v + c) v cs" for v
    using assms
  proof (induction cs arbitrary: v)
    case (Cons c cs)
    then have c: "c div 16 < 16" "c mod 16 < 16"
      by auto
    have v: "(v * 16 + c div 16) * 16 + c mod 16 = 256 * v + c"
      using div_mult_mod_eq [of c 16] by simp
    show ?case
      unfolding hex_text_simps foldl.simps list.pred_inject hex_char_digit [OF c(1)] hex_char_digit [OF c(2)] v
      using Cons.IH Cons.prems c by simp
  qed simp
  then show "list_all (\<lambda>c. char_digit c < 16) (hex_text cs)" "numeral_val 16 (hex_text cs) = foldl (\<lambda>v c. 256 * v + c) 0 cs"
    unfolding numeral_val_def by blast+
qed

lemma printed_less: 
  fixes limbs :: "'l::len word list"
  assumes "whole_bytes TYPE('l)"
  shows "list_all (\<lambda>c. c < 256) (printed limbs k ijs)"
proof (induction ijs arbitrary: k)
  case (Cons ij ijs)
  have "hex_byte limbs ij < 256"
    by (cases ij) (simp add: hex_byte_mod [OF assms])
  then show ?case
    using Cons.IH by simp
qed simp

lemma leading_byte:
  assumes "c \<noteq> 0"
  shows "256 ^ length cs \<le> foldl (\<lambda>v c. 256 * v + c) c (cs :: nat list)"
proof -
  have "v * 256 ^ length cs \<le> foldl (\<lambda>v c. 256 * v + c) v cs" for v
  proof (induction cs arbitrary: v)
    case (Cons c cs)
    have "v * 256 ^ length (c # cs) \<le> (256 * v + c) * 256 ^ length cs"
      by (simp add: algebra_simps)
    then show ?case
      using Cons.IH [of "256 * v + c"] unfolding foldl.simps by (rule le_trans)
  qed simp
  from this [of c] show ?thesis
    using assms le_trans [of "256 ^ length cs" "c * 256 ^ length cs"] by simp
qed

section \<open>The text\<close>

lemma text_size_eq:
  "text_size X radix = (let n = mbedtls_mpi_bitlen X div (if 16 \<le> radix then 4 else if 4 \<le> radix then 2 else 1) + 3 in n + n mod 2)"
proof -
  have "mbedtls_mpi_bitlen X div 2 div 2 = mbedtls_mpi_bitlen X div 4"
    using div_mult2_eq [of "mbedtls_mpi_bitlen X" 2 2] by simp
  then show ?thesis
    by (simp add: text_size_def Let_def and_one_eq drop_bit_eq_div numeral_3_eq_3)
qed

lemma text_size_digits:
  assumes "2 \<le> radix" and "radix < 16"
  obtains r where "0 < r" "mpi_abs X < radix ^ r" "r + 2 \<le> text_size X radix"
proof (cases "4 \<le> radix")
  case True
  let ?b = "mbedtls_mpi_bitlen X" and ?r = "mbedtls_mpi_bitlen X div 2 + 1"
  have "(2 :: nat) ^ ?b \<le> 2 ^ (2 * ?r)"
    by (rule power_increasing) simp_all
  also have "\<dots> = 4 ^ ?r"
    by (simp add: power_mult)
  also have "\<dots> \<le> radix ^ ?r"
    using True by (rule power_mono) simp
  finally have "mpi_abs X < radix ^ ?r"
    using bitlen_bounds(1) [of X] by (rule less_le_trans [rotated])
  then show ?thesis
    using True assms(2) by (intro that [of ?r]) (simp_all add: text_size_eq Let_def)
next
  case False
  let ?b = "mbedtls_mpi_bitlen X" and ?r = "max 1 (mbedtls_mpi_bitlen X)"
  have "(2 :: nat) ^ ?b \<le> 2 ^ ?r"
    by (rule power_increasing) simp_all
  also have "\<dots> \<le> radix ^ ?r"
    using assms(1) by (rule power_mono) simp
  finally have "mpi_abs X < radix ^ ?r"
    using bitlen_bounds(1) [of X] by (rule less_le_trans [rotated])
  then show ?thesis
    using False by (intro that [of ?r]) (simp_all add: text_size_eq Let_def)
qed

lemma even_room: "2 * j \<le> b \<Longrightarrow> 2 * j + 4 \<le> (b + 3) + (b + 3) mod 2" for j b :: nat
  by (cases "b = 2 * j") (simp_all add: mod_2_eq_odd)

lemma text_size_hex:
  assumes "cs = [] \<or> length cs = 1 \<or> 256 ^ (length cs - 1) \<le> mpi_abs X"
  shows "2 * length cs + 2 \<le> text_size X 16"
proof -
  let ?b = "mbedtls_mpi_bitlen X" and ?k = "length cs"
  have "?k \<le> 1 \<or> 8 * (?k - 1) < ?b"
  proof (cases "?k \<le> 1")
    case False
    then have "256 ^ (?k - 1) \<le> mpi_abs X"
      using assms by auto
    then have "(2 :: nat) ^ (8 * (?k - 1)) < 2 ^ ?b"
      using bitlen_bounds(1) [of X] by (simp add: power_mult)
    then show ?thesis
      using power_strict_increasing_iff [of "2 :: nat"] by simp
  qed simp
  then have "2 * (?k - 1) \<le> ?b div 4"
    by (simp add: less_eq_div_iff_mult_less_eq) linarith
  from even_room [OF this] have "2 * (?k - 1) + 4 \<le> text_size X 16"
    by (simp add: text_size_eq Let_def)
  then show ?thesis
    by linarith
qed

lemma hex_write_fact:
  fixes X :: "'l::len word mpi"
  assumes u: "whole_bytes TYPE('l)" and room: "p + text_size X 16 \<le> length buf + 2"
  obtains s where "hex_write (mpi_p X) buf p 0 (hex_positions (mpi_p X)) =
      Inr (take p buf @ s @ drop (p + length s) buf, p + length s)"
    "length s + 2 \<le> text_size X 16" "list_all (\<lambda>c. char_digit c < 16) s" "numeral_val 16 s = mpi_abs X" "mpi_n X \<noteq> 0 \<longrightarrow> s \<noteq> []"
proof -
  let ?cs = "printed (mpi_p X) 0 (hex_positions (mpi_p X))"
  have val: "foldl (\<lambda>v c. 256 * v + c) 0 ?cs = mpi_abs X"
    using printed_val [of 0 "mpi_p X" 0 "hex_positions (mpi_p X)"] hex_positions_val [OF u, of "mpi_p X"] by (simp add: mpi_abs_def)
  have first: "?cs = [] \<and> mpi_n X = 0 \<or> ?cs \<noteq> [] \<and> (hd ?cs \<noteq> 0 \<or> length ?cs = 1)"
  proof (cases "mpi_p X = []")
    case False
    then obtain qs where "hex_positions (mpi_p X) = qs @ [(1, 1)]" "\<forall>ij\<in>set qs. fst ij + snd ij \<noteq> 2"
      by (rule hex_positions_last [OF u])
    then show ?thesis
      using printed_leading [of qs "mpi_p X"] by simp
  qed (simp add: hex_positions_def)
  have "256 ^ (length ?cs - 1) \<le> mpi_abs X" if "hd ?cs \<noteq> 0" "?cs \<noteq> []"
    using that leading_byte [of "hd ?cs" "tl ?cs"] val by (cases ?cs) simp_all
  with first have size: "2 * length ?cs + 2 \<le> text_size X 16"
    by (intro text_size_hex) auto
  note digits = hex_text_val [OF printed_less [OF u, of "mpi_p X" 0 "hex_positions (mpi_p X)"]]
  have "hex_write (mpi_p X) buf p 0 (hex_positions (mpi_p X)) =
      Inr (take p buf @ hex_text ?cs @ drop (p + length (hex_text ?cs)) buf, p + length (hex_text ?cs))"
    unfolding length_hex_text by (rule hex_write_printed) (use size room in simp)
  moreover have "mpi_n X \<noteq> 0 \<longrightarrow> hex_text ?cs \<noteq> []"
    using first by (cases ?cs) simp_all
  ultimately show ?thesis
    using size digits val by (intro that [of "hex_text ?cs"]) simp_all
qed

definition sign_text :: "'l::len word mpi \<Rightarrow> bytes" where
  "sign_text X = (if mpi_s X = - 1 then [0x2D] else [])"

text \<open>The digits after the sign, of either branch.\<close>

lemma write_digits_fact:
  fixes X :: "'l::len word mpi"
  assumes K: "muladdc_exact K" and u: "whole_bytes TYPE('l)" and radix: "2 \<le> radix" "radix \<le> 16"
    and room: "plenty M (max 1 (mpi_n X) + 3)" "(max 1 (mpi_n X) + 2) * LENGTH('l) < 2 ^ SIZE_BITS M"
    and X: "has_sign X" and size: "text_size X radix \<le> buflen + 1" "p + buflen \<le> length buf"
  shows "\<exists>s t. (if radix = 16 then Some (hex_write (mpi_p X) buf p 0 (hex_positions (mpi_p X)))
       else
         run_then (Some (mbedtls_mpi_copy M mbedtls_mpi_init (Other X))) (\<lambda>T.
         let T = (if mpi_s T = - 1 then T\<lparr>mpi_s := 1\<rparr> else T) in
         mpi_write_hlp M K have_udbl T (of_nat radix) buf p buflen)) = Some (Inr (take p buf @ s @ t, p + length s)) \<and>
     length (take p buf @ s @ t) = length buf \<and> length s + 2 \<le> text_size X radix \<and> list_all (\<lambda>c. char_digit c < radix) s \<and>
     numeral_val radix s = mpi_abs X \<and> (s = [] \<longrightarrow> radix = 16 \<and> mpi_n X = 0)"
proof (cases "radix = 16")
  case True
  have "p + text_size X 16 \<le> length buf + 2"
    using size True by simp
  then obtain s where s: "hex_write (mpi_p X) buf p 0 (hex_positions (mpi_p X)) = Inr (take p buf @ s @ drop (p + length s) buf, p + length s)"
    "length s + 2 \<le> text_size X 16" "list_all (\<lambda>c. char_digit c < 16) s" "numeral_val 16 s = mpi_abs X" "mpi_n X \<noteq> 0 \<longrightarrow> s \<noteq> []"
    by (rule hex_write_fact [OF u])
  moreover have "length (take p buf @ s @ drop (p + length s) buf) = length buf"
    using s(2) size True by simp
  ultimately show ?thesis
    unfolding True by (intro exI [of _ s, OF exI [of _ "drop (p + length s) buf"]]) auto
next
  case False
  with radix obtain r where r: "0 < r" "mpi_abs X < radix ^ r" "r + 2 \<le> text_size X radix"
    by (metis text_size_digits le_neq_implies_less)
  have "plenty M (mpi_n X)"
    using room(1) by (rule plenty_mono) simp
  then obtain T where T: "mbedtls_mpi_copy M mbedtls_mpi_init (Other X) = Inr T"
    using copy_succeeds by blast
  note fact = copy_fact [OF T]
  let ?T = "if mpi_s T = - 1 then T\<lparr>mpi_s := 1\<rparr> else T"
  have "mpi_s T = 1 \<or> mpi_s T = - 1"
    using T X fact(6) by (cases "mpi_n X = 0") (auto simp: has_sign_def mbedtls_mpi_copy_def mbedtls_mpi_init_def)
  then have "mpi_s ?T = 1" "mpi_n ?T \<le> max 1 (mpi_n X)" "mpi_abs ?T < radix ^ r" "mpi_abs ?T = mpi_abs X"
    using fact(1,4) r(2) by (auto simp: mbedtls_mpi_init_def mpi_abs_def)
  then have "\<exists>s t. mpi_write_hlp M K have_udbl ?T (of_nat radix) buf p buflen = Some (Inr (take p buf @ s @ t, p + length s)) \<and>
    length (take p buf @ s @ t) = length buf \<and> s \<noteq> [] \<and> length s \<le> r \<and> list_all (\<lambda>c. char_digit c < radix) s \<and> numeral_val radix s = mpi_abs X"
    using write_hlp_fact [OF K u radix room, of ?T r buflen p buf have_udbl] r(1,3) size by simp
  then show ?thesis
    using False T r(3) by (force simp: Let_def)
qed

lemma write_string_fact:
  fixes X :: "'l::len word mpi"
  assumes K: "muladdc_exact K" and u: "whole_bytes TYPE('l)" and radix: "2 \<le> radix" "radix \<le> 16"
    and room: "plenty M (max 1 (mpi_n X) + 3)" "(max 1 (mpi_n X) + 2) * LENGTH('l) < 2 ^ SIZE_BITS M"
    and X: "has_sign X" and size: "text_size X radix \<le> buflen" "buflen \<le> length buf"
  obtains s t where "mbedtls_mpi_write_string M K have_udbl X radix buf buflen =
      Some (Inr (sign_text X @ s @ 0 # t, length (sign_text X @ s) + 1))"
    "length (sign_text X @ s @ 0 # t) = length buf" "length (sign_text X @ s) < text_size X radix"
    "list_all (\<lambda>c. char_digit c < radix) s" "numeral_val radix s = mpi_abs X" "s = [] \<longrightarrow> radix = 16 \<and> mpi_n X = 0"
proof -
  let ?p = "length (sign_text X)"
  let ?buf = "if mpi_s X = - 1 then buf[0 := 0x2D] else buf" and ?len = "buflen - ?p"
  have "3 \<le> text_size X radix"
    by (simp add: text_size_eq Let_def)
  then have "0 < length buf" "0 < buflen"
    using size by linarith+
  then have start: "(if mpi_s X = - 1 then and_then (put buf 0 0x2D) (\<lambda>buf. Inr (buf, 1, buflen - 1)) else Inr (buf, 0, buflen)) = Inr (?buf, ?p, ?len)"
    "take ?p ?buf = sign_text X" "length ?buf = length buf" "?p \<le> 1"
    by (cases buf; auto simp: put_def sign_text_def)+
  have "text_size X radix \<le> ?len + 1" "?p + ?len \<le> length ?buf"
    using start(3,4) size \<open>0 < buflen\<close> by auto
  from write_digits_fact [OF K u radix room X this, of have_udbl] obtain s t where st:
    "(if radix = 16 then Some (hex_write (mpi_p X) ?buf ?p 0 (hex_positions (mpi_p X)))
       else
         run_then (Some (mbedtls_mpi_copy M mbedtls_mpi_init (Other X))) (\<lambda>T.
         let T = (if mpi_s T = - 1 then T\<lparr>mpi_s := 1\<rparr> else T) in
         mpi_write_hlp M K have_udbl T (of_nat radix) ?buf ?p ?len)) = Some (Inr (sign_text X @ s @ t, ?p + length s))"
     "length (sign_text X @ s @ t) = length buf" "length s + 2 \<le> text_size X radix" "list_all (\<lambda>c. char_digit c < radix) s"
     "numeral_val radix s = mpi_abs X" "s = [] \<longrightarrow> radix = 16 \<and> mpi_n X = 0"
    unfolding start(2,3) by blast
  have "length (sign_text X @ s) < text_size X radix"
    using st(3) start(4) by simp
  then obtain c t' where t: "t = c # t'"
    using st(2) size by (cases t) auto
  have "put (sign_text X @ s @ t) (?p + length s) 0 = Inr (sign_text X @ s @ 0 # t')"
    by (simp add: put_def t list_update_append)
  then have "mbedtls_mpi_write_string M K have_udbl X radix buf buflen =
      Some (Inr (sign_text X @ s @ 0 # t', length (sign_text X @ s) + 1))"
    unfolding mbedtls_mpi_write_string_def start(1) run_then_simps split_conv st(1) using radix size
    by (simp add: no_length_def)
  then show ?thesis
    using st(2-6) start(4) \<open>length (sign_text X @ s) < text_size X radix\<close> unfolding t by (intro that [of s t']) simp_all
qed

lemma digit_chars:
  assumes "list_all (\<lambda>c. char_digit c < radix) s" and "radix \<le> 16"
  shows "0 \<notin> set s" "0x2D \<notin> set s"
proof -
  have "char_digit 0 = 255" "char_digit 0x2D = 255"
    by (simp_all add: char_digit_def)
  then show "0 \<notin> set s" "0x2D \<notin> set s"
    using assms by (auto simp: list_all_iff)
qed

text \<open>
  C30: A number survives being printed and read back.  For every radix but 2 to 16 \<open>mbedtls_mpi_write_string\<close> reports bad input;
  a buffer shorter than the size that it computes is refused, and that size is returned in \<open>olen\<close>.
  Otherwise it returns, for every sign and every number of leading zero limbs: the buffer keeps its length and
  holds a text that ends with its first zero byte, inside the computed size, \<open>olen\<close> counts the
  text with its terminator, and \<open>mbedtls_mpi_read_string\<close> of that text gives a number of the same value.
  No character is stored outside the buffer, and the loop over the digits ends.
\<close>

theorem write_string_round_trip:
  fixes X :: "'l::len word mpi"
  assumes "muladdc_exact K" and "whole_bytes TYPE('l)" and "has_sign X" and "buflen \<le> length buf"
    and "plenty M (max 1 (mpi_n X) + 3)" and "(max 1 (mpi_n X) + 2) * LENGTH('l) < 2 ^ SIZE_BITS M"
    and "\<forall>s. length s < text_size X radix \<longrightarrow> room_for_numeral M Z s"
  shows "if radix < 2 \<or> 16 < radix
    then mbedtls_mpi_write_string M K have_udbl X radix buf buflen = Some (Inl (MBEDTLS_ERR_MPI_BAD_INPUT_DATA, None))
    else if buflen < text_size X radix
    then mbedtls_mpi_write_string M K have_udbl X radix buf buflen = Some (Inl (MBEDTLS_ERR_MPI_BUFFER_TOO_SMALL, Some (text_size X radix)))
    else \<exists>text rest Y. mbedtls_mpi_write_string M K have_udbl X radix buf buflen = Some (Inr (text @ 0 # rest, length text + 1)) \<and>
      length (text @ 0 # rest) = length buf \<and> 0 \<notin> set text \<and> length text < text_size X radix \<and>
      mbedtls_mpi_read_string M K Z radix text = Inr Y \<and> mpi_val Y = mpi_val X"
proof (cases "(radix < 2 \<or> 16 < radix) \<or> buflen < text_size X radix")
  case True
  then show ?thesis
    by (auto simp: mbedtls_mpi_write_string_def)
next
  case False
  then have radix: "2 \<le> radix" "radix \<le> 16" and size: "text_size X radix \<le> buflen"
    by auto
  obtain s t where st: "mbedtls_mpi_write_string M K have_udbl X radix buf buflen =
      Some (Inr (sign_text X @ s @ 0 # t, length (sign_text X @ s) + 1))"
    "length (sign_text X @ s @ 0 # t) = length buf" "length (sign_text X @ s) < text_size X radix"
    "list_all (\<lambda>c. char_digit c < radix) s" "numeral_val radix s = mpi_abs X" "s = [] \<longrightarrow> radix = 16 \<and> mpi_n X = 0"
    by (rule write_string_fact [OF assms(1,2) radix assms(5,6,3) size assms(4), where have_udbl = have_udbl])
  let ?text = "sign_text X @ s"
  note chars = digit_chars [OF st(4) radix(2)]
  have val: "mpi_val X = (if mpi_s X = - 1 then - int (mpi_abs X) else int (mpi_abs X))"
    using assms(3) by (auto simp: has_sign_def mpi_val_def)
  have "\<exists>Y. mbedtls_mpi_read_string M K Z radix ?text = Inr Y \<and> mpi_val Y = mpi_val X"
  proof (cases "?text = []")
    case True
    then show ?thesis
      using st(6) radix by (simp add: mbedtls_mpi_read_string_def mbedtls_mpi_free_def mpi_val_def mpi_abs_def)
  next
    case nonempty: False
    have minus: "?text ! 0 = 0x2D \<longleftrightarrow> mpi_s X = - 1" and rest: "(if mpi_s X = - 1 then tl ?text else ?text) = s"
      using nonempty chars(2) by (cases s; auto simp: sign_text_def)+
    show ?thesis
      using read_string_fact [OF assms(1,2) radix assms(7) [rule_format, OF st(3)] nonempty] st(4,5) unfolding minus rest val by auto
  qed
  then obtain Y where "mbedtls_mpi_read_string M K Z radix ?text = Inr Y" "mpi_val Y = mpi_val X"
    by blast
  moreover have "0 \<notin> set ?text"
    using chars(1) by (auto simp: sign_text_def)
  ultimately have "mbedtls_mpi_write_string M K have_udbl X radix buf buflen = Some (Inr (?text @ 0 # t, length ?text + 1)) \<and>
      length (?text @ 0 # t) = length buf \<and> 0 \<notin> set ?text \<and> length ?text < text_size X radix \<and>
      mbedtls_mpi_read_string M K Z radix ?text = Inr Y \<and> mpi_val Y = mpi_val X"
    using st(1-3) by simp
  moreover have "\<not> (radix < 2 \<or> 16 < radix)" "\<not> buflen < text_size X radix"
    using False by simp_all
  ultimately show ?thesis
    unfolding if_not_P [OF \<open>\<not> (radix < 2 \<or> 16 < radix)\<close>] if_not_P [OF \<open>\<not> buflen < text_size X radix\<close>] by blast
qed

theorem write_string_round_trip_witness:
  "\<exists>text rest Y. mbedtls_mpi_write_string demo_platform wide_muladdc False \<lparr>mpi_s = - 1, mpi_p = [127 :: 64 word, 0]\<rparr> 10
      (replicate 20 0xFF) 20 = Some (Inr (text @ 0 # rest, length text + 1)) \<and> length text < 6 \<and>
    mbedtls_mpi_read_string demo_platform wide_muladdc (mbedtls_mpi_init :: 64 word mpi) 10 text = Inr Y \<and> mpi_val Y = - 127"
proof -
  let ?X = "\<lparr>mpi_s = - 1, mpi_p = [127 :: 64 word, 0]\<rparr>"
  have "mbedtls_mpi_bitlen ?X = 7"
    by code_simp
  then have size: "text_size ?X 10 = 6"
    by (simp add: text_size_eq)
  have w: "whole_bytes TYPE(64)"
    by (simp add: whole_bytes_def ciL_def)
  have room: "\<forall>s. length s < text_size ?X 10 \<longrightarrow> room_for_numeral demo_platform (mbedtls_mpi_init :: 64 word mpi) s"
    unfolding size by (intro allI impI demo_room) (simp_all add: mbedtls_mpi_init_def)
  have val: "mpi_val ?X = - 127" "has_sign ?X"
    by (simp_all add: mpi_val_def mpi_abs_def has_sign_def)
  have more: "20 \<le> length (replicate 20 (0xFF :: u8))" "plenty demo_platform (max 1 (mpi_n ?X) + 3)"
    "(max 1 (mpi_n ?X) + 2) * LENGTH(64) < 2 ^ SIZE_BITS demo_platform"
    by (simp, simp add: demo_plenty, simp add: demo_platform_def)
  have "\<not> (10 < (2 :: nat) \<or> 16 < (10 :: nat))" "\<not> 20 < text_size ?X 10"
    unfolding size by simp_all
  then obtain s t Y where "mbedtls_mpi_write_string demo_platform wide_muladdc False ?X 10 (replicate 20 0xFF) 20 = Some (Inr (s @ 0 # t, length s + 1))"
      "length s < text_size ?X 10" "mbedtls_mpi_read_string demo_platform wide_muladdc (mbedtls_mpi_init :: 64 word mpi) 10 s = Inr Y"
      "mpi_val Y = mpi_val ?X"
    using write_string_round_trip [OF wide_muladdc_exact w val(2) more room, where have_udbl = False] by (simp only: if_False) blast
  then show ?thesis
    unfolding size val(1) by (intro exI conjI) (assumption | simp)+
qed

lemma write_string_empty:
  fixes X :: "'l::len word mpi"
  assumes "mpi_p X = []" and "mpi_s X = 1" and "4 \<le> buflen" and "buf \<noteq> []"
  shows "mbedtls_mpi_write_string M K have_udbl X 16 buf buflen = Some (Inr (buf[0 := 0], 1))"
proof -
  have "mbedtls_mpi_bitlen X = 0"
    using bitlen_bounds(3) [of X] assms(1) by simp
  then show ?thesis
    using assms by (simp add: mbedtls_mpi_write_string_def text_size_eq Let_def hex_positions_def put_def no_length_def)
qed

end
