(* ===== verification/Bignum_Random.thy ===== *)
theory Bignum_Random
  imports Bignum_Write
begin

text \<open>
  Multi-precision integers (\<open>bignum.c\<close>), random numbers: \<open>mpi_fill_random_internal\<close>, \<open>mbedtls_mpi_fill_random\<close> and \<open>mbedtls_mpi_random\<close>.
  The generator and the comparison in constant time are parameters.  The sampling by rejection is shown to
  refine its specification \<open>first_in_range\<close>, which draws bytes and returns the first number in the range.
\<close>

section \<open>The code\<close>

text \<open>
  The generator of the caller, \<open>f_rng\<close> with its state \<open>p_rng\<close>, is a parameter: for a number of bytes it returns an error or that
  many bytes, and its next state.  A computation that draws from it returns its outcome with the state.
\<close>

type_synonym 'r rng = "'r \<Rightarrow> nat \<Rightarrow> (mpi_error + bytes) \<times> 'r"

definition draw_then :: "('e + 'a) \<times> 'r \<Rightarrow> ('a \<Rightarrow> 'r \<Rightarrow> ('e + 'b) \<times> 'r) \<Rightarrow> ('e + 'b) \<times> 'r" where
  "draw_then m f = (case m of (Inl e, r) \<Rightarrow> (Inl e, r) | (Inr x, r) \<Rightarrow> f x r)"

definition mpi_fill_random_internal ::
  "'l::len word mpi \<Rightarrow> nat \<Rightarrow> 'r rng \<Rightarrow> 'r \<Rightarrow> (mpi_error + 'l word mpi) \<times> 'r" where
  "mpi_fill_random_internal X n_bytes f_rng p_rng =
     (let limbs = CHARS_TO_LIMBS TYPE('l) n_bytes;
          overhead = limbs * ciL TYPE('l) - n_bytes in
      if mpi_n X < limbs then (Inl MBEDTLS_ERR_MPI_BAD_INPUT_DATA, p_rng)
      else
        let Xp = concat (map limb_bytes (mpi_p X));
            Xp = replicate overhead 0 @ drop overhead Xp;
            Xp = take (limbs * ciL TYPE('l)) Xp @ replicate ((mpi_n X - limbs) * ciL TYPE('l)) 0 in
        draw_then (f_rng p_rng n_bytes) (\<lambda>bs p_rng.
          let Xp = take overhead Xp @ bs @ drop (overhead + n_bytes) Xp in
          (Inr (X\<lparr>mpi_p := mpi_bigendian_to_host (limbs_in_memory (mpi_n X) Xp) limbs\<rparr>), p_rng)))"

definition mbedtls_mpi_fill_random ::
  "platform \<Rightarrow> 'l::len word mpi \<Rightarrow> nat \<Rightarrow> 'r rng \<Rightarrow> 'r \<Rightarrow> (mpi_error + 'l word mpi) \<times> 'r" where
  "mbedtls_mpi_fill_random M X n_bytes f_rng p_rng =
     (let limbs = CHARS_TO_LIMBS TYPE('l) n_bytes in
      draw_then (mbedtls_mpi_resize_clear M X limbs, p_rng) (\<lambda>X p_rng.
      if n_bytes = 0 then (Inr X, p_rng)
      else mpi_fill_random_internal X n_bytes f_rng p_rng))"

text \<open>
  The comparison \<open>mbedtls_mpi_lt_mpi_ct\<close> of \<open>constant_time.c\<close> is a parameter.  The loop is indexed by \<open>count\<close> after its decrement.
\<close>

primrec random_loop ::
  "('l::len word mpi \<Rightarrow> 'l word mpi \<Rightarrow> mpi_error + u32) \<Rightarrow> platform \<Rightarrow> nat \<Rightarrow> nat \<Rightarrow> 'l word mpi \<Rightarrow> 'l word mpi \<Rightarrow> 'r rng \<Rightarrow> nat \<Rightarrow> 'l word mpi \<Rightarrow> 'r \<Rightarrow> (mpi_error + 'l word mpi) \<times> 'r" where
  "random_loop lt_ct M n_bytes n_bits lower_bound N f_rng 0 X p_rng =
     draw_then (mpi_fill_random_internal X n_bytes f_rng p_rng) (\<lambda>X p_rng.
     draw_then (mbedtls_mpi_shift_r M X (8 * n_bytes - n_bits), p_rng) (\<lambda>X p_rng.
     (Inl MBEDTLS_ERR_MPI_NOT_ACCEPTABLE, p_rng)))"
| "random_loop lt_ct M n_bytes n_bits lower_bound N f_rng (Suc count) X p_rng =
     draw_then (mpi_fill_random_internal X n_bytes f_rng p_rng) (\<lambda>X p_rng.
     draw_then (mbedtls_mpi_shift_r M X (8 * n_bytes - n_bits), p_rng) (\<lambda>X p_rng.
     draw_then (lt_ct X lower_bound, p_rng) (\<lambda>lt_lower p_rng.
     draw_then (lt_ct X N, p_rng) (\<lambda>lt_upper p_rng.
     if lt_lower \<noteq> 0 \<or> lt_upper = 0 then random_loop lt_ct M n_bytes n_bits lower_bound N f_rng count X p_rng
     else (Inr X, p_rng)))))"

definition mbedtls_mpi_random ::
  "('l::len word mpi \<Rightarrow> 'l word mpi \<Rightarrow> mpi_error + u32) \<Rightarrow> platform \<Rightarrow> 'l word mpi \<Rightarrow> 'l word \<Rightarrow> 'l word mpi \<Rightarrow> 'r rng \<Rightarrow> 'r \<Rightarrow> (mpi_error + 'l word mpi) \<times> 'r" where
  "mbedtls_mpi_random lt_ct M X lowest N f_rng p_rng =
     (let n_bits = mbedtls_mpi_bitlen N;
          n_bytes = (n_bits + 7) div 8 in
      if sint lowest < 0 then (Inl MBEDTLS_ERR_MPI_BAD_INPUT_DATA, p_rng)
      else if mbedtls_mpi_cmp_int N lowest \<le> 0 then (Inl MBEDTLS_ERR_MPI_BAD_INPUT_DATA, p_rng)
      else
        let count = (if 4 < n_bytes then 30 else 250) in
        draw_then (mbedtls_mpi_resize_clear M X (mpi_n N), p_rng) (\<lambda>X p_rng.
        draw_then (mbedtls_mpi_grow M mbedtls_mpi_init (mpi_n N), p_rng) (\<lambda>lower_bound p_rng.
        draw_then (mbedtls_mpi_lset M lower_bound lowest, p_rng) (\<lambda>lower_bound p_rng.
        random_loop lt_ct M n_bytes n_bits lower_bound N f_rng (count - 1) X p_rng))))"

section \<open>Drawing bytes\<close>

lemma draw_then_simps [simp, outcome_simps]: "draw_then (Inl e, r) f = (Inl e, r)" "draw_then (Inr x, r) f = f x r"
  by (simp_all add: draw_then_def)

text \<open>The number that drawn bytes stand for.\<close>

abbreviation drawn_val :: "bytes \<Rightarrow> nat" where
  "drawn_val bs \<equiv> limbs_val (rev bs)"

definition fills :: "'r rng \<Rightarrow> bool" where
  "fills f_rng \<longleftrightarrow> (\<forall>r n bs r'. f_rng r n = (Inr bs, r') \<longrightarrow> length bs = n)"

lemma overlaid_bytes:
  assumes "z + n = q" and "q \<le> length Xp" and "Yp = take q (replicate z 0 @ drop z Xp) @ t"
  shows "take z Yp @ bs @ drop (z + n) Yp = (replicate z (0 :: u8) @ bs) @ t"
proof -
  have "take q (replicate z 0 @ drop z Xp) = replicate z 0 @ take n (drop z Xp)" "length (take n (drop z Xp)) = n"
    using assms(1,2) by auto
  then show ?thesis
    unfolding assms(3) by simp
qed

lemma fill_internal_fact:
  fixes X :: "'l::len word mpi"
  assumes u: "whole_bytes TYPE('l)" and n: "CHARS_TO_LIMBS TYPE('l) n \<le> mpi_n X" "0 < n" and f: "fills f_rng"
  shows "case f_rng r n of
      (Inl e, r') \<Rightarrow> mpi_fill_random_internal X n f_rng r = (Inl e, r')
    | (Inr bs, r') \<Rightarrow> \<exists>Y. mpi_fill_random_internal X n f_rng r = (Inr Y, r') \<and> mpi_s Y = mpi_s X \<and> mpi_n Y = mpi_n X \<and> mpi_abs Y = drawn_val bs"
proof -
  let ?k = "CHARS_TO_LIMBS TYPE('l) n" and ?c = "ciL TYPE('l)"
  let ?z = "?k * ?c - n" and ?t = "(mpi_n X - ?k) * ?c"
  have fits: "n \<le> ?k * ?c"
    by (rule CHARS_TO_LIMBS_enough [OF u])
  then have k: "0 < ?k"
    using n(2) by (cases ?k) simp_all
  show ?thesis
  proof (cases "f_rng r n")
    case (Pair res r')
    show ?thesis
    proof (cases res)
      case (Inl e)
      then show ?thesis
        using Pair n(1) by (simp add: mpi_fill_random_internal_def Let_def not_less)
    next
      case (Inr bs)
      then have len: "length bs = n"
        using f Pair unfolding fills_def by blast
      have mem: "length (concat (map limb_bytes (mpi_p X))) = mpi_n X * ?c"
        by (simp add: length_concat comp_def sum_list_triv)
      have "?k * ?c \<le> mpi_n X * ?c"
        using n(1) by (rule mult_le_mono1)
      then have bytes: "(let Xp = concat (map limb_bytes (mpi_p X)); Xp = replicate ?z 0 @ drop ?z Xp;
            Xp = take (?k * ?c) Xp @ replicate ?t 0 in take ?z Xp @ bs @ drop (?z + n) Xp) = (replicate ?z 0 @ bs) @ replicate ?t 0"
        unfolding Let_def using fits mem by (intro overlaid_bytes [OF _ _ refl]) simp_all
      let ?low = "limbs_in_memory ?k (replicate ?z 0 @ bs) :: 'l word list" and ?high = "limbs_in_memory (mpi_n X - ?k) (replicate ?t 0) :: 'l word list"
      have "length (replicate ?z 0 @ bs) = ?k * ?c"
        using fits len by simp
      then have mem2: "limbs_in_memory (mpi_n X) ((replicate ?z 0 @ bs) @ replicate ?t 0) = ?low @ ?high"
        using limbs_in_memory_append [where 'l = 'l, of "replicate ?z 0 @ bs" ?k "mpi_n X - ?k" "replicate ?t 0"] n(1) by simp
      have host: "mpi_bigendian_to_host (?low @ ?high) ?k = mpi_bigendian_to_host ?low ?k @ ?high"
        using k bigendian_loop_eq [of ?low "?k - 1" "[]" ?high] bigendian_loop_eq [of ?low "?k - 1" "[]" "[]"]
        by (simp add: mpi_bigendian_to_host_def)
      have "limbs_val ?high = 0"
        using limbs_in_memory_val [OF u, of "replicate ?t 0" "mpi_n X - ?k"] by simp
      moreover have "limbs_val (mpi_bigendian_to_host ?low ?k) = drawn_val bs"
        using read_be_limbs [OF u, of bs ?k] fits len by simp
      moreover have "length (mpi_bigendian_to_host ?low ?k) = ?k"
        by (simp add: to_host_eq)
      moreover have "mpi_fill_random_internal X n f_rng r = (Inr (X\<lparr>mpi_p := mpi_bigendian_to_host ?low ?k @ ?high\<rparr>), r')"
        unfolding mpi_fill_random_internal_def Let_def if_not_P [OF leD [OF n(1)]] Pair Inr draw_then_simps bytes [unfolded Let_def] mem2 host ..
      ultimately show ?thesis
        using Pair Inr n(1) by (simp add: mpi_abs_def limbs_val_append)
    qed
  qed
qed

lemma CHARS_TO_LIMBS_le:
  assumes "whole_bytes TYPE('l::len)" and "i \<le> k * ciL TYPE('l)"
  shows "CHARS_TO_LIMBS TYPE('l) i \<le> k"
proof (cases "i = k * ciL TYPE('l)")
  case False
  with assms(2) have "i div ciL TYPE('l) < k"
    by (intro less_mult_imp_div_less) simp
  then show ?thesis
    by (simp add: CHARS_TO_LIMBS_def)
qed (use ciL_pos [OF assms(1)] in \<open>simp add: CHARS_TO_LIMBS_def\<close>)

section \<open>Rejection sampling\<close>

text \<open>What is documented of \<open>mbedtls_mpi_lt_mpi_ct\<close>: the order of two numbers with equally many limbs; here both have sign 1.\<close>

definition lt_compares :: "('l::len word mpi \<Rightarrow> 'l word mpi \<Rightarrow> mpi_error + u32) \<Rightarrow> bool" where
  "lt_compares lt_ct \<longleftrightarrow> (\<forall>X Y. mpi_n X = mpi_n Y \<longrightarrow> mpi_s X = 1 \<longrightarrow> mpi_s Y = 1 \<longrightarrow> lt_ct X Y = Inr (of_bool (mpi_val X < mpi_val Y)))"

text \<open>The specification: the first of the drawn numbers that lies in the range, if it is among the first \<open>k\<close>.\<close>

primrec first_in_range :: "'r rng \<Rightarrow> nat \<Rightarrow> nat \<Rightarrow> int \<Rightarrow> int \<Rightarrow> nat \<Rightarrow> 'r \<Rightarrow> (mpi_error + int) \<times> 'r" where
  "first_in_range f_rng n c low high 0 r = draw_then (f_rng r n) (\<lambda>bs r. (Inl MBEDTLS_ERR_MPI_NOT_ACCEPTABLE, r))"
| "first_in_range f_rng n c low high (Suc k) r = draw_then (f_rng r n) (\<lambda>bs r.
     let v = int (drawn_val bs div 2 ^ c) in
     if low \<le> v \<and> v < high then (Inr v, r) else first_in_range f_rng n c low high k r)"

lemma first_in_range_bounds: "first_in_range f_rng n c low high k r = (Inr v, r') \<Longrightarrow> low \<le> v \<and> v < high"
proof (induction k arbitrary: r)
  case 0
  then show ?case
    by (cases "f_rng r n" rule: prod.exhaust) (auto simp: draw_then_def split: sum.splits)
next
  case (Suc k)
  then show ?case
    by (cases "f_rng r n" rule: prod.exhaust) (auto simp: draw_then_def Let_def split: sum.splits if_splits)
qed

lemma drawn_candidate:
  fixes X :: "'l::len word mpi"
  assumes "whole_bytes TYPE('l)" and "plenty M 1" and "fills f_rng" and "mpi_s X = 1" and "CHARS_TO_LIMBS TYPE('l) n \<le> mpi_n X" and "0 < n"
    and "f_rng r n = (Inr bs, r')"
  obtains Y Z where "mpi_fill_random_internal X n f_rng r = (Inr Y, r')" "mbedtls_mpi_shift_r M Y c = Inr Z"
    "mpi_s Z = 1" "mpi_n Z = mpi_n X" "mpi_val Z = int (drawn_val bs div 2 ^ c)"
proof -
  obtain Y where Y: "mpi_fill_random_internal X n f_rng r = (Inr Y, r')" "mpi_s Y = mpi_s X" "mpi_n Y = mpi_n X" "mpi_abs Y = drawn_val bs"
    using fill_internal_fact [OF assms(1,5,6,3), of r] assms(7) by auto
  obtain Z where Z: "mbedtls_mpi_shift_r M Y c = Inr Z"
    using shift_r_succeeds [OF assms(2)] by blast
  have "0 < mpi_n X"
    using assms(5,6) CHARS_TO_LIMBS_enough [OF assms(1), of n] by (cases "mpi_n X") auto
  then have "max (mpi_n X) 1 = mpi_n X"
    by linarith
  then have "mpi_n Z = mpi_n X"
    using shift_r_fact(4) [OF Z] unfolding Y(3) by auto
  moreover have "mpi_s Z = 1"
    using shift_r_sign [OF Z] Y(2) assms(4) by auto
  moreover have "mpi_val Z = int (drawn_val bs div 2 ^ c)"
    using shift_r_fact(1) [OF Z] Y(4) \<open>mpi_s Z = 1\<close> by (simp add: mpi_val_def)
  ultimately show ?thesis
    using Y(1) Z by (intro that)
qed

lemma random_loop_fact:
  fixes X N lower :: "'l::len word mpi"
  assumes u: "whole_bytes TYPE('l)" and M: "plenty M 1" and f: "fills f_rng" and lt: "lt_compares lt_ct"
    and n: "CHARS_TO_LIMBS TYPE('l) n \<le> mpi_n N" "0 < n" and bounds: "mpi_s N = 1" "mpi_s lower = 1" "mpi_n lower = mpi_n N"
    and X: "mpi_s X = 1" "mpi_n X = mpi_n N"
  shows "\<exists>res r'. random_loop lt_ct M n b lower N f_rng k X r = (res, r') \<and>
    first_in_range f_rng n (8 * n - b) (mpi_val lower) (mpi_val N) k r = (map_sum id mpi_val res, r') \<and>
    (\<forall>Y. res = Inr Y \<longrightarrow> mpi_s Y = 1 \<and> mpi_n Y = mpi_n N)"
  using X
proof (induction k arbitrary: X r)
  case 0
  show ?case
  proof (cases "f_rng r n")
    case (Pair res r')
    show ?thesis
    proof (cases res)
      case (Inl e)
      then show ?thesis
        using fill_internal_fact [OF u _ n(2) f, of X r] n(1) 0 Pair by simp
    next
      case (Inr bs)
      with Pair have "f_rng r n = (Inr bs, r')"
        by simp
      from 0 n(1) this obtain Y Z where "mpi_fill_random_internal X n f_rng r = (Inr Y, r')" "mbedtls_mpi_shift_r M Y (8 * n - b) = Inr Z"
        by (metis drawn_candidate [OF u M f] n(2))
      then show ?thesis
        using Pair Inr by simp
    qed
  qed
next
  case (Suc k)
  show ?case
  proof (cases "f_rng r n")
    case (Pair res r')
    show ?thesis
    proof (cases res)
      case (Inl e)
      then show ?thesis
        using fill_internal_fact [OF u _ n(2) f, of X r] n(1) Suc.prems Pair by simp
    next
      case (Inr bs)
      let ?v = "int (drawn_val bs div 2 ^ (8 * n - b))"
      have drawn: "f_rng r n = (Inr bs, r')"
        using Pair Inr by simp
      have "CHARS_TO_LIMBS TYPE('l) n \<le> mpi_n X"
        using n(1) Suc.prems(2) by simp
      from drawn_candidate [OF u M f Suc.prems(1) this n(2) drawn]
      obtain Y Z where Z: "mpi_fill_random_internal X n f_rng r = (Inr Y, r')" "mbedtls_mpi_shift_r M Y (8 * n - b) = Inr Z"
          "mpi_s Z = 1" "mpi_n Z = mpi_n X" "mpi_val Z = ?v"
        by metis
      then have "lt_ct Z lower = Inr (of_bool (?v < mpi_val lower))" "lt_ct Z N = Inr (of_bool (?v < mpi_val N))"
        using lt bounds Suc.prems(2) unfolding lt_compares_def by metis+
      then have step: "random_loop lt_ct M n b lower N f_rng (Suc k) X r =
          (if mpi_val lower \<le> ?v \<and> ?v < mpi_val N then (Inr Z, r') else random_loop lt_ct M n b lower N f_rng k Z r')"
        using Z(1,2) by auto
      have spec: "first_in_range f_rng n (8 * n - b) (mpi_val lower) (mpi_val N) (Suc k) r =
          (if mpi_val lower \<le> ?v \<and> ?v < mpi_val N then (Inr ?v, r')
           else first_in_range f_rng n (8 * n - b) (mpi_val lower) (mpi_val N) k r')"
        by (simp add: drawn Let_def)
      show ?thesis
      proof (cases "mpi_val lower \<le> ?v \<and> ?v < mpi_val N")
        case True
        then show ?thesis
          unfolding step using drawn Z(3-5) Suc.prems(2) by simp
      next
        case False
        then show ?thesis
          unfolding step spec if_not_P [OF False] using Suc.prems(2) Z(3,4) by (intro Suc.IH) simp_all
      qed
    qed
  qed
qed

text \<open>
  C34: A random number of a range is drawn by rejection, and the rejection is exact.  A negative lower bound and an empty range are reported
  as bad input, and nothing is drawn.  Otherwise \<open>mbedtls_mpi_random\<close> asks the generator for as many bytes as the upper bound has, keeps
  as many of their leading bits as that bound has, and returns the first such number that lies in the range, with
  as many limbs as the bound; an error of the generator is passed on.  Of at most 30 draws (250
  for a bound of up to four bytes) the last one is thrown away unseen, so that 29 (249) rejected numbers exhaust it.
\<close>

theorem random_is_first_in_range:
  fixes X N :: "'l::len word mpi" and f_rng :: "'r rng"
  assumes "whole_bytes TYPE('l)" and "plenty M (mpi_n N)" and "has_sign N" and "fills f_rng" and "lt_compares lt_ct"
  defines "n \<equiv> (mbedtls_mpi_bitlen N + 7) div 8"
  shows "if sint lowest < 0 \<or> mpi_val N \<le> sint lowest
    then mbedtls_mpi_random lt_ct M X lowest N f_rng r = (Inl MBEDTLS_ERR_MPI_BAD_INPUT_DATA, r)
    else \<exists>res r'. mbedtls_mpi_random lt_ct M X lowest N f_rng r = (res, r') \<and>
      first_in_range f_rng n (8 * n - mbedtls_mpi_bitlen N) (sint lowest) (mpi_val N) (if 4 < n then 29 else 249) r = (map_sum id mpi_val res, r') \<and>
      (\<forall>Y. res = Inr Y \<longrightarrow> sint lowest \<le> mpi_val Y \<and> mpi_val Y < mpi_val N \<and> mpi_n Y = mpi_n N)"
proof (cases "sint lowest < 0 \<or> mpi_val N \<le> sint lowest")
  case True
  then have "sint lowest < 0 \<or> mbedtls_mpi_cmp_int N lowest \<le> 0"
    using cmp_int_val [OF assms(3), of lowest] by (auto simp: sgn_if)
  with True show ?thesis
    by (simp add: mbedtls_mpi_random_def Let_def) blast
next
  case False
  then have pos: "0 < mpi_val N" and sN: "mpi_s N = 1"
    using assms(3) by (auto simp: has_sign_def mpi_val_def)
  then have abs: "mpi_abs N \<noteq> 0"
    by (auto simp: mpi_val_def)
  then have len: "0 < mpi_n N" "0 < n"
    using bitlen_bounds(2) [of N] by (auto simp: mpi_abs_def n_def)
  have one: "plenty M 1"
    using assms(2) by (rule plenty_mono) (use len(1) in linarith)
  let ?L = "\<lparr>mpi_s = 1, mpi_p = replicate (mpi_n N) 0\<rparr> :: 'l word mpi"
  have start: "mbedtls_mpi_resize_clear M X (mpi_n N) = Inr ?L" "mbedtls_mpi_grow M mbedtls_mpi_init (mpi_n N) = Inr ?L"
    using resize_clear_eq [OF assms(2), of X] grow_eq [OF assms(2), of mbedtls_mpi_init] by (simp_all add: mbedtls_mpi_init_def)
  obtain lower where lower: "mbedtls_mpi_lset M ?L lowest = Inr lower"
    using lset_succeeds [OF one] by blast
  have l: "mpi_s lower = 1" "mpi_n lower = mpi_n N" "mpi_val lower = sint lowest"
    using lset_fact [OF lower] False len(1) by (simp_all add: sint_sign_def max_def)
  have "8 * n \<le> mpi_n N * LENGTH('l) + 7"
    using bitlen_bounds(3) [of N] unfolding n_def by linarith
  then have fits: "CHARS_TO_LIMBS TYPE('l) n \<le> mpi_n N"
    using assms(1) by (intro CHARS_TO_LIMBS_le) (simp_all add: whole_bytes_def)
  have cmp: "\<not> mbedtls_mpi_cmp_int N lowest \<le> 0"
    using cmp_int_val [OF assms(3), of lowest] False by (auto simp: sgn_if)
  have run: "mbedtls_mpi_random lt_ct M X lowest N f_rng r =
      random_loop lt_ct M n (mbedtls_mpi_bitlen N) lower N f_rng (if 4 < n then 29 else 249) ?L r"
    using False cmp start lower by (simp add: mbedtls_mpi_random_def Let_def n_def)
  from random_loop_fact [OF assms(1) one assms(4,5) fits len(2) sN l(1,2), of ?L "mbedtls_mpi_bitlen N" "if 4 < n then 29 else 249" r]
  obtain res r' where res: "random_loop lt_ct M n (mbedtls_mpi_bitlen N) lower N f_rng (if 4 < n then 29 else 249) ?L r = (res, r')"
    "first_in_range f_rng n (8 * n - mbedtls_mpi_bitlen N) (sint lowest) (mpi_val N) (if 4 < n then 29 else 249) r = (map_sum id mpi_val res, r')"
    "\<forall>Y. res = Inr Y \<longrightarrow> mpi_s Y = 1 \<and> mpi_n Y = mpi_n N"
    unfolding l(3) by auto
  then have "\<forall>Y. res = Inr Y \<longrightarrow> sint lowest \<le> mpi_val Y \<and> mpi_val Y < mpi_val N \<and> mpi_n Y = mpi_n N"
    using first_in_range_bounds [of f_rng n "8 * n - mbedtls_mpi_bitlen N" "sint lowest" "mpi_val N" "if 4 < n then 29 else 249" r] by auto
  then show ?thesis
    unfolding if_not_P [OF False] run using res(1,2) by blast
qed

lemma map_sum_Inr: "Inr v = map_sum id f res \<Longrightarrow> \<exists>Y. res = Inr Y \<and> f Y = v"
  by (cases res) auto

text \<open>A generator that counts, and a comparison as it is documented.\<close>

definition counting_rng :: "nat rng" where
  "counting_rng r n = (Inr (replicate n (of_nat (32 * r))), r + 1)"

definition plain_lt :: "'l::len word mpi \<Rightarrow> 'l word mpi \<Rightarrow> mpi_error + u32" where
  "plain_lt X Y = (if mpi_n X = mpi_n Y then Inr (of_bool (mpi_val X < mpi_val Y)) else Inl MBEDTLS_ERR_MPI_BAD_INPUT_DATA)"

lemma plain_generators: "fills counting_rng" "lt_compares plain_lt"
  by (auto simp: fills_def counting_rng_def lt_compares_def plain_lt_def)

theorem random_is_first_in_range_witness:
  "\<exists>Y. mbedtls_mpi_random plain_lt demo_platform mbedtls_mpi_init 1 \<lparr>mpi_s = 1, mpi_p = [5 :: 64 word, 0]\<rparr> counting_rng 6 = (Inr Y, 10) \<and> mpi_val Y = 1"
proof -
  let ?N = "\<lparr>mpi_s = 1, mpi_p = [5 :: 64 word, 0]\<rparr>"
  have N: "mpi_val ?N = 5" "has_sign ?N" "plenty demo_platform (mpi_n ?N)" "mbedtls_mpi_bitlen ?N = 3"
    by (simp add: mpi_val_def mpi_abs_def, simp add: has_sign_def, simp add: demo_plenty, code_simp)
  have w: "whole_bytes TYPE(64)"
    by (simp add: whole_bytes_def ciL_def)
  have "first_in_range counting_rng 1 5 1 5 (Suc (Suc (Suc (Suc 245)))) 6 = (Inr 1, 10)"
    unfolding first_in_range.simps by (simp add: counting_rng_def Let_def)
  then have "first_in_range counting_rng 1 5 1 5 249 6 = (Inr 1, 10)"
    by simp
  then show ?thesis
    using random_is_first_in_range [OF w N(3,2) plain_generators, of 1 mbedtls_mpi_init 6] N(1,4) by (auto dest: map_sum_Inr)
qed

end
