(* ===== verification/Prime_Numbers.thy ===== *)
theory Prime_Numbers
  imports Bignum_Exp
begin

text \<open>
  The facts about prime numbers that the primality test of \<open>bignum.c\<close> rests on: Fermat's little theorem, the square roots of 1
  modulo a prime, and the strong test to a base, which every prime passes.
\<close>

section \<open>Prime numbers\<close>

definition prime_number :: "nat \<Rightarrow> bool" where
  "prime_number p \<longleftrightarrow> 1 < p \<and> (\<forall>d. d dvd p \<longrightarrow> d = 1 \<or> d = p)"

lemma prime_coprime:
  assumes "prime_number p" and "\<not> p dvd a"
  shows "coprime p a"
proof -
  have "gcd p a \<noteq> p"
    using assms(2) gcd_dvd2 [of p a] by metis
  then have "gcd p a = 1"
    using assms(1) gcd_dvd1 [of p a] unfolding prime_number_def by blast
  then show ?thesis
    by (simp add: coprime_iff_gcd_eq_1)
qed

lemma prime_dvd_mult: "prime_number p \<Longrightarrow> p dvd a * b \<Longrightarrow> p dvd a \<or> p dvd b"
  using prime_coprime coprime_dvd_mult_right_iff by blast

lemma fermat_little:
  assumes p: "prime_number p" and a: "\<not> p dvd a"
  shows "a ^ (p - 1) mod p = 1"
proof -
  let ?S = "{1..<p}" and ?f = "\<lambda>x. a * x mod p"
  have "0 < p" "1 < p"
    using p by (simp_all add: prime_number_def)
  have co: "coprime a p"
    using prime_coprime [OF p a] by (simp add: coprime_commute)
  have inj: "inj_on ?f ?S"
  proof (rule inj_onI)
    fix x y
    assume xy: "x \<in> ?S" "y \<in> ?S" "?f x = ?f y"
    then have "x * a mod p = y * a mod p"
      by (simp add: mult.commute)
    then have "x mod p = y mod p"
      using mod_cancel co by blast
    then show "x = y"
      using xy by simp
  qed
  have "?f x \<in> ?S" if "x \<in> ?S" for x
  proof -
    have "\<not> p dvd x"
      using that by (intro nat_dvd_not_less) auto
    then have "\<not> p dvd a * x"
      using prime_dvd_mult [OF p, of a x] a by blast
    then show ?thesis
      using \<open>0 < p\<close> by (auto simp: dvd_eq_mod_eq_0)
  qed
  then have "?f ` ?S \<subseteq> ?S"
    by blast
  then have image: "?f ` ?S = ?S"
    using inj by (intro endo_inj_surj) simp_all
  have "(\<Prod>x\<in>?S. x) mod p = (\<Prod>x\<in>?S. ?f x) mod p"
    using prod.reindex [OF inj, of "\<lambda>x. x"] image by simp
  also have "\<dots> = (\<Prod>x\<in>?S. a * x) mod p"
    by (rule mod_prod_eq)
  also have "(\<Prod>x\<in>?S. a * x) = a ^ (p - 1) * (\<Prod>x\<in>?S. x)"
    by (simp add: prod.distrib)
  finally have "1 * (\<Prod>x\<in>?S. x) mod p = a ^ (p - 1) * (\<Prod>x\<in>?S. x) mod p"
    by simp
  moreover have "coprime (\<Prod>x\<in>?S. x) p"
  proof (rule prod_coprime_left)
    fix x
    assume "x \<in> ?S"
    then have "\<not> p dvd x"
      by (auto dest: dvd_imp_le)
    then show "coprime x p"
      using prime_coprime [OF p] coprime_commute by blast
  qed
  ultimately have "1 mod p = a ^ (p - 1) mod p"
    by (rule mod_cancel)
  then show ?thesis
    using \<open>1 < p\<close> by simp
qed

lemma square_root_of_one:
  assumes p: "prime_number p" and x: "x < p" "x * x mod p = 1"
  shows "x = 1 \<or> x = p - 1"
proof -
  have "0 < p" "1 < p"
    using p by (simp_all add: prime_number_def)
  have "0 < x"
    using x by (cases x) simp_all
  then have "x * x - 1 = (x - 1) * (x + 1)"
    by (cases x) simp_all
  moreover have "p dvd x * x - 1"
    using x(2) \<open>1 < p\<close> \<open>0 < x\<close> by (intro mod_eq_dvd_iff_nat [THEN iffD1]) (simp_all add: Suc_le_eq)
  ultimately have "p dvd x - 1 \<or> p dvd x + 1"
    using prime_dvd_mult [OF p] by metis
  then show ?thesis
  proof
    assume "p dvd x - 1"
    then have "x - 1 = 0"
      using x(1) by (auto dest: dvd_imp_le)
    then show ?thesis
      using \<open>0 < x\<close> by simp
  next
    assume "p dvd x + 1"
    then show ?thesis
      using x(1) by (auto dest: dvd_imp_le)
  qed
qed

text \<open>The numbers that pass the strong test for the base \<open>a\<close>: \<open>p - 1 = 2 ^ s * d\<close>.\<close>

fun strong_squares :: "nat \<Rightarrow> nat \<Rightarrow> nat \<Rightarrow> bool" where
  "strong_squares p 0 x \<longleftrightarrow> False"
| "strong_squares p (Suc k) x \<longleftrightarrow> x = p - 1 \<or> strong_squares p k (x * x mod p)"

definition strong_probable_prime :: "nat \<Rightarrow> nat \<Rightarrow> nat \<Rightarrow> nat \<Rightarrow> bool" where
  "strong_probable_prime p s d a \<longleftrightarrow> a ^ d mod p = 1 \<or> strong_squares p s (a ^ d mod p)"

lemma strong_squares_prime:
  assumes p: "prime_number p"
  shows "x < p \<Longrightarrow> x ^ (2 ^ s) mod p = 1 \<Longrightarrow> x = 1 \<or> strong_squares p s x"
proof (induction s arbitrary: x)
  case 0
  then show ?case
    by simp
next
  case (Suc s)
  let ?y = "x * x mod p"
  have "?y ^ (2 ^ s) mod p = x ^ (2 ^ Suc s) mod p"
    by (simp add: power_mod power_mult power2_eq_square)
  moreover have "?y < p"
    using p by (simp add: prime_number_def)
  ultimately have "?y = 1 \<or> strong_squares p s ?y"
    using Suc by simp
  then show ?case
    using square_root_of_one [OF p Suc.prems(1)] by auto
qed

text \<open>A prime number passes for every base.\<close>

lemma prime_strong:
  assumes p: "prime_number p" and "p - 1 = 2 ^ s * d" and "0 < a" "a < p"
  shows "strong_probable_prime p s d a"
proof -
  have "\<not> p dvd a"
    using assms(3,4) by (auto dest: dvd_imp_le)
  then have "a ^ (2 ^ s * d) mod p = 1"
    using fermat_little [OF p] assms(2) by metis
  then have "(a ^ d mod p) ^ (2 ^ s) mod p = 1"
    by (simp add: power_mod mult.commute flip: power_mult)
  moreover have "a ^ d mod p < p"
    using p by (simp add: prime_number_def)
  ultimately show ?thesis
    using strong_squares_prime [OF p] unfolding strong_probable_prime_def by blast
qed

end
