(* ===== verification/Bignum_Prime.thy ===== *)
theory Bignum_Prime
  imports Bignum_Random Prime_Numbers
begin

text \<open>
  The primality tests of \<open>bignum.c\<close>: trial division by the table \<open>small_prime\<close> (\<open>mpi_check_small_factors\<close>), the Miller-Rabin test
  (\<open>mpi_miller_rabin\<close>) and their combination (\<open>mbedtls_mpi_is_prime_ext\<close>).  The table is checked to hold the odd primes up to 997
  without a gap.  The rounds are shown to equal their specification on numbers (\<open>rounds_spec\<close>): bases are
  drawn, and each must pass the strong test of \<open>Prime_Numbers\<close>.
\<close>

section \<open>The code\<close>

definition small_prime :: "int list" where
  "small_prime =
   [3, 5, 7, 11, 13, 17, 19, 23, 29, 31, 37, 41, 43, 47, 53, 59,
    61, 67, 71, 73, 79, 83, 89, 97, 101, 103, 107, 109, 113, 127, 131, 137,
    139, 149, 151, 157, 163, 167, 173, 179, 181, 191, 193, 197, 199, 211, 223, 227,
    229, 233, 239, 241, 251, 257, 263, 269, 271, 277, 281, 283, 293, 307, 311, 313,
    317, 331, 337, 347, 349, 353, 359, 367, 373, 379, 383, 389, 397, 401, 409, 419,
    421, 431, 433, 439, 443, 449, 457, 461, 463, 467, 479, 487, 491, 499, 503, 509,
    521, 523, 541, 547, 557, 563, 569, 571, 577, 587, 593, 599, 601, 607, 613, 617,
    619, 631, 641, 643, 647, 653, 659, 661, 673, 677, 683, 691, 701, 709, 719, 727,
    733, 739, 743, 751, 757, 761, 769, 773, 787, 797, 809, 811, 821, 823, 827, 829,
    839, 853, 857, 859, 863, 877, 881, 883, 887, 907, 911, 919, 929, 937, 941, 947,
    953, 967, 971, 977, 983, 991, 997, - 103]"

fun small_factor_loop :: "'l::len word mpi \<Rightarrow> int list \<Rightarrow> mpi_error + int" where
  "small_factor_loop X [] = Inl Array_Overrun"
| "small_factor_loop X (p # ps) =
     (if 0 < p then
        if mbedtls_mpi_cmp_int X (of_int p) \<le> 0 then Inr 1
        else
          and_then (mbedtls_mpi_mod_int X (of_int p)) (\<lambda>r.
          if r = 0 then Inl MBEDTLS_ERR_MPI_NOT_ACCEPTABLE else small_factor_loop X ps)
      else Inr 0)"

definition mpi_check_small_factors :: "'l::len word mpi \<Rightarrow> mpi_error + int" where
  "mpi_check_small_factors X =
     (if mpi_n X = 0 then Inl Array_Overrun
      else if mpi_p X ! 0 AND 1 = 0 then Inl MBEDTLS_ERR_MPI_NOT_ACCEPTABLE
      else small_factor_loop X small_prime)"

text \<open>Computations that draw from the generator and may not end.\<close>

definition step_then :: "(('e + 'a) \<times> 'r) option \<Rightarrow> ('a \<Rightarrow> 'r \<Rightarrow> (('e + 'b) \<times> 'r) option) \<Rightarrow> (('e + 'b) \<times> 'r) option" where
  "step_then m f = (case m of None \<Rightarrow> None | Some (Inl e, r) \<Rightarrow> Some (Inl e, r) | Some (Inr x, r) \<Rightarrow> f x r)"

definition undrawn :: "'r \<Rightarrow> ('e + 'a) option \<Rightarrow> (('e + 'a) \<times> 'r) option" where
  "undrawn r = map_option (\<lambda>x. (x, r))"

text \<open>
  A base that is longer than \<open>W\<close> is masked; the shift count is computed in \<open>size_t\<close>, and a negative one is far larger than a limb.
\<close>

definition limit_base :: "'l::len word mpi \<Rightarrow> 'l word mpi \<Rightarrow> mpi_error + 'l word mpi" where
  "limit_base A W =
     (let j = mbedtls_mpi_bitlen A; k = mbedtls_mpi_bitlen W in
      if k < j then
        let i = (mpi_n A - 1) * biL TYPE('l) + 1 in
        if k < i \<or> biL TYPE('l) \<le> k - i then Inl Undefined_Shift
        else Inr (A\<lparr>mpi_p := (mpi_p A)[mpi_n A - 1 := mpi_p A ! (mpi_n A - 1) AND (push_bit (k - i) 1 - 1)]\<rparr>)
      else Inr A)"

text \<open>The index is \<open>31 - count\<close>.\<close>

primrec pick_base :: "platform \<Rightarrow> 'l::len word mpi \<Rightarrow> 'l word mpi \<Rightarrow> 'r rng \<Rightarrow> nat \<Rightarrow> 'l word mpi \<Rightarrow> 'r \<Rightarrow> (mpi_error + 'l word mpi) \<times> 'r" where
  "pick_base M X W f_rng 0 A p_rng =
     draw_then (mbedtls_mpi_fill_random M A (mpi_n X * ciL TYPE('l)) f_rng p_rng) (\<lambda>A p_rng.
     draw_then (limit_base A W, p_rng) (\<lambda>A p_rng.
     (Inl MBEDTLS_ERR_MPI_NOT_ACCEPTABLE, p_rng)))"
| "pick_base M X W f_rng (Suc k) A p_rng =
     draw_then (mbedtls_mpi_fill_random M A (mpi_n X * ciL TYPE('l)) f_rng p_rng) (\<lambda>A p_rng.
     draw_then (limit_base A W, p_rng) (\<lambda>A p_rng.
     if 0 \<le> mbedtls_mpi_cmp_mpi A W \<or> mbedtls_mpi_cmp_int A 1 \<le> 0 then pick_base M X W f_rng k A p_rng
     else (Inr A, p_rng)))"

text \<open>The index is \<open>s - j\<close>.\<close>

primrec square_loop ::
  "platform \<Rightarrow> 'l::len muladdc \<Rightarrow> bool \<Rightarrow> 'l word mpi \<Rightarrow> 'l word mpi \<Rightarrow> nat \<Rightarrow> 'l word mpi \<Rightarrow> 'l word mpi \<Rightarrow> (mpi_error + 'l word mpi \<times> 'l word mpi) option" where
  "square_loop M K have_udbl X W 0 T A = Some (Inr (T, A))"
| "square_loop M K have_udbl X W (Suc k) T A =
     (if mbedtls_mpi_cmp_mpi A W \<noteq> 0 then
        run_then (Some (mbedtls_mpi_mul_mpi M K T (Other A) (Other A))) (\<lambda>T.
        run_then (mbedtls_mpi_mod_mpi M K have_udbl A (Other T) (Other X)) (\<lambda>A.
        if mbedtls_mpi_cmp_int A 1 = 0 then Some (Inr (T, A))
        else square_loop M K have_udbl X W k T A))
      else Some (Inr (T, A)))"

record 'limb prime_test =
  candidate :: "'limb mpi"
  less_one :: "'limb mpi"
  odd_part :: "'limb mpi"
  twos :: nat

definition miller_round ::
  "exp_config \<Rightarrow> platform \<Rightarrow> 'l::len muladdc \<Rightarrow> bool \<Rightarrow> 'l word ct_functions \<Rightarrow> 'l word prime_test \<Rightarrow> 'r rng \<Rightarrow>
   'l word mpi \<times> 'l word mpi \<times> 'l word mpi option \<Rightarrow> 'r \<Rightarrow> ((mpi_error + 'l word mpi \<times> 'l word mpi \<times> 'l word mpi option) \<times> 'r) option" where
  "miller_round cfg M K have_udbl C t f_rng = (\<lambda>(T, A, RR) p_rng.
     step_then (Some (pick_base M (candidate t) (less_one t) f_rng 31 A p_rng)) (\<lambda>A p_rng.
     step_then (undrawn p_rng (mbedtls_mpi_exp_mod cfg M K have_udbl C A Self (odd_part t) (candidate t) RR)) (\<lambda>(A, RR) p_rng.
     if mbedtls_mpi_cmp_mpi A (less_one t) = 0 \<or> mbedtls_mpi_cmp_int A 1 = 0 then Some (Inr (T, A, RR), p_rng)
     else
       step_then (undrawn p_rng (square_loop M K have_udbl (candidate t) (less_one t) (twos t - 1) T A)) (\<lambda>(T, A) p_rng.
       if mbedtls_mpi_cmp_mpi A (less_one t) \<noteq> 0 \<or> mbedtls_mpi_cmp_int A 1 = 0 then Some (Inl MBEDTLS_ERR_MPI_NOT_ACCEPTABLE, p_rng)
       else Some (Inr (T, A, RR), p_rng)))))"

primrec miller_rounds ::
  "exp_config \<Rightarrow> platform \<Rightarrow> 'l::len muladdc \<Rightarrow> bool \<Rightarrow> 'l word ct_functions \<Rightarrow> 'l word prime_test \<Rightarrow> 'r rng \<Rightarrow> nat \<Rightarrow>
   'l word mpi \<times> 'l word mpi \<times> 'l word mpi option \<Rightarrow> 'r \<Rightarrow> ((mpi_error + unit) \<times> 'r) option" where
  "miller_rounds cfg M K have_udbl C t f_rng 0 v p_rng = Some (Inr (), p_rng)"
| "miller_rounds cfg M K have_udbl C t f_rng (Suc rounds) v p_rng =
     step_then (miller_round cfg M K have_udbl C t f_rng v p_rng) (miller_rounds cfg M K have_udbl C t f_rng rounds)"

definition mpi_miller_rabin ::
  "exp_config \<Rightarrow> platform \<Rightarrow> 'l::len muladdc \<Rightarrow> bool \<Rightarrow> 'l word ct_functions \<Rightarrow> 'l word mpi \<Rightarrow> nat \<Rightarrow> 'r rng \<Rightarrow> 'r \<Rightarrow>
   ((mpi_error + unit) \<times> 'r) option" where
  "mpi_miller_rabin cfg M K have_udbl C X rounds f_rng p_rng =
     step_then (undrawn p_rng (Some (mbedtls_mpi_sub_int M mbedtls_mpi_init (Other X) 1))) (\<lambda>W p_rng.
     let s = mbedtls_mpi_lsb W in
     step_then (undrawn p_rng (Some (mbedtls_mpi_copy M mbedtls_mpi_init (Other W)))) (\<lambda>R p_rng.
     step_then (undrawn p_rng (Some (mbedtls_mpi_shift_r M R s))) (\<lambda>R p_rng.
     miller_rounds cfg M K have_udbl C \<lparr>candidate = X, less_one = W, odd_part = R, twos = s\<rparr> f_rng rounds
       (mbedtls_mpi_init, mbedtls_mpi_init, Some mbedtls_mpi_init) p_rng)))"

text \<open>The number of rounds is an \<open>int\<close>, which the call of the Miller-Rabin test converts to \<open>size_t\<close>.\<close>

definition size_of_int :: "platform \<Rightarrow> int \<Rightarrow> nat" where
  "size_of_int M i = nat (i mod 2 ^ SIZE_BITS M)"

definition mbedtls_mpi_is_prime_ext ::
  "exp_config \<Rightarrow> platform \<Rightarrow> 'l::len muladdc \<Rightarrow> bool \<Rightarrow> 'l word ct_functions \<Rightarrow> 'l word mpi \<Rightarrow> int \<Rightarrow> 'r rng \<Rightarrow> 'r \<Rightarrow>
   ((mpi_error + unit) \<times> 'r) option" where
  "mbedtls_mpi_is_prime_ext cfg M K have_udbl C X rounds f_rng p_rng =
     (let XX = \<lparr>mpi_s = 1, mpi_p = mpi_p X\<rparr> in
      if mbedtls_mpi_cmp_int XX 0 = 0 \<or> mbedtls_mpi_cmp_int XX 1 = 0 then Some (Inl MBEDTLS_ERR_MPI_NOT_ACCEPTABLE, p_rng)
      else if mbedtls_mpi_cmp_int XX 2 = 0 then Some (Inr (), p_rng)
      else
        case mpi_check_small_factors XX of
          Inl e \<Rightarrow> Some (Inl e, p_rng)
        | Inr ret \<Rightarrow>
            if ret \<noteq> 0 then Some (Inr (), p_rng)
            else mpi_miller_rabin cfg M K have_udbl C XX (size_of_int M rounds) f_rng p_rng)"

definition mbedtls_mpi_is_prime ::
  "exp_config \<Rightarrow> platform \<Rightarrow> 'l::len muladdc \<Rightarrow> bool \<Rightarrow> 'l word ct_functions \<Rightarrow> 'l word mpi \<Rightarrow> 'r rng \<Rightarrow> 'r \<Rightarrow>
   ((mpi_error + unit) \<times> 'r) option" where
  "mbedtls_mpi_is_prime cfg M K have_udbl C X = mbedtls_mpi_is_prime_ext cfg M K have_udbl C X 40"

section \<open>Small factors\<close>

lemma step_then_simps [simp, outcome_simps]: "step_then None f = None" "step_then (Some (Inl e, r)) f = Some (Inl e, r)"
  "step_then (Some (Inr x, r)) f = f x r"
  by (simp_all add: step_then_def)

lemma undrawn_simps [simp, outcome_simps]: "undrawn r None = None" "undrawn r (Some x) = Some (x, r)"
  by (simp_all add: undrawn_def)

definition odd_primes :: "int list" where
  "odd_primes = butlast small_prime"

lemma small_prime_split: "small_prime = odd_primes @ [- 103]"
  by code_simp

fun ascending :: "int list \<Rightarrow> bool" where
  "ascending (p # q # ps) \<longleftrightarrow> p < q \<and> ascending (q # ps)"
| "ascending _ \<longleftrightarrow> True"

lemma ascending_sorted: "ascending ps \<Longrightarrow> sorted_wrt (<) ps"
  by (induction ps rule: ascending.induct) (auto intro: order.strict_trans)

lemma odd_primes_sorted: "sorted_wrt (<) odd_primes"
  by (rule ascending_sorted) code_simp

lemma odd_primes_small: "list_all (\<lambda>p. 2 < p \<and> p < 998) odd_primes"
  by code_simp

lemma odd_primes_checked: "list_all (\<lambda>p. list_all (\<lambda>d. d < p \<longrightarrow> p mod d \<noteq> 0) [2..31]) odd_primes"
  by code_simp

fun gaps_composite :: "int list \<Rightarrow> bool" where
  "gaps_composite (p # q # ps) \<longleftrightarrow>
     list_all (\<lambda>v. list_ex (\<lambda>d. v mod d = 0) [2, 3, 5, 7, 11, 13, 17, 19, 23, 29, 31]) [p + 1..q - 1] \<and> gaps_composite (q # ps)"
| "gaps_composite _ \<longleftrightarrow> True"

lemma odd_primes_gaps: "gaps_composite odd_primes"
  by code_simp

lemma prime_if_no_small_divisor:
  assumes "1 < v" and "v < 1024" and no: "\<forall>d. 1 < d \<longrightarrow> d < 32 \<longrightarrow> d < v \<longrightarrow> \<not> d dvd v"
  shows "prime_number v"
proof -
  have "d = 1 \<or> d = v" if "d dvd v" for d
  proof (rule ccontr)
    assume d: "\<not> (d = 1 \<or> d = v)"
    obtain e where e: "v = d * e"
      using \<open>d dvd v\<close> by (rule dvdE)
    have "d \<noteq> 0" "e \<noteq> 0" "e \<noteq> 1"
      using e assms(1) d by (auto intro!: Nat.gr0I)
    then have pos: "1 < d" "1 < e" "d < v" "e < v"
      using d e by (auto simp: nat_neq_iff)
    have "d < 32 \<or> e < 32"
    proof (rule ccontr)
      assume "\<not> (d < 32 \<or> e < 32)"
      then have "32 * 32 \<le> d * e"
        by (intro mult_le_mono) simp_all
      then show False
        using e assms(2) by simp
    qed
    then show False
      using no pos e by auto
  qed
  then show ?thesis
    using assms(1) by (simp add: prime_number_def)
qed

lemma odd_primes_prime: "p \<in> set odd_primes \<Longrightarrow> prime_number (nat p)"
proof -
  assume p: "p \<in> set odd_primes"
  then have small: "2 < p" "p < 998"
    using odd_primes_small by (auto simp: list_all_iff)
  show "prime_number (nat p)"
  proof (rule prime_if_no_small_divisor)
    show "\<forall>d. 1 < d \<longrightarrow> d < 32 \<longrightarrow> d < nat p \<longrightarrow> \<not> d dvd nat p"
    proof (intro allI impI)
      fix d :: nat
      assume d: "1 < d" "d < 32" "d < nat p"
      then have "int d \<in> {2..31}" "int d < p"
        by auto
      moreover have "\<forall>p\<in>set odd_primes. \<forall>d\<in>{2..31}. d < p \<longrightarrow> p mod d \<noteq> 0"
        using odd_primes_checked unfolding list_all_iff set_upto .
      ultimately have "p mod int d \<noteq> 0"
        using p by (metis (lifting))
      then have "\<not> int d dvd p"
        by (simp add: dvd_eq_mod_eq_0)
      then show "\<not> d dvd nat p"
        using small(1) by (simp flip: int_dvd_int_iff)
    qed
  qed (use small in auto)
qed

lemma gap_divisor:
  "gaps_composite ps \<Longrightarrow> ps = pre @ p # q # post \<Longrightarrow> p < v \<Longrightarrow> v < q \<Longrightarrow>
   \<exists>d\<in>{2, 3, 5, 7, 11, 13, 17, 19, 23, 29, 31}. v mod d = 0"
proof (induction pre arbitrary: ps)
  case Nil
  then show ?case
    by (auto simp: list_all_iff list_ex_iff)
next
  case (Cons a pre)
  then show ?case
    by (cases pre) auto
qed

lemma odd_primes_members: "{3, 5, 7, 11, 13, 17, 19, 23, 29, 31} \<subseteq> set odd_primes"
  by code_simp

lemma odd_primes_hd: "odd_primes = p # ps \<Longrightarrow> p = 3"
  by (simp add: odd_primes_def small_prime_def)

text \<open>An odd number that no smaller prime of the list divides is prime when it is not larger than the next one.\<close>

lemma next_prime:
  assumes split: "odd_primes = pre @ p # post" and no: "\<forall>q\<in>set pre. q < v \<and> v mod q \<noteq> 0" and v: "2 < v" "odd v" "v \<le> p"
  shows "v = p"
proof (rule ccontr)
  assume "v \<noteq> p"
  then have less: "v < p"
    using v(3) by simp
  have later: "\<forall>q\<in>set post. p < q"
    using odd_primes_sorted unfolding split by (simp add: sorted_wrt_append)
  have "\<exists>d\<in>{2, 3, 5, 7, 11, 13, 17, 19, 23, 29, 31}. v mod d = 0"
  proof (cases pre rule: rev_cases)
    case Nil
    then have "p = 3"
      using odd_primes_hd split by simp
    then show ?thesis
      using less v(1) by simp
  next
    case (snoc pre' q)
    then have "odd_primes = pre' @ q # p # post" "q < v"
      using split no by auto
    then show ?thesis
      using gap_divisor [OF odd_primes_gaps, of pre' q p post v] less by blast
  qed
  then obtain d where d: "d \<in> {2, 3, 5, 7, 11, 13, 17, 19, 23, 29, 31}" "v mod d = 0"
    by (rule bexE)
  have "d \<noteq> 2"
    using v(2) d(2) by (auto simp: even_iff_mod_2_eq_zero)
  then have "d \<in> {3, 5, 7, 11, 13, 17, 19, 23, 29, 31}"
    using d(1) by simp
  then have "d \<in> set odd_primes"
    by (rule subsetD [OF odd_primes_members])
  moreover have "d \<le> v"
    using d(2) v(1) by (intro zdvd_imp_le) (auto simp: dvd_eq_mod_eq_0)
  ultimately have "d \<in> set pre"
    using less later unfolding split by auto
  then show False
    using bspec [OF no, of d] d(2) by simp
qed

definition small_factor :: "int \<Rightarrow> bool" where
  "small_factor v \<longleftrightarrow> (\<exists>p\<in>set odd_primes. p dvd v)"

lemma sint_small_prime:
  fixes b :: "'l::len word"
  assumes "32 \<le> LENGTH('l)" and "0 \<le> p" "p < 998" and "b = of_int p"
  shows "sint b = p" "unat b \<le> 2 ^ (LENGTH('l) div 2)"
proof -
  obtain n where n: "p = int n" "n < 998"
    using assms(2,3) nonneg_int_cases [of p] by auto
  have b: "b = of_nat n"
    by (simp add: assms(4) n(1))
  have big: "(2 :: int) ^ 31 \<le> 2 ^ (LENGTH('l) - 1)" "(2 :: nat) ^ 16 \<le> 2 ^ (LENGTH('l) div 2)" "(2 :: nat) ^ 32 \<le> 2 ^ LENGTH('l)"
    using assms(1) by (intro power_increasing; simp)+
  moreover have "int n < 2 ^ 31" "n < 2 ^ 32"
    using n(2) by simp_all
  ultimately have "int n < 2 ^ (LENGTH('l) - 1)" "- (2 ^ (LENGTH('l) - 1)) \<le> int n" "n < 2 ^ LENGTH('l)"
    by linarith+
  then show "sint b = p" "unat b \<le> 2 ^ (LENGTH('l) div 2)"
    using big(2) n by (simp_all add: b signed_of_nat signed_take_bit_int_eq_self unsigned_of_nat take_bit_nat_eq_self)
qed

lemma small_factor_loop_fact:
  fixes X :: "'l::len word mpi"
  assumes L: "32 \<le> LENGTH('l)" "even LENGTH('l)" and X: "has_sign X" "2 < mpi_val X" "odd (mpi_val X)"
  shows "odd_primes = pre @ ps \<Longrightarrow> \<forall>p\<in>set pre. p < mpi_val X \<and> mpi_val X mod p \<noteq> 0 \<Longrightarrow>
    small_factor_loop X (ps @ [- 103]) =
      (if prime_number (nat (mpi_val X)) \<and> mpi_val X \<le> 997 then Inr 1
       else if small_factor (mpi_val X) then Inl MBEDTLS_ERR_MPI_NOT_ACCEPTABLE else Inr 0)"
proof (induction ps arbitrary: pre)
  case Nil
  have "997 \<in> set odd_primes"
    by code_simp
  then have "997 < mpi_val X" "\<not> small_factor (mpi_val X)"
    using Nil by (auto simp: small_factor_def dvd_eq_mod_eq_0)
  then show ?case
    by simp
next
  case (Cons p ps)
  let ?v = "mpi_val X" and ?b = "of_int p :: 'l word"
  have p: "p \<in> set odd_primes" "2 < p" "p < 998"
    using odd_primes_small unfolding Cons.prems(1) by (simp_all add: list_all_iff)
  have b: "sint ?b = p" "unat ?b \<le> 2 ^ (LENGTH('l) div 2)"
    using sint_small_prime [OF L(1), of p ?b] p by simp_all
  have cmp: "mbedtls_mpi_cmp_int X ?b \<le> 0 \<longleftrightarrow> ?v \<le> p"
    unfolding cmp_int_val [OF X(1)] b(1) by (simp add: sgn_if)
  show ?case
  proof (cases "?v \<le> p")
    case True
    then have "?v = p"
      by (rule next_prime [OF Cons.prems X(2,3)])
    then have "prime_number (nat ?v)" "?v \<le> 997"
      using odd_primes_prime [OF p(1)] p(3) by simp_all
    then show ?thesis
      using True cmp p(2) by simp
  next
    case False
    obtain r where r: "mbedtls_mpi_mod_int X ?b = Inr r" "int (unat r) = ?v mod p"
      using mod_int_fact [OF L(2) b(2) _ X(1)] p(2) unfolding b(1) by auto
    have r0: "r = 0 \<longleftrightarrow> ?v mod p = 0"
      unfolding r(2) [symmetric] by (simp add: unat_eq_0 del: of_nat_unat)
    have step: "small_factor_loop X ((p # ps) @ [- 103]) =
        (if ?v mod p = 0 then Inl MBEDTLS_ERR_MPI_NOT_ACCEPTABLE else small_factor_loop X (ps @ [- 103]))"
      using False cmp p(2) r(1) r0 by simp
    show ?thesis
    proof (cases "?v mod p = 0")
      case True
      then have "nat p dvd nat ?v" "nat p \<noteq> 1" "nat p \<noteq> nat ?v"
        using p(2) False X(2) by (auto simp: dvd_eq_mod_eq_0 nat_dvd_iff nat_mod_distrib simp flip: nat_mod_distrib)
      then have "\<not> prime_number (nat ?v)"
        unfolding prime_number_def by blast
      moreover have "small_factor ?v"
        using True p(1) by (auto simp: small_factor_def dvd_eq_mod_eq_0)
      ultimately show ?thesis
        unfolding step using True by simp
    next
      case no: False
      have "odd_primes = (pre @ [p]) @ ps" "\<forall>q\<in>set (pre @ [p]). q < ?v \<and> ?v mod q \<noteq> 0"
        using Cons.prems False no by auto
      from Cons.IH [OF this] show ?thesis
        unfolding step using no by simp
    qed
  qed
qed

lemma check_small_factors_fact:
  fixes X :: "'l::len word mpi"
  assumes L: "32 \<le> LENGTH('l)" "even LENGTH('l)" and X: "mpi_s X = 1" "2 < mpi_val X"
  shows "mpi_check_small_factors X =
    (if prime_number (nat (mpi_val X)) \<and> mpi_val X \<le> 997 then Inr 1
     else if even (mpi_val X) \<or> small_factor (mpi_val X) then Inl MBEDTLS_ERR_MPI_NOT_ACCEPTABLE else Inr 0)"
proof -
  have sign: "has_sign X" and val: "mpi_val X = int (mpi_abs X)"
    using X(1) by (simp_all add: has_sign_def mpi_val_def)
  have n: "mpi_n X \<noteq> 0"
    using X(2) val by (auto simp: mpi_abs_def)
  have low: "mpi_p X ! 0 AND 1 = 0 \<longleftrightarrow> even (mpi_val X)"
    using and_one_odd [of "mpi_p X ! 0"] low_limb_odd [of X] n val by auto
  show ?thesis
  proof (cases "even (mpi_val X)")
    case True
    then have "2 dvd nat (mpi_val X)" "(2 :: nat) \<noteq> nat (mpi_val X)"
      using X(2) by (simp_all add: val)
    then have "\<not> prime_number (nat (mpi_val X))"
      unfolding prime_number_def by auto
    then show ?thesis
      using True low n by (simp add: mpi_check_small_factors_def)
  next
    case False
    then show ?thesis
      using small_factor_loop_fact [OF L sign X(2) False, of "[]" odd_primes] low n
      by (simp add: mpi_check_small_factors_def small_prime_split)
  qed
qed

section \<open>Bases\<close>

text \<open>The specification of the choice of a base below \<open>w\<close>, which has \<open>k\<close> bits.\<close>

primrec base_drawn :: "'r rng \<Rightarrow> nat \<Rightarrow> nat \<Rightarrow> nat \<Rightarrow> nat \<Rightarrow> 'r \<Rightarrow> (mpi_error + nat) \<times> 'r" where
  "base_drawn f_rng n k w 0 r = draw_then (f_rng r n) (\<lambda>bs r. (Inl MBEDTLS_ERR_MPI_NOT_ACCEPTABLE, r))"
| "base_drawn f_rng n k w (Suc c) r = draw_then (f_rng r n) (\<lambda>bs r.
     let a = drawn_val bs; a = (if a < 2 ^ k then a else a mod 2 ^ (k - 1)) in
     if 1 < a \<and> a < w then (Inr a, r) else base_drawn f_rng n k w c r)"

lemma base_drawn_bounds: "base_drawn f_rng n k w c r = (Inr a, r') \<Longrightarrow> 1 < a \<and> a < w"
proof (induction c arbitrary: r)
  case 0
  then show ?case
    by (cases "f_rng r n" rule: prod.exhaust) (auto simp: draw_then_def split: sum.splits)
next
  case (Suc c)
  then show ?case
    by (cases "f_rng r n" rule: prod.exhaust) (auto simp: draw_then_def Let_def split: sum.splits if_splits)
qed

lemma masked_top_limb:
  fixes p :: "'l::len word list"
  assumes "p \<noteq> []" and "m < LENGTH('l)"
  shows "limbs_val (p[length p - 1 := p ! (length p - 1) AND (push_bit m 1 - 1)]) = limbs_val p mod 2 ^ (LENGTH('l) * (length p - 1) + m)"
proof -
  let ?q = "butlast p" and ?x = "last p" and ?e = "LENGTH('l) * (length p - 1)"
  have p: "p = ?q @ [?x]" "length ?q = length p - 1"
    using assms(1) by simp_all
  have upd: "p[length p - 1 := y] = ?q @ [y]" for y
    by (subst p(1)) (simp add: p(2) list_update_append)
  have nth: "p ! (length p - 1) = ?x"
    using assms(1) by (simp add: last_conv_nth)
  have one: "limbs_val [y] = unat y" for y :: "'l word"
    by simp
  have low: "limbs_val ?q < 2 ^ ?e"
    using limbs_val_less [of ?q] p(2) by simp
  have "limbs_val p = limbs_val ?q + 2 ^ ?e * unat ?x"
    by (subst p(1)) (simp add: limbs_val_append p(2))
  then have "limbs_val p mod (2 ^ ?e * 2 ^ m) = 2 ^ ?e * (unat ?x mod 2 ^ m) + limbs_val ?q"
    using low by (simp add: mod_mult2_eq)
  then show ?thesis
    unfolding upd nth limbs_val_append one unat_and_mask p(2) power_add by simp
qed

lemma limit_base_fact:
  fixes A W :: "'l::len word mpi"
  assumes "mpi_s A = 1" and k: "(mpi_n A - 1) * LENGTH('l) < mbedtls_mpi_bitlen W" "mbedtls_mpi_bitlen W \<le> mpi_n A * LENGTH('l)"
  shows "\<exists>B. limit_base A W = Inr B \<and> mpi_s B = 1 \<and> mpi_n B = mpi_n A \<and>
    mpi_abs B = (if mpi_abs A < 2 ^ mbedtls_mpi_bitlen W then mpi_abs A else mpi_abs A mod 2 ^ (mbedtls_mpi_bitlen W - 1))"
proof -
  let ?k = "mbedtls_mpi_bitlen W" and ?i = "(mpi_n A - 1) * LENGTH('l) + 1"
  have n: "mpi_p A \<noteq> []"
    using k by auto
  have long: "?k < mbedtls_mpi_bitlen A \<longleftrightarrow> \<not> mpi_abs A < 2 ^ ?k"
    using bitlen_le_iff [of A ?k] by linarith
  have "mpi_n A * LENGTH('l) = (mpi_n A - 1) * LENGTH('l) + LENGTH('l)"
    using n by (cases "mpi_n A") simp_all
  then have m: "\<not> ?k < ?i" "?k - ?i < LENGTH('l)" "LENGTH('l) * (mpi_n A - 1) + (?k - ?i) = ?k - 1"
    using k by (simp_all add: mult.commute)
  show ?thesis
    using masked_top_limb [OF n m(2)] long m assms(1) n
    by (auto simp: limit_base_def Let_def mpi_abs_def biL_def)
qed

lemma fill_random_fact:
  fixes A :: "'l::len word mpi"
  assumes u: "whole_bytes TYPE('l)" and n: "0 < n" and M: "plenty M n" and f: "fills f_rng"
  shows "case f_rng r (n * ciL TYPE('l)) of
      (Inl e, r') \<Rightarrow> mbedtls_mpi_fill_random M A (n * ciL TYPE('l)) f_rng r = (Inl e, r')
    | (Inr bs, r') \<Rightarrow> \<exists>Y. mbedtls_mpi_fill_random M A (n * ciL TYPE('l)) f_rng r = (Inr Y, r') \<and> mpi_s Y = 1 \<and> mpi_n Y = n \<and> mpi_abs Y = drawn_val bs"
proof -
  have c: "0 < ciL TYPE('l)"
    by (rule ciL_pos [OF u])
  then have limbs: "CHARS_TO_LIMBS TYPE('l) (n * ciL TYPE('l)) = n" "0 < n * ciL TYPE('l)"
    using n by (simp_all add: CHARS_TO_LIMBS_def)
  let ?Z = "\<lparr>mpi_s = 1, mpi_p = replicate n 0\<rparr> :: 'l word mpi"
  have "mbedtls_mpi_fill_random M A (n * ciL TYPE('l)) f_rng r = mpi_fill_random_internal ?Z (n * ciL TYPE('l)) f_rng r"
    using limbs resize_clear_eq [OF M, of A] by (simp add: mbedtls_mpi_fill_random_def Let_def)
  then show ?thesis
    using fill_internal_fact [OF u _ limbs(2) f, of ?Z r] limbs(1) by (simp split: prod.splits sum.splits)
qed

lemma one_limb: "whole_bytes TYPE('l::len) \<Longrightarrow> sint (1 :: 'l word) = 1"
  using small_sint [where 'l = 'l, of 1] by simp

lemma pick_base_fact:
  fixes X W A :: "'l::len word mpi"
  assumes u: "whole_bytes TYPE('l)" and n: "0 < mpi_n X" and M: "plenty M (mpi_n X)" and f: "fills f_rng" and W: "mpi_s W = 1"
    and k: "(mpi_n X - 1) * LENGTH('l) < mbedtls_mpi_bitlen W" "mbedtls_mpi_bitlen W \<le> mpi_n X * LENGTH('l)"
  shows "\<exists>res r'. pick_base M X W f_rng c A r = (res, r') \<and>
    base_drawn f_rng (mpi_n X * ciL TYPE('l)) (mbedtls_mpi_bitlen W) (mpi_abs W) c r = (map_sum id mpi_abs res, r') \<and>
    (\<forall>B. res = Inr B \<longrightarrow> mpi_s B = 1 \<and> mpi_n B = mpi_n X)"
proof (induction c arbitrary: A r)
  case 0
  note fill = fill_random_fact [OF u n M f, where r = r and A = A]
  show ?case
  proof (cases "f_rng r (mpi_n X * ciL TYPE('l))")
    case (Pair res r')
    show ?thesis
    proof (cases res)
      case (Inr bs)
      then obtain Y where Y: "mbedtls_mpi_fill_random M A (mpi_n X * ciL TYPE('l)) f_rng r = (Inr Y, r')" "mpi_s Y = 1" "mpi_n Y = mpi_n X"
        using fill Pair by auto
      then obtain B where "limit_base Y W = Inr B"
        using limit_base_fact [of Y W] k by auto
      then show ?thesis
        using Pair Inr Y(1) by simp
    qed (use fill Pair in simp)
  qed
next
  case (Suc c)
  note fill = fill_random_fact [OF u n M f, where r = r and A = A]
  let ?k = "mbedtls_mpi_bitlen W" and ?l = "mpi_n X * ciL TYPE('l)"
  show ?case
  proof (cases "f_rng r ?l")
    case (Pair res r')
    show ?thesis
    proof (cases res)
      case (Inr bs)
      let ?a = "if drawn_val bs < 2 ^ ?k then drawn_val bs else drawn_val bs mod 2 ^ (?k - 1)"
      obtain Y where Y: "mbedtls_mpi_fill_random M A ?l f_rng r = (Inr Y, r')" "mpi_s Y = 1" "mpi_n Y = mpi_n X" "mpi_abs Y = drawn_val bs"
        using fill Pair Inr by auto
      then obtain B where B: "limit_base Y W = Inr B" "mpi_s B = 1" "mpi_n B = mpi_n X" "mpi_abs B = ?a"
        using limit_base_fact [of Y W] k by auto
      have sign: "has_sign B" "has_sign W"
        using B(2) W by (simp_all add: has_sign_def)
      have "0 \<le> mbedtls_mpi_cmp_mpi B W \<longleftrightarrow> mpi_abs W \<le> ?a" "mbedtls_mpi_cmp_int B 1 \<le> 0 \<longleftrightarrow> ?a \<le> 1"
        unfolding cmp_mpi_val [OF sign] cmp_int_val [OF sign(1)] using B(2,4) W one_limb [OF u] by (simp_all add: mpi_val_def sgn_if)
      then have step: "pick_base M X W f_rng (Suc c) A r =
          (if 1 < ?a \<and> ?a < mpi_abs W then (Inr B, r') else pick_base M X W f_rng c B r')"
        using Y(1) B(1) by (simp add: not_le)
      have spec: "base_drawn f_rng ?l ?k (mpi_abs W) (Suc c) r =
          (if 1 < ?a \<and> ?a < mpi_abs W then (Inr ?a, r') else base_drawn f_rng ?l ?k (mpi_abs W) c r')"
        using Pair Inr by (simp add: Let_def)
      show ?thesis
      proof (cases "1 < ?a \<and> ?a < mpi_abs W")
        case True
        then show ?thesis
          unfolding step spec if_P [OF True] using B(2-4) by simp
      next
        case False
        show ?thesis
          unfolding step spec if_not_P [OF False] by (rule Suc.IH)
      qed
    qed (use fill Pair in simp)
  qed
qed

section \<open>Rounds\<close>

lemma strong_squares_one: "2 < p \<Longrightarrow> \<not> strong_squares p k 1"
  by (induction k) simp_all

definition room_for_prime :: "platform \<Rightarrow> 'l::len word mpi \<Rightarrow> bool" where
  "room_for_prime M X \<longleftrightarrow> plenty M (4 * mpi_n X + 14) \<and> (4 * mpi_n X + 13) * LENGTH('l) < 2 ^ SIZE_BITS M"

lemma room_for_prime_parts:
  assumes "room_for_prime M (X :: 'l::len word mpi)"
  shows "i \<le> 4 * mpi_n X + 14 \<Longrightarrow> plenty M i" "i \<le> 4 * mpi_n X + 13 \<Longrightarrow> i * LENGTH('l) < 2 ^ SIZE_BITS M"
proof -
  show "i \<le> 4 * mpi_n X + 14 \<Longrightarrow> plenty M i"
    using assms by (auto simp: room_for_prime_def elim: plenty_mono)
  assume "i \<le> 4 * mpi_n X + 13"
  then have "i * LENGTH('l) \<le> (4 * mpi_n X + 13) * LENGTH('l)"
    by (rule mult_le_mono1)
  then show "i * LENGTH('l) < 2 ^ SIZE_BITS M"
    using assms unfolding room_for_prime_def by linarith
qed

lemma square_step:
  fixes X A T :: "'l::len word mpi"
  assumes K: "muladdc_exact K" and u: "even LENGTH('l)" and room: "room_for_prime M X"
    and X: "mpi_s X = 1" "mpi_abs X = p" "0 < p" and A: "has_sign A" "mpi_val A = int x" "mpi_n A \<le> 2 * mpi_n X + 5"
    and T: "mpi_n T \<le> 4 * mpi_n X + 11"
  obtains T' A' where "mbedtls_mpi_mul_mpi M K T (Other A) (Other A) = Inr T'" "mbedtls_mpi_mod_mpi M K have_udbl A (Other T') (Other X) = Some (Inr A')"
    "has_sign A'" "mpi_val A' = int (x * x mod p)" "mpi_n A' \<le> 2 * mpi_n X + 5" "mpi_n T' \<le> 4 * mpi_n X + 11"
proof -
  note plenty = room_for_prime_parts(1) [OF room] and size = room_for_prime_parts(2) [OF room]
  have "room_for_product M T (Other A) (Other A)"
    unfolding room_for_product_def by (rule plenty) (use A(3) T in simp)
  then obtain T' where T': "mbedtls_mpi_mul_mpi M K T (Other A) (Other A) = Inr T'" "mpi_val T' = int x * int x" "has_sign T'"
      "mpi_n T' \<le> max (mpi_n T) (mpi_n A + mpi_n A + 1)"
    using mul_mpi_fact [OF K, of M T "Other A" "Other A"] A by auto
  then have t: "mpi_n T' \<le> 4 * mpi_n X + 11"
    using A(3) T by simp
  have "room_for_remainder M A T' X"
    unfolding room_for_remainder_def room_for_division_def by (intro conjI plenty size) (use t A(3) in simp_all)
  moreover have "has_sign X" "mpi_val X = int p"
    using X by (simp_all add: has_sign_def mpi_val_def)
  ultimately obtain A' where "mbedtls_mpi_mod_mpi M K have_udbl A (Other T') (Other X) = Some (Inr A')" "mpi_val A' = int x * int x mod int p"
      "has_sign A'" "mpi_n A' \<le> max (mpi_n A) (mpi_n X)"
    using mod_mpi_fact [OF K, of have_udbl M A "Other T'" X] u T'(2,3) A(1) X(3) by auto
  then show ?thesis
    using T'(1) t A(3) by (intro that [of T' A']) (simp_all add: of_nat_mod)
qed

lemma square_loop_fact:
  fixes X W :: "'l::len word mpi"
  assumes K: "muladdc_exact K" and u: "even LENGTH('l)" "whole_bytes TYPE('l)" and room: "room_for_prime M X"
    and X: "mpi_s X = 1" "mpi_abs X = p" "2 < p" and W: "mpi_s W = 1" "mpi_abs W = p - 1"
  shows "has_sign A \<Longrightarrow> mpi_val A = int x \<Longrightarrow> x < p \<Longrightarrow> x \<noteq> 1 \<Longrightarrow> mpi_n A \<le> 2 * mpi_n X + 5 \<Longrightarrow> mpi_n T \<le> 4 * mpi_n X + 11 \<Longrightarrow>
    \<exists>T' A' y. square_loop M K have_udbl X W k T A = Some (Inr (T', A')) \<and> has_sign A' \<and> mpi_val A' = int y \<and>
      mpi_n T' \<le> 4 * mpi_n X + 11 \<and> (y = p - 1 \<longleftrightarrow> strong_squares p (Suc k) x)"
proof (induction k arbitrary: A T x)
  case 0
  then show ?case
    by auto
next
  case (Suc k)
  have W': "has_sign W" "mpi_val W = int (p - 1)"
    using W by (simp_all add: has_sign_def mpi_val_def)
  have same: "mbedtls_mpi_cmp_mpi A W = 0 \<longleftrightarrow> x = p - 1"
    unfolding cmp_mpi_val [OF Suc.prems(1) W'(1)] Suc.prems(2) W'(2) by (auto simp: sgn_0_0)
  show ?case
  proof (cases "x = p - 1")
    case True
    then show ?thesis
      using same Suc.prems by auto
  next
    case False
    let ?y = "x * x mod p"
    have "0 < p"
      using X(3) by simp
    obtain T' A' where A': "mbedtls_mpi_mul_mpi M K T (Other A) (Other A) = Inr T'" "mbedtls_mpi_mod_mpi M K have_udbl A (Other T') (Other X) = Some (Inr A')"
      "has_sign A'" "mpi_val A' = int ?y" "mpi_n A' \<le> 2 * mpi_n X + 5" "mpi_n T' \<le> 4 * mpi_n X + 11"
      by (rule square_step [OF K u(1) room X(1,2) \<open>0 < p\<close> Suc.prems(1,2,5,6), where have_udbl = have_udbl])
    have one: "mbedtls_mpi_cmp_int A' 1 = 0 \<longleftrightarrow> ?y = 1"
      unfolding cmp_int_val [OF A'(3)] A'(4) one_limb [OF u(2)] by (auto simp: sgn_0_0)
    have step: "square_loop M K have_udbl X W (Suc k) T A =
        (if ?y = 1 then Some (Inr (T', A')) else square_loop M K have_udbl X W k T' A')"
      using same False A'(1,2) one by simp
    have spec: "strong_squares p (Suc (Suc k)) x \<longleftrightarrow> strong_squares p (Suc k) ?y"
      using False by simp
    show ?thesis
    proof (cases "?y = 1")
      case True
      then show ?thesis
        unfolding step spec using A' X(3) strong_squares_one [OF X(3), of "Suc k"] by (auto simp del: strong_squares.simps)
    next
      case no: False
      show ?thesis
        unfolding step spec if_not_P [OF no] using A'(3-6) no \<open>0 < p\<close> by (intro Suc.IH) simp_all
    qed
  qed
qed

text \<open>The specification of the rounds.\<close>

definition round_spec :: "'r rng \<Rightarrow> nat \<Rightarrow> nat \<Rightarrow> nat \<Rightarrow> nat \<Rightarrow> nat \<Rightarrow> 'r \<Rightarrow> (mpi_error + unit) \<times> 'r" where
  "round_spec f_rng n k p s d r =
     draw_then (base_drawn f_rng n k (p - 1) 31 r) (\<lambda>a r.
     if strong_probable_prime p s d a then (Inr (), r) else (Inl MBEDTLS_ERR_MPI_NOT_ACCEPTABLE, r))"

primrec rounds_spec :: "'r rng \<Rightarrow> nat \<Rightarrow> nat \<Rightarrow> nat \<Rightarrow> nat \<Rightarrow> nat \<Rightarrow> nat \<Rightarrow> 'r \<Rightarrow> (mpi_error + unit) \<times> 'r" where
  "rounds_spec f_rng n k p s d 0 r = (Inr (), r)"
| "rounds_spec f_rng n k p s d (Suc m) r = draw_then (round_spec f_rng n k p s d r) (\<lambda>_. rounds_spec f_rng n k p s d m)"

text \<open>What the test of a number relies on.\<close>

definition test_ready :: "exp_config \<Rightarrow> platform \<Rightarrow> 'l::len word prime_test \<Rightarrow> nat \<Rightarrow> nat \<Rightarrow> bool" where
  "test_ready cfg M t p d \<longleftrightarrow>
     mpi_s (candidate t) = 1 \<and> mpi_abs (candidate t) = p \<and> 2 < p \<and> odd p \<and>
     mpi_s (less_one t) = 1 \<and> mpi_abs (less_one t) = p - 1 \<and> mpi_s (odd_part t) = 1 \<and> mpi_abs (odd_part t) = d \<and>
     p - 1 = 2 ^ twos t * d \<and> 0 < twos t \<and>
     mbedtls_mpi_bitlen (candidate t) \<le> MPI_MAX_BITS cfg \<and> mbedtls_mpi_bitlen (odd_part t) \<le> MPI_MAX_BITS cfg \<and>
     (mpi_n (candidate t) - 1) * LENGTH('l) < mbedtls_mpi_bitlen (less_one t) \<and>
     mbedtls_mpi_bitlen (less_one t) \<le> mpi_n (candidate t) * LENGTH('l) \<and> room_for_prime M (candidate t)"

lemma miller_round_fact:
  fixes t :: "'l::len word prime_test"
  assumes cfg: "0 < MPI_WINDOW_SIZE cfg" and K: "muladdc_exact K" and L: "LENGTH('l) = 4 * 2 ^ h" "whole_bytes TYPE('l)"
    and C: "ct_assigns C" "ct_copies C" "ct_compares C" and f: "fills f_rng" and t: "test_ready cfg M t p d"
    and T: "mpi_n T \<le> 4 * mpi_n (candidate t) + 11" and RR: "cached_RR (candidate t) RR"
  shows "\<exists>res r'. miller_round cfg M K have_udbl C t f_rng (T, A, RR) r = Some (res, r') \<and>
    round_spec f_rng (mpi_n (candidate t) * ciL TYPE('l)) (mbedtls_mpi_bitlen (less_one t)) p (twos t) d r = (map_sum id (\<lambda>_. ()) res, r') \<and>
    (\<forall>T' A' RR'. res = Inr (T', A', RR') \<longrightarrow> mpi_n T' \<le> 4 * mpi_n (candidate t) + 11 \<and> cached_RR (candidate t) RR')"
proof -
  let ?X = "candidate t" and ?W = "less_one t" and ?R = "odd_part t" and ?s = "twos t"
  have X: "mpi_s ?X = 1" "mpi_abs ?X = p" "2 < p" "odd p" and W: "mpi_s ?W = 1" "mpi_abs ?W = p - 1"
    and R: "mpi_s ?R = 1" "mpi_abs ?R = d" and s: "p - 1 = 2 ^ ?s * d" "0 < ?s"
    and bits: "mbedtls_mpi_bitlen ?R \<le> MPI_MAX_BITS cfg" "mbedtls_mpi_bitlen ?X \<le> MPI_MAX_BITS cfg"
    and k: "(mpi_n ?X - 1) * LENGTH('l) < mbedtls_mpi_bitlen ?W" "mbedtls_mpi_bitlen ?W \<le> mpi_n ?X * LENGTH('l)"
    and room: "room_for_prime M ?X"
    using t by (simp_all add: test_ready_def)
  note plenty = room_for_prime_parts(1) [OF room] and size = room_for_prime_parts(2) [OF room]
  have n: "0 < mpi_n ?X"
    using X(2,3) by (auto simp: mpi_abs_def)
  have sign: "has_sign ?X" "has_sign ?W" "has_sign ?R" and val: "mpi_val ?X = int p" "mpi_val ?W = int (p - 1)" "mpi_val ?R = int d"
    using X(1,2) W R by (simp_all add: has_sign_def mpi_val_def)
  have ev: "even LENGTH('l)"
    using L(1) by simp
  let ?base = "base_drawn f_rng (mpi_n ?X * ciL TYPE('l)) (mbedtls_mpi_bitlen ?W) (p - 1) 31 r"
  have "plenty M (mpi_n ?X)"
    by (rule plenty) simp
  then obtain res r' where pick: "pick_base M ?X ?W f_rng 31 A r = (res, r')" "?base = (map_sum id mpi_abs res, r')"
      "\<forall>B. res = Inr B \<longrightarrow> mpi_s B = 1 \<and> mpi_n B = mpi_n ?X"
    using pick_base_fact [OF L(2) n _ f W(1) k, of M 31 A r] unfolding W(2) by blast
  show ?thesis
  proof (cases res)
    case (Inl e)
    then show ?thesis
      using pick(1,2) by (simp add: miller_round_def round_spec_def)
  next
    case (Inr B)
    let ?a = "mpi_abs B" and ?x = "mpi_abs B ^ d mod p"
    have B: "mpi_s B = 1" "mpi_n B = mpi_n ?X" "mpi_val B = int ?a"
      using pick(3) Inr by (simp_all add: mpi_val_def)
    have "room_for_exp M B B ?X"
      unfolding room_for_exp_def Let_def by (intro conjI plenty size) (use B(2) in simp_all)
    moreover have "has_sign B" "0 < mpi_val ?X" "odd (mpi_val ?X)" "0 \<le> mpi_val ?R"
      using B(1) X(3,4) val by (simp_all add: has_sign_def)
    ultimately obtain Y P where Y: "mbedtls_mpi_exp_mod cfg M K have_udbl C B Self ?R ?X RR = Some (Inr (Y, P))" "cached_RR ?X P"
        "mpi_val Y = int ?a ^ d mod int p" "has_sign Y" "mpi_n Y \<le> 2 * mpi_n ?X + 5"
      using exp_mod_fact [OF cfg K _ L(1) C, of have_udbl B Self ?R ?X RR M] ev sign bits RR B val by auto
    have y: "mpi_val Y = int ?x"
      by (simp add: Y(3) of_nat_mod)
    have cmp: "mbedtls_mpi_cmp_mpi Z ?W = 0 \<longleftrightarrow> z = p - 1" "mbedtls_mpi_cmp_int Z 1 = 0 \<longleftrightarrow> z = 1" if "has_sign Z" "mpi_val Z = int z" for Z z
      unfolding cmp_mpi_val [OF that(1) sign(2)] cmp_int_val [OF that(1)] one_limb [OF L(2)] that(2) val(2) by (auto simp: sgn_0_0)
    have run: "miller_round cfg M K have_udbl C t f_rng (T, A, RR) r =
        (if ?x = p - 1 \<or> ?x = 1 then Some (Inr (T, Y, P), r')
         else
           step_then (undrawn r' (square_loop M K have_udbl ?X ?W (?s - 1) T Y)) (\<lambda>(T, A) p_rng.
           if mbedtls_mpi_cmp_mpi A ?W \<noteq> 0 \<or> mbedtls_mpi_cmp_int A 1 = 0 then Some (Inl MBEDTLS_ERR_MPI_NOT_ACCEPTABLE, p_rng)
           else Some (Inr (T, A, P), p_rng)))"
      using pick(1) Inr Y(1) cmp [OF Y(4) y] by (simp add: miller_round_def)
    have spec: "round_spec f_rng (mpi_n ?X * ciL TYPE('l)) (mbedtls_mpi_bitlen ?W) p ?s d r =
        (if ?x = 1 \<or> strong_squares p ?s ?x then (Inr (), r') else (Inl MBEDTLS_ERR_MPI_NOT_ACCEPTABLE, r'))"
      using pick(2) Inr by (simp add: round_spec_def strong_probable_prime_def)
    show ?thesis
    proof (cases "?x = p - 1 \<or> ?x = 1")
      case True
      then have "?x = 1 \<or> strong_squares p ?s ?x"
        using s(2) by (cases ?s) auto
      then show ?thesis
        unfolding run spec if_P [OF True] using T Y(2) by simp
    next
      case False
      have "?x < p"
        using X(3) by simp
      then obtain T' A' y where A': "square_loop M K have_udbl ?X ?W (?s - 1) T Y = Some (Inr (T', A'))" "has_sign A'" "mpi_val A' = int y"
          "mpi_n T' \<le> 4 * mpi_n ?X + 11" "y = p - 1 \<longleftrightarrow> strong_squares p (Suc (?s - 1)) ?x"
        using square_loop_fact [OF K ev L(2) room X(1-3) W Y(4) y _ _ Y(5) T] False by blast
      have "y = 1 \<longrightarrow> y \<noteq> p - 1"
        using X(3) by arith
      then show ?thesis
        unfolding run spec if_not_P [OF False] using A' cmp [OF A'(2,3)] False s(2) Y(2) by auto
    qed
  qed
qed

lemma miller_rounds_fact:
  fixes t :: "'l::len word prime_test"
  assumes cfg: "0 < MPI_WINDOW_SIZE cfg" and K: "muladdc_exact K" and L: "LENGTH('l) = 4 * 2 ^ h" "whole_bytes TYPE('l)"
    and C: "ct_assigns C" "ct_copies C" "ct_compares C" and f: "fills f_rng" and t: "test_ready cfg M t p d"
  shows "mpi_n T \<le> 4 * mpi_n (candidate t) + 11 \<Longrightarrow> cached_RR (candidate t) RR \<Longrightarrow>
    miller_rounds cfg M K have_udbl C t f_rng m (T, A, RR) r =
      Some (rounds_spec f_rng (mpi_n (candidate t) * ciL TYPE('l)) (mbedtls_mpi_bitlen (less_one t)) p (twos t) d m r)"
proof (induction m arbitrary: T A RR r)
  case (Suc m)
  obtain res r' where run: "miller_round cfg M K have_udbl C t f_rng (T, A, RR) r = Some (res, r')"
    "round_spec f_rng (mpi_n (candidate t) * ciL TYPE('l)) (mbedtls_mpi_bitlen (less_one t)) p (twos t) d r = (map_sum id (\<lambda>_. ()) res, r')"
    "\<forall>T' A' RR'. res = Inr (T', A', RR') \<longrightarrow> mpi_n T' \<le> 4 * mpi_n (candidate t) + 11 \<and> cached_RR (candidate t) RR'"
    using miller_round_fact [OF cfg K L C f t Suc.prems, of have_udbl A r] by blast
  show ?case
  proof (cases res)
    case (Inr v)
    obtain T' A' RR' where v: "v = (T', A', RR')"
      by (cases v)
    then show ?thesis
      using run Inr Suc.IH by simp
  qed (use run in simp)
qed simp

section \<open>The whole test\<close>

lemma top_limb_bound:
  fixes p :: "'l::len word list"
  assumes "p \<noteq> []" and "last p \<noteq> 0"
  shows "2 ^ (LENGTH('l) * (length p - 1)) \<le> limbs_val p"
proof -
  have "limbs_val p = limbs_val (butlast p) + 2 ^ (LENGTH('l) * (length p - 1)) * unat (last p)"
    using limbs_val_append [of "butlast p" "[last p]"] assms(1) by simp
  moreover have "0 < unat (last p)"
    using assms(2) by (simp add: unat_gt_0)
  ultimately show ?thesis
    by (simp add: trans_le_add2)
qed

lemma miller_rabin_fact:
  fixes X :: "'l::len word mpi"
  assumes cfg: "0 < MPI_WINDOW_SIZE cfg" and K: "muladdc_exact K" and L: "LENGTH('l) = 4 * 2 ^ h" "whole_bytes TYPE('l)"
    and C: "ct_assigns C" "ct_copies C" "ct_compares C" and f: "fills f_rng"
    and X: "mpi_s X = 1" "2 < mpi_abs X" "odd (mpi_abs X)" "last (mpi_p X) \<noteq> 0" "mbedtls_mpi_bitlen X \<le> MPI_MAX_BITS cfg"
    and room: "room_for_prime M X"
  shows "\<exists>k s d. mpi_abs X - 1 < 2 ^ k \<and> 2 ^ (k - 1) \<le> mpi_abs X - 1 \<and> mpi_abs X - 1 = 2 ^ s * d \<and> odd d \<and>
    mpi_miller_rabin cfg M K have_udbl C X m f_rng r = Some (rounds_spec f_rng (mpi_n X * ciL TYPE('l)) k (mpi_abs X) s d m r)"
proof -
  let ?p = "mpi_abs X"
  note plenty = room_for_prime_parts(1) [OF room]
  have sign: "has_sign X" "mpi_val X = int ?p" and n: "mpi_p X \<noteq> []"
    using X(1,2) by (auto simp: has_sign_def mpi_val_def mpi_abs_def)
  have "plenty M (max (mpi_n mbedtls_mpi_init) (max (mpi_n (deref mbedtls_mpi_init (Other X))) (mpi_n (mpi_of_sint (1 :: 'l word)))) + 1)"
    by (rule plenty) simp
  then obtain W where W: "mbedtls_mpi_sub_int M mbedtls_mpi_init (Other X) 1 = Inr W"
    using sub_mpi_succeeds [of M mbedtls_mpi_init "Other X" "Other (mpi_of_sint 1)"] unfolding mbedtls_mpi_sub_int_def by auto
  have w: "mpi_val W = int ?p - 1" "has_sign W" "mpi_n W \<le> mpi_n X + 2"
    using sub_mpi_fact [OF W [unfolded mbedtls_mpi_sub_int_def]] sign one_limb [OF L(2)] n by (auto simp: Suc_le_eq)
  then have absW: "mpi_s W = 1" "mpi_abs W = ?p - 1"
    using X(2) by (auto simp: has_sign_def mpi_val_def)
  have "plenty M (mpi_n W)"
    by (rule plenty) (use w(3) in simp)
  then obtain R where R: "mbedtls_mpi_copy M mbedtls_mpi_init (Other W) = Inr R"
    using copy_succeeds by blast
  have "mpi_n W \<noteq> 0"
    using absW(2) X(2) by (auto simp: mpi_abs_def)
  then have r: "mpi_abs R = ?p - 1" "mpi_s R = 1"
    using copy_fact(1,6) [OF R] absW by simp_all
  let ?s = "mbedtls_mpi_lsb W"
  have "plenty M 1"
    by (rule plenty) simp
  then obtain D where D: "mbedtls_mpi_shift_r M R ?s = Inr D"
    using shift_r_succeeds by blast
  have d: "mpi_abs D = (?p - 1) div 2 ^ ?s" "mpi_s D = 1"
    using shift_r_fact(1) [OF D] shift_r_sign [OF D r(2)] r(1) by simp_all
  have "mpi_abs W \<noteq> 0"
    using absW(2) X(2) by simp
  note lsb = lsb_val [OF this, unfolded absW(2)]
  have split: "?p - 1 = 2 ^ ?s * mpi_abs D" "odd (mpi_abs D)"
    using lsb d(1) by simp_all
  have "even (2 ^ ?s * mpi_abs D)"
    unfolding split(1) [symmetric] using X(3) by simp
  then have "?s \<noteq> 0"
    using split(2) by (intro notI) simp
  have low: "2 ^ ((mpi_n X - 1) * LENGTH('l)) \<le> ?p"
    using top_limb_bound [OF n X(4)] by (simp add: mpi_abs_def mult.commute)
  have "2 ^ e \<noteq> ?p" for e
  proof
    assume e: "2 ^ e = ?p"
    then have "odd ((2 :: nat) ^ e)"
      using X(3) by simp
    then have "e = 0"
      by simp
    then show False
      using e X(2) by simp
  qed
  with low have "2 ^ ((mpi_n X - 1) * LENGTH('l)) < ?p"
    by (rule le_neq_implies_less)
  then have "2 ^ ((mpi_n X - 1) * LENGTH('l)) \<le> ?p - 1"
    by linarith
  then have "(mpi_n X - 1) * LENGTH('l) < mbedtls_mpi_bitlen W"
    using bitlen_le_iff [of W "(mpi_n X - 1) * LENGTH('l)"] absW(2) by linarith
  moreover have "mbedtls_mpi_bitlen W \<le> mpi_n X * LENGTH('l)"
    unfolding bitlen_le_iff absW(2) using limbs_val_less [of "mpi_p X"] by (simp add: mpi_abs_def mult.commute)
  moreover have "mpi_abs D < 2 ^ mbedtls_mpi_bitlen X"
    using bitlen_bounds(1) [of X] d(1) div_le_dividend [of "?p - 1" "2 ^ ?s"] by linarith
  then have "mbedtls_mpi_bitlen D \<le> MPI_MAX_BITS cfg"
    using X(5) unfolding bitlen_le_iff [symmetric] by linarith
  ultimately have "test_ready cfg M \<lparr>candidate = X, less_one = W, odd_part = D, twos = ?s\<rparr> ?p (mpi_abs D)"
    using X absW d(2) split(1) \<open>?s \<noteq> 0\<close> room by (simp add: test_ready_def)
  note fact = miller_rounds_fact [OF cfg K L C f this, of mbedtls_mpi_init "Some mbedtls_mpi_init" have_udbl m mbedtls_mpi_init r]
  have "mpi_miller_rabin cfg M K have_udbl C X m f_rng r =
      Some (rounds_spec f_rng (mpi_n X * ciL TYPE('l)) (mbedtls_mpi_bitlen W) ?p ?s (mpi_abs D) m r)"
    using fact W R D by (simp add: mpi_miller_rabin_def Let_def cached_RR_def)
  moreover have "?p - 1 < 2 ^ mbedtls_mpi_bitlen W" "2 ^ (mbedtls_mpi_bitlen W - 1) \<le> ?p - 1"
    using bitlen_bounds(1,2) [of W] absW(2) X(2) by auto
  ultimately show ?thesis
    using split by blast
qed

lemma rounds_of_prime:
  assumes "prime_number p" and "p - 1 = 2 ^ s * d"
  shows "rounds_spec f_rng n k p s d m r = (res, r') \<Longrightarrow>
    res = Inr () \<or> (\<exists>e r''. res = Inl e \<and> base_drawn f_rng n k (p - 1) 31 r'' = (Inl e, r'))"
proof (induction m arbitrary: r)
  case (Suc m)
  show ?case
  proof (cases "base_drawn f_rng n k (p - 1) 31 r")
    case (Pair b r1)
    show ?thesis
    proof (cases b)
      case (Inl e)
      then show ?thesis
        using Suc.prems Pair by (auto simp: round_spec_def)
    next
      case (Inr a)
      then have "1 < a" "a < p - 1"
        using base_drawn_bounds [of f_rng n k "p - 1" 31 r a r1] Pair by simp_all
      then have "strong_probable_prime p s d a"
        by (intro prime_strong [OF assms]) simp_all
      then show ?thesis
        using Suc Pair Inr by (simp add: round_spec_def)
    qed
  qed
qed simp

text \<open>The bases that the generator supplies for \<open>m\<close> rounds.\<close>

primrec drawn_bases :: "'r rng \<Rightarrow> nat \<Rightarrow> nat \<Rightarrow> nat \<Rightarrow> nat \<Rightarrow> 'r \<Rightarrow> (mpi_error + nat list) \<times> 'r" where
  "drawn_bases f_rng n k w 0 r = (Inr [], r)"
| "drawn_bases f_rng n k w (Suc m) r =
     draw_then (base_drawn f_rng n k w 31 r) (\<lambda>a r.
     draw_then (drawn_bases f_rng n k w m r) (\<lambda>as r. (Inr (a # as), r)))"

text \<open>The rounds succeed exactly when a base can be drawn for each of them and the number passes the strong test for every one of these bases.\<close>

lemma rounds_accepted:
  "rounds_spec f_rng n k p s d m r = (Inr (), r') \<longleftrightarrow>
   (\<exists>bases. drawn_bases f_rng n k (p - 1) m r = (Inr bases, r') \<and> (\<forall>a\<in>set bases. strong_probable_prime p s d a))"
proof (induction m arbitrary: r)
  case (Suc m)
  obtain b r1 where b: "base_drawn f_rng n k (p - 1) 31 r = (b, r1)"
    by (cases "base_drawn f_rng n k (p - 1) 31 r")
  obtain bs r2 where bs: "drawn_bases f_rng n k (p - 1) m r1 = (bs, r2)"
    by (cases "drawn_bases f_rng n k (p - 1) m r1")
  show ?case
    using Suc [of r1] b bs by (cases b; cases bs) (auto simp: round_spec_def)
qed simp

lemma drawn_bases_bounds:
  "drawn_bases f_rng n k w m r = (Inr bases, r') \<Longrightarrow> length bases = m \<and> (\<forall>a\<in>set bases. 1 < a \<and> a < w)"
proof (induction m arbitrary: r bases)
  case (Suc m)
  obtain b r1 where b: "base_drawn f_rng n k w 31 r = (b, r1)"
    by (cases "base_drawn f_rng n k w 31 r")
  obtain bs r2 where bs: "drawn_bases f_rng n k w m r1 = (bs, r2)"
    by (cases "drawn_bases f_rng n k w m r1")
  show ?case
    using Suc b bs base_drawn_bounds [of f_rng n k w 31 r] by (cases b; cases bs) auto
qed simp

lemma small_composite:
  assumes "2 < v" "odd v" "v \<le> 997" "\<not> prime_number (nat v)"
  shows "small_factor v"
proof (rule ccontr)
  assume no: "\<not> small_factor v"
  have "997 \<in> set odd_primes"
    by code_simp
  then have "\<exists>p\<in>set odd_primes. v \<le> p"
    using assms(3) by blast
  then obtain pre p post where split: "odd_primes = pre @ p # post" "v \<le> p" "\<forall>q\<in>set pre. \<not> v \<le> q"
    using split_list_first_prop [of odd_primes "\<lambda>p. v \<le> p"] by blast
  have members: "q \<in> set odd_primes" if "q \<in> set pre \<or> q = p" for q
    using that unfolding split(1) by auto
  then have "\<forall>q\<in>set pre. q < v \<and> v mod q \<noteq> 0"
    using no split(3) by (auto simp: small_factor_def dvd_eq_mod_eq_0)
  then have "v = p"
    by (rule next_prime [OF split(1) _ assms(1,2) split(2)])
  then show False
    using odd_primes_prime members assms(4) by blast
qed

lemma pick_base_undefined:
  fixes X W A :: "'l::len word mpi"
  assumes u: "whole_bytes TYPE('l)" and n: "0 < mpi_n X" and M: "plenty M (mpi_n X)" and f: "fills f_rng"
    and drawn: "f_rng r (mpi_n X * ciL TYPE('l)) = (Inr bs, r')" "2 ^ mbedtls_mpi_bitlen W \<le> drawn_val bs"
    and short: "mbedtls_mpi_bitlen W \<le> (mpi_n X - 1) * LENGTH('l)"
  shows "pick_base M X W f_rng c A r = (Inl Undefined_Shift, r')"
proof -
  obtain Y where Y: "mbedtls_mpi_fill_random M A (mpi_n X * ciL TYPE('l)) f_rng r = (Inr Y, r')" "mpi_n Y = mpi_n X" "mpi_abs Y = drawn_val bs"
    using fill_random_fact [OF u n M f, where r = r and A = A] drawn(1) by auto
  have "\<not> mbedtls_mpi_bitlen Y \<le> mbedtls_mpi_bitlen W"
    unfolding bitlen_le_iff Y(3) using drawn(2) by simp
  then have "limit_base Y W = Inl Undefined_Shift"
    using short Y(2) by (simp add: limit_base_def Let_def biL_def)
  then show ?thesis
    using Y(1) by (cases c) simp_all
qed

lemma is_prime_cases:
  fixes X :: "'l::len word mpi"
  assumes L: "32 \<le> LENGTH('l)" "LENGTH('l) = 4 * 2 ^ h" "whole_bytes TYPE('l)"
  shows "mbedtls_mpi_is_prime_ext cfg M K have_udbl C X rounds f_rng r =
    (if mpi_abs X \<le> 997 then Some (if prime_number (mpi_abs X) then Inr () else Inl MBEDTLS_ERR_MPI_NOT_ACCEPTABLE, r)
     else if even (mpi_abs X) \<or> small_factor (int (mpi_abs X)) then Some (Inl MBEDTLS_ERR_MPI_NOT_ACCEPTABLE, r)
     else mpi_miller_rabin cfg M K have_udbl C (\<lparr>mpi_s = 1, mpi_p = mpi_p X\<rparr>) (size_of_int M rounds) f_rng r)"
proof -
  let ?X = "\<lparr>mpi_s = 1, mpi_p = mpi_p X\<rparr> :: 'l word mpi" and ?p = "mpi_abs X"
  have X: "has_sign ?X" "mpi_val ?X = int ?p"
    by (simp_all add: has_sign_def mpi_val_def mpi_abs_def)
  have two: "sint (2 :: 'l word) = 2"
    using small_sint [OF L(3), of 2] by simp
  have cmp: "mbedtls_mpi_cmp_int ?X 0 = 0 \<longleftrightarrow> ?p = 0" "mbedtls_mpi_cmp_int ?X 1 = 0 \<longleftrightarrow> ?p = 1" "mbedtls_mpi_cmp_int ?X 2 = 0 \<longleftrightarrow> ?p = 2"
    unfolding cmp_int_val [OF X(1)] X(2) one_limb [OF L(3)] two by (auto simp: sgn_0_0)
  have two_prime: "prime_number 2"
    by (rule prime_if_no_small_divisor) auto
  have no: "\<not> prime_number 0" "\<not> prime_number 1"
    by (simp_all add: prime_number_def)
  show ?thesis
  proof (cases "2 < ?p")
    case False
    then consider "?p = 0" | "?p = 1" | "?p = 2"
      by linarith
    then show ?thesis
      using cmp two_prime no by cases (simp_all add: mbedtls_mpi_is_prime_ext_def Let_def)
  next
    case True
    have ev: "even LENGTH('l)"
      using L(2) by simp
    have "mpi_s ?X = 1" "2 < mpi_val ?X"
      using True X(2) by simp_all
    note check = check_small_factors_fact [OF L(1) ev this, unfolded X(2) nat_int]
    have small: "even ?p \<or> small_factor (int ?p)" if "?p \<le> 997" "\<not> prime_number ?p"
      using small_composite [of "int ?p"] that True by auto
    show ?thesis
      using True cmp check small by (auto simp: mbedtls_mpi_is_prime_ext_def Let_def)
  qed
qed

lemma small_factor_not_prime:
  assumes "997 < p" and "even p \<or> small_factor (int p)"
  shows "\<not> prime_number p"
proof -
  have "\<exists>d. d dvd p \<and> d \<noteq> 1 \<and> d \<noteq> p"
  proof (cases "even p")
    case True
    then show ?thesis
      using assms(1) by (intro exI [of _ 2]) auto
  next
    case False
    then obtain q where q: "q \<in> set odd_primes" "q dvd int p"
      using assms(2) by (auto simp: small_factor_def)
    then have "2 < q" "q < 998"
      using odd_primes_small by (auto simp: list_all_iff)
    then have "nat q dvd p" "nat q \<noteq> 1" "nat q \<noteq> p"
      using q(2) assms(1) by (auto simp: nat_dvd_iff)
    then show ?thesis
      by blast
  qed
  then show ?thesis
    by (auto simp: prime_number_def)
qed

text \<open>
  The specification of the test of a number \<open>p\<close> with \<open>m\<close> rounds, drawing \<open>bytes\<close> bytes for a base, from the state \<open>r\<close> of the generator: the result \<open>res\<close> and the state \<open>r'\<close> it leaves.
\<close>

definition is_prime_outcome :: "'r rng \<Rightarrow> nat \<Rightarrow> nat \<Rightarrow> nat \<Rightarrow> 'r \<Rightarrow> mpi_error + unit \<Rightarrow> 'r \<Rightarrow> bool" where
  "is_prime_outcome f_rng bytes m p r res r' \<longleftrightarrow>
    (if p \<le> 997 then r' = r \<and> res = (if prime_number p then Inr () else Inl MBEDTLS_ERR_MPI_NOT_ACCEPTABLE)
     else if even p \<or> small_factor (int p) then r' = r \<and> res = Inl MBEDTLS_ERR_MPI_NOT_ACCEPTABLE \<and> \<not> prime_number p
     else \<exists>k s d. p - 1 < 2 ^ k \<and> 2 ^ (k - 1) \<le> p - 1 \<and> p - 1 = 2 ^ s * d \<and> odd d \<and>
       (res, r') = rounds_spec f_rng bytes k p s d m r \<and>
       (res = Inr () \<longleftrightarrow> (\<exists>bases. drawn_bases f_rng bytes k (p - 1) m r = (Inr bases, r') \<and> length bases = m \<and>
          (\<forall>a\<in>set bases. 1 < a \<and> a < p - 1 \<and> strong_probable_prime p s d a))) \<and>
       (prime_number p \<longrightarrow> res = Inr () \<or> (\<exists>e r''. res = Inl e \<and> base_drawn f_rng bytes k (p - 1) 31 r'' = (Inl e, r'))))"

text \<open>
  What an accepted number went through: it is a prime up to 997, or it has no prime factor that small and, for bases that the generator supplied last
  (\<open>r'\<close> is its final state), one per round, it passed the strong test every time.
\<close>

definition tested_prime :: "'r rng \<Rightarrow> nat \<Rightarrow> nat \<Rightarrow> 'r \<Rightarrow> nat \<Rightarrow> bool" where
  "tested_prime f_rng bytes rounds r' p \<longleftrightarrow>
     prime_number p \<and> p \<le> 997 \<or>
     997 < p \<and> \<not> small_factor (int p) \<and> (\<exists>r k s d bases. p - 1 < 2 ^ k \<and> 2 ^ (k - 1) \<le> p - 1 \<and> p - 1 = 2 ^ s * d \<and> odd d \<and>
       drawn_bases f_rng bytes k (p - 1) rounds r = (Inr bases, r') \<and> length bases = rounds \<and>
       (\<forall>a\<in>set bases. 1 < a \<and> a < p - 1 \<and> strong_probable_prime p s d a))"

lemma accepted_is_tested:
  assumes F: "is_prime_outcome f_rng bytes m p r (Inr ()) r'"
  shows "tested_prime f_rng bytes m r' p"
proof (cases "p \<le> 997")
  case True
  then show ?thesis
    using F by (simp add: is_prime_outcome_def tested_prime_def split: if_splits)
next
  case False
  have no: "\<not> (even p \<or> small_factor (int p))"
  proof
    assume factor: "even p \<or> small_factor (int p)"
    have "(Inr () :: mpi_error + unit) = Inl MBEDTLS_ERR_MPI_NOT_ACCEPTABLE"
      using F unfolding is_prime_outcome_def if_not_P [OF False] if_P [OF factor] by blast
    then show False
      by simp
  qed
  obtain k s d bases where "p - 1 < 2 ^ k" "2 ^ (k - 1) \<le> p - 1" "p - 1 = 2 ^ s * d" "odd d"
    "drawn_bases f_rng bytes k (p - 1) m r = (Inr bases, r')" "length bases = m"
    "\<forall>a\<in>set bases. 1 < a \<and> a < p - 1 \<and> strong_probable_prime p s d a"
    using F unfolding is_prime_outcome_def if_not_P [OF False] if_not_P [OF no] by blast
  moreover have "997 < p"
    using False by simp
  ultimately show ?thesis
    unfolding tested_prime_def using no by blast
qed

lemma is_prime_ext_fact:
  fixes X :: "'l::len word mpi" and rounds :: int
  assumes "0 < MPI_WINDOW_SIZE cfg" and "muladdc_exact K" and "32 \<le> LENGTH('l)" and "LENGTH('l) = 4 * 2 ^ h" and "whole_bytes TYPE('l)"
    and "ct_assigns C" and "ct_copies C" and "ct_compares C" and "fills f_rng" and "last (mpi_p X) \<noteq> 0"
    and "mbedtls_mpi_bitlen X \<le> MPI_MAX_BITS cfg" and "room_for_prime M X"
  shows "\<exists>res r'. mbedtls_mpi_is_prime_ext cfg M K have_udbl C X rounds f_rng r = Some (res, r') \<and>
    is_prime_outcome f_rng (mpi_n X * ciL TYPE('l)) (size_of_int M rounds) (mpi_abs X) r res r'"
proof (cases "mpi_abs X \<le> 997 \<or> even (mpi_abs X) \<or> small_factor (int (mpi_abs X))")
  case True
  then show ?thesis
    using is_prime_cases [OF assms(3-5), of cfg M K have_udbl C X rounds f_rng r] small_factor_not_prime [of "mpi_abs X"]
    by (auto simp: is_prime_outcome_def)
next
  case False
  define p where "p = mpi_abs X"
  define bytes where "bytes = mpi_n X * ciL TYPE('l)"
  define m where "m = size_of_int M rounds"
  let ?X = "\<lparr>mpi_s = 1, mpi_p = mpi_p X\<rparr> :: 'l word mpi"
  have X: "mpi_s ?X = 1" "2 < mpi_abs ?X" "odd (mpi_abs ?X)" "last (mpi_p ?X) \<noteq> 0" "mbedtls_mpi_bitlen ?X \<le> MPI_MAX_BITS cfg" "room_for_prime M ?X"
    and abs: "mpi_abs ?X = p" "mpi_n ?X = mpi_n X"
    using False assms(10-12) by (simp_all add: p_def mpi_abs_def bitlen_le_iff room_for_prime_def)
  from miller_rabin_fact [OF assms(1,2,4-9) X, of have_udbl m r]
  obtain k s d where k: "p - 1 < 2 ^ k" "2 ^ (k - 1) \<le> p - 1" "p - 1 = 2 ^ s * d" "odd d"
    "mpi_miller_rabin cfg M K have_udbl C ?X m f_rng r = Some (rounds_spec f_rng bytes k p s d m r)"
    unfolding abs bytes_def by blast
  obtain res r' where res: "rounds_spec f_rng bytes k p s d m r = (res, r')"
    by (cases "rounds_spec f_rng bytes k p s d m r")
  have run: "mbedtls_mpi_is_prime_ext cfg M K have_udbl C X rounds f_rng r = Some (res, r')"
    using is_prime_cases [OF assms(3-5), of cfg M K have_udbl C X rounds f_rng r] False k(5) res by (simp add: p_def m_def)
  have prime: "prime_number p \<longrightarrow> res = Inr () \<or> (\<exists>e r''. res = Inl e \<and> base_drawn f_rng bytes k (p - 1) 31 r'' = (Inl e, r'))"
    using rounds_of_prime [OF _ k(3) res] by blast
  have accept: "res = Inr () \<longleftrightarrow> (\<exists>bases. drawn_bases f_rng bytes k (p - 1) m r = (Inr bases, r') \<and> length bases = m \<and>
        (\<forall>a\<in>set bases. 1 < a \<and> a < p - 1 \<and> strong_probable_prime p s d a))"
    using rounds_accepted [of f_rng bytes k p s d m r r'] drawn_bases_bounds [of f_rng bytes k "p - 1" m r] res by (metis Pair_inject)
  have no: "\<not> p \<le> 997" "\<not> (even p \<or> small_factor (int p))"
    using False by (simp_all add: p_def)
  have "is_prime_outcome f_rng bytes m p r res r'"
    unfolding is_prime_outcome_def if_not_P [OF no(1)] if_not_P [OF no(2)] using accept prime res [symmetric] k(1-4) by blast
  then show ?thesis
    using run unfolding p_def bytes_def m_def by blast
qed

text \<open>
  C35: The primality test refines its specification on numbers.  \<open>mbedtls_mpi_is_prime_ext\<close> always returns; it tests the absolute value \<open>p\<close>.  A number up to 997 is
  accepted exactly when it is prime, and larger numbers with a prime factor up to 997 are rejected; nothing is drawn for them.  Any other number runs as many rounds as
  requested: it is accepted exactly when the generator supplies a base for each round, with \<open>1 < a < p - 1\<close>, and \<open>p\<close> passes the strong test for every base that was drawn.
  A prime is rejected only when the generator reports an error or when 31 draws in a row give no base.  The highest limb of the number must not be 0.
\<close>

theorem is_prime_ext_sound:
  fixes X :: "'l::len word mpi" and rounds :: int
  assumes "0 < MPI_WINDOW_SIZE cfg" and "muladdc_exact K" and "32 \<le> LENGTH('l)" and "LENGTH('l) = 4 * 2 ^ h" and "whole_bytes TYPE('l)"
    and "ct_assigns C" and "ct_copies C" and "ct_compares C" and "fills f_rng" and "last (mpi_p X) \<noteq> 0"
    and "mbedtls_mpi_bitlen X \<le> MPI_MAX_BITS cfg" and "room_for_prime M X"
  shows "\<exists>res r'. mbedtls_mpi_is_prime_ext cfg M K have_udbl C X rounds f_rng r = Some (res, r') \<and>
    is_prime_outcome f_rng (mpi_n X * ciL TYPE('l)) (size_of_int M rounds) (mpi_abs X) r res r'"
  by (rule is_prime_ext_fact [OF assms])

text \<open>A generator that always draws the number 5.\<close>

definition fives :: "unit rng" where
  "fives r n = (Inr (replicate (n - 1) 0 @ replicate (min n 1) 5), r)"

lemma fives_fill: "fills fives"
  by (auto simp: fills_def fives_def)

theorem is_prime_ext_sound_witness:
  "mbedtls_mpi_is_prime_ext \<lparr>MPI_WINDOW_SIZE = 6, MPI_MAX_BITS = 8192\<rparr> demo_platform wide_muladdc False plain_ct
     \<lparr>mpi_s = - 1, mpi_p = [1009 :: 64 word]\<rparr> 3 fives () = Some (Inr (), ())"
proof -
  let ?X = "\<lparr>mpi_s = - 1, mpi_p = [1009 :: 64 word]\<rparr>" and ?cfg = "\<lparr>MPI_WINDOW_SIZE = 6, MPI_MAX_BITS = 8192\<rparr>"
  have X: "mpi_abs ?X = 1009" "last (mpi_p ?X) \<noteq> 0"
    by (simp_all add: mpi_abs_def)
  have w: "whole_bytes TYPE(64)" "32 \<le> LENGTH(64)" "LENGTH(64) = 4 * 2 ^ 4"
    by (simp_all add: whole_bytes_def ciL_def)
  have cfg: "0 < MPI_WINDOW_SIZE ?cfg" "mbedtls_mpi_bitlen ?X \<le> MPI_MAX_BITS ?cfg"
    by (simp, unfold bitlen_le_iff X(1), simp)
  have room: "room_for_prime demo_platform ?X"
    by (simp add: room_for_prime_def demo_plenty) (simp add: demo_platform_def)
  have prime: "prime_number 1009"
  proof (rule prime_if_no_small_divisor)
    have "list_all (\<lambda>d. (1009 :: int) mod d \<noteq> 0) [2..31]"
      by code_simp
    then have check: "\<forall>d\<in>{2..31}. (1009 :: int) mod d \<noteq> 0"
      unfolding list_all_iff set_upto .
    show "\<forall>d. 1 < d \<longrightarrow> d < 32 \<longrightarrow> d < 1009 \<longrightarrow> \<not> d dvd (1009 :: nat)"
    proof (intro allI impI notI)
      fix d :: nat
      assume d: "1 < d" "d < 32" "d dvd 1009"
      have "int d \<in> {2..31}"
        using d(1,2) by simp
      from bspec [OF check this] have "\<not> int d dvd int 1009"
        by (simp add: dvd_eq_mod_eq_0)
      then show False
        using d(3) by (simp only: of_nat_dvd_iff not_True_eq_False)
    qed
  qed simp_all
  have draws: "base_drawn fives (mpi_n ?X * ciL TYPE(64)) k (1009 - 1) 31 r = (Inr 5, r)" if "1009 - 1 < (2 :: nat) ^ k" for k r
  proof -
    have "(5 :: nat) < 2 ^ k"
      using that by linarith
    then have "base_drawn fives 8 k 1008 (Suc 30) r = (Inr 5, r)"
      unfolding base_drawn.simps by (simp add: fives_def)
    then show ?thesis
      by (simp add: ciL_def)
  qed
  obtain res where run: "mbedtls_mpi_is_prime_ext ?cfg demo_platform wide_muladdc False plain_ct ?X 3 fives () = Some (res, ())"
    and out: "is_prime_outcome fives (mpi_n ?X * ciL TYPE(64)) (size_of_int demo_platform 3) 1009 () res ()"
    using is_prime_ext_sound [OF cfg(1) wide_muladdc_exact w(2,3,1) plain_ct_ok fives_fill X(2) cfg(2) room, of False 3 "()"]
    unfolding X(1) by auto
  have big: "\<not> (1009 :: nat) \<le> 997"
    by simp
  have "res = Inr ()"
  proof (cases "even (1009 :: nat) \<or> small_factor (int 1009)")
    case True
    then show ?thesis
      using out prime unfolding is_prime_outcome_def if_not_P [OF big] if_P [OF True] by blast
  next
    case False
    obtain k where "1009 - 1 < (2 :: nat) ^ k" "res = Inr () \<or> (\<exists>e r''. res = Inl e \<and> base_drawn fives (mpi_n ?X * ciL TYPE(64)) k (1009 - 1) 31 r'' = (Inl e, ()))"
      using out prime unfolding is_prime_outcome_def if_not_P [OF big] if_not_P [OF False] by blast
    then show ?thesis
      using draws by auto
  qed
  then show ?thesis
    using run by simp
qed

end
