(* ===== verification/Bignum_Gen.thy ===== *)
theory Bignum_Gen
  imports Bignum_Prime
begin

text \<open>
  The generation of primes of \<open>bignum.c\<close>: \<open>mbedtls_mpi_gen_prime\<close>, with the branch for ordinary primes and the one for safe primes
  (the Diffie-Hellman flag).  Both loops of the C function have no bound, so \<open>iterate\<close> is a partial function whose value \<open>None\<close> is a run that does not end,
  and \<open>iterate_leaves\<close> says that a run ends exactly when one of its iterations leaves the loop.  The lemmas bound the candidates (\<open>candidate_bounds\<close>),
  carry the invariant of the inner loop (\<open>safe_pair\<close>), and the theorems state what an accepted number satisfies.  The two flags are booleans:
  their bit values are in a header that is not part of the repository.
\<close>

section \<open>Loops without a bound\<close>

text \<open>An iteration of a loop goes on with a new state (\<open>Inl\<close>) or leaves the loop with a result (\<open>Inr\<close>).\<close>

partial_function (option) iterate :: "('s \<Rightarrow> ('s + 'a) option) \<Rightarrow> 's \<Rightarrow> 'a option" where
  [code]: "iterate body s = Option.bind (body s) (\<lambda>x. case x of Inl s \<Rightarrow> iterate body s | Inr a \<Rightarrow> Some a)"

inductive goes_on :: "('s \<Rightarrow> ('s + 'a) option) \<Rightarrow> 's \<Rightarrow> 's \<Rightarrow> bool" for body where
  stop: "goes_on body s s"
| step: "body s = Some (Inl t) \<Longrightarrow> goes_on body t u \<Longrightarrow> goes_on body s u"

lemma goes_on_iterate: "goes_on body s t \<Longrightarrow> iterate body s = iterate body t"
  by (induction rule: goes_on.induct) (simp_all add: iterate.simps [of body])

lemma goes_on_keeps: "goes_on body s t \<Longrightarrow> P s \<Longrightarrow> (\<And>u v. P u \<Longrightarrow> body u = Some (Inl v) \<Longrightarrow> P v) \<Longrightarrow> P t"
  by (induction rule: goes_on.induct) auto

text \<open>The loop returns exactly when an iteration leaves it, and with the result of that iteration.\<close>

lemma iterate_leaves: "iterate body s = Some a \<longleftrightarrow> (\<exists>t. goes_on body s t \<and> body t = Some (Inr a))"
proof
  assume "iterate body s = Some a"
  then show "\<exists>t. goes_on body s t \<and> body t = Some (Inr a)"
  proof (rule iterate.raw_induct [of "\<lambda>body s a. \<exists>t. goes_on body s t \<and> body t = Some (Inr a)", rotated])
    fix f :: "('s \<Rightarrow> ('s + 'a) option) \<Rightarrow> 's \<Rightarrow> 'a option" and body s a
    assume IH: "\<And>body s a. f body s = Some a \<Longrightarrow> \<exists>t. goes_on body s t \<and> body t = Some (Inr a)"
      and run: "Option.bind (body s) (\<lambda>x. case x of Inl s \<Rightarrow> f body s | Inr a \<Rightarrow> Some a) = Some a"
    then obtain x where x: "body s = Some x" "(case x of Inl s \<Rightarrow> f body s | Inr a \<Rightarrow> Some a) = Some a"
      by (auto simp: bind_eq_Some_conv)
    show "\<exists>t. goes_on body s t \<and> body t = Some (Inr a)"
    proof (cases x)
      case (Inl t)
      then have "f body t = Some a"
        using x by simp
      from IH [OF this] show ?thesis
        using x(1) Inl by (auto intro: goes_on.step)
    next
      case (Inr b)
      then show ?thesis
        using x by (auto intro: goes_on.stop)
    qed
  qed
next
  assume "\<exists>t. goes_on body s t \<and> body t = Some (Inr a)"
  then obtain t where t: "goes_on body s t" "body t = Some (Inr a)"
    by blast
  show "iterate body s = Some a"
    unfolding goes_on_iterate [OF t(1)] by (subst iterate.simps) (simp add: t(2))
qed

section \<open>The code\<close>

definition CEIL_MAXUINT_DIV_SQRT2 :: "'l::len itself \<Rightarrow> 'l word" where
  "CEIL_MAXUINT_DIV_SQRT2 L = (if LENGTH('l) = 64 then 0xb504f333f9de6485 else 0xb504f334)"

definition gen_rounds :: "bool \<Rightarrow> nat \<Rightarrow> int" where
  "gen_rounds low_err nbits =
     (if \<not> low_err then
        if 1300 \<le> nbits then 2 else if 850 \<le> nbits then 3 else if 650 \<le> nbits then 4 else if 350 \<le> nbits then 8
        else if 250 \<le> nbits then 12 else if 150 \<le> nbits then 18 else 27
      else
        if 1450 \<le> nbits then 4 else if 1150 \<le> nbits then 5 else if 1000 \<le> nbits then 6 else if 850 \<le> nbits then 7
        else if 750 \<le> nbits then 8 else if 500 \<le> nbits then 13 else if 250 \<le> nbits then 28
        else if 150 \<le> nbits then 40 else 51)"

text \<open>
  The Diffie-Hellman branch.  Both numbers must pass both tests; the value 1 of a number that trial division already recognises as prime is
  not 0 and ends the conjunction as well.
\<close>

definition safe_check ::
  "exp_config \<Rightarrow> platform \<Rightarrow> 'l::len muladdc \<Rightarrow> bool \<Rightarrow> 'l word ct_functions \<Rightarrow> int \<Rightarrow> 'r rng \<Rightarrow> 'l word mpi \<Rightarrow> 'l word mpi \<Rightarrow> 'r \<Rightarrow>
   ((mpi_error + int) \<times> 'r) option" where
  "safe_check cfg M K have_udbl C rounds f_rng X Y p_rng =
     step_then (undrawn p_rng (Some (mpi_check_small_factors X))) (\<lambda>ret p_rng. if ret \<noteq> 0 then Some (Inr ret, p_rng) else
     step_then (undrawn p_rng (Some (mpi_check_small_factors Y))) (\<lambda>ret p_rng. if ret \<noteq> 0 then Some (Inr ret, p_rng) else
     step_then (mpi_miller_rabin cfg M K have_udbl C X (size_of_int M rounds) f_rng p_rng) (\<lambda>_ p_rng.
     step_then (mpi_miller_rabin cfg M K have_udbl C Y (size_of_int M rounds) f_rng p_rng) (\<lambda>_ p_rng.
     Some (Inr 0, p_rng)))))"

text \<open>The result of the loops is the returned value, with \<open>X\<close> where no error is reported.\<close>

type_synonym ('limb, 'r) generated = "(mpi_error + int \<times> 'limb mpi) \<times> 'r"

definition safe_iteration ::
  "exp_config \<Rightarrow> platform \<Rightarrow> 'l::len muladdc \<Rightarrow> bool \<Rightarrow> 'l word ct_functions \<Rightarrow> int \<Rightarrow> 'r rng \<Rightarrow> 'l word mpi \<times> 'l word mpi \<times> 'r \<Rightarrow>
   ('l word mpi \<times> 'l word mpi \<times> 'r + ('l word, 'r) generated) option" where
  "safe_iteration cfg M K have_udbl C rounds f_rng = (\<lambda>(X, Y, p_rng).
     case safe_check cfg M K have_udbl C rounds f_rng X Y p_rng of
       None \<Rightarrow> None
     | Some (Inr ret, p_rng) \<Rightarrow> Some (Inr (Inr (ret, X), p_rng))
     | Some (Inl e, p_rng) \<Rightarrow>
         if e \<noteq> MBEDTLS_ERR_MPI_NOT_ACCEPTABLE then Some (Inr (Inl e, p_rng))
         else
           case and_then (mbedtls_mpi_add_int M X Self 12) (\<lambda>X. and_then (mbedtls_mpi_add_int M Y Self 6) (\<lambda>Y. Inr (X, Y))) of
             Inl e \<Rightarrow> Some (Inr (Inl e, p_rng))
           | Inr (X, Y) \<Rightarrow> Some (Inl (X, Y, p_rng)))"

definition set_low_bits :: "'l::len word \<Rightarrow> 'l word mpi \<Rightarrow> 'l word mpi" where
  "set_low_bits b X = X\<lparr>mpi_p := (mpi_p X)[0 := mpi_p X ! 0 OR b]\<rparr>"

definition safe_start :: "platform \<Rightarrow> 'l::len word mpi \<Rightarrow> mpi_error + 'l word mpi \<times> 'l word mpi" where
  "safe_start M X =
     (let X = set_low_bits 2 X in
      and_then (mbedtls_mpi_mod_int X 3) (\<lambda>r.
      and_then (if r = 0 then mbedtls_mpi_add_int M X Self 8 else if r = 1 then mbedtls_mpi_add_int M X Self 4 else Inr X) (\<lambda>X.
      and_then (mbedtls_mpi_copy M mbedtls_mpi_init (Other X)) (\<lambda>Y.
      and_then (mbedtls_mpi_shift_r M Y 1) (\<lambda>Y.
      Inr (X, Y))))))"

definition gen_iteration ::
  "exp_config \<Rightarrow> platform \<Rightarrow> 'l::len muladdc \<Rightarrow> bool \<Rightarrow> 'l word ct_functions \<Rightarrow> nat \<Rightarrow> bool \<Rightarrow> int \<Rightarrow> 'r rng \<Rightarrow> 'l word mpi \<times> 'r \<Rightarrow>
   ('l word mpi \<times> 'r + ('l word, 'r) generated) option" where
  "gen_iteration cfg M K have_udbl C nbits flag_dh rounds f_rng = (\<lambda>(X, p_rng).
     let n = BITS_TO_LIMBS TYPE('l) nbits in
     case mbedtls_mpi_fill_random M X (n * ciL TYPE('l)) f_rng p_rng of
       (Inl e, p_rng) \<Rightarrow> Some (Inr (Inl e, p_rng))
     | (Inr X, p_rng) \<Rightarrow>
         if mpi_p X ! (n - 1) < CEIL_MAXUINT_DIV_SQRT2 TYPE('l) then Some (Inl (X, p_rng))
         else
           let k = n * biL TYPE('l) in
           case (if nbits < k then mbedtls_mpi_shift_r M X (k - nbits) else Inr X) of
             Inl e \<Rightarrow> Some (Inr (Inl e, p_rng))
           | Inr X \<Rightarrow>
               let X = set_low_bits 1 X in
               if \<not> flag_dh then
                 case mbedtls_mpi_is_prime_ext cfg M K have_udbl C X rounds f_rng p_rng of
                   None \<Rightarrow> None
                 | Some (Inr _, p_rng) \<Rightarrow> Some (Inr (Inr (0, X), p_rng))
                 | Some (Inl e, p_rng) \<Rightarrow>
                     if e \<noteq> MBEDTLS_ERR_MPI_NOT_ACCEPTABLE then Some (Inr (Inl e, p_rng)) else Some (Inl (X, p_rng))
               else
                 case safe_start M X of
                   Inl e \<Rightarrow> Some (Inr (Inl e, p_rng))
                 | Inr (X, Y) \<Rightarrow> map_option Inr (iterate (safe_iteration cfg M K have_udbl C rounds f_rng) (X, Y, p_rng)))"

definition mbedtls_mpi_gen_prime ::
  "exp_config \<Rightarrow> platform \<Rightarrow> 'l::len muladdc \<Rightarrow> bool \<Rightarrow> 'l word ct_functions \<Rightarrow> 'l word mpi \<Rightarrow> nat \<Rightarrow> bool \<Rightarrow> bool \<Rightarrow> 'r rng \<Rightarrow> 'r \<Rightarrow>
   ('l word, 'r) generated option" where
  "mbedtls_mpi_gen_prime cfg M K have_udbl C X nbits flag_dh flag_low_err f_rng p_rng =
     (if nbits < 3 \<or> MPI_MAX_BITS cfg < nbits then Some (Inl MBEDTLS_ERR_MPI_BAD_INPUT_DATA, p_rng)
      else iterate (gen_iteration cfg M K have_udbl C nbits flag_dh (gen_rounds flag_low_err nbits) f_rng) (X, p_rng))"

section \<open>The size of a candidate\<close>

lemma set_lowest_bit:
  fixes X :: "'l::len word mpi"
  assumes "mpi_n X \<noteq> 0"
  shows "mpi_abs (set_low_bits 1 X) = mpi_abs X + of_bool (even (mpi_abs X))" "mpi_n (set_low_bits b X) = mpi_n X"
    "mpi_s (set_low_bits b X) = mpi_s X"
proof -
  obtain x xs where p: "mpi_p X = x # xs"
    using assms by (cases "mpi_p X") auto
  have par: "even (limbs_val (x # xs)) \<longleftrightarrow> even (unat x)"
    by simp
  have even: "even x \<longleftrightarrow> even (unat x)"
    using bit_0 [of x] bit_0 [of "unat x"] by (simp add: bit_unsigned_iff)
  have "unat (x OR 1) = unat x + of_bool (even (unat x))"
  proof (cases "even (unat x)")
    case True
    then have "x OR 1 = x + 1"
      using even by (simp add: or_one_eq)
    moreover have "unat x + 1 < 2 ^ LENGTH('l)"
    proof -
      have "even ((2 :: nat) ^ LENGTH('l))"
        by simp
      then have "unat x + 1 \<noteq> 2 ^ LENGTH('l)"
        using True by (metis even_plus_one_iff)
      then show ?thesis
        using limb_less [of x] by linarith
    qed
    ultimately show ?thesis
      using True unat_add_less [of x 1] by simp
  next
    case False
    then show ?thesis
      using even by (simp add: or_one_eq)
  qed
  then show "mpi_abs (set_low_bits 1 X) = mpi_abs X + of_bool (even (mpi_abs X))"
    using par by (simp add: set_low_bits_def mpi_abs_def p)
qed (simp_all add: set_low_bits_def)

lemma CEIL_bounds:
  assumes "LENGTH('l::len) = 32 \<or> LENGTH('l) = 64"
  shows "2 ^ (LENGTH('l) - 1) \<le> unat (CEIL_MAXUINT_DIV_SQRT2 TYPE('l))"
    "2 ^ (2 * LENGTH('l) - 1) \<le> unat (CEIL_MAXUINT_DIV_SQRT2 TYPE('l)) * unat (CEIL_MAXUINT_DIV_SQRT2 TYPE('l))"
  using assms by (auto simp: CEIL_MAXUINT_DIV_SQRT2_def unsigned_numeral take_bit_eq_mod)

lemma limbs_for_bits:
  assumes "0 < nbits"
  defines "n \<equiv> BITS_TO_LIMBS TYPE('l::len) nbits"
  shows "0 < n" "nbits \<le> n * LENGTH('l)" "n * LENGTH('l) - nbits < LENGTH('l)"
proof -
  show le: "nbits \<le> n * LENGTH('l)"
    using BITS_TO_LIMBS_le [where 'l = 'l, of nbits n] by (simp add: n_def mult.commute)
  then show "0 < n"
    using assms(1) by (cases n) simp_all
  then obtain m where m: "n = Suc m"
    by (cases n) auto
  then have "m * LENGTH('l) < nbits"
    using BITS_TO_LIMBS_le [where 'l = 'l, of nbits m] by (simp add: n_def)
  then show "n * LENGTH('l) - nbits < LENGTH('l)"
    using len_gt_0 [where 'a = 'l] unfolding m mult_Suc by linarith
qed

lemma candidate_bounds:
  fixes X :: "'l::len word mpi"
  assumes L: "LENGTH('l) = 32 \<or> LENGTH('l) = 64" and nbits: "0 < nbits" and n: "mpi_n X = BITS_TO_LIMBS TYPE('l) nbits"
    and top: "\<not> mpi_p X ! (mpi_n X - 1) < CEIL_MAXUINT_DIV_SQRT2 TYPE('l)"
  defines "z \<equiv> mpi_abs X div 2 ^ (mpi_n X * LENGTH('l) - nbits)"
  shows "2 ^ (nbits - 1) \<le> z" "z < 2 ^ nbits" "LENGTH('l) < nbits \<Longrightarrow> 2 ^ (2 * nbits - 1) \<le> z * z"
proof -
  let ?L = "LENGTH('l)" and ?n = "mpi_n X" and ?V = "mpi_abs X" and ?C = "unat (CEIL_MAXUINT_DIV_SQRT2 TYPE('l))"
  define c where "c = ?n * ?L - nbits"
  have bits: "0 < ?n" "nbits \<le> ?n * ?L" "c < ?L"
    using limbs_for_bits [OF nbits, where 'l = 'l] n by (simp_all add: c_def)
  have z: "z = ?V div 2 ^ c"
    by (simp add: z_def c_def)
  have split: "?n * ?L = ?L * (?n - 1) + ?L" "?n * ?L = nbits + c"
    using bits by (cases ?n; simp add: c_def)+
  have "?V = limbs_val (butlast (mpi_p X)) + 2 ^ (?L * (?n - 1)) * unat (last (mpi_p X))"
    using limbs_val_append [of "butlast (mpi_p X)" "[last (mpi_p X)]"] bits(1) by (simp add: mpi_abs_def)
  moreover have "?C \<le> unat (last (mpi_p X))"
    using top bits(1) by (simp add: last_conv_nth word_less_nat_alt not_less)
  ultimately have low: "2 ^ (?L * (?n - 1)) * ?C \<le> ?V"
    by (simp add: trans_le_add2)
  have high: "?V < 2 ^ nbits * 2 ^ c"
    using limbs_val_less [of "mpi_p X"] split(2) by (simp add: mpi_abs_def mult.commute add.commute flip: power_add)
  then show "z < 2 ^ nbits"
    unfolding z by (simp add: less_mult_imp_div_less)
  have "nbits - 1 + c = ?L * (?n - 1) + (?L - 1)"
    using split nbits len_gt_0 [where 'a = 'l] by linarith
  then have "(2 :: nat) ^ (nbits - 1) * 2 ^ c = 2 ^ (?L * (?n - 1)) * 2 ^ (?L - 1)"
    by (simp flip: power_add)
  also have "\<dots> \<le> 2 ^ (?L * (?n - 1)) * ?C"
    using CEIL_bounds(1) [OF L] by (rule mult_le_mono2)
  finally show "2 ^ (nbits - 1) \<le> z"
    using low unfolding z by (simp add: less_eq_div_iff_mult_less_eq)
  assume "?L < nbits"
  then have "c \<le> ?L * (?n - 1)"
    using split bits(3) by linarith
  then obtain e where e: "?L * (?n - 1) = e + c"
    using le_Suc_ex by (metis add.commute)
  have "2 ^ e * ?C * 2 ^ c \<le> ?V"
    using low e by (simp add: power_add mult.commute mult.left_commute)
  then have ge: "2 ^ e * ?C \<le> z"
    unfolding z by (simp add: less_eq_div_iff_mult_less_eq)
  have "2 * nbits - 1 = (2 * ?L - 1) + (e + e)"
    using split e len_gt_0 [where 'a = 'l] by linarith
  then have "(2 :: nat) ^ (2 * nbits - 1) = 2 ^ (2 * ?L - 1) * (2 ^ e * 2 ^ e)"
    by (simp only: power_add)
  also have "\<dots> \<le> ?C * ?C * (2 ^ e * 2 ^ e)"
    using CEIL_bounds(2) [OF L] by (rule mult_le_mono1)
  also have "\<dots> = (2 ^ e * ?C) * (2 ^ e * ?C)"
    by (simp only: ac_simps)
  also have "\<dots> \<le> z * z"
    using ge by (intro mult_le_mono)
  finally show "2 ^ (2 * nbits - 1) \<le> z * z" .
qed

section \<open>What the loop accepts\<close>

definition room_to_generate :: "platform \<Rightarrow> 'l::len itself \<Rightarrow> nat \<Rightarrow> bool" where
  "room_to_generate M L nbits \<longleftrightarrow>
     (let n = BITS_TO_LIMBS L nbits in plenty M (4 * n + 14) \<and> (4 * n + 13) * LENGTH('l) < 2 ^ SIZE_BITS M)"

text \<open>The numbers of rounds survive the conversion to \<open>size_t\<close>.\<close>

lemma rounds_converted:
  assumes "LENGTH('l::len) = 32 \<or> LENGTH('l) = 64" and "room_to_generate M TYPE('l) nbits"
  shows "size_of_int M (gen_rounds low_err nbits) = nat (gen_rounds low_err nbits)"
proof -
  have "13 * LENGTH('l) < 2 ^ SIZE_BITS M"
    using assms(2) unfolding room_to_generate_def Let_def by (auto elim: order.strict_trans1 [rotated])
  then have "(64 :: nat) < 2 ^ SIZE_BITS M"
    using assms(1) by auto
  then have "(64 :: int) < 2 ^ SIZE_BITS M"
    by (metis of_nat_less_iff of_nat_numeral of_nat_power)
  moreover have "0 \<le> gen_rounds low_err nbits" "gen_rounds low_err nbits < 64"
    by (simp_all add: gen_rounds_def)
  ultimately show ?thesis
    by (simp add: size_of_int_def)
qed

text \<open>A candidate of the loop: its length, its parity and, from two limbs on, that it is at least the square root of \<open>2 ^ (2 * nbits - 1)\<close>.\<close>

definition candidate_of :: "nat \<Rightarrow> 'l::len word mpi \<Rightarrow> bool" where
  "candidate_of nbits Z \<longleftrightarrow> mpi_s Z = 1 \<and> mpi_n Z = BITS_TO_LIMBS TYPE('l) nbits \<and> odd (mpi_abs Z) \<and>
     2 ^ (nbits - 1) \<le> mpi_abs Z \<and> mpi_abs Z < 2 ^ nbits \<and> (LENGTH('l) < nbits \<longrightarrow> 2 ^ (2 * nbits - 1) \<le> mpi_abs Z * mpi_abs Z)"

lemma drawn_candidate_of:
  fixes A :: "'l::len word mpi"
  assumes L: "LENGTH('l) = 32 \<or> LENGTH('l) = 64" and nbits: "0 < nbits" and M: "plenty M 1"
    and A: "mpi_s A = 1" "mpi_n A = BITS_TO_LIMBS TYPE('l) nbits"
    and top: "\<not> mpi_p A ! (mpi_n A - 1) < CEIL_MAXUINT_DIV_SQRT2 TYPE('l)"
  obtains B where "(if nbits < mpi_n A * LENGTH('l) then mbedtls_mpi_shift_r M A (mpi_n A * LENGTH('l) - nbits) else Inr A) = Inr B"
    "candidate_of nbits (set_low_bits 1 B)"
proof -
  let ?k = "mpi_n A * LENGTH('l)"
  define z where "z = mpi_abs A div 2 ^ (?k - nbits)"
  have n: "0 < mpi_n A"
    using limbs_for_bits(1) [OF nbits, where 'l = 'l] A(2) by simp
  obtain B where B: "(if nbits < ?k then mbedtls_mpi_shift_r M A (?k - nbits) else Inr A) = Inr B" "mpi_s B = 1" "mpi_n B = mpi_n A" "mpi_abs B = z"
  proof (cases "nbits < ?k")
    case True
    obtain B where B: "mbedtls_mpi_shift_r M A (?k - nbits) = Inr B"
      using shift_r_succeeds [OF M] by blast
    have "max (mpi_n A) 1 = mpi_n A"
      using n by linarith
    then have "mpi_n B = mpi_n A"
      using shift_r_fact(4) [OF B] by auto
    then show ?thesis
      using that [of B] B True shift_r_fact(1) [OF B] shift_r_sign [OF B A(1)] by (simp add: z_def)
  next
    case False
    then show ?thesis
      using that [of A] A(1) by (simp add: z_def)
  qed
  note bounds = candidate_bounds [OF L nbits A(2) top, folded z_def]
  have "z + of_bool (even z) < 2 ^ nbits"
  proof (cases "even z")
    case True
    have "even ((2 :: nat) ^ nbits)"
      using nbits by simp
    then have "z + 1 \<noteq> 2 ^ nbits"
      using True by (metis even_plus_one_iff)
    then show ?thesis
      using bounds(2) True by simp
  qed (use bounds(2) in simp)
  moreover have "z * z \<le> (z + of_bool (even z)) * (z + of_bool (even z))"
    by (intro mult_le_mono) simp_all
  moreover have "mpi_abs (set_low_bits 1 B) = z + of_bool (even z)" "mpi_n (set_low_bits 1 B) = mpi_n A" "mpi_s (set_low_bits 1 B) = 1"
    using set_lowest_bit [of B] B(2-4) n by auto
  ultimately have "candidate_of nbits (set_low_bits 1 B)"
    using bounds(1,3) A(2) by (auto simp: candidate_of_def intro: le_trans)
  with B(1) show ?thesis
    by (rule that)
qed

lemma gen_iteration_test:
  fixes A :: "'l::len word mpi"
  assumes "mbedtls_mpi_fill_random M X (mpi_n A * ciL TYPE('l)) f_rng r = (Inr A, r1)" and "mpi_n A = BITS_TO_LIMBS TYPE('l) nbits"
    and "\<not> mpi_p A ! (mpi_n A - 1) < CEIL_MAXUINT_DIV_SQRT2 TYPE('l)"
    and "(if nbits < mpi_n A * LENGTH('l) then mbedtls_mpi_shift_r M A (mpi_n A * LENGTH('l) - nbits) else Inr A) = Inr B"
  shows "gen_iteration cfg M K have_udbl C nbits False rounds f_rng (X, r) =
      (case mbedtls_mpi_is_prime_ext cfg M K have_udbl C (set_low_bits 1 B) rounds f_rng r1 of
         None \<Rightarrow> None
       | Some (Inr _, p_rng) \<Rightarrow> Some (Inr (Inr (0, set_low_bits 1 B), p_rng))
       | Some (Inl e, p_rng) \<Rightarrow>
           if e \<noteq> MBEDTLS_ERR_MPI_NOT_ACCEPTABLE then Some (Inr (Inl e, p_rng)) else Some (Inl (set_low_bits 1 B, p_rng)))"
  using assms by (cases "nbits < BITS_TO_LIMBS TYPE('l) nbits * LENGTH('l)") (simp_all add: gen_iteration_def Let_def)

lemma gen_iteration_drawn:
  fixes X :: "'l::len word mpi"
  assumes L: "LENGTH('l) = 32 \<or> LENGTH('l) = 64" "whole_bytes TYPE('l)" and nbits: "0 < nbits" and room: "room_to_generate M TYPE('l) nbits" and f: "fills f_rng"
    and run: "gen_iteration cfg M K have_udbl C nbits flag_dh rounds f_rng (X, r) = Some (Inr (Inr (v, Z), r'))"
  obtains A r1 B where "mbedtls_mpi_fill_random M X (mpi_n A * ciL TYPE('l)) f_rng r = (Inr A, r1)" "mpi_n A = BITS_TO_LIMBS TYPE('l) nbits"
    "\<not> mpi_p A ! (mpi_n A - 1) < CEIL_MAXUINT_DIV_SQRT2 TYPE('l)"
    "(if nbits < mpi_n A * LENGTH('l) then mbedtls_mpi_shift_r M A (mpi_n A * LENGTH('l) - nbits) else Inr A) = Inr B"
    "candidate_of nbits (set_low_bits 1 B)"
proof -
  let ?n = "BITS_TO_LIMBS TYPE('l) nbits"
  have n: "0 < ?n" "plenty M ?n" "plenty M 1"
    using limbs_for_bits(1) [OF nbits, where 'l = 'l] room by (auto simp: room_to_generate_def Let_def elim: plenty_mono)
  note fill = fill_random_fact [OF L(2) n(1,2) f, where r = r and A = X]
  obtain A r1 where A: "mbedtls_mpi_fill_random M X (?n * ciL TYPE('l)) f_rng r = (Inr A, r1)"
    using run by (cases "mbedtls_mpi_fill_random M X (?n * ciL TYPE('l)) f_rng r" rule: prod.exhaust)
      (auto simp: gen_iteration_def Let_def split: sum.splits)
  then have a: "mpi_s A = 1" "mpi_n A = ?n"
    using fill by (auto split: prod.splits sum.splits)
  have top: "\<not> mpi_p A ! (mpi_n A - 1) < CEIL_MAXUINT_DIV_SQRT2 TYPE('l)"
    using run A a(2) by (auto simp: gen_iteration_def Let_def)
  show ?thesis
    by (rule drawn_candidate_of [OF L(1) nbits n(3) a top]) (rule that [OF A [folded a(2)] a(2) top])
qed

lemma gen_iteration_accepts:
  fixes X :: "'l::len word mpi"
  assumes "LENGTH('l) = 32 \<or> LENGTH('l) = 64" and "whole_bytes TYPE('l)" and "0 < nbits" and "room_to_generate M TYPE('l) nbits" and "fills f_rng"
    and run: "gen_iteration cfg M K have_udbl C nbits False rounds f_rng (X, r) = Some (Inr (Inr (v, Z), r'))"
  shows "v = 0 \<and> candidate_of nbits Z \<and> (\<exists>r''. mbedtls_mpi_is_prime_ext cfg M K have_udbl C Z rounds f_rng r'' = Some (Inr (), r'))"
proof -
  obtain A r1 B where A: "mbedtls_mpi_fill_random M X (mpi_n A * ciL TYPE('l)) f_rng r = (Inr A, r1)" "mpi_n A = BITS_TO_LIMBS TYPE('l) nbits"
      "\<not> mpi_p A ! (mpi_n A - 1) < CEIL_MAXUINT_DIV_SQRT2 TYPE('l)"
    and B: "(if nbits < mpi_n A * LENGTH('l) then mbedtls_mpi_shift_r M A (mpi_n A * LENGTH('l) - nbits) else Inr A) = Inr B"
      "candidate_of nbits (set_low_bits 1 B)"
    by (rule gen_iteration_drawn [OF assms])
  from gen_iteration_test [OF A B(1)]
  have "v = 0 \<and> Z = set_low_bits 1 B \<and> mbedtls_mpi_is_prime_ext cfg M K have_udbl C (set_low_bits 1 B) rounds f_rng r1 = Some (Inr (), r')"
    using run by (auto split: option.splits prod.splits sum.splits if_splits)
  then show ?thesis
    using B(2) by blast
qed

lemma candidate_top_limb:
  fixes Z :: "'l::len word mpi"
  assumes "candidate_of nbits Z" and "0 < nbits"
  shows "last (mpi_p Z) \<noteq> 0"
proof
  let ?q = "butlast (mpi_p Z)" and ?n = "BITS_TO_LIMBS TYPE('l) nbits"
  assume zero: "last (mpi_p Z) = 0"
  have n: "0 < ?n" "?n * LENGTH('l) - nbits < LENGTH('l)" "nbits \<le> ?n * LENGTH('l)" "mpi_n Z = ?n"
    using limbs_for_bits [OF assms(2), where 'l = 'l] assms(1) by (simp_all add: candidate_of_def)
  then obtain m where m: "?n = Suc m"
    by (cases ?n) auto
  have "mpi_p Z \<noteq> []"
    using n(1,4) by auto
  then have "mpi_p Z = ?q @ [0]"
    using append_butlast_last_id [of "mpi_p Z"] zero by simp
  then have "limbs_val (mpi_p Z) = limbs_val (?q @ [0])"
    by (rule arg_cong)
  then have "mpi_abs Z = limbs_val ?q"
    by (simp add: mpi_abs_def limbs_val_append)
  also have "\<dots> < 2 ^ (LENGTH('l) * m)"
    using limbs_val_less [of ?q] n(4) m by simp
  finally have less: "mpi_abs Z < 2 ^ (LENGTH('l) * m)" .
  have "LENGTH('l) * m \<le> nbits - 1"
    using n(2,3) unfolding m mult_Suc mult.commute [of "LENGTH('l)" m] by linarith
  then have "(2 :: nat) ^ (LENGTH('l) * m) \<le> 2 ^ (nbits - 1)"
    by (rule power_increasing) simp
  moreover have "2 ^ (nbits - 1) \<le> mpi_abs Z"
    using assms(1) by (simp add: candidate_of_def)
  ultimately show False
    using less by linarith
qed

text \<open>
  C36: What key generation accepts.  A length that is too small or too large is reported.  Otherwise \<open>mbedtls_mpi_gen_prime\<close>
  returns exactly when one of its iterations leaves the loop, with the result of that iteration.  If it succeeds, the number has exactly
  the requested length, it is odd, from two limbs on its square is at least \<open>2 ^ (2 * nbits - 1)\<close> (so that the product of
  two such primes has the full length), and it is a prime up to 997, or else has no prime factor up to 997 and passed the strong
  test for as many bases as the table of rounds prescribes, the bases being those the generator drew last.
\<close>

theorem gen_prime_sound:
  fixes X :: "'l::len word mpi" and f_rng :: "'r rng" and r :: 'r and have_udbl low_err :: bool
  assumes "0 < MPI_WINDOW_SIZE cfg" and "muladdc_exact K" and "LENGTH('l) = 32 \<or> LENGTH('l) = 64" and "whole_bytes TYPE('l)"
    and "ct_assigns C" and "ct_copies C" and "ct_compares C" and "fills f_rng" and "room_to_generate M TYPE('l) nbits"
  defines "gen \<equiv> mbedtls_mpi_gen_prime cfg M K have_udbl C X nbits False low_err f_rng r" and "rounds \<equiv> gen_rounds low_err nbits"
  shows "if nbits < 3 \<or> MPI_MAX_BITS cfg < nbits then gen = Some (Inl MBEDTLS_ERR_MPI_BAD_INPUT_DATA, r)
    else
      (\<forall>res. gen = Some res \<longleftrightarrow>
        (\<exists>t. goes_on (gen_iteration cfg M K have_udbl C nbits False rounds f_rng) (X, r) t \<and>
          gen_iteration cfg M K have_udbl C nbits False rounds f_rng t = Some (Inr res))) \<and>
      (\<forall>v Z r'. gen = Some (Inr (v, Z), r') \<longrightarrow> v = 0 \<and> candidate_of nbits Z \<and>
        tested_prime f_rng (mpi_n Z * ciL TYPE('l)) (nat rounds) r' (mpi_abs Z))"
proof (cases "nbits < 3 \<or> MPI_MAX_BITS cfg < nbits")
  case True
  then show ?thesis
    by (simp add: gen_def mbedtls_mpi_gen_prime_def)
next
  case False
  let ?body = "gen_iteration cfg M K have_udbl C nbits False rounds f_rng"
  have gen: "gen = iterate ?body (X, r)"
    using False by (simp add: gen_def rounds_def mbedtls_mpi_gen_prime_def)
  have w: "whole_bytes TYPE('l)" "32 \<le> LENGTH('l)" "0 < nbits"
    using assms(3,4) False by auto
  obtain h where h: "LENGTH('l) = 4 * 2 ^ h"
    using assms(3) that [of 3] that [of 4] by auto
  have "v = 0 \<and> candidate_of nbits Z \<and>
        tested_prime f_rng (mpi_n Z * ciL TYPE('l)) (nat rounds) r' (mpi_abs Z)"
    if ret: "gen = Some (Inr (v, Z), r')" for v Z r'
  proof -
    obtain Y q where "?body (Y, q) = Some (Inr (Inr (v, Z), r'))"
      using ret unfolding gen iterate_leaves by auto
    from gen_iteration_accepts [OF assms(3) w(1,3) assms(9,8) this]
    obtain r'' where Z: "v = 0" "candidate_of nbits Z" "mbedtls_mpi_is_prime_ext cfg M K have_udbl C Z rounds f_rng r'' = Some (Inr (), r')"
      by blast
    have "mbedtls_mpi_bitlen Z \<le> MPI_MAX_BITS cfg" "room_for_prime M Z"
      using Z(2) False assms(9) order.trans [of "mbedtls_mpi_bitlen Z" nbits "MPI_MAX_BITS cfg"]
      by (auto simp: candidate_of_def room_for_prime_def room_to_generate_def Let_def bitlen_le_iff)
    from is_prime_ext_fact [OF assms(1,2) w(2) h w(1) assms(5-8) candidate_top_limb [OF Z(2) w(3)] this, of have_udbl rounds r'']
    obtain res q' where run: "mbedtls_mpi_is_prime_ext cfg M K have_udbl C Z rounds f_rng r'' = Some (res, q')"
      and F: "is_prime_outcome f_rng (mpi_n Z * ciL TYPE('l)) (size_of_int M rounds) (mpi_abs Z) r'' res q'"
      by blast
    have "res = Inr ()" "q' = r'"
      using run Z(3) by simp_all
    then have "tested_prime f_rng (mpi_n Z * ciL TYPE('l)) (nat rounds) r' (mpi_abs Z)"
      using accepted_is_tested [of f_rng _ _ _ r'' r'] F unfolding rounds_converted [OF assms(3,9), of low_err, folded rounds_def] by simp
    then show ?thesis
      using Z(1,2) by blast
  qed
  then show ?thesis
    unfolding if_not_P [OF False] using iterate_leaves [of ?body "(X, r)"] unfolding gen by blast
qed

text \<open>A generator that draws ones.\<close>

definition ones :: "unit rng" where
  "ones r n = (Inr (replicate n 0xFF), r)"

lemma ones_fill: "fills ones"
  by (auto simp: fills_def ones_def)

lemma all_ones_drawn:
  obtains A where "mbedtls_mpi_fill_random demo_platform (mbedtls_mpi_init :: 64 word mpi) (mpi_n A * ciL TYPE(64)) ones () = (Inr A, ())"
    "A = \<lparr>mpi_s = 1, mpi_p = [0xffffffffffffffff]\<rparr>"
proof -
  have w: "whole_bytes TYPE(64)" "plenty demo_platform 1" "0 < (1 :: nat)"
    by (simp_all add: whole_bytes_def ciL_def demo_plenty)
  have "ones () (1 * ciL TYPE(64)) = (Inr (replicate 8 0xFF), ())"
    by (simp add: ones_def ciL_def)
  then obtain A where A: "mbedtls_mpi_fill_random demo_platform (mbedtls_mpi_init :: 64 word mpi) (1 * ciL TYPE(64)) ones () = (Inr A, ())"
      "mpi_s A = 1" "mpi_n A = 1" "mpi_abs A = drawn_val (replicate 8 0xFF)"
    using fill_random_fact [OF w(1,3,2) ones_fill, where r = "()" and A = "mbedtls_mpi_init :: 64 word mpi"] by auto
  have "mpi_p A = [mpi_p A ! 0]"
    using A(3) by (cases "mpi_p A") auto
  moreover have "mpi_abs A = unat (mpi_p A ! 0)"
    using A(3) by (cases "mpi_p A") (auto simp: mpi_abs_def)
  moreover have "replicate 8 (0xFF :: u8) = [0xFF, 0xFF, 0xFF, 0xFF, 0xFF, 0xFF, 0xFF, 0xFF]"
    by (simp add: numeral_eq_Suc)
  then have "drawn_val (replicate 8 (0xFF :: u8)) = 2 ^ 64 - 1"
    by simp
  ultimately have u: "unat (mpi_p A ! 0) = unat (0xffffffffffffffff :: 64 word)" and p: "mpi_p A = [mpi_p A ! 0]"
    using A(4) by simp_all
  from u have "mpi_p A ! 0 = 0xffffffffffffffff"
    by (rule word_unat_eq_iff [THEN iffD2])
  then have "A = \<lparr>mpi_s = 1, mpi_p = [0xffffffffffffffff]\<rparr>"
    using A(2) p by (intro mpi.equality) simp_all
  then show ?thesis
    using that [of A] A(1,3) by simp
qed

lemma small_odd_primes: "odd p \<Longrightarrow> 4 \<le> p \<Longrightarrow> p < 8 \<Longrightarrow> prime_number p"
proof -
  assume "odd p" "4 \<le> p" "p < 8"
  moreover have "p = 4 \<or> p = 5 \<or> p = 6 \<or> p = 7" if "4 \<le> p" "p < 8"
    using that by linarith
  ultimately have p: "p = 5 \<or> p = 7"
    by auto
  show "prime_number p"
  proof (rule prime_if_no_small_divisor)
    show "\<forall>d. 1 < d \<longrightarrow> d < 32 \<longrightarrow> d < p \<longrightarrow> \<not> d dvd p"
    proof (intro allI impI)
      fix d :: nat
      assume "1 < d" "d < p"
      then consider "d = 2" | "d = 3" | "d = 4" | "d = 5" | "d = 6"
        using p by fastforce
      then show "\<not> d dvd p"
        using p \<open>d < p\<close> by cases (auto simp: dvd_eq_mod_eq_0)
    qed
  qed (use p in auto)
qed

theorem gen_prime_sound_witness:
  "\<exists>Z. mbedtls_mpi_gen_prime \<lparr>MPI_WINDOW_SIZE = 6, MPI_MAX_BITS = 8192\<rparr> demo_platform wide_muladdc False plain_ct
      (mbedtls_mpi_init :: 64 word mpi) 3 False False ones () = Some (Inr (0, Z), ()) \<and> candidate_of 3 Z"
proof -
  let ?cfg = "\<lparr>MPI_WINDOW_SIZE = 6, MPI_MAX_BITS = 8192\<rparr>" and ?X = "mbedtls_mpi_init :: 64 word mpi"
  have w: "whole_bytes TYPE(64)" "32 \<le> LENGTH(64)" "LENGTH(64) = 4 * 2 ^ 4" "LENGTH(64) = 32 \<or> LENGTH(64) = 64" "0 < MPI_WINDOW_SIZE ?cfg"
    by (simp_all add: whole_bytes_def ciL_def)
  have limbs: "BITS_TO_LIMBS TYPE(64) 3 = 1"
    by (simp add: BITS_TO_LIMBS_def)
  have room: "room_to_generate demo_platform TYPE(64) 3"
    by (simp add: room_to_generate_def limbs demo_plenty) (simp add: demo_platform_def)
  have one: "plenty demo_platform 1" "0 < (1 :: nat)" "0 < (3 :: nat)"
    by (simp_all add: demo_plenty)
  obtain A where A: "mbedtls_mpi_fill_random demo_platform ?X (mpi_n A * ciL TYPE(64)) ones () = (Inr A, ())" "A = \<lparr>mpi_s = 1, mpi_p = [0xffffffffffffffff]\<rparr>"
    by (rule all_ones_drawn)
  have top: "\<not> mpi_p A ! (mpi_n A - 1) < CEIL_MAXUINT_DIV_SQRT2 TYPE(64)" and sign: "mpi_s A = 1"
    by (simp_all add: A(2) CEIL_MAXUINT_DIV_SQRT2_def)
  have n: "mpi_n A = BITS_TO_LIMBS TYPE(64) 3"
    by (simp add: A(2) limbs)
  obtain B where B: "(if 3 < mpi_n A * LENGTH(64) then mbedtls_mpi_shift_r demo_platform A (mpi_n A * LENGTH(64) - 3) else Inr A) = Inr B"
    "candidate_of 3 (set_low_bits 1 B)"
    by (rule drawn_candidate_of [OF w(4) one(3,1) sign n top])
  let ?Z = "set_low_bits 1 B"
  have "prime_number (mpi_abs ?Z)" "mpi_abs ?Z \<le> 997"
    using B(2) small_odd_primes [of "mpi_abs ?Z"] by (simp_all add: candidate_of_def)
  then have "mbedtls_mpi_is_prime_ext ?cfg demo_platform wide_muladdc False plain_ct ?Z (gen_rounds False 3) ones () = Some (Inr (), ())"
    using is_prime_cases [OF w(2,3,1), of ?cfg demo_platform wide_muladdc False plain_ct ?Z "gen_rounds False 3" ones "()"] by simp
  then have "gen_iteration ?cfg demo_platform wide_muladdc False plain_ct 3 False (gen_rounds False 3) ones (?X, ()) = Some (Inr (Inr (0, ?Z), ()))"
    using gen_iteration_test [OF A(1) n top B(1), of ?cfg wide_muladdc False plain_ct "gen_rounds False 3"] by simp
  moreover have "goes_on body s s" for body :: "64 word mpi \<times> unit \<Rightarrow> (64 word mpi \<times> unit + (64 word, unit) generated) option" and s
    by (rule goes_on.stop)
  moreover have "\<not> (3 < (3 :: nat) \<or> MPI_MAX_BITS ?cfg < 3)"
    by simp
  ultimately have "mbedtls_mpi_gen_prime ?cfg demo_platform wide_muladdc False plain_ct ?X 3 False False ones () = Some (Inr (0, ?Z), ())"
    using gen_prime_sound [OF w(5) wide_muladdc_exact w(4,1) plain_ct_ok ones_fill room, of False ?X False "()"] by (metis (no_types, lifting))
  then show ?thesis
    using B(2) by blast
qed

section \<open>Safe primes\<close>

lemma or_two_nat: "odd n \<Longrightarrow> (n OR 2) mod 4 = (3 :: nat)" "(n :: nat) \<le> n OR 2"
proof -
  assume "odd n"
  moreover have "n mod 4 = 0 \<or> n mod 4 = 1 \<or> n mod 4 = 2 \<or> n mod 4 = 3"
    using mod_less_divisor [of 4 n] by linarith
  ultimately have "n mod 4 = 1 \<or> n mod 4 = 3"
    by presburger
  moreover have "(n OR 2) mod 4 = (n mod 4) OR 2"
    using take_bit_or [of 2 n 2] by (simp add: take_bit_eq_mod)
  ultimately show "(n OR 2) mod 4 = 3"
    by auto
next
  have "int n \<le> int n OR 2"
    by (rule or_greater_eq) simp
  then have "int n \<le> int (n OR 2)"
    by (simp add: of_nat_or_eq)
  then show "n \<le> n OR 2"
    by simp
qed

lemma set_second_bit:
  fixes X :: "'l::len word mpi"
  assumes "32 \<le> LENGTH('l)" and "odd (mpi_abs X)"
  shows "mpi_abs (set_low_bits 2 X) mod 4 = 3" "mpi_abs X \<le> mpi_abs (set_low_bits 2 X)"
proof -
  obtain x xs where p: "mpi_p X = x # xs"
    using assms(2) by (cases "mpi_p X") (auto simp: mpi_abs_def)
  obtain e where e: "LENGTH('l) = 2 + e"
    using le_Suc_ex [of 2 "LENGTH('l)"] assms(1) by auto
  have "even ((2 :: nat) ^ LENGTH('l) * limbs_val xs)"
    by simp
  then have "odd (unat x)"
    using assms(2) by (simp add: mpi_abs_def p)
  have "(2 :: nat) < 4 * 2 ^ e"
    using one_le_power [of "2 :: nat" e] by linarith
  then have "(2 :: nat) mod 2 ^ LENGTH('l) = 2"
    unfolding e power_add by simp
  then have "unat (2 :: 'l word) = 2"
    by (simp add: unsigned_numeral take_bit_eq_mod)
  then have x: "unat (x OR 2) = unat x OR 2"
    by (simp add: unsigned_or_eq)
  have "(unat (x OR 2) + 2 ^ LENGTH('l) * limbs_val xs) mod 4 = unat (x OR 2) mod 4"
    unfolding e power_add by (simp add: mult.assoc)
  then show "mpi_abs (set_low_bits 2 X) mod 4 = 3"
    using or_two_nat(1) [OF \<open>odd (unat x)\<close>] x by (simp add: mpi_abs_def set_low_bits_def p)
  show "mpi_abs X \<le> mpi_abs (set_low_bits 2 X)"
    using or_two_nat(2) [of "unat x"] x by (simp add: mpi_abs_def set_low_bits_def p)
qed

text \<open>
  The invariant of the inner loop: both numbers are positive, \<open>X = 2 * Y + 1\<close>, and \<open>X\<close> is 3 modulo 4 and 2 modulo 3.
\<close>

definition safe_pair :: "nat \<Rightarrow> 'l::len word mpi \<Rightarrow> 'l word mpi \<Rightarrow> bool" where
  "safe_pair nbits X Y \<longleftrightarrow> mpi_s X = 1 \<and> mpi_s Y = 1 \<and> mpi_abs X = 2 * mpi_abs Y + 1 \<and> mpi_abs X mod 12 = 11 \<and> 2 ^ (nbits - 1) \<le> mpi_abs X"

lemma add_small:
  fixes X :: "'l::len word mpi"
  assumes "32 \<le> LENGTH('l)" and "mbedtls_mpi_add_int M X Self b = Inr Z" and "b = of_int p" "0 \<le> p" "p < 998" and "mpi_s X = 1" and "0 < mpi_abs X"
  shows "mpi_s Z = 1" "mpi_abs Z = mpi_abs X + nat p"
proof -
  have "sint b = p"
    using sint_small_prime(1) [OF assms(1,4,5,3)] .
  moreover have sign: "has_sign X" "mpi_val X = int (mpi_abs X)"
    using assms(6) by (simp_all add: has_sign_def mpi_val_def)
  moreover note add_mpi_fact(1,2) [OF assms(2) [unfolded mbedtls_mpi_add_int_def]]
  ultimately have "mpi_val Z = int (mpi_abs X + nat p)" "has_sign Z"
    using assms(4) by simp_all
  then show "mpi_s Z = 1" "mpi_abs Z = mpi_abs X + nat p"
    using assms(7) by (auto simp: has_sign_def mpi_val_def simp del: int_nat_eq of_nat_add)
qed

lemma residues_12:
  fixes n :: nat
  assumes "n mod 4 = 3"
  shows "n mod 3 = 0 \<Longrightarrow> (n + 8) mod 12 = 11" "n mod 3 = 1 \<Longrightarrow> (n + 4) mod 12 = 11" "n mod 3 = 2 \<Longrightarrow> n mod 12 = 11"
proof -
  have m: "n mod 12 mod 4 = 3" "n mod 12 mod 3 = n mod 3" "(n + k) mod 12 = (n mod 12 + k) mod 12" for k
    using assms mod_mod_cancel [of 4 12 n] mod_mod_cancel [of 3 12 n] by (simp_all add: mod_add_left_eq)
  have "n mod 12 = 3 \<or> n mod 12 = 7 \<or> n mod 12 = 11"
  proof -
    define q where "q = n mod 12 div 4"
    have "q * 4 + 3 = n mod 12" "n mod 12 < 12"
      using div_mult_mod_eq [of "n mod 12" 4] m(1) by (simp_all add: q_def)
    moreover from this have "q = 0 \<or> q = 1 \<or> q = 2"
      by linarith
    ultimately show ?thesis
      by auto
  qed
  then show "n mod 3 = 0 \<Longrightarrow> (n + 8) mod 12 = 11" "n mod 3 = 1 \<Longrightarrow> (n + 4) mod 12 = 11" "n mod 3 = 2 \<Longrightarrow> n mod 12 = 11"
    using m(2,3) by auto
qed

lemma safe_start_pair:
  fixes X :: "'l::len word mpi"
  assumes L: "32 \<le> LENGTH('l)" "even LENGTH('l)" and X: "mpi_s X = 1" "odd (mpi_abs X)" "2 ^ (nbits - 1) \<le> mpi_abs X"
    and run: "safe_start M X = Inr (Z, Y)"
  shows "safe_pair nbits Z Y"
proof -
  let ?X = "set_low_bits 2 X"
  note low = set_second_bit [OF L(1) X(2)]
  have s: "mpi_s ?X = 1" "0 < mpi_abs ?X"
    using X low by (auto simp: set_low_bits_def intro: Nat.gr0I)
  have three: "sint (3 :: 'l word) = 3" "unat (3 :: 'l word) \<le> 2 ^ (LENGTH('l) div 2)"
    using sint_small_prime [OF L(1), of 3 3] by simp_all
  obtain r where r: "mbedtls_mpi_mod_int ?X 3 = Inr r" "int (unat r) = int (mpi_abs ?X) mod 3"
    using mod_int_fact [OF L(2) three(2), of ?X] s(1) three(1) by (auto simp: has_sign_def mpi_val_def)
  then have rem: "unat r = mpi_abs ?X mod 3"
    by (metis of_nat_eq_iff of_nat_mod of_nat_numeral)
  have Z: "(if r = 0 then mbedtls_mpi_add_int M ?X Self 8 else if r = 1 then mbedtls_mpi_add_int M ?X Self 4 else Inr ?X) = Inr Z"
    using run r(1) by (auto simp: safe_start_def Let_def and_then_def split: sum.splits)
  obtain C where C: "mbedtls_mpi_copy M mbedtls_mpi_init (Other Z) = Inr C" "mbedtls_mpi_shift_r M C 1 = Inr Y"
    using run r(1) by (auto simp: safe_start_def Let_def and_then_def split: sum.splits)
  have "mpi_s Z = 1 \<and> mpi_abs Z mod 12 = 11 \<and> mpi_abs ?X \<le> mpi_abs Z"
  proof -
    have "unat r = 0 \<or> unat r = 1 \<or> unat r = 2"
      using rem mod_less_divisor [of 3 "mpi_abs ?X"] by linarith
    moreover have "unat r = 0 \<longleftrightarrow> r = 0" "unat r = 1 \<longleftrightarrow> r = 1"
      by (simp_all add: word_unat_eq_iff)
    ultimately consider "r = 0" "mpi_abs ?X mod 3 = 0" | "r = 1" "mpi_abs ?X mod 3 = 1" | "r \<noteq> 0" "r \<noteq> 1" "mpi_abs ?X mod 3 = 2"
      using rem by fastforce
    then show ?thesis
    proof cases
      case 1
      then have "mbedtls_mpi_add_int M ?X Self 8 = Inr Z"
        using Z by simp
      from add_small [OF L(1) this _ _ _ s, of 8]
      have "mpi_s Z = 1 \<and> mpi_abs Z = mpi_abs ?X + 8"
        by simp
      then show ?thesis
        using 1 residues_12(1) [OF low(1)] by auto
    next
      case 2
      then have "mbedtls_mpi_add_int M ?X Self 4 = Inr Z"
        using Z by simp
      from add_small [OF L(1) this _ _ _ s, of 4]
      have "mpi_s Z = 1 \<and> mpi_abs Z = mpi_abs ?X + 4"
        by simp
      then show ?thesis
        using 2 residues_12(2) [OF low(1)] by auto
    next
      case 3
      then have "Z = ?X"
        using Z by simp
      then show ?thesis
        using 3 residues_12(3) [OF low(1)] s(1) by auto
    qed
  qed
  moreover from this have "odd (mpi_abs Z)" "mpi_n Z \<noteq> 0" "2 < mpi_abs Z"
    by (auto simp: mpi_abs_def) presburger+
  moreover have "mpi_abs Y = mpi_abs Z div 2" "mpi_s Y = 1"
    using shift_r_fact(1) [OF C(2)] copy_fact(1,6) [OF C(1)] calculation shift_r_sign [OF C(2)] by auto
  ultimately show ?thesis
    using X(3) low(2) by (auto simp: safe_pair_def)
qed

lemma safe_pair_big: "safe_pair nbits X Y \<Longrightarrow> 2 < mpi_val X \<and> 2 < mpi_val Y \<and> odd (mpi_val X) \<and> odd (mpi_val Y)"
proof -
  assume *: "safe_pair nbits X Y"
  then have "(2 * mpi_abs Y + 1) mod 12 = 11"
    unfolding safe_pair_def by metis
  then have "mpi_abs Y mod 6 = 5"
    by presburger
  then have "2 < mpi_abs Y" "odd (mpi_abs Y)"
    using mod_le_divisor [of 6 "mpi_abs Y"] mod_less_eq_dividend [of "mpi_abs Y" 6] by (linarith | presburger)+
  then show ?thesis
    using * by (simp add: safe_pair_def mpi_val_def)
qed

lemma safe_iteration_keeps:
  fixes X :: "'l::len word mpi"
  assumes "32 \<le> LENGTH('l)" and "safe_pair nbits X Y" and "safe_iteration cfg M K have_udbl C rounds f_rng (X, Y, r) = Some (Inl (X', Y', r'))"
  shows "safe_pair nbits X' Y'"
proof -
  have add: "mbedtls_mpi_add_int M X Self 12 = Inr X'" "mbedtls_mpi_add_int M Y Self 6 = Inr Y'"
    using assms(3) by (auto simp: safe_iteration_def and_then_def split: option.splits prod.splits sum.splits if_splits)
  have "0 < mpi_abs X" "0 < mpi_abs Y" "mpi_s X = 1" "mpi_s Y = 1"
    using safe_pair_big [OF assms(2)] assms(2) by (auto simp: safe_pair_def mpi_val_def)
  then have "mpi_s X' = 1" "mpi_s Y' = 1" "mpi_abs X' = mpi_abs X + 12" "mpi_abs Y' = mpi_abs Y + 6"
    using add_small [OF assms(1) add(1), of 12] add_small [OF assms(1) add(2), of 6] by simp_all
  moreover have "(mpi_abs X + 12) mod 12 = mpi_abs X mod 12"
    by simp
  ultimately show ?thesis
    using assms(2) unfolding safe_pair_def by auto
qed

text \<open>
  What ends the inner loop with a number.  The value is 0 when neither number has a small factor and both pass the strong test; it is 1 when trial division
  already shows that \<open>X\<close> is prime, or that \<open>Y\<close> is, and nothing more is tested.
\<close>

definition safe_outcome ::
  "exp_config \<Rightarrow> platform \<Rightarrow> 'l::len muladdc \<Rightarrow> bool \<Rightarrow> 'l word ct_functions \<Rightarrow> nat \<Rightarrow> 'r rng \<Rightarrow> int \<Rightarrow> 'l word mpi \<Rightarrow> 'l word mpi \<Rightarrow> 'r \<Rightarrow> 'r \<Rightarrow> bool" where
  "safe_outcome cfg M K have_udbl C rounds f_rng v X Y r r' \<longleftrightarrow>
     (if v = 0 then
        \<not> small_factor (mpi_val X) \<and> \<not> small_factor (mpi_val Y) \<and>
        (\<exists>r1. mpi_miller_rabin cfg M K have_udbl C X rounds f_rng r = Some (Inr (), r1) \<and>
          mpi_miller_rabin cfg M K have_udbl C Y rounds f_rng r1 = Some (Inr (), r'))
      else
        v = 1 \<and> r' = r \<and> (prime_number (mpi_abs X) \<and> mpi_abs X \<le> 997 \<or> \<not> small_factor (mpi_val X) \<and> prime_number (mpi_abs Y) \<and> mpi_abs Y \<le> 997))"

lemma safe_check_cases:
  fixes X :: "'l::len word mpi"
  assumes "32 \<le> LENGTH('l)" "even LENGTH('l)" and "safe_pair nbits X Y"
  shows "safe_check cfg M K have_udbl C rounds f_rng X Y r =
     (if prime_number (mpi_abs X) \<and> mpi_abs X \<le> 997 then Some (Inr 1, r)
      else if small_factor (mpi_val X) then Some (Inl MBEDTLS_ERR_MPI_NOT_ACCEPTABLE, r)
      else if prime_number (mpi_abs Y) \<and> mpi_abs Y \<le> 997 then Some (Inr 1, r)
      else if small_factor (mpi_val Y) then Some (Inl MBEDTLS_ERR_MPI_NOT_ACCEPTABLE, r)
      else
        step_then (mpi_miller_rabin cfg M K have_udbl C X (size_of_int M rounds) f_rng r) (\<lambda>_ r.
        step_then (mpi_miller_rabin cfg M K have_udbl C Y (size_of_int M rounds) f_rng r) (\<lambda>_ r. Some (Inr 0, r))))"
proof -
  have val: "mpi_val X = int (mpi_abs X)" "mpi_val Y = int (mpi_abs Y)" "mpi_s X = 1" "mpi_s Y = 1"
    using assms(3) by (simp_all add: safe_pair_def mpi_val_def)
  note big = safe_pair_big [OF assms(3)]
  have "mpi_check_small_factors X = (if prime_number (mpi_abs X) \<and> mpi_abs X \<le> 997 then Inr 1
      else if small_factor (mpi_val X) then Inl MBEDTLS_ERR_MPI_NOT_ACCEPTABLE else Inr 0)"
    using check_small_factors_fact [OF assms(1,2) val(3)] big val(1) by simp
  moreover have "mpi_check_small_factors Y = (if prime_number (mpi_abs Y) \<and> mpi_abs Y \<le> 997 then Inr 1
      else if small_factor (mpi_val Y) then Inl MBEDTLS_ERR_MPI_NOT_ACCEPTABLE else Inr 0)"
    using check_small_factors_fact [OF assms(1,2) val(4)] big val(2) by simp
  ultimately show ?thesis
    by (simp add: safe_check_def)
qed

lemma safe_iteration_leaves:
  fixes X :: "'l::len word mpi"
  assumes L: "32 \<le> LENGTH('l)" "even LENGTH('l)" and pair: "safe_pair nbits X Y"
    and run: "safe_iteration cfg M K have_udbl C rounds f_rng (X, Y, r) = Some (Inr (Inr (v, Z), r'))"
  shows "Z = X \<and> safe_outcome cfg M K have_udbl C (size_of_int M rounds) f_rng v X Y r r'"
proof -
  have "Z = X" "safe_check cfg M K have_udbl C rounds f_rng X Y r = Some (Inr v, r')"
    using run by (auto simp: safe_iteration_def split: option.splits prod.splits sum.splits if_splits)
  then show ?thesis
    unfolding safe_check_cases [OF L pair]
    by (auto simp: safe_outcome_def step_then_def split: option.splits prod.splits sum.splits if_splits)
qed

lemma safe_loop_sound:
  fixes X :: "'l::len word mpi"
  assumes L: "32 \<le> LENGTH('l)" "even LENGTH('l)" and pair: "safe_pair nbits X Y"
    and run: "iterate (safe_iteration cfg M K have_udbl C rounds f_rng) (X, Y, r) = Some (Inr (v, Z), r')"
  shows "\<exists>Y' r0. safe_pair nbits Z Y' \<and> safe_outcome cfg M K have_udbl C (size_of_int M rounds) f_rng v Z Y' r0 r'"
proof -
  let ?body = "safe_iteration cfg M K have_udbl C rounds f_rng"
  obtain X' Y' r0 where t: "goes_on ?body (X, Y, r) (X', Y', r0)" "?body (X', Y', r0) = Some (Inr (Inr (v, Z), r'))"
    using run unfolding iterate_leaves by auto
  have "(\<lambda>(X, Y, r). safe_pair nbits X Y) (X', Y', r0)"
    by (rule goes_on_keeps [OF t(1)]) (auto simp: pair dest: safe_iteration_keeps [OF L(1)])
  then show ?thesis
    using safe_iteration_leaves [OF L _ t(2), of nbits] by auto
qed

lemma safe_gen_iteration:
  fixes X :: "'l::len word mpi"
  assumes L: "LENGTH('l) = 32 \<or> LENGTH('l) = 64" "whole_bytes TYPE('l)" and nbits: "0 < nbits" and room: "room_to_generate M TYPE('l) nbits" and f: "fills f_rng"
    and run: "gen_iteration cfg M K have_udbl C nbits True rounds f_rng (X, r) = Some (Inr (Inr (v, Z), r'))"
  shows "\<exists>Y r0. safe_pair nbits Z Y \<and> safe_outcome cfg M K have_udbl C (size_of_int M rounds) f_rng v Z Y r0 r'"
proof -
  obtain A r1 B where A: "mbedtls_mpi_fill_random M X (mpi_n A * ciL TYPE('l)) f_rng r = (Inr A, r1)" "mpi_n A = BITS_TO_LIMBS TYPE('l) nbits"
      "\<not> mpi_p A ! (mpi_n A - 1) < CEIL_MAXUINT_DIV_SQRT2 TYPE('l)"
    and B: "(if nbits < mpi_n A * LENGTH('l) then mbedtls_mpi_shift_r M A (mpi_n A * LENGTH('l) - nbits) else Inr A) = Inr B"
      "candidate_of nbits (set_low_bits 1 B)"
    by (rule gen_iteration_drawn [OF assms])
  have "gen_iteration cfg M K have_udbl C nbits True rounds f_rng (X, r) =
      (case safe_start M (set_low_bits 1 B) of
         Inl e \<Rightarrow> Some (Inr (Inl e, r1))
       | Inr (X, Y) \<Rightarrow> map_option Inr (iterate (safe_iteration cfg M K have_udbl C rounds f_rng) (X, Y, r1)))"
    using A B(1) by (cases "nbits < BITS_TO_LIMBS TYPE('l) nbits * LENGTH('l)") (simp_all add: gen_iteration_def Let_def)
  from run [unfolded this] obtain X' Y' where start: "safe_start M (set_low_bits 1 B) = Inr (X', Y')"
    "iterate (safe_iteration cfg M K have_udbl C rounds f_rng) (X', Y', r1) = Some (Inr (v, Z), r')"
    by (auto split: sum.splits)
  have len: "32 \<le> LENGTH('l)" "even LENGTH('l)"
    using L(1) by auto
  have "safe_pair nbits X' Y'"
    by (rule safe_start_pair [OF len _ _ _ start(1)]) (use B(2) in \<open>simp_all add: candidate_of_def\<close>)
  then show ?thesis
    by (rule safe_loop_sound [OF len _ start(2)])
qed

text \<open>
  C37: What the generation of safe primes returns.  If \<open>mbedtls_mpi_gen_prime\<close> with the Diffie-Hellman flag reports no error, the length was in range and the number
  is \<open>X = 2 * Y + 1\<close> with \<open>X\<close> 11 modulo 12 and at least \<open>2 ^ (nbits - 1)\<close>.  With the value 0 neither \<open>X\<close> nor \<open>Y\<close> has a small factor and both
  passed the strong test, \<open>X\<close> first; with the value 1 trial division alone showed that one of them is a small prime.
\<close>

theorem safe_prime_sound:
  fixes X :: "'l::len word mpi" and f_rng :: "'r rng" and r :: 'r
  assumes "LENGTH('l) = 32 \<or> LENGTH('l) = 64" and "whole_bytes TYPE('l)" and "fills f_rng" and "room_to_generate M TYPE('l) nbits"
    and "mbedtls_mpi_gen_prime cfg M K have_udbl C X nbits True low_err f_rng r = Some (Inr (v, Z), r')"
  shows "3 \<le> nbits \<and> nbits \<le> MPI_MAX_BITS cfg \<and>
    (\<exists>Y r0. safe_pair nbits Z Y \<and> safe_outcome cfg M K have_udbl C (nat (gen_rounds low_err nbits)) f_rng v Z Y r0 r')"
proof -
  let ?body = "gen_iteration cfg M K have_udbl C nbits True (gen_rounds low_err nbits) f_rng"
  have n: "3 \<le> nbits" "nbits \<le> MPI_MAX_BITS cfg" and run: "iterate ?body (X, r) = Some (Inr (v, Z), r')"
    using assms(5) by (auto simp: mbedtls_mpi_gen_prime_def split: if_splits)
  obtain W q where "?body (W, q) = Some (Inr (Inr (v, Z), r'))"
    using run unfolding iterate_leaves by auto
  moreover have "0 < nbits"
    using n(1) by simp
  ultimately show ?thesis
    using n safe_gen_iteration [OF assms(1,2) _ assms(4,3)] rounds_converted [OF assms(1,4)] by metis
qed

text \<open>Witness: with a generator of ones and a length of 3 the function returns 1, for the safe prime 11, which has 4 bits.\<close>

lemma safe_start_11:
  "safe_start demo_platform \<lparr>mpi_s = 1, mpi_p = [7 :: 64 word]\<rparr> = Inr (\<lparr>mpi_s = 1, mpi_p = [11]\<rparr>, \<lparr>mpi_s = 1, mpi_p = [5]\<rparr>)"
  by code_simp

lemma ones_iteration:
  "gen_iteration cfg demo_platform K have_udbl C 3 True rounds ones (mbedtls_mpi_init :: 64 word mpi, ()) =
   map_option Inr (iterate (safe_iteration cfg demo_platform K have_udbl C rounds ones) (\<lparr>mpi_s = 1, mpi_p = [11]\<rparr>, \<lparr>mpi_s = 1, mpi_p = [5]\<rparr>, ()))"
proof -
  have limbs: "BITS_TO_LIMBS TYPE(64) 3 = 1"
    by (simp add: BITS_TO_LIMBS_def)
  have shift: "mbedtls_mpi_shift_r demo_platform \<lparr>mpi_s = 1, mpi_p = [0xffffffffffffffff :: 64 word]\<rparr> 61 = Inr \<lparr>mpi_s = 1, mpi_p = [7]\<rparr>"
    by code_simp
  obtain A where A: "mbedtls_mpi_fill_random demo_platform (mbedtls_mpi_init :: 64 word mpi) (mpi_n A * ciL TYPE(64)) ones () = (Inr A, ())"
    "A = \<lparr>mpi_s = 1, mpi_p = [0xffffffffffffffff]\<rparr>"
    by (rule all_ones_drawn)
  then show ?thesis
    by (simp add: gen_iteration_def limbs CEIL_MAXUINT_DIV_SQRT2_def shift safe_start_11 set_low_bits_def Let_def)
qed

theorem safe_prime_sound_witness:
  "mbedtls_mpi_gen_prime \<lparr>MPI_WINDOW_SIZE = 6, MPI_MAX_BITS = 8192\<rparr> demo_platform wide_muladdc False plain_ct
      (mbedtls_mpi_init :: 64 word mpi) 3 True False ones () = Some (Inr (1, \<lparr>mpi_s = 1, mpi_p = [11]\<rparr>), ()) \<and>
   (\<exists>Y. safe_pair 3 \<lparr>mpi_s = 1, mpi_p = [11 :: 64 word]\<rparr> Y \<and> mpi_abs Y = 5)"
proof -
  let ?cfg = "\<lparr>MPI_WINDOW_SIZE = 6, MPI_MAX_BITS = 8192\<rparr>" and ?X = "\<lparr>mpi_s = 1, mpi_p = [11 :: 64 word]\<rparr>"
  let ?run = "mbedtls_mpi_gen_prime ?cfg demo_platform wide_muladdc False plain_ct (mbedtls_mpi_init :: 64 word mpi) 3 True False ones ()"
  have w: "LENGTH(64) = 32 \<or> LENGTH(64) = 64" "whole_bytes TYPE(64)"
    by (simp_all add: whole_bytes_def ciL_def)
  have room: "room_to_generate demo_platform TYPE(64) 3"
    by (simp add: room_to_generate_def BITS_TO_LIMBS_def demo_plenty) (simp add: demo_platform_def)
  have check: "mpi_check_small_factors ?X = Inr 1"
    by code_simp
  have "safe_iteration ?cfg demo_platform wide_muladdc False plain_ct 27 ones (?X, \<lparr>mpi_s = 1, mpi_p = [5]\<rparr>, ()) = Some (Inr (Inr (1, ?X), ()))"
    by (simp add: safe_iteration_def safe_check_def check)
  then have loop: "iterate (safe_iteration ?cfg demo_platform wide_muladdc False plain_ct 27 ones) (?X, \<lparr>mpi_s = 1, mpi_p = [5]\<rparr>, ()) = Some (Inr (1, ?X), ())"
    by (subst iterate.simps) simp
  have "gen_iteration ?cfg demo_platform wide_muladdc False plain_ct 3 True 27 ones (mbedtls_mpi_init, ()) = Some (Inr (Inr (1, ?X), ()))"
    unfolding ones_iteration loop by simp
  then have run: "?run = Some (Inr (1, ?X), ())"
    by (simp add: mbedtls_mpi_gen_prime_def gen_rounds_def) (subst iterate.simps, simp)
  from safe_prime_sound [OF w ones_fill room this] obtain Y where "safe_pair 3 ?X Y"
    by blast
  then show ?thesis
    using run by (auto simp: safe_pair_def mpi_abs_def intro!: exI [of _ Y])
qed

text \<open>
  When the length is one more than a multiple of the limb size, half of the number keeps its limbs and the top one is zero, which is the
  case that \<open>pick_base_undefined\<close> shows to shift by more than a limb.
\<close>

lemma safe_half_has_zero_limb:
  "safe_start demo_platform \<lparr>mpi_s = 1, mpi_p = [7 :: 64 word, 1]\<rparr> =
     Inr (\<lparr>mpi_s = 1, mpi_p = [7, 1]\<rparr>, \<lparr>mpi_s = 1, mpi_p = [0x8000000000000003, 0]\<rparr>)"
  by code_simp

end
