(* ===== verification/Bignum_File.thy ===== *)
theory Bignum_File
  imports Bignum_Write
begin

text \<open>
  Multi-precision integers (\<open>bignum.c\<close>), files: \<open>mbedtls_mpi_read_file\<close> and \<open>mbedtls_mpi_write_file\<close> over the functions of the
  standard library that they call.  A file that is read is its remaining bytes; the size of the line buffer
  (\<open>MBEDTLS_MPI_RW_BUFFER_SIZE\<close>, in a header that is not part of the repository) is a parameter.
\<close>

section \<open>The code\<close>

text \<open>
  Files of the standard library.  \<open>fgets\<close> with a buffer of \<open>n\<close> bytes reads a line, with its newline, of at most \<open>n - 1\<close> bytes, and nothing at the
  end of the file.  A file that is written takes as many bytes as its space allows.
\<close>

definition fgets :: "nat \<Rightarrow> bytes \<Rightarrow> (bytes \<times> bytes) option" where
  "fgets n fin =
     (if fin = [] then None
      else
        let line = takeWhile (\<lambda>c. c \<noteq> 0x0A) fin @ take 1 (dropWhile (\<lambda>c. c \<noteq> 0x0A) fin);
            line = take (n - 1) line in
        Some (line, drop (length line) fin))"

record out_file =
  contents :: bytes
  space :: nat

definition fwrite :: "bytes \<Rightarrow> out_file \<Rightarrow> nat \<times> out_file" where
  "fwrite bs f =
     (let n = min (length bs) (space f) in (n, \<lparr>contents = contents f @ take n bs, space = space f - n\<rparr>))"

definition strlen :: "bytes \<Rightarrow> nat" where
  "strlen s = length (takeWhile (\<lambda>c. c \<noteq> 0) s)"

text \<open>The digits at the end of a string, which the loop from the end finds.\<close>

definition last_digits :: "'l::len itself \<Rightarrow> nat \<Rightarrow> bytes \<Rightarrow> bytes" where
  "last_digits L radix s = rev (takeWhile (\<lambda>c. \<not> isl ((mpi_get_digit radix c :: mpi_error + 'l word))) (rev s))"

definition chop :: "u8 \<Rightarrow> bytes \<Rightarrow> bytes" where
  "chop c s = (if s \<noteq> [] \<and> last s = c then butlast s else s)"

definition mbedtls_mpi_read_file ::
  "platform \<Rightarrow> 'l::len muladdc \<Rightarrow> nat \<Rightarrow> 'l word mpi \<Rightarrow> nat \<Rightarrow> bytes \<Rightarrow> (mpi_error + 'l word mpi) \<times> bytes" where
  "mbedtls_mpi_read_file M K RW_BUFFER_SIZE X radix fin =
     (if radix < 2 \<or> 16 < radix then (Inl MBEDTLS_ERR_MPI_BAD_INPUT_DATA, fin)
      else
        case fgets (RW_BUFFER_SIZE - 1) fin of
          None \<Rightarrow> (Inl MBEDTLS_ERR_MPI_FILE_IO_ERROR, fin)
        | Some (s, fin) \<Rightarrow>
            let slen = strlen s in
            if slen = RW_BUFFER_SIZE - 2 then (Inl MBEDTLS_ERR_MPI_BUFFER_TOO_SMALL, fin)
            else
              let s = chop 0x0D (chop 0x0A (take slen s)) in
              (mbedtls_mpi_read_string M K X radix (last_digits TYPE('l) radix s), fin))"

text \<open>The file may be \<open>NULL\<close>; what is printed then is the last component.\<close>

definition mbedtls_mpi_write_file ::
  "platform \<Rightarrow> 'l::len muladdc \<Rightarrow> bool \<Rightarrow> nat \<Rightarrow> bytes option \<Rightarrow> 'l word mpi \<Rightarrow> nat \<Rightarrow> out_file option \<Rightarrow>
   ((mpi_error + unit) \<times> out_file option \<times> bytes) option" where
  "mbedtls_mpi_write_file M K have_udbl RW_BUFFER_SIZE p X radix fout =
     (if radix < 2 \<or> 16 < radix then Some (Inl MBEDTLS_ERR_MPI_BAD_INPUT_DATA, fout, [])
      else
        case mbedtls_mpi_write_string M K have_udbl X radix (replicate RW_BUFFER_SIZE 0) (RW_BUFFER_SIZE - 2) of
          None \<Rightarrow> None
        | Some (Inl (e, _)) \<Rightarrow> Some (Inl e, fout, [])
        | Some (Inr (s, n)) \<Rightarrow>
            let p = (case p of None \<Rightarrow> [] | Some p \<Rightarrow> p);
                slen = strlen s in
            case and_then (put s slen 0x0D) (\<lambda>s. put s (slen + 1) 0x0A) of
              Inl e \<Rightarrow> Some (Inl e, fout, [])
            | Inr s \<Rightarrow>
                let slen = slen + 2 in
                (case fout of
                   Some f \<Rightarrow>
                     let (n, f) = fwrite p f in
                     if n \<noteq> length p then Some (Inl MBEDTLS_ERR_MPI_FILE_IO_ERROR, Some f, [])
                     else
                       let (n, f) = fwrite (take slen s) f in
                       if n \<noteq> slen then Some (Inl MBEDTLS_ERR_MPI_FILE_IO_ERROR, Some f, [])
                       else Some (Inr (), Some f, [])
                 | None \<Rightarrow> Some (Inr (), None, p @ take slen s)))"

section \<open>Reading what was written\<close>

text \<open>The line that is written for a number: a label, the text and the end of the line.\<close>

lemma split_at_first: "c \<notin> set s \<Longrightarrow> takeWhile (\<lambda>d. d \<noteq> c) (s @ c # t) = s" "c \<notin> set s \<Longrightarrow> dropWhile (\<lambda>d. d \<noteq> c) (s @ c # t) = c # t"
  by (induction s) auto

lemma strlen_stop: "0 \<notin> set s \<Longrightarrow> strlen (s @ 0 # t) = length s"
  unfolding strlen_def split_at_first(1) ..

lemma strlen_all: "0 \<notin> set s \<Longrightarrow> strlen s = length s"
  unfolding strlen_def by (induction s) auto

lemma fgets_line:
  assumes "0x0A \<notin> set s" and "length s < n"
  shows "fgets (n + 1) (s @ 0x0A # rest) = Some (s @ [0x0A], rest)"
proof -
  have "takeWhile (\<lambda>c. c \<noteq> 0x0A) (s @ 0x0A # rest) = s" "dropWhile (\<lambda>c. c \<noteq> 0x0A) (s @ 0x0A # rest) = 0x0A # rest"
    using split_at_first [OF assms(1)] by blast+
  then show ?thesis
    using assms(2) by (simp add: fgets_def Let_def)
qed

lemma last_digits_after:
  assumes "whole_bytes TYPE('l::len)" and "radix \<le> 16" and "list_all (\<lambda>c. char_digit c < radix) s"
    and "l = [] \<or> \<not> char_digit (last l) < radix"
  shows "last_digits TYPE('l) radix (l @ s) = s"
proof -
  have digit: "(\<lambda>c. \<not> isl (mpi_get_digit radix c :: mpi_error + 'l word)) = (\<lambda>c. char_digit c < radix)"
    by (auto simp: get_digit_eq [OF assms(1,2)])
  have "takeWhile (\<lambda>c. char_digit c < radix) (rev l) = []"
    using assms(4) by (cases l rule: rev_cases) auto
  then have "takeWhile (\<lambda>c. char_digit c < radix) (rev s @ rev l) = rev s"
    using assms(3) by (subst takeWhile_append2) (simp_all add: list_all_iff)
  then show ?thesis
    by (simp add: last_digits_def digit)
qed

lemma digit_text:
  assumes "list_all (\<lambda>c. char_digit c < radix) s" and "radix \<le> 16" and "c \<in> {0, 0x0A, 0x0D, 0x2D}"
  shows "c \<notin> set s" "c \<noteq> 0x2D \<Longrightarrow> c \<notin> set (sign_text X @ s)"
proof -
  have "char_digit c = 255"
    using assms(3) by (auto simp: char_digit_def)
  then show "c \<notin> set s"
    using assms(1,2) by (auto simp: list_all_iff)
  then show "c \<noteq> 0x2D \<Longrightarrow> c \<notin> set (sign_text X @ s)"
    by (auto simp: sign_text_def)
qed

lemma read_digits_only:
  fixes Z :: "'l::len word mpi"
  assumes "muladdc_exact K" and "whole_bytes TYPE('l)" and "2 \<le> radix" and "radix \<le> 16" and "room_for_numeral M Z s"
    and "list_all (\<lambda>c. char_digit c < radix) s"
  shows "\<exists>Y. mbedtls_mpi_read_string M K Z radix s = Inr Y \<and> mpi_val Y = int (numeral_val radix s)"
proof (cases "s = []")
  case True
  then show ?thesis
    using assms(3,4) by (simp add: mbedtls_mpi_read_string_def mbedtls_mpi_free_def mpi_val_def mpi_abs_def numeral_val_def)
next
  case False
  then have "s ! 0 \<noteq> 0x2D"
    using digit_text(1) [OF assms(6,4), of "0x2D"] nth_mem [of 0 s] by (metis insertI1 insertI2 length_greater_0_conv)
  then show ?thesis
    using read_string_fact [OF assms(1-5) False] assms(6) by auto
qed

lemma written_buffer:
  assumes "0 \<notin> set s" and "length s + 2 \<le> length (s @ 0 # t)"
  obtains t' where "and_then (put (s @ 0 # t) (strlen (s @ 0 # t)) 0x0D) (\<lambda>b. put b (strlen (s @ 0 # t) + 1) 0x0A) = Inr (s @ [0x0D, 0x0A] @ t')"
proof -
  obtain c t' where t: "t = c # t'"
    using assms(2) by (cases t) auto
  show ?thesis
    by (rule that [of t']) (simp add: strlen_stop [OF assms(1)] t put_def list_update_append)
qed

lemma write_twice:
  "(let (n, f) = fwrite p f in
    if n \<noteq> length p then Some (Inl e, Some f, [])
    else let (n, f) = fwrite q f in if n \<noteq> length q then Some (Inl e, Some f, []) else Some (Inr (), Some f, [])) =
   (if length (p @ q) \<le> space f then Some (Inr (), Some \<lparr>contents = contents f @ p @ q, space = space f - length (p @ q)\<rparr>, [])
    else Some (Inl e, Some \<lparr>contents = contents f @ take (space f) (p @ q), space = 0\<rparr>, []))"
  by (auto simp: fwrite_def Let_def min_def)

lemma write_file_line:
  assumes "2 \<le> radix" and "radix \<le> 16"
    and "mbedtls_mpi_write_string M K have_udbl X radix (replicate B 0) (B - 2) = Some (Inr (b, n))"
    and "and_then (put b (strlen b) 0x0D) (\<lambda>c. put c (strlen b + 1) 0x0A) = Inr (q @ t)" and "strlen b + 2 = length q"
  shows "mbedtls_mpi_write_file M K have_udbl B (Some p) X radix (Some f) =
    (if length (p @ q) \<le> space f then Some (Inr (), Some \<lparr>contents = contents f @ p @ q, space = space f - length (p @ q)\<rparr>, [])
     else Some (Inl MBEDTLS_ERR_MPI_FILE_IO_ERROR, Some \<lparr>contents = contents f @ take (space f) (p @ q), space = 0\<rparr>, []))"
proof -
  have "take (length q) (q @ t) = q" and len: "Suc (Suc (strlen b)) = length q"
    using assms(5) by simp_all
  then show ?thesis
    unfolding write_twice [symmetric] mbedtls_mpi_write_file_def assms(3) using assms(1,2,4)
    by (cases "fwrite p f") (simp add: len)
qed

text \<open>
  C31: The round trip through a file keeps the absolute value and loses the sign.  \<open>mbedtls_mpi_write_file\<close> writes the label, the text of the
  number and the end of a line, or reports that the file is full, or that its buffer is too small for the number.
  When the line fits the buffer of \<open>mbedtls_mpi_read_file\<close> and the label does not end with a digit, reading that line
  returns the absolute value and leaves the rest of the file: the scan for the digits from the end of the line stops at the minus sign.
\<close>

theorem file_round_trip:
  fixes X :: "'l::len word mpi"
  assumes "muladdc_exact K" and "whole_bytes TYPE('l)" and "2 \<le> radix" and "radix \<le> 16" and "has_sign X"
    and "plenty M (max 1 (mpi_n X) + 3)" and "(max 1 (mpi_n X) + 2) * LENGTH('l) < 2 ^ SIZE_BITS M"
    and "\<forall>s. length s < text_size X radix \<longrightarrow> room_for_numeral M Z s"
    and "0 \<notin> set p" and "0x0A \<notin> set p" and "p = [] \<or> \<not> char_digit (last p) < radix"
    and "length p + text_size X radix + 3 < B"
  shows "\<exists>s line Y. line = p @ s @ [0x0D, 0x0A] \<and> length s < text_size X radix \<and> mbedtls_mpi_write_file M K have_udbl B (Some p) X radix (Some f) =
      (if length line \<le> space f then Some (Inr (), Some \<lparr>contents = contents f @ line, space = space f - length line\<rparr>, [])
       else Some (Inl MBEDTLS_ERR_MPI_FILE_IO_ERROR, Some \<lparr>contents = contents f @ take (space f) line, space = 0\<rparr>, [])) \<and>
    mbedtls_mpi_read_file M K B Z radix (line @ rest) = (Inr Y, rest) \<and> mpi_val Y = \<bar>mpi_val X\<bar>"
proof -
  let ?buf = "replicate B (0 :: u8)" and ?n = "text_size X radix"
  have "?n \<le> B - 2" "B - 2 \<le> length ?buf"
    using assms(12) by simp_all
  then obtain s t where st: "mbedtls_mpi_write_string M K have_udbl X radix ?buf (B - 2) =
      Some (Inr (sign_text X @ s @ 0 # t, length (sign_text X @ s) + 1))"
    "length (sign_text X @ s @ 0 # t) = B" "length (sign_text X @ s) < ?n"
    "list_all (\<lambda>c. char_digit c < radix) s" "numeral_val radix s = mpi_abs X" "s = [] \<longrightarrow> radix = 16 \<and> mpi_n X = 0"
    using write_string_fact [OF assms(1-4,6,7,5), of "B - 2" ?buf have_udbl] by (metis length_replicate)
  let ?text = "sign_text X @ s" and ?eol = "[0x0D, 0x0A] :: bytes"
  let ?line = "p @ ?text @ ?eol"
  have chars: "0 \<notin> set ?text" "0x0A \<notin> set ?text"
    using digit_text(2) [OF st(4) assms(4), of 0 X] digit_text(2) [OF st(4) assms(4), of "0x0A" X] by simp_all
  have "length ?text + 2 \<le> length (?text @ 0 # t)"
    using st(2,3) assms(12) by simp
  then obtain t' where buf: "and_then (put (?text @ 0 # t) (strlen (?text @ 0 # t)) 0x0D) (\<lambda>b. put b (strlen (?text @ 0 # t) + 1) 0x0A) =
      Inr (?text @ ?eol @ t')"
    by (rule written_buffer [OF chars(1)])
  have "mbedtls_mpi_write_string M K have_udbl X radix ?buf (B - 2) = Some (Inr (?text @ 0 # t, length ?text + 1))"
    "and_then (put (?text @ 0 # t) (strlen (?text @ 0 # t)) 0x0D) (\<lambda>b. put b (strlen (?text @ 0 # t) + 1) 0x0A) = Inr ((?text @ ?eol) @ t')"
    "strlen (?text @ 0 # t) + 2 = length (?text @ ?eol)"
    using st(1) buf unfolding strlen_stop [OF chars(1)] by simp_all
  note written = write_file_line [OF assms(3,4) this, of p f]
  have "fgets ((B - 2) + 1) ((p @ ?text @ [0x0D]) @ 0x0A # rest) = Some ((p @ ?text @ [0x0D]) @ [0x0A], rest)"
    using chars(2) assms(10,12) st(3) by (intro fgets_line) simp_all
  moreover have "B - 2 + 1 = B - 1"
    using assms(12) by linarith
  ultimately have "fgets (B - 1) (?line @ rest) = Some (?line, rest)"
    by simp
  moreover have "strlen ?line = length ?line" "strlen ?line \<noteq> B - 2"
    using strlen_all [of ?line] chars(1) assms(9,12) st(3) by simp_all
  moreover have "chop 0x0D (chop 0x0A ?line) = (p @ sign_text X) @ s"
    by (simp add: chop_def butlast_append)
  moreover have "last_digits TYPE('l) radix ((p @ sign_text X) @ s) = s"
    using assms(3,4,11) by (intro last_digits_after [OF assms(2,4) st(4)]) (auto simp: sign_text_def char_digit_def)
  ultimately have again: "mbedtls_mpi_read_file M K B Z radix (?line @ rest) = (mbedtls_mpi_read_string M K Z radix s, rest)"
    using assms(3,4) by (simp add: mbedtls_mpi_read_file_def)
  have "room_for_numeral M Z s"
    using assms(8) st(3) by simp
  then obtain Y where Y: "mbedtls_mpi_read_string M K Z radix s = Inr Y" "mpi_val Y = int (mpi_abs X)"
    using read_digits_only [OF assms(1-4) _ st(4)] st(5) by auto
  have "int (mpi_abs X) = \<bar>mpi_val X\<bar>"
    using assms(5) by (auto simp: has_sign_def mpi_val_def)
  with Y again written st(3) show ?thesis
    by (intro exI [of _ ?text, OF exI [of _ ?line, OF exI [of _ Y]]]) simp
qed

theorem file_round_trip_witness:
  "\<exists>line Y. mbedtls_mpi_write_file demo_platform wide_muladdc False 100 (Some [0x4E, 0x3D]) \<lparr>mpi_s = - 1, mpi_p = [127 :: 64 word]\<rparr> 16
      (Some \<lparr>contents = [], space = 50\<rparr>) = Some (Inr (), Some \<lparr>contents = line, space = 50 - length line\<rparr>, []) \<and>
    mbedtls_mpi_read_file demo_platform wide_muladdc 100 mbedtls_mpi_init 16 (line @ [0x41]) = (Inr (Y :: 64 word mpi), [0x41]) \<and> mpi_val Y = 127"
proof -
  let ?X = "\<lparr>mpi_s = - 1, mpi_p = [127 :: 64 word]\<rparr>" and ?p = "[0x4E, 0x3D] :: bytes"
  have "mbedtls_mpi_bitlen ?X = 7"
    by code_simp
  then have size: "text_size ?X 16 = 4"
    by (simp add: text_size_eq)
  have w: "whole_bytes TYPE(64)"
    by (simp add: whole_bytes_def ciL_def)
  have room: "\<forall>s. length s < text_size ?X 16 \<longrightarrow> room_for_numeral demo_platform (mbedtls_mpi_init :: 64 word mpi) s"
    unfolding size by (intro allI impI demo_room) (simp_all add: mbedtls_mpi_init_def)
  have val: "mpi_val ?X = - 127" "has_sign ?X"
    by (simp_all add: mpi_val_def mpi_abs_def has_sign_def)
  have more: "plenty demo_platform (max 1 (mpi_n ?X) + 3)" "(max 1 (mpi_n ?X) + 2) * LENGTH(64) < 2 ^ SIZE_BITS demo_platform"
    by (simp add: demo_plenty, simp add: demo_platform_def)
  have label: "0 \<notin> set ?p" "0x0A \<notin> set ?p" "?p = [] \<or> \<not> char_digit (last ?p) < 16" "length ?p + text_size ?X 16 + 3 < 100"
    by (simp_all add: char_digit_def size)
  have radix: "(2 :: nat) \<le> 16" "(16 :: nat) \<le> 16"
    by simp_all
  show ?thesis
    using file_round_trip [OF wide_muladdc_exact w radix val(2) more room label, of False "\<lparr>contents = [], space = 50\<rparr>" "[0x41]"] size val(1)
    by force
qed

end
