(* ===== verification/Spec2Isabelle.thy ===== *)
theory Spec2Isabelle
  imports Summary_Hash Handshake Signature Bios_Cmds Net_Config Bignum_Gen Bignum_File
begin

text \<open>
  A verification library for the SPDM hardware implementation: a RISC-V SoC (LiteX, Rocket core) whose
  BIOS authenticates a device with the SPDM protocol before it boots, and a MicroBlaze processor in the
  same FPGA that is the device.

  \<^bold>\<open>The program.\<close>  The BIOS (\<open>src/src/LiteX/litex/litex/soc/software/bios\<close>) runs the SPDM requester of
  \<open>spdm_requester.c\<close> at the beginning of \<open>serialboot\<close> in \<open>boot.c\<close>, and then boots over the serial line,
  the network, an SD card, a SATA disk or from flash.  The MicroBlaze firmware (\<open>src/src/Microblaze\<close>)
  is the responder: \<open>requester.c\<close> configures libspdm and dispatches messages,
  \<open>measurementFunctions\<close> answers requests for measurements, \<open>signatureFunctions\<close> signs with the key of
  \<open>privateKey\<close>, and \<open>certificates\<close> holds the chain it presents.  The two processors exchange messages
  through registers, GPIO blocks and one FIFO that the block design connects (\<open>src/SoC/SoC_with_SPDM\<close>).
  libspdm itself is a submodule; of its mbed TLS the repository carries \<open>bignum.c\<close>, the
  multi-precision integers that RSA and Diffie-Hellman are computed with.

  \<^bold>\<open>The theories.\<close>
  \<^item> Prelude: machine integers, buffers with checked accesses (an access out of bounds is the value
    \<open>Inl Out_Of_Bounds\<close>), sequencing of computations that may fail, little endian numbers.
  \<^item> Spdm_Std: the constants of the SPDM standard that the code names, and the digest functions of
    libspdm as a record of parameters with their contract.
  \<^item> Measurement: \<open>measurement_functions.c\<close> up to \<open>libspdm_measurement_collection\<close>.  The locale
    \<open>block_writer\<close> states what the four functions that fill a block share; each is an
    interpretation.  The theorems give the bytes and the status of every request and that no store
    leaves the size the caller announced.
  \<^item> Summary_Hash: \<open>libspdm_generate_measurement_summary_hash\<close>, shown to be the digest of the first
    block or of all blocks in order.
  \<^item> Spdm_Link: the registers, multiplexers and the FIFO between the two processors.
  \<^item> Transport: the four message functions of the two ends and their buffers; the locale \<open>fifo_hw\<close> is
    what they need of the FIFO.
  \<^item> Handshake: the runs of both ends as a step relation; every timely run delivers the messages in
    order, what can happen in the others, and how a response that is lost leaves the two ends.
  \<^item> Credentials, Signature, Cert_Chain: the stored key and certificates and that they belong
    together; loading the key and signing; building and installing the certificate chain on both ends.
  \<^item> Libspdm, Endpoints: the context of libspdm as a parameter, the complete flow of
    \<open>spdm_requester\<close>, of the MicroBlaze's \<open>main\<close> and of the BIOS's \<open>spdm_responder\<close>, and the
    configurations they negotiate with.
  \<^item> Serial_Boot, Image_Boot, Net_Config: \<open>boot.c\<close>: the serial protocol, boot from files, network and
    flash, and the parsers of network addresses.
  \<^item> Bios_Cmds: the commands of \<open>cmds/cmd_bios.c\<close> and \<open>bswapsi2.c\<close>.
  \<^item> Bignum_Core, Bignum_Arith: \<open>bignum.c\<close>: memory, copies, bits, comparison, addition, subtraction and
    shifts, for limbs of any width.  Each operation is shown to compute the operation of the integers on
    the values (\<open>mpi_val\<close>) of its operands, also when the result is one of them, and to succeed when
    there is memory; the locale \<open>mpi_binary\<close> states this for the operations with two operands.
  \<^item> Bignum_Mul, Bignum_Digit, Bignum_Limbs, Bignum_Div: multiplication with the unrolled loops of
    \<open>mpi_mul_hlp\<close> (the macros of \<open>bn_mul.h\<close> are a parameter with a contract), division of two limbs by one
    in both builds, bounds of limbs, and long division with quotient and remainder over a store of
    objects, because quotient, remainder and operands may be the same object.
  \<^item> Bignum_Gcd, Bignum_Inv: the binary greatest common divisor and the binary extended algorithm for the
    modular inverse; both terminate with the right number.
  \<^item> Bignum_Montgomery, Bignum_Exp: Montgomery multiplication and the exponentiation with a sliding
    window, shown to be the power modulo the modulus (\<open>constant_time.c\<close> is a parameter).
  \<^item> Bignum_Binary, Bignum_Radix, Bignum_Write: import and export as bytes in both orders, reading text,
    remainder by a limb, printing in every radix; what is printed reads back as the same number.
    Bignum_File: files; the round trip keeps the absolute value only.
  \<^item> Bignum_Random: random numbers of a range, shown to refine the specification of rejection sampling
    (generator and comparison in constant time are parameters).
  \<^item> Prime_Numbers, Bignum_Prime: Fermat's theorem and the strong test on numbers; trial division and the
    Miller-Rabin rounds of the code are shown to decide small numbers, never to reject a prime by their
    arithmetic and to equal their specification on numbers, with the bases that the generator draws.
  \<^item> Bignum_Gen: the generation of primes and of safe primes.  The loops have no bound, so their runs are
    partial functions; a run returns exactly when an iteration leaves the loop, and what it returns has the
    stated length and passed the tests.
  This theory composes the requester with \<open>serialboot\<close>.

  \<^bold>\<open>State, errors and loops.\<close>  The state of a component is a record (\<open>link\<close>, \<open>meas_out\<close>, \<open>mpi\<close>, \<open>sfl_frame\<close>)
  or a function from addresses to bytes (memory), returned updated.  A function that C leaves undefined at
  an input returns a \<open>fault\<close> (in \<open>bignum.c\<close> one of the values \<open>Array_Overrun\<close> and \<open>Undefined_Shift\<close>), with one exception:
  the negation of the least \<open>mbedtls_mpi_sint\<close> wraps.  An error code of the program is a value of a datatype.  Loops are
  recursive functions with a proof of termination.  A loop that polls hardware consumes the list of what
  its polls see and is \<open>None\<close> when the list ends, which stands for waiting on; the endless dispatch loops,
  and the loops of \<open>bignum.c\<close> that end only for some operands, are partial functions into \<open>option\<close>, and that
  they return is proved.  No fuel is used.

  \<^bold>\<open>Parameters.\<close>  Code outside the repository is an argument with a contract: libspdm's digest, RSA and
  X.509 functions and its context, FatFs, TFTP, jsmn, \<open>crc16\<close> and \<open>crc32\<close>, the FIFO, \<open>malloc\<close>
  and the constants of \<open>sfl.h\<close> and of the SoC.  Every theorem with such a hypothesis is
  instantiated at concrete functions by the theorem with the suffix \<open>_witness\<close>.

  \<^bold>\<open>Not modelled.\<close>  Of \<open>bignum.c\<close> the self test, which compares results for numbers of up to
  512 bits with constants and prints messages. The Python and Verilog sources of the SoC generator are modelled only where
  they wire the link.  Printed texts have no effect and are modelled only for the commands, whose result
  they are.  \<open>config.h\<close>, \<open>int_lib.h\<close> and the headers beside it contain declarations and
  switches, \<open>crt_wrapper_host.c\<close> forwards to the host's C library.
\<close>

section \<open>Booting a device that was not authenticated\<close>

text \<open>
  \<open>serialboot\<close> with its call of \<open>spdm_requester\<close>: the BIOS first runs the requester and then talks to
  the serial host.
\<close>

definition authenticate_and_serialboot ::
  "'w libspdm \<Rightarrow> crypt_lib \<Rightarrow> x509_lib \<Rightarrow> (nat \<Rightarrow> bytes option) \<Rightarrow> bool \<Rightarrow> bool \<Rightarrow> 'w \<Rightarrow>
   sfl_params \<Rightarrow> sfl_frame \<Rightarrow> poll list \<Rightarrow> (fault + (action list \<times> boot_end)) option" where
  "authenticate_and_serialboot S L X malloc context_ok scratch_ok w P frame es =
     (case spdm_requester S L X malloc context_ok scratch_ok w of
        Inl f \<Rightarrow> Some (Inl f)
      | Inr (outcome, w) \<Rightarrow> serialboot P outcome frame es)"



end
